(* ===== verification/Go_Base.thy ===== *)
theory Go_Base
  imports Main "HOL-Library.Multiset" "HOL-Library.AList" "HOL-Library.List_Lexorder"
    "HOL-Library.Char_ord"
begin

text \<open>
  Shared vocabulary of the development: how values of the Go program are represented, and the
  generic facts the components share.

  \<^item> A Go \<open>string\<close> is a sequence of bytes: HOL's \<open>string\<close> (a list of 8-bit characters), compared
    bytewise and lexicographically, as Go's \<open><\<close> does.
  \<^item> A Go \<open>map\<close> is an association list with unique keys (\<open>gomap\<close>): it is finite, a lookup of a
    missing key is explicit, and the order in which \<open>range\<close> visits the keys is never the order of
    the list but a separate argument (any permutation of the keys) of the function that ranges.
  \<^item> \<open>time.Time\<close> is an instant, an \<open>int\<close> of nanoseconds since the zero time, so that \<open>IsZero\<close> is
    \<open>t = 0\<close>, \<open>Before\<close> is \<open><\<close> and \<open>After\<close> is \<open>>\<close>.
  \<^item> \<open>sort.Strings\<close> is \<open>sort\<close>; \<open>sort.Slice\<close> with a \<open>less\<close> closure is \<open>sort_by less\<close>. The contract of
    \<open>sort.Slice\<close> (its \<open>less\<close> must be a strict weak order) is the locale \<open>less_contract\<close>, and every
    \<open>less\<close> closure of the modelled code is an interpretation of it.
  \<^item> \<open>strings.TrimSpace\<close> and \<open>strings.Fields\<close> know all space characters of Unicode in UTF-8. \<open>strings.ToLower\<close>
    and \<open>strings.EqualFold\<close> are exact for comparisons with ASCII text; other non-ASCII letters keep their
    case.
\<close>

named_theorems gomap_simps "lookup and update of Go maps"
named_theorems sort_facts "membership, length and order of sorted slices"

type_synonym time = int
type_synonym ('k, 'v) gomap = "('k \<times> 'v) list"

section \<open>Go maps\<close>

definition mget :: "('k, 'v) gomap \<Rightarrow> 'k \<Rightarrow> 'v option" where
  "mget m k = map_of m k"

definition mget_or :: "'v \<Rightarrow> ('k, 'v) gomap \<Rightarrow> 'k \<Rightarrow> 'v" where
  "mget_or d m k = (case mget m k of None \<Rightarrow> d | Some v \<Rightarrow> v)"

definition mput :: "'k \<Rightarrow> 'v \<Rightarrow> ('k, 'v) gomap \<Rightarrow> ('k, 'v) gomap" where
  "mput k v m = AList.update k v m"

definition mkeys :: "('k, 'v) gomap \<Rightarrow> 'k list" where
  "mkeys m = map fst m"

text \<open>Well-formed maps have each key once; a \<open>range\<close> visits the keys in some order.\<close>

definition gomap_ok :: "('k, 'v) gomap \<Rightarrow> bool" where
  "gomap_ok m \<longleftrightarrow> distinct (mkeys m)"

definition range_order :: "('k, 'v) gomap \<Rightarrow> 'k list \<Rightarrow> bool" where
  "range_order m ks \<longleftrightarrow> distinct ks \<and> set ks = set (mkeys m)"

lemma mget_Nil [simp, gomap_simps]: "mget [] k = None"
  by (simp add: mget_def)

lemma mget_mput [simp, gomap_simps]: "mget (mput k v m) k' = (if k' = k then Some v else mget m k')"
  by (simp add: mget_def mput_def update_conv')

lemma mget_or_Nil [simp, gomap_simps]: "mget_or d [] k = d"
  by (simp add: mget_or_def)

lemma mget_or_mput [simp, gomap_simps]:
  "mget_or d (mput k v m) k' = (if k' = k then v else mget_or d m k')"
  by (simp add: mget_or_def)

lemma mget_or_map_sort: "mget_or [] (map (\<lambda>(k, l). (k, sort l)) m) x = sort (mget_or [] m x)"
  by (induction m) (auto simp: mget_or_def mget_def)

lemma mget_None_iff [gomap_simps]: "mget m k = None \<longleftrightarrow> k \<notin> set (mkeys m)"
  by (simp add: mget_def mkeys_def map_of_eq_None_iff)

lemma mget_SomeD [dest]: "mget m k = Some v \<Longrightarrow> k \<in> set (mkeys m)"
  by (metis mget_None_iff option.distinct(1))

lemma mkeys_ex: "k \<in> set (mkeys m) \<longleftrightarrow> (\<exists>v. mget m k = Some v)"
  by (metis mget_None_iff not_None_eq)

lemma set_mkeys_mput [simp, gomap_simps]: "set (mkeys (mput k v m)) = insert k (set (mkeys m))"
  by (auto simp: mkeys_ex split: if_splits)

lemma mkeys_Nil [simp]: "mkeys [] = []"
  by (simp add: mkeys_def)

lemma gomap_ok_Nil [simp, intro]: "gomap_ok []"
  by (simp add: gomap_ok_def)

lemma gomap_ok_mput [simp, intro]: "gomap_ok m \<Longrightarrow> gomap_ok (mput k v m)"
  by (simp add: gomap_ok_def mkeys_def mput_def distinct_update)

lemma length_gomap: "gomap_ok m \<Longrightarrow> length m = card (set (mkeys m))"
  unfolding gomap_ok_def by (metis distinct_card length_map mkeys_def)

lemma range_order_mkeys: "gomap_ok m \<Longrightarrow> range_order m (mkeys m)"
  by (simp add: range_order_def gomap_ok_def)

lemma range_order_set: "range_order m ks \<Longrightarrow> k \<in> set ks \<longleftrightarrow> (\<exists>v. mget m k = Some v)"
  by (simp add: range_order_def mkeys_ex)

section \<open>Sorting\<close>

fun insert_by :: "('a \<Rightarrow> 'a \<Rightarrow> bool) \<Rightarrow> 'a \<Rightarrow> 'a list \<Rightarrow> 'a list" where
  "insert_by lt x [] = [x]"
| "insert_by lt x (y # ys) = (if lt y x then y # insert_by lt x ys else x # y # ys)"

fun sort_by :: "('a \<Rightarrow> 'a \<Rightarrow> bool) \<Rightarrow> 'a list \<Rightarrow> 'a list" where
  "sort_by lt [] = []"
| "sort_by lt (x # xs) = insert_by lt x (sort_by lt xs)"

lemma mset_insert_by [simp]: "mset (insert_by lt x xs) = add_mset x (mset xs)"
  by (induction xs) auto

lemma mset_sort_by [simp, sort_facts]: "mset (sort_by lt xs) = mset xs"
  by (induction xs) auto

lemma set_sort_by [simp, sort_facts]: "set (sort_by lt xs) = set xs"
  by (metis mset_sort_by set_mset_mset)

lemma length_sort_by [simp, sort_facts]: "length (sort_by lt xs) = length xs"
  by (metis mset_sort_by size_mset)

lemma distinct_sort_by [simp, sort_facts]: "distinct (sort_by lt xs) = distinct xs"
  by (metis mset_eq_imp_distinct_iff mset_sort_by)

lemma sort_by_empty_iff [simp]: "sort_by lt xs = [] \<longleftrightarrow> xs = []"
  by (metis length_0_conv length_sort_by)

text \<open>
  The contract of \<open>sort.Slice\<close>: \<open>less\<close> is a strict weak order. Its clients get sortedness of the
  result, and uniqueness of the result where \<open>less\<close> separates the elements: then the result does
  not depend on the (unstable) algorithm nor on the order of the input.
\<close>

locale less_contract =
  fixes lt :: "'a \<Rightarrow> 'a \<Rightarrow> bool"
  assumes less_irrefl: "\<not> lt x x"
    and less_trans: "lt x y \<Longrightarrow> lt y z \<Longrightarrow> lt x z"
    and less_cotrans: "lt x z \<Longrightarrow> lt x y \<or> lt y z"
begin

lemma less_asym: "lt x y \<Longrightarrow> \<not> lt y x"
  using less_irrefl less_trans by blast

lemma insert_by_sorted:
  assumes "sorted_wrt (\<lambda>x y. \<not> lt y x) xs"
  shows "sorted_wrt (\<lambda>x y. \<not> lt y x) (insert_by lt x xs)"
  using assms
proof (induction xs)
  case Nil
  then show ?case by simp
next
  case (Cons y ys)
  show ?case
  proof (cases "lt y x")
    case True
    have "\<not> lt z y" if "z \<in> set (insert_by lt x ys)" for z
    proof -
      from that have "z = x \<or> z \<in> set ys"
        by (metis insert_iff mset_insert_by set_mset_add_mset_insert set_mset_mset)
      then show ?thesis using True less_asym Cons.prems by auto
    qed
    with True Cons show ?thesis by simp
  next
    case False
    then show ?thesis using Cons.prems less_cotrans by (fastforce)
  qed
qed

lemma sort_by_sorted: "sorted_wrt (\<lambda>x y. \<not> lt y x) (sort_by lt xs)"
  by (induction xs) (auto simp: insert_by_sorted)

lemma sorted_unique:
  assumes "mset xs = mset ys"
    and "sorted_wrt (\<lambda>x y. \<not> lt y x) xs" and "sorted_wrt (\<lambda>x y. \<not> lt y x) ys"
    and tot: "\<And>x y. x \<in> set xs \<Longrightarrow> y \<in> set xs \<Longrightarrow> \<not> lt x y \<Longrightarrow> \<not> lt y x \<Longrightarrow> x = y"
  shows "xs = ys"
  using assms
proof (induction xs arbitrary: ys)
  case Nil
  then show ?case by simp
next
  case (Cons x xs)
  then obtain y zs where ys: "ys = y # zs" by (cases ys) auto
  have sets: "set ys = set (x # xs)" using Cons.prems(1) by (metis set_mset_mset)
  have "\<not> lt y x \<and> \<not> lt x y"
    using Cons.prems(2,3) sets ys less_irrefl by (metis insert_iff list.set(2) sorted_wrt.simps(2))
  with Cons.prems(4)[of x y] sets ys have "x = y" by auto
  moreover have "xs = zs"
    using Cons.prems ys \<open>x = y\<close> by (intro Cons.IH) auto
  ultimately show ?case using ys by simp
qed

lemma sort_by_unique:
  assumes "mset ys = mset xs" and "sorted_wrt (\<lambda>x y. \<not> lt y x) ys"
    and "\<And>x y. x \<in> set xs \<Longrightarrow> y \<in> set xs \<Longrightarrow> \<not> lt x y \<Longrightarrow> \<not> lt y x \<Longrightarrow> x = y"
  shows "sort_by lt xs = ys"
  using assms by (intro sorted_unique) (auto simp: sort_by_sorted)

lemma sort_by_perm:
  assumes "mset xs = mset ys"
    and "\<And>x y. x \<in> set xs \<Longrightarrow> y \<in> set xs \<Longrightarrow> \<not> lt x y \<Longrightarrow> \<not> lt y x \<Longrightarrow> x = y"
  shows "sort_by lt xs = sort_by lt ys"
  using assms by (intro sort_by_unique) (auto simp: sort_by_sorted)

end

lemma sort_perm_cong: "set xs = set ys \<Longrightarrow> distinct xs \<Longrightarrow> distinct ys \<Longrightarrow> sort xs = sort (ys :: 'a::linorder list)"
  by (metis properties_for_sort set_eq_iff_mset_eq_distinct sorted_sort mset_sort)

section \<open>Filtered slices\<close>

lemma mem_map_filter: "y \<in> set (List.map_filter f xs) \<longleftrightarrow> (\<exists>x \<in> set xs. f x = Some y)"
  by (force simp: List.map_filter_def image_iff)

lemma set_map_filter_eq: "set (List.map_filter f xs) = {y. \<exists>x \<in> set xs. f x = Some y}"
  by (auto simp: mem_map_filter)

section \<open>Slices and loops\<close>

text \<open>An access out of range panics: \<open>None\<close>. \<open>run\<close> is a loop over a slice whose body may panic or not end.\<close>

definition slot :: "'a list \<Rightarrow> nat \<Rightarrow> 'a option" where
  "slot xs i = (if i < length xs then Some (xs ! i) else None)"

definition set_slot :: "'a list \<Rightarrow> nat \<Rightarrow> 'a \<Rightarrow> 'a list option" where
  "set_slot xs i x = (if i < length xs then Some (xs[i := x]) else None)"

fun run :: "('a \<Rightarrow> 's \<Rightarrow> 's option) \<Rightarrow> 'a list \<Rightarrow> 's \<Rightarrow> 's option" where
  "run f [] s = Some s"
| "run f (x # xs) s = Option.bind (f x s) (run f xs)"

lemma slot_eq [simp]: "i < length xs \<Longrightarrow> slot xs i = Some (xs ! i)"
  by (simp add: slot_def)

lemma set_slot_eq [simp]: "i < length xs \<Longrightarrow> set_slot xs i x = Some (xs[i := x])"
  by (simp add: set_slot_def)

lemma run_append: "run f (xs @ ys) s = Option.bind (run f xs s) (run f ys)"
  by (induction xs arbitrary: s) (auto split: Option.bind_splits)

text \<open>The two passes compute the longest paths into and out of every node.\<close>

lemma run_invariant:
  assumes "P 0 s"
    and step: "\<And>i s. i < length xs \<Longrightarrow> P i s \<Longrightarrow> \<exists>s'. f (xs ! i) s = Some s' \<and> P (Suc i) s'"
  shows "\<exists>s'. run f xs s = Some s' \<and> P (length xs) s'"
proof -
  have "\<exists>s'. run f (take i xs) s = Some s' \<and> P i s'" if "i \<le> length xs" for i
    using that
  proof (induction i)
    case (Suc i)
    then obtain s1 where s1: "run f (take i xs) s = Some s1" "P i s1" by auto
    moreover obtain s2 where "f (xs ! i) s1 = Some s2" "P (Suc i) s2" using step[of i s1] s1(2) Suc.prems by (auto simp: Suc_le_eq)
    ultimately show ?case using Suc.prems by (simp add: take_Suc_conv_app_nth run_append)
  qed (simp add: assms(1))
  then show ?thesis by force
qed

section \<open>Strings\<close>

definition is_space :: "char \<Rightarrow> bool" where
  "is_space c \<longleftrightarrow> c \<in> {CHR 0x09, CHR 0x0A, CHR 0x0B, CHR 0x0C, CHR 0x0D, CHR 0x20}"

definition trim_left :: "(char \<Rightarrow> bool) \<Rightarrow> string \<Rightarrow> string" where
  "trim_left p s = dropWhile p s"

definition trim_right :: "(char \<Rightarrow> bool) \<Rightarrow> string \<Rightarrow> string" where
  "trim_right p s = rev (dropWhile p (rev s))"

text \<open>Strings are UTF-8, as in Go. \<open>space_runes\<close> holds the encodings of the characters that \<open>unicode.IsSpace\<close>
  accepts; their first bytes start no part of another character, so looking for them at the ends of a string
  finds what decoding it would.\<close>

definition space_runes :: "string list" where
  "space_runes =
     [[CHR 0x20], [CHR 0x09], [CHR 0x0A], [CHR 0x0B], [CHR 0x0C], [CHR 0x0D],
      [CHR 0xC2, CHR 0x85], [CHR 0xC2, CHR 0xA0], [CHR 0xE1, CHR 0x9A, CHR 0x80],
      [CHR 0xE2, CHR 0x80, CHR 0x80], [CHR 0xE2, CHR 0x80, CHR 0x81], [CHR 0xE2, CHR 0x80, CHR 0x82],
      [CHR 0xE2, CHR 0x80, CHR 0x83], [CHR 0xE2, CHR 0x80, CHR 0x84], [CHR 0xE2, CHR 0x80, CHR 0x85],
      [CHR 0xE2, CHR 0x80, CHR 0x86], [CHR 0xE2, CHR 0x80, CHR 0x87], [CHR 0xE2, CHR 0x80, CHR 0x88],
      [CHR 0xE2, CHR 0x80, CHR 0x89], [CHR 0xE2, CHR 0x80, CHR 0x8A], [CHR 0xE2, CHR 0x80, CHR 0xA8],
      [CHR 0xE2, CHR 0x80, CHR 0xA9], [CHR 0xE2, CHR 0x80, CHR 0xAF], [CHR 0xE2, CHR 0x81, CHR 0x9F],
      [CHR 0xE3, CHR 0x80, CHR 0x80]]"

fun has_prefix :: "string \<Rightarrow> string \<Rightarrow> bool" where
  "has_prefix s [] = True"
| "has_prefix [] (p # ps) = False"
| "has_prefix (c # s) (p # ps) = (c = p \<and> has_prefix s ps)"

fun strip :: "string list \<Rightarrow> string \<Rightarrow> string" where
  "strip rs [] = []"
| "strip rs (c # s) = (case find (has_prefix (c # s)) rs of None \<Rightarrow> c # s
     | Some r \<Rightarrow> strip rs (drop (length r - 1) s))"

definition trim_space :: "string \<Rightarrow> string" where
  "trim_space s = rev (strip (map rev space_runes) (rev (strip space_runes s)))"

definition lower_char :: "char \<Rightarrow> char" where
  "lower_char c = (if CHR ''A'' \<le> c \<and> c \<le> CHR ''Z'' then char_of (of_char c + 32 :: nat) else c)"

text \<open>\<open>strings.ToLower\<close>, for the letters of ASCII and the two other characters whose lower case is one: the dotted
  capital I and the Kelvin sign. Other characters are left as they are, which makes no difference where the
  result is compared with ASCII text.\<close>

fun to_lower :: "string \<Rightarrow> string" where
  "to_lower [] = []"
| "to_lower (c # s) =
     (if has_prefix (c # s) [CHR 0xC4, CHR 0xB0] then CHR ''i'' # to_lower (drop 1 s)
      else if has_prefix (c # s) [CHR 0xE2, CHR 0x84, CHR 0xAA] then CHR ''k'' # to_lower (drop 2 s)
      else lower_char c # to_lower s)"

declare to_lower.simps(2) [simp del]

text \<open>\<open>strings.EqualFold\<close>, for the letters of ASCII and the two other characters that fold to one: the long s and
  the Kelvin sign. It is exact where one of the texts is ASCII.\<close>

fun fold_case :: "string \<Rightarrow> string" where
  "fold_case [] = []"
| "fold_case (c # s) =
     (if has_prefix (c # s) [CHR 0xC5, CHR 0xBF] then CHR ''s'' # fold_case (drop 1 s)
      else if has_prefix (c # s) [CHR 0xE2, CHR 0x84, CHR 0xAA] then CHR ''k'' # fold_case (drop 2 s)
      else lower_char c # fold_case s)"

declare fold_case.simps(2) [simp del]

definition equal_fold :: "string \<Rightarrow> string \<Rightarrow> bool" where
  "equal_fold a b \<longleftrightarrow> fold_case a = fold_case b"

definition trim_prefix :: "string \<Rightarrow> string \<Rightarrow> string" where
  "trim_prefix s p = (if has_prefix s p then drop (length p) s else s)"

fun join :: "string \<Rightarrow> string list \<Rightarrow> string" where
  "join sep [] = []"
| "join sep [x] = x"
| "join sep (x # y # xs) = x @ sep @ join sep (y # xs)"

fun split_on :: "char \<Rightarrow> string \<Rightarrow> string list" where
  "split_on c [] = [[]]"
| "split_on c (x # xs) =
     (if x = c then [] # split_on c xs
      else (case split_on c xs of [] \<Rightarrow> [[x]] | w # ws \<Rightarrow> (x # w) # ws))"

text \<open>The decimal numerals of \<open>fmt\<close>'s \<open>%d\<close>.\<close>

fun show_nat :: "nat \<Rightarrow> string" where
  "show_nat n = (if n < 10 then [char_of (48 + n)] else show_nat (n div 10) @ [char_of (48 + n mod 10)])"

declare show_nat.simps [simp del]

definition show_int :: "int \<Rightarrow> string" where
  "show_int i = (if i < 0 then ''-'' @ show_nat (nat (- i)) else show_nat (nat i))"

text \<open>\<open>filepath.Base\<close>: the last element of a slash-separated path, without trailing slashes.\<close>

definition base_name :: "string \<Rightarrow> string" where
  "base_name path =
     (if path = [] then ''.''
      else let p = trim_right (\<lambda>c. c = CHR ''/'') path in
      if p = [] then ''/'' else last (split_on (CHR ''/'') p))"

lemma has_prefix_iff: "has_prefix s p \<longleftrightarrow> (\<exists>t. s = p @ t)"
  by (induction s p rule: has_prefix.induct) auto

lemma has_prefix_set: "has_prefix s p \<Longrightarrow> set p \<subseteq> set s"
  by (auto simp: has_prefix_iff)

lemma has_prefix_append_cases: "has_prefix (a @ c # b) p \<Longrightarrow> has_prefix a p \<or> (c \<in> set p \<and> length a < length p)"
  by (induction a p rule: has_prefix.induct) (auto dest: has_prefix_set elim: has_prefix.elims)

text \<open>White space. A plain character is ASCII and no space: no space character contains it.\<close>

definition plain_char :: "char \<Rightarrow> bool" where
  "plain_char c \<longleftrightarrow> \<not> is_space c \<and> (of_char c :: nat) < 128"

lemma strip_id: "\<forall>r \<in> set rs. \<not> has_prefix s r \<Longrightarrow> strip rs s = s"
proof (cases s)
  case (Cons c t)
  assume "\<forall>r \<in> set rs. \<not> has_prefix s r"
  then have "find (has_prefix (c # t)) rs = None" by (simp add: find_None_iff Cons)
  then show ?thesis by (simp add: Cons)
qed simp

lemma length_strip: "length (strip rs s) \<le> length s"
proof (induction rs s rule: strip.induct)
  case (2 rs c s)
  then show ?case by (auto split: option.split intro: order_trans)
qed simp

lemma strip_fixed: "strip rs s = s \<Longrightarrow> r \<in> set rs \<Longrightarrow> r \<noteq> [] \<Longrightarrow> \<not> has_prefix s r"
proof (cases s)
  case (Cons c t)
  assume s: "strip rs s = s" and r: "r \<in> set rs" "r \<noteq> []"
  show ?thesis
  proof
    assume "has_prefix s r"
    then obtain q where "find (has_prefix (c # t)) rs = Some q"
      using r by (cases "find (has_prefix (c # t)) rs") (auto simp: find_None_iff Cons)
    then have "s = strip rs (drop (length q - 1) t)" using s by (simp add: Cons)
    then have "length s \<le> length (drop (length q - 1) t)" using length_strip by metis
    then show False by (simp add: Cons)
  qed
qed (cases r, simp_all)

lemma space_runes_plain: "r \<in> set space_runes \<Longrightarrow> r \<noteq> [] \<and> list_all (\<lambda>c. \<not> plain_char c) r"
proof -
  have "list_all (\<lambda>r. r \<noteq> [] \<and> list_all (\<lambda>c. \<not> plain_char c) r) space_runes" by code_simp
  then show "r \<in> set space_runes \<Longrightarrow> r \<noteq> [] \<and> list_all (\<lambda>c. \<not> plain_char c) r" by (simp add: list_all_iff)
qed

lemma space_runes_long: "r \<in> set space_runes \<Longrightarrow> 1 < length r \<Longrightarrow> CHR '' '' \<notin> set r"
proof -
  have "list_all (\<lambda>r. length r \<le> 1 \<or> CHR '' '' \<notin> set r) space_runes" by code_simp
  then show "r \<in> set space_runes \<Longrightarrow> 1 < length r \<Longrightarrow> CHR '' '' \<notin> set r" by (auto simp: list_all_iff)
qed

lemma strip_plain: "s \<noteq> [] \<Longrightarrow> plain_char (hd s) \<Longrightarrow> strip space_runes s = s"
  by (rule strip_id) (metis has_prefix_iff hd_append2 list.pred_set list.set_sel(1) space_runes_plain)

lemma trim_space_plain: "list_all plain_char s \<Longrightarrow> trim_space s = s"
proof -
  assume s: "list_all plain_char s"
  have "strip space_runes s = s"
  proof (cases "s = []")
    case False
    then show ?thesis using strip_plain s by (simp add: list_all_iff)
  qed simp
  moreover have "strip (map rev space_runes) (rev s) = rev s"
  proof (rule strip_id, clarify)
    fix r assume r: "r \<in> set (map rev space_runes)" "has_prefix (rev s) r"
    then obtain q where q: "q \<in> set space_runes" "r = rev q" by auto
    have "set q \<subseteq> set s" using has_prefix_set[OF r(2)] q(2) by simp
    then show False using space_runes_plain[OF q(1)] s by (cases q) (auto simp: list_all_iff)
  qed
  ultimately show ?thesis by (simp add: trim_space_def)
qed

lemma strip_suffix: "\<exists>t. s = t @ strip rs s"
proof (induction rs s rule: strip.induct)
  case (2 rs c s)
  show ?case
  proof (cases "find (has_prefix (c # s)) rs")
    case (Some r)
    from 2[OF Some] obtain t where "drop (length r - 1) s = t @ strip rs (drop (length r - 1) s)" by blast
    then have "c # s = (c # take (length r - 1) s @ t) @ strip rs (drop (length r - 1) s)"
      using append_take_drop_id[of "length r - 1" s] by simp
    then have "c # s = (c # take (length r - 1) s @ t) @ strip rs (c # s)" using Some by simp
    then show ?thesis by (rule exI)
  qed simp
qed simp

lemma trim_space_fixed:
  assumes "trim_space s = s"
  shows "strip space_runes s = s" "strip (map rev space_runes) (rev s) = rev s"
proof -
  let ?L = "strip space_runes s"
  have "length s \<le> length ?L"
    using arg_cong[OF assms, of length] length_strip[of "map rev space_runes" "rev ?L"] by (simp add: trim_space_def)
  moreover obtain t where t: "s = t @ ?L" using strip_suffix by blast
  moreover have "length s = length t + length ?L" using arg_cong[OF t, of length] unfolding length_append .
  ultimately have "t = []" by simp
  from t show L: "?L = s" unfolding \<open>t = []\<close> append_Nil by (rule sym)
  have "rev (strip (map rev space_runes) (rev s)) = s" using assms by (simp add: trim_space_def L)
  then show "strip (map rev space_runes) (rev s) = rev s" by (metis rev_rev_ident)
qed

lemma has_prefix_append [simp]: "has_prefix (p @ t) p"
  by (auto simp: has_prefix_iff)

lemma trim_prefix_append [simp]: "trim_prefix (p @ t) p = t"
  by (simp add: trim_prefix_def)

lemma split_on_nonempty [simp]: "split_on c s \<noteq> []"
  by (induction s) (auto split: list.splits)

lemma join_split_on: "join [c] (split_on c s) = s"
proof (induction s)
  case (Cons x xs)
  then show ?case
    by (cases "split_on c xs"; cases "tl (split_on c xs)") (auto split: list.splits)
qed simp

end
