(* ===== verification/Bv_Model.thy ===== *)
theory Bv_Model
  imports Go_Base
begin

text \<open>
  The data model of \<open>pkg/model/types.go\<close>: issues, dependencies, comments, sprints and their
  validation, the status vocabulary, the live-tracker origin of an issue, and the commands built
  from it (\<open>ShellQuote\<close>, \<open>command\<close>, \<open>MutationAction\<close>, \<open>Actions\<close>).

  \<open>Status\<close>, \<open>IssueType\<close>, \<open>DependencyType\<close> and \<open>MutationKind\<close> are Go string types whose vocabulary is
  open (custom workflow states are loaded as they are), so they stay strings here. Pointers that
  may be nil are options. An error is a value \<open>Inl e\<close>; the text of an error message is not modelled,
  its cause is a constructor of \<open>validation_error\<close>.
\<close>

section \<open>Statuses, types, dependencies\<close>

type_synonym status = string
type_synonym issue_type = string
type_synonym dep_type = string

definition StatusOpen :: status where "StatusOpen = ''open''"
definition StatusInProgress :: status where "StatusInProgress = ''in_progress''"
definition StatusBlocked :: status where "StatusBlocked = ''blocked''"
definition StatusDeferred :: status where "StatusDeferred = ''deferred''"
definition StatusDraft :: status where "StatusDraft = ''draft''"
definition StatusPinned :: status where "StatusPinned = ''pinned''"
definition StatusHooked :: status where "StatusHooked = ''hooked''"
definition StatusReview :: status where "StatusReview = ''review''"
definition StatusClosed :: status where "StatusClosed = ''closed''"
definition StatusTombstone :: status where "StatusTombstone = ''tombstone''"

lemmas status_defs = StatusOpen_def StatusInProgress_def StatusBlocked_def StatusDeferred_def
  StatusDraft_def StatusPinned_def StatusHooked_def StatusReview_def StatusClosed_def
  StatusTombstone_def

definition status_is_valid :: "status \<Rightarrow> bool" where
  "status_is_valid s \<longleftrightarrow> trim_space s \<noteq> []"

definition status_is_closed :: "status \<Rightarrow> bool" where
  "status_is_closed s \<longleftrightarrow> s = StatusClosed"

definition status_is_open :: "status \<Rightarrow> bool" where
  "status_is_open s \<longleftrightarrow> s = StatusOpen \<or> s = StatusInProgress"

definition status_is_tombstone :: "status \<Rightarrow> bool" where
  "status_is_tombstone s \<longleftrightarrow> s = StatusTombstone"

definition TypeEpic :: issue_type where "TypeEpic = ''epic''"

definition type_is_valid :: "issue_type \<Rightarrow> bool" where
  "type_is_valid t \<longleftrightarrow> t \<noteq> []"

definition type_is_known :: "issue_type \<Rightarrow> bool" where
  "type_is_known t \<longleftrightarrow> t \<in> {''bug'', ''feature'', ''task'', TypeEpic, ''chore''}"

definition DepBlocks :: dep_type where "DepBlocks = ''blocks''"
definition DepConditionalBlocks :: dep_type where "DepConditionalBlocks = ''conditional-blocks''"
definition DepWaitsFor :: dep_type where "DepWaitsFor = ''waits-for''"
definition DepRelated :: dep_type where "DepRelated = ''related''"
definition DepParentChild :: dep_type where "DepParentChild = ''parent-child''"
definition DepDiscoveredFrom :: dep_type where "DepDiscoveredFrom = ''discovered-from''"

lemmas dep_type_defs = DepBlocks_def DepConditionalBlocks_def DepWaitsFor_def DepRelated_def
  DepParentChild_def DepDiscoveredFrom_def

definition dep_type_is_valid :: "dep_type \<Rightarrow> bool" where
  "dep_type_is_valid d \<longleftrightarrow> trim_space d \<noteq> []"

definition is_blocking :: "dep_type \<Rightarrow> bool" where
  "is_blocking d \<longleftrightarrow> d = [] \<or> d = DepBlocks \<or> d = DepConditionalBlocks \<or> d = DepWaitsFor"

lemma parent_child_not_blocking [simp]: "\<not> is_blocking DepParentChild"
  by (simp add: is_blocking_def dep_type_defs)

record dependency =
  dep_issue_id :: string
  dep_on :: string
  dep_kind :: dep_type
  dep_created_at :: time
  dep_created_by :: string

text \<open>
  \<open>Dependency.UnmarshalJSON\<close> after decoding: the target is the first nonempty of the three spellings
  of the field.
\<close>

record raw_dependency =
  raw_issue_id :: string
  raw_depends_on_id :: string
  raw_depends_on :: string
  raw_target_id :: string
  raw_type :: dep_type
  raw_created_at :: time
  raw_created_by :: string

definition dependency_of_raw :: "raw_dependency \<Rightarrow> dependency" where
  "dependency_of_raw raw =
     (let d0 = raw_depends_on_id raw;
          d1 = (if d0 = [] then raw_depends_on raw else d0);
          d2 = (if d1 = [] then raw_target_id raw else d1)
      in \<lparr>dep_issue_id = raw_issue_id raw, dep_on = d2, dep_kind = raw_type raw,
          dep_created_at = raw_created_at raw, dep_created_by = raw_created_by raw\<rparr>)"

record comment =
  com_id :: string
  com_issue_id :: string
  com_author :: string
  com_text :: string
  com_created_at :: time

record issue_origin =
  local_id :: string
  working_directory :: string
  tracker_directory :: string
  database :: string
  tracker :: string
  executable :: string
  supports_claim :: bool
  read_only_reason :: string

record issue =
  issue_id :: string
  content_hash :: string
  title :: string
  description :: string
  design :: string
  acceptance_criteria :: string
  issue_notes :: string
  status :: status
  priority :: int
  kind :: issue_type
  assignee :: string
  estimated_minutes :: "int option"
  created_at :: time
  updated_at :: time
  due_date :: "time option"
  defer_until :: "time option"
  closed_at :: "time option"
  external_ref :: "string option"
  compaction_level :: int
  compacted_at :: "time option"
  compacted_at_commit :: "string option"
  original_size :: int
  labels :: "string list"
  dependencies :: "dependency option list"
  comments :: "comment option list"
  source_repo :: string
  origin :: "issue_origin option"

text \<open>The zero value of the struct, from which small issues are built.\<close>

definition zero_issue :: issue where
  "zero_issue = \<lparr>issue_id = [], content_hash = [], title = [], description = [], design = [],
     acceptance_criteria = [], issue_notes = [], status = [], priority = 0, kind = [], assignee = [],
     estimated_minutes = None, created_at = 0, updated_at = 0, due_date = None, defer_until = None,
     closed_at = None, external_ref = None, compaction_level = 0, compacted_at = None,
     compacted_at_commit = None, original_size = 0, labels = [], dependencies = [], comments = [],
     source_repo = [], origin = None\<rparr>"

definition is_deferred_at :: "issue \<Rightarrow> time \<Rightarrow> bool" where
  "is_deferred_at i now \<longleftrightarrow> (case defer_until i of None \<Rightarrow> False | Some t \<Rightarrow> now < t)"

section \<open>Validation\<close>

datatype validation_error =
    EmptyID | EmptyTitle | InvalidStatus string | InvalidType string
  | UpdatedBeforeCreated time time
  | EmptyName | EndBeforeStart time time
  | EmptyBeadID | EmptyETA | ConfidenceRange
  | EmptyDate | NegativeRemaining int | NegativeCompleted int

definition validate_issue :: "issue \<Rightarrow> validation_error + unit" where
  "validate_issue i =
     (if issue_id i = [] then Inl EmptyID
      else if title i = [] then Inl EmptyTitle
      else if \<not> status_is_valid (status i) then Inl (InvalidStatus (status i))
      else if \<not> type_is_valid (kind i) then Inl (InvalidType (kind i))
      else if updated_at i \<noteq> 0 \<and> created_at i \<noteq> 0 \<and> updated_at i < created_at i
        then Inl (UpdatedBeforeCreated (updated_at i) (created_at i))
      else Inr ())"

record sprint =
  sp_id :: string
  sp_name :: string
  start_date :: time
  end_date :: time
  bead_ids :: "string list"

definition validate_sprint :: "sprint \<Rightarrow> validation_error + unit" where
  "validate_sprint s =
     (if sp_id s = [] then Inl EmptyID
      else if sp_name s = [] then Inl EmptyName
      else if end_date s \<noteq> 0 \<and> start_date s \<noteq> 0 \<and> end_date s < start_date s
        then Inl (EndBeforeStart (end_date s) (start_date s))
      else Inr ())"

definition sprint_is_active :: "sprint \<Rightarrow> time \<Rightarrow> bool" where
  "sprint_is_active s now \<longleftrightarrow> start_date s \<noteq> 0 \<and> end_date s \<noteq> 0 \<and>
     (now = start_date s \<or> now > start_date s) \<and> (now = end_date s \<or> now < end_date s)"

record burndown_point =
  bp_date :: time
  bp_remaining :: int
  bp_completed :: int

definition validate_burndown :: "burndown_point \<Rightarrow> validation_error + unit" where
  "validate_burndown b =
     (if bp_date b = 0 then Inl EmptyDate
      else if bp_remaining b < 0 then Inl (NegativeRemaining (bp_remaining b))
      else if bp_completed b < 0 then Inl (NegativeCompleted (bp_completed b))
      else Inr ())"

section \<open>Tracker commands\<close>

definition squote :: char where "squote = CHR 0x27"

text \<open>\<open>strings.ReplaceAll(value, "'", "'\"'\"'")\<close> between two single quotes.\<close>

fun replace_quotes :: "string \<Rightarrow> string" where
  "replace_quotes [] = []"
| "replace_quotes (c # cs) =
     (if c = squote then [squote, CHR 0x22, squote, CHR 0x22, squote] @ replace_quotes cs
      else c # replace_quotes cs)"

definition shell_quote :: "string \<Rightarrow> string" where
  "shell_quote v = [squote] @ replace_quotes v @ [squote]"

definition route_available :: "issue_origin option \<Rightarrow> bool" where
  "route_available o' = (case o' of None \<Rightarrow> False | Some r \<Rightarrow>
     executable r \<noteq> [] \<and> database r \<noteq> [] \<and> working_directory r \<noteq> [] \<and>
     tracker_directory r \<noteq> [] \<and> local_id r \<noteq> [] \<and> (tracker r = ''br'' \<or> tracker r = ''bd''))"

record issue_command =
  cmd_working_directory :: string
  argv :: "string list"
  shell :: string

definition command_argv :: "issue_origin \<Rightarrow> bool \<Rightarrow> string list \<Rightarrow> string list" where
  "command_argv r mutating operation =
     (let args = [''env'', ''BEADS_DIR='' @ tracker_directory r, ''BEADS_DB='' @ database r,
                  ''BD_DB='' @ database r, executable r, ''--db'', database r];
          args = (if tracker r = ''br''
                  then args @ [''--no-auto-import''] @ (if mutating then [] else [''--no-auto-flush''])
                  else args)
      in args @ operation)"

definition command :: "issue_origin \<Rightarrow> bool \<Rightarrow> string list \<Rightarrow> issue_command" where
  "command r mutating operation =
     (let args = command_argv r mutating operation
      in \<lparr>cmd_working_directory = working_directory r, argv = args,
          shell = ''cd -- '' @ shell_quote (working_directory r) @ '' && '' @
                  join '' '' (map shell_quote args)\<rparr>)"

definition MutationAddDependency :: string where "MutationAddDependency = ''add_dependency''"
definition MutationRelate :: string where "MutationRelate = ''relate''"
definition MutationRemoveDependency :: string where "MutationRemoveDependency = ''remove_dependency''"
definition MutationAddLabel :: string where "MutationAddLabel = ''add_label''"

lemmas mutation_defs = MutationAddDependency_def MutationRelate_def MutationRemoveDependency_def
  MutationAddLabel_def

definition dep_operation :: "string \<Rightarrow> string list" where
  "dep_operation mk =
     (let operation = [''dep'', ''add'', ''--json'']
      in if mk = MutationRemoveDependency then operation[1 := ''remove'']
         else if mk = MutationRelate then operation @ [''--type'', ''related'']
         else operation)"

text \<open>
  \<open>MutationAction\<close> returns a command and the empty reason, or no command and a reason: here
  \<open>Inr\<close> the command or \<open>Inl\<close> the reason. \<open>ReadOnlyReason\<close> is passed on as it is.
\<close>

definition mutation_action ::
  "issue \<Rightarrow> string \<Rightarrow> issue option \<Rightarrow> string \<Rightarrow> string + issue_command" where
  "mutation_action i mk peer v =
     (if \<not> route_available (origin i) then Inl ''source has no verified live tracker route''
      else (case origin i of None \<Rightarrow> Inl ''source has no verified live tracker route'' | Some r \<Rightarrow>
       if read_only_reason r \<noteq> [] then Inl (read_only_reason r)
       else if mk = MutationAddLabel then
         (if trim_space v = [] \<or> CHR 0x00 \<in> set v
          then Inl ''suggested label is empty or contains a NUL byte''
          else Inr (command r True [''update'', ''--json'', ''--add-label='' @ v, ''--'', local_id r]))
       else if mk \<noteq> MutationAddDependency \<and> mk \<noteq> MutationRelate \<and> mk \<noteq> MutationRemoveDependency
         then Inl ''unsupported tracker mutation''
       else (case peer of
           None \<Rightarrow> Inl ''related issue has no verified live tracker route''
         | Some pi \<Rightarrow>
           if \<not> route_available (origin pi)
             then Inl ''related issue has no verified live tracker route''
           else (case origin pi of
               None \<Rightarrow> Inl ''related issue has no verified live tracker route''
             | Some p \<Rightarrow>
               if read_only_reason p \<noteq> [] then Inl (read_only_reason p)
               else if tracker r \<noteq> tracker p \<or> database r \<noteq> database p \<or>
                       working_directory r \<noteq> working_directory p \<or>
                       tracker_directory r \<noteq> tracker_directory p \<or> executable r \<noteq> executable p
                 then Inl ''related issues belong to different trackers''
               else if local_id r = local_id p
                 then Inl ''dependency action refers to the same local issue''
               else
                 Inr (command r True (dep_operation mk @ [''--'', local_id r, local_id p]))))))"

record issue_actions =
  act_working_directory :: string
  act_local_id :: string
  act_tracker :: string
  act_show :: "issue_command option"
  act_claim :: "issue_command option"
  unavailable_reason :: string

definition make_actions :: "issue \<Rightarrow> bool \<Rightarrow> issue_actions" where
  "make_actions i claimable =
     (case origin i of
        None \<Rightarrow> \<lparr>act_working_directory = [], act_local_id = [], act_tracker = [], act_show = None,
                 act_claim = None, unavailable_reason = ''source has no verified live tracker''\<rparr>
      | Some r \<Rightarrow>
        (let a = \<lparr>act_working_directory = working_directory r, act_local_id = local_id r,
                  act_tracker = tracker r, act_show = None, act_claim = None,
                  unavailable_reason = []\<rparr>
         in if \<not> route_available (origin i) then
              a\<lparr>unavailable_reason := (if read_only_reason r = [] then ''live tracker route is incomplete''
                                        else read_only_reason r)\<rparr>
            else
              (let a = a\<lparr>act_show := Some (command r False [''show'', ''--json'', ''--'', local_id r])\<rparr>
               in if read_only_reason r \<noteq> [] then a\<lparr>unavailable_reason := read_only_reason r\<rparr>
                  else if \<not> claimable
                    then a\<lparr>unavailable_reason := ''snapshot does not establish claim readiness''\<rparr>
                  else if \<not> supports_claim r
                    then a\<lparr>unavailable_reason := ''installed tracker does not advertise atomic --claim''\<rparr>
                  else a\<lparr>act_claim := Some (command r True [''update'', ''--json'', ''--claim'', ''--'', local_id r])\<rparr>)))"

end
