(* ===== verification/Bv_Shell.thy ===== *)
theory Bv_Shell
  imports Bv_Model
begin

text \<open>
  The tracker commands that \<open>pkg/model/types.go\<close> suggests are shell text that the user pastes. The
  reference here is the relevant part of the POSIX shell's tokenizer: quoting, blanks and the
  \<open>&&\<close> operator; an unquoted character with any other meaning to the shell makes it fail. The lemmas
  show that tokenizing what \<open>command\<close> renders gives back the argument vector, byte for byte, for
  every content of the origin and of the operation.
\<close>

datatype sh_token = Word string | AndIf

datatype sh_mode = Plain | InSingle | InDouble

definition sh_blank :: "char \<Rightarrow> bool" where
  "sh_blank c \<longleftrightarrow> c = CHR 0x20 \<or> c = CHR 0x09"

definition sh_literal :: "char \<Rightarrow> bool" where
  "sh_literal c \<longleftrightarrow> (CHR ''a'' \<le> c \<and> c \<le> CHR ''z'') \<or> (CHR ''A'' \<le> c \<and> c \<le> CHR ''Z'') \<or>
     (CHR ''0'' \<le> c \<and> c \<le> CHR ''9'') \<or> c \<in> {CHR ''-'', CHR ''_'', CHR ''.'', CHR ''/'', CHR '':'', CHR '',''}"

definition flush_word :: "string option \<Rightarrow> sh_token list" where
  "flush_word cur = (case cur of None \<Rightarrow> [] | Some w \<Rightarrow> [Word w])"

definition extend_word :: "string option \<Rightarrow> string \<Rightarrow> string option" where
  "extend_word cur s = Some ((case cur of None \<Rightarrow> [] | Some w \<Rightarrow> w) @ s)"

fun sh_lex :: "sh_mode \<Rightarrow> string option \<Rightarrow> string \<Rightarrow> sh_token list option" where
  "sh_lex Plain cur [] = Some (flush_word cur)"
| "sh_lex InSingle cur [] = None"
| "sh_lex InDouble cur [] = None"
| "sh_lex Plain cur (c # cs) =
     (if c = squote then sh_lex InSingle (extend_word cur []) cs
      else if c = CHR 0x22 then sh_lex InDouble (extend_word cur []) cs
      else if sh_blank c then map_option ((@) (flush_word cur)) (sh_lex Plain None cs)
      else if c = CHR ''&'' then
        (case cs of [] \<Rightarrow> None
         | d # ds \<Rightarrow> if d = CHR ''&''
             then map_option ((@) (flush_word cur @ [AndIf])) (sh_lex Plain None ds) else None)
      else if sh_literal c then sh_lex Plain (extend_word cur [c]) cs
      else None)"
| "sh_lex InSingle cur (c # cs) =
     (if c = squote then sh_lex Plain cur cs else sh_lex InSingle (extend_word cur [c]) cs)"
| "sh_lex InDouble cur (c # cs) =
     (if c = CHR 0x22 then sh_lex Plain cur cs
      else if c \<in> {CHR ''$'', CHR 0x60, CHR 0x5C, CHR ''!''} then None
      else sh_lex InDouble (extend_word cur [c]) cs)"

definition sh_tokens :: "string \<Rightarrow> sh_token list option" where
  "sh_tokens s = sh_lex Plain None s"

lemma extend_word_simps [simp]:
  "extend_word (Some w) s = Some (w @ s)" "extend_word None s = Some s"
  by (simp_all add: extend_word_def)

lemma flush_word_simps [simp]: "flush_word None = []" "flush_word (Some w) = [Word w]"
  by (simp_all add: flush_word_def)

lemma lex_replace_quotes:
  "sh_lex InSingle (Some w) (replace_quotes v @ rest) = sh_lex InSingle (Some (w @ v)) rest"
  by (induction v arbitrary: w) (auto simp: squote_def)

lemma lex_shell_quote:
  "sh_lex Plain None (shell_quote v @ rest) = sh_lex Plain (Some v) rest"
  using lex_replace_quotes[of "[]" v "squote # rest"] by (simp add: shell_quote_def)

lemma lex_blank:
  "sh_lex Plain cur (CHR '' '' # rest) = map_option ((@) (flush_word cur)) (sh_lex Plain None rest)"
  by (simp add: squote_def sh_blank_def)

lemma lex_join_quoted:
  assumes "args \<noteq> []"
  shows "sh_lex Plain None (join '' '' (map shell_quote args)) = Some (map Word args)"
  using assms
proof (induction args rule: induct_list012)
  case (2 x)
  show ?case using lex_shell_quote[of x "[]"] by simp
next
  case (3 x y xs)
  then have "sh_lex Plain None (join '' '' (map shell_quote (y # xs))) = Some (map Word (y # xs))"
    by simp
  then show ?case by (simp add: lex_shell_quote lex_blank del: sh_lex.simps)
qed simp

lemma lex_cd:
  "sh_lex Plain None (''cd -- '' @ rest) =
     map_option ((@) [Word ''cd'', Word ''--'']) (sh_lex Plain None rest)"
  by (cases "sh_lex Plain None rest") (simp_all add: squote_def sh_blank_def sh_literal_def)

lemma lex_and:
  "sh_lex Plain cur ('' && '' @ rest) =
     map_option ((@) (flush_word cur @ [AndIf])) (sh_lex Plain None rest)"
  by (cases "sh_lex Plain None rest") (simp_all add: squote_def sh_blank_def)

lemma argv_command [simp]: "argv (command r m operation) = command_argv r m operation"
  by (simp add: command_def Let_def)

lemma command_argv_nonempty [simp]: "command_argv r m operation \<noteq> []"
  by (simp add: command_argv_def Let_def)

lemma tokens_command:
  "sh_tokens (shell (command r m operation)) =
     Some ([Word ''cd'', Word ''--'', Word (working_directory r), AndIf] @
           map Word (argv (command r m operation)))"
proof -
  have args: "sh_lex Plain None (join '' '' (map shell_quote (command_argv r m operation))) =
      Some (map Word (command_argv r m operation))"
    by (rule lex_join_quoted) simp
  show ?thesis
    unfolding sh_tokens_def command_def Let_def issue_command.simps
    by (simp only: lex_cd append_assoc lex_shell_quote lex_and args) simp
qed

text \<open>C1: Tokenizing the shell rendering of any suggested tracker command gives \<open>cd --\<close>, the working
  directory as one word, \<open>&&\<close>, and then exactly the words of its argument vector: no content of an
  issue or of an origin (quotes, blanks, operators, newlines) can escape its argument.\<close>

theorem command_shell_roundtrip:
  "sh_tokens (shell (command r m operation)) =
     Some ([Word ''cd'', Word ''--'', Word (working_directory r), AndIf] @
           map Word (argv (command r m operation)))"
  by (rule tokens_command)

section \<open>Which actions are suggested\<close>

text \<open>A dependency action is suggested only between two issues of one writable tracker.\<close>

definition same_tracker :: "issue_origin \<Rightarrow> issue_origin \<Rightarrow> bool" where
  "same_tracker r p \<longleftrightarrow> tracker r = tracker p \<and> database r = database p \<and>
     working_directory r = working_directory p \<and> tracker_directory r = tracker_directory p \<and>
     executable r = executable p"

lemma route_available_Some: "route_available o' \<Longrightarrow> \<exists>r. o' = Some r"
  by (auto simp: route_available_def split: option.splits)

lemma mutation_action_dependencyD:
  assumes "mutation_action i mk peer v = Inr c" and "mk \<noteq> MutationAddLabel"
  shows "\<exists>r pi p. origin i = Some r \<and> peer = Some pi \<and> origin pi = Some p \<and>
    route_available (Some r) \<and> route_available (Some p) \<and>
    read_only_reason r = [] \<and> read_only_reason p = [] \<and> same_tracker r p \<and> local_id r \<noteq> local_id p \<and>
    mk \<in> {MutationAddDependency, MutationRelate, MutationRemoveDependency} \<and>
    argv c = command_argv r True (dep_operation mk @ [''--'', local_id r, local_id p])"
  using assms
  by (auto simp: mutation_action_def same_tracker_def split: option.splits if_splits)

text \<open>C2: A dependency mutation is suggested only when both issues have a complete, writable route in
  the same tracker (same binary, database and directories) and different local ids; its argument
  vector is the operation of the mutation kind, the end-of-options marker and the two local ids in
  order, so that an id starting with a dash is not read as an option.\<close>

theorem mutation_action_same_tracker:
  assumes "mutation_action i mk peer v = Inr c" and "mk \<noteq> MutationAddLabel"
  shows "\<exists>r pi p. origin i = Some r \<and> peer = Some pi \<and> origin pi = Some p \<and>
    route_available (Some r) \<and> route_available (Some p) \<and>
    read_only_reason r = [] \<and> read_only_reason p = [] \<and> same_tracker r p \<and> local_id r \<noteq> local_id p \<and>
    mk \<in> {MutationAddDependency, MutationRelate, MutationRemoveDependency} \<and>
    argv c = command_argv r True (dep_operation mk @ [''--'', local_id r, local_id p])"
  by (rule mutation_action_dependencyD [OF assms])

definition demo_origin :: "string \<Rightarrow> issue_origin" where
  "demo_origin i = \<lparr>local_id = i, working_directory = ''/w'', tracker_directory = ''/w/.beads'',
     database = ''/w/.beads/beads.db'', tracker = ''br'', executable = ''br'', supports_claim = True,
     read_only_reason = []\<rparr>"

definition demo_issue :: "string \<Rightarrow> issue" where
  "demo_issue i = zero_issue\<lparr>issue_id := i, origin := Some (demo_origin i)\<rparr>"

lemma mutation_action_same_tracker_witness:
  "\<exists>r pi p c. mutation_action (demo_issue ''a'') MutationRelate (Some (demo_issue ''b'')) [] = Inr c \<and>
     origin (demo_issue ''a'') = Some r \<and> Some (demo_issue ''b'') = Some pi \<and> origin pi = Some p \<and>
     same_tracker r p"
proof -
  obtain c where c: "mutation_action (demo_issue ''a'') MutationRelate (Some (demo_issue ''b'')) [] = Inr c"
    by (simp add: mutation_action_def demo_issue_def demo_origin_def zero_issue_def
        route_available_def mutation_defs)
  have "MutationRelate \<noteq> MutationAddLabel" by (simp add: mutation_defs)
  from mutation_action_same_tracker [OF c this] c show ?thesis by blast
qed

lemma make_actions_claim_iff:
  "act_claim (make_actions i claimable) \<noteq> None \<longleftrightarrow>
     (\<exists>r. origin i = Some r \<and> route_available (Some r) \<and> read_only_reason r = [] \<and> claimable \<and>
          supports_claim r)"
  by (auto simp: make_actions_def Let_def split: option.splits)

lemma make_actions_reason_iff:
  "unavailable_reason (make_actions i claimable) = [] \<longleftrightarrow> act_claim (make_actions i claimable) \<noteq> None"
  by (auto simp: make_actions_def Let_def split: option.splits)

text \<open>A claim command is offered exactly when the origin's route is complete and writable, the
  tracker advertises an atomic claim and the caller established claim readiness; in every other case
  the result names a reason, and never both a claim and a reason.\<close>

theorem make_actions_claim_gate:
  "(act_claim (make_actions i claimable) \<noteq> None \<longleftrightarrow>
     (\<exists>r. origin i = Some r \<and> route_available (Some r) \<and> read_only_reason r = [] \<and> claimable \<and>
          supports_claim r)) \<and>
   (unavailable_reason (make_actions i claimable) = [] \<longleftrightarrow> act_claim (make_actions i claimable) \<noteq> None)"
  using make_actions_claim_iff make_actions_reason_iff by blast

end
