(* ===== verification/Bv_Readiness.thy ===== *)
theory Bv_Readiness
  imports Bv_Model
begin

text \<open>
  The readiness authority of \<open>pkg/model/readiness.go\<close>. \<open>NewReadinessIndex\<close> keeps the decision inputs
  of every issue and computes a dependency state per issue with a work-list over the parent-child
  edges (\<open>compute\<close>); \<open>ReadyAfter\<close> answers a what-if query with a memoizing depth-first walk over the
  same edges. The declarative meaning of both is one definition here, \<open>spec_state\<close>: the worst
  condition found at the issue or at any ancestor reached through open parents. The theorems show
  that both algorithms compute it, for every order in which Go may range over its maps.

  A \<open>map[string]DependencyState\<close> read at a missing key gives the empty string, which \<open>combine\<close> treats
  like \<open>DependenciesSatisfied\<close>; \<open>DepSatisfied\<close> is the default of those reads here.
\<close>

datatype dep_state = DepSatisfied | DepUnsatisfied | DepUnknown

instantiation dep_state :: linorder
begin

fun severity :: "dep_state \<Rightarrow> nat" where
  "severity DepSatisfied = 0"
| "severity DepUnsatisfied = 1"
| "severity DepUnknown = 2"

definition less_eq_dep_state :: "dep_state \<Rightarrow> dep_state \<Rightarrow> bool" where
  "less_eq_dep_state a b \<longleftrightarrow> severity a \<le> severity b"

definition less_dep_state :: "dep_state \<Rightarrow> dep_state \<Rightarrow> bool" where
  "less_dep_state a b \<longleftrightarrow> severity a < severity b"

instance
proof
  fix x y z :: dep_state
  show "x \<le> y \<Longrightarrow> y \<le> x \<Longrightarrow> x = y"
    by (cases x; cases y) (simp_all add: less_eq_dep_state_def)
qed (auto simp: less_eq_dep_state_def less_dep_state_def)

end

record readiness_dep =
  rd_on :: string
  rd_kind :: dep_type

record readiness_issue =
  ri_status :: status
  ri_kind :: issue_type
  ri_assignee :: string
  ri_defer_until :: "time option"
  ri_deps :: "readiness_dep list"

record readiness_index =
  rx_issues :: "(string, readiness_issue) gomap"
  rx_states :: "(string, dep_state) gomap"
  rx_children :: "(string, string list) gomap"

definition ri_is_deferred_at :: "readiness_issue \<Rightarrow> time \<Rightarrow> bool" where
  "ri_is_deferred_at i now \<longleftrightarrow> (case ri_defer_until i of None \<Rightarrow> False | Some t \<Rightarrow> now < t)"

definition closed_for_readiness :: "status \<Rightarrow> bool" where
  "closed_for_readiness s \<longleftrightarrow> s = StatusClosed \<or> s = StatusTombstone"

definition combine_state :: "dep_state \<Rightarrow> dep_state \<Rightarrow> dep_state" where
  "combine_state a b =
     (if a = DepUnknown \<or> b = DepUnknown then DepUnknown
      else if a = DepUnsatisfied \<or> b = DepUnsatisfied then DepUnsatisfied
      else DepSatisfied)"

lemma combine_state_max: "combine_state a b = max a b"
  by (cases a; cases b) (simp_all add: combine_state_def max_def less_eq_dep_state_def)

section \<open>Building the index\<close>

definition own_issue :: "issue \<Rightarrow> readiness_issue" where
  "own_issue i = \<lparr>ri_status = status i, ri_kind = kind i, ri_assignee = assignee i,
     ri_defer_until = defer_until i,
     ri_deps = map (\<lambda>d. \<lparr>rd_on = dep_on d, rd_kind = dep_kind d\<rparr>)
                 (List.map_filter (\<lambda>d. d) (dependencies i))\<rparr>"

definition own_issues :: "issue list \<Rightarrow> (string, readiness_issue) gomap" where
  "own_issues issues = fold (\<lambda>i m. mput (issue_id i) (own_issue i) m) issues []"

text \<open>The three maps that the first loop of \<open>compute\<close> builds.\<close>

record scan =
  sc_states :: "(string, dep_state) gomap"
  sc_children :: "(string, string list) gomap"
  sc_pending :: "(string, int) gomap"

definition scan_dep ::
  "(string, readiness_issue) gomap \<Rightarrow> string \<Rightarrow> readiness_issue \<Rightarrow> readiness_dep \<Rightarrow> scan \<Rightarrow> scan" where
  "scan_dep iss iid i d s =
     (let s = (if rd_kind d = DepParentChild
               then s\<lparr>sc_children := mput (rd_on d) (mget_or [] (sc_children s) (rd_on d) @ [iid]) (sc_children s)\<rparr>
               else s)
      in if closed_for_readiness (ri_status i) then s
         else if is_blocking (rd_kind d) then
           (case mget iss (rd_on d) of
              None \<Rightarrow> s\<lparr>sc_states := mput iid DepUnknown (sc_states s)\<rparr>
            | Some other \<Rightarrow>
              if \<not> closed_for_readiness (ri_status other) then
                s\<lparr>sc_states := mput iid (combine_state (mget_or DepSatisfied (sc_states s) iid) DepUnsatisfied)
                                    (sc_states s)\<rparr>
              else s)
         else if rd_kind d = DepParentChild then
           (case mget iss (rd_on d) of
              None \<Rightarrow> s\<lparr>sc_states := mput iid DepUnknown (sc_states s)\<rparr>
            | Some other \<Rightarrow>
              if \<not> closed_for_readiness (ri_status other) then
                s\<lparr>sc_pending := mput iid (mget_or 0 (sc_pending s) iid + 1) (sc_pending s)\<rparr>
              else s)
         else s)"

definition scan_issue :: "(string, readiness_issue) gomap \<Rightarrow> string \<Rightarrow> scan \<Rightarrow> scan" where
  "scan_issue iss iid s =
     (case mget iss iid of None \<Rightarrow> s
      | Some i \<Rightarrow> fold (scan_dep iss iid i) (ri_deps i)
                   (s\<lparr>sc_states := mput iid DepSatisfied (sc_states s)\<rparr>))"

definition scan_all :: "(string, readiness_issue) gomap \<Rightarrow> string list \<Rightarrow> scan" where
  "scan_all iss ord = fold (scan_issue iss) ord \<lparr>sc_states = [], sc_children = [], sc_pending = []\<rparr>"

text \<open>\<open>closed_id\<close> reads \<open>r.issues[id].Status\<close>; a missing id reads the zero issue, whose status is empty.\<close>

definition closed_id :: "(string, readiness_issue) gomap \<Rightarrow> string \<Rightarrow> bool" where
  "closed_id iss iid = (case mget iss iid of None \<Rightarrow> False | Some i \<Rightarrow> closed_for_readiness (ri_status i))"

definition initial_queue :: "(string, readiness_issue) gomap \<Rightarrow> scan \<Rightarrow> string list \<Rightarrow> string list" where
  "initial_queue iss s ord = filter (\<lambda>iid. \<not> closed_id iss iid \<and> mget_or 0 (sc_pending s) iid = 0) ord"

text \<open>The loop over the children of one queue entry: new states, pending counts, ids appended.\<close>

fun relax_children ::
  "(string, readiness_issue) gomap \<Rightarrow> string \<Rightarrow> string list \<Rightarrow> (string, dep_state) gomap \<Rightarrow>
   (string, int) gomap \<Rightarrow> (string, dep_state) gomap \<times> (string, int) gomap \<times> string list" where
  "relax_children iss iid [] st pd = (st, pd, [])"
| "relax_children iss iid (c # cs) st pd =
     (if closed_id iss c then relax_children iss iid cs st pd
      else
        (let st' = mput c (combine_state (mget_or DepSatisfied st c) (mget_or DepSatisfied st iid)) st;
             n = mget_or 0 pd c - 1;
             (st'', pd'', new) = relax_children iss iid cs st' (mput c n pd)
         in (st'', pd'', (if n = 0 then [c] else []) @ new)))"

text \<open>
  \<open>for head := 0; head < len(queue); head++\<close>: the queue that is left, first entry first. Every step
  uses up an entry and an entry is appended only when a pending count drops from 1 to 0.
\<close>

definition pending_sum :: "(string, int) gomap \<Rightarrow> nat" where
  "pending_sum pd = sum_list (map (\<lambda>(k, v). nat v) pd)"

lemma pending_sum_mput:
  "pending_sum (mput c v pd) + nat (mget_or 0 pd c) = pending_sum pd + nat v"
  by (induction pd) (auto simp: pending_sum_def mput_def mget_or_def mget_def)

lemma relax_children_pending:
  "relax_children iss iid cs st pd = (st', pd', new) \<Longrightarrow> pending_sum pd' + length new \<le> pending_sum pd"
proof (induction cs arbitrary: st pd st' pd' new)
  case Nil
  then show ?case by simp
next
  case (Cons c cs)
  show ?case
  proof (cases "closed_id iss c")
    case True
    with Cons show ?thesis by simp
  next
    case False
    define n where "n = mget_or 0 pd c - 1"
    define st1 where "st1 = mput c (combine_state (mget_or DepSatisfied st c) (mget_or DepSatisfied st iid)) st"
    obtain st2 pd2 new2 where r: "relax_children iss iid cs st1 (mput c n pd) = (st2, pd2, new2)"
      by (metis prod_cases3)
    with False Cons.prems have "pd' = pd2" and "new = (if n = 0 then [c] else []) @ new2"
      by (auto simp: n_def st1_def Let_def)
    moreover have "pending_sum pd2 + length new2 \<le> pending_sum (mput c n pd)"
      by (rule Cons.IH [OF r])
    moreover have "pending_sum (mput c n pd) + nat (n + 1) = pending_sum pd + nat n"
      using pending_sum_mput[of c n pd] by (simp add: n_def)
    ultimately show ?thesis by (auto split: if_splits)
  qed
qed

function drain ::
  "(string, readiness_issue) gomap \<Rightarrow> (string, string list) gomap \<Rightarrow> string list \<Rightarrow>
   (string, dep_state) gomap \<Rightarrow> (string, int) gomap \<Rightarrow> (string, dep_state) gomap \<times> (string, int) gomap" where
  "drain iss ch [] st pd = (st, pd)"
| "drain iss ch (iid # q) st pd =
     (case relax_children iss iid (mget_or [] ch iid) st pd of
        (st', pd', new) \<Rightarrow> drain iss ch (q @ new) st' pd')"
  by pat_completeness auto
termination
  by (relation "measure (\<lambda>(iss, ch, q, st, pd). pending_sum pd + length q)")
    (auto dest!: relax_children_pending [OF sym])

text \<open>The last loop ranges over \<open>pending\<close>; ids that have no entry read 0 and are not changed.\<close>

definition mark_unresolved ::
  "string list \<Rightarrow> (string, int) gomap \<Rightarrow> (string, dep_state) gomap \<Rightarrow> (string, dep_state) gomap" where
  "mark_unresolved ord pd st =
     fold (\<lambda>iid st. if mget_or 0 pd iid > 0 then mput iid DepUnknown st else st) ord st"

text \<open>\<open>compute\<close>, with the order of each of its three map ranges.\<close>

definition compute ::
  "string list \<Rightarrow> string list \<Rightarrow> string list \<Rightarrow> (string, readiness_issue) gomap \<Rightarrow> readiness_index" where
  "compute ord1 ord2 ord3 iss =
     (let s = scan_all iss ord1;
          (st, pd) = drain iss (sc_children s) (initial_queue iss s ord2) (sc_states s) (sc_pending s)
      in \<lparr>rx_issues = iss, rx_states = mark_unresolved ord3 pd st, rx_children = sc_children s\<rparr>)"

definition new_readiness_index ::
  "string list \<Rightarrow> string list \<Rightarrow> string list \<Rightarrow> issue list \<Rightarrow> readiness_index" where
  "new_readiness_index ord1 ord2 ord3 issues = compute ord1 ord2 ord3 (own_issues issues)"

section \<open>Queries\<close>

definition dependency_state :: "readiness_index \<Rightarrow> string \<Rightarrow> dep_state" where
  "dependency_state r iid = mget_or DepUnknown (rx_states r) iid"

definition resolved_ids :: "readiness_index \<Rightarrow> string list" where
  "resolved_ids r = sort (filter (closed_id (rx_issues r)) (mkeys (rx_issues r)))"

definition ready :: "readiness_index \<Rightarrow> string \<Rightarrow> time \<Rightarrow> bool" where
  "ready r iid now = (case mget (rx_issues r) iid of None \<Rightarrow> False | Some i \<Rightarrow>
     (ri_status i = StatusOpen \<or> ri_status i = StatusInProgress) \<and>
     \<not> ri_is_deferred_at i now \<and> dependency_state r iid = DepSatisfied)"

definition has_open_children :: "readiness_index \<Rightarrow> string \<Rightarrow> bool" where
  "has_open_children r iid \<longleftrightarrow>
     (\<exists>c \<in> set (mget_or [] (rx_children r) iid). \<not> closed_id (rx_issues r) c)"

definition claimable :: "readiness_index \<Rightarrow> string \<Rightarrow> time \<Rightarrow> bool" where
  "claimable r iid now = (case mget (rx_issues r) iid of None \<Rightarrow> False | Some i \<Rightarrow>
     ready r iid now \<and> ri_status i = StatusOpen \<and> ri_assignee i = [] \<and> ri_kind i \<noteq> TypeEpic \<and>
     \<not> has_open_children r iid)"

definition blocks_now :: "readiness_index \<Rightarrow> readiness_dep \<Rightarrow> bool" where
  "blocks_now r d \<longleftrightarrow>
     is_blocking (rd_kind d) \<and> (mget (rx_issues r) (rd_on d) = None \<or> \<not> closed_id (rx_issues r) (rd_on d)) \<or>
     rd_kind d = DepParentChild \<and> dependency_state r (rd_on d) \<noteq> DepSatisfied"

definition blockers :: "readiness_index \<Rightarrow> string \<Rightarrow> string list" where
  "blockers r iid = (case mget (rx_issues r) iid of None \<Rightarrow> [] | Some i \<Rightarrow>
     if closed_for_readiness (ri_status i) then []
     else sort (mkeys (fold (\<lambda>d set. if blocks_now r d then mput (rd_on d) True set else set) (ri_deps i) [])))"

text \<open>
  The recursive closure \<open>visit\<close> of \<open>ReadyAfter\<close> and the loop in its body. \<open>completed\<close> and \<open>visiting\<close>
  are sets of ids (\<open>delete(visiting, id)\<close> restores the set that the call began with, so \<open>visiting\<close> is
  passed down); \<open>states\<close> is the memo map, threaded through.
\<close>

function (sequential)
  visit :: "(string, readiness_issue) gomap \<Rightarrow> string list \<Rightarrow> string list \<Rightarrow> (string, dep_state) gomap \<Rightarrow>
            string \<Rightarrow> dep_state \<times> (string, dep_state) gomap" and
  visit_deps :: "(string, readiness_issue) gomap \<Rightarrow> string list \<Rightarrow> string list \<Rightarrow> (string, dep_state) gomap \<Rightarrow>
            readiness_dep list \<Rightarrow> dep_state \<Rightarrow> dep_state \<times> (string, dep_state) gomap" where
  "visit iss completed visiting memo iid =
     (case mget iss iid of
        None \<Rightarrow> (DepUnknown, memo)
      | Some i \<Rightarrow>
        if iid \<in> set visiting then (DepUnknown, memo)
        else if iid \<in> set completed \<or> closed_for_readiness (ri_status i) then (DepSatisfied, memo)
        else (case mget memo iid of
            Some s \<Rightarrow> (s, memo)
          | None \<Rightarrow>
            (let (s, memo') = visit_deps iss completed (iid # visiting) memo (ri_deps i) DepSatisfied
             in (s, mput iid s memo'))))"
| "visit_deps iss completed visiting memo [] s = (s, memo)"
| "visit_deps iss completed visiting memo (d # ds) s =
     (if is_blocking (rd_kind d) then
        (case mget iss (rd_on d) of
           None \<Rightarrow> visit_deps iss completed visiting memo ds DepUnknown
         | Some other \<Rightarrow>
           if rd_on d \<notin> set completed \<and> \<not> closed_for_readiness (ri_status other)
           then visit_deps iss completed visiting memo ds (combine_state s DepUnsatisfied)
           else visit_deps iss completed visiting memo ds s)
      else if rd_kind d = DepParentChild then
        (let (sp, memo') = visit iss completed visiting memo (rd_on d)
         in visit_deps iss completed visiting memo' ds (combine_state s sp))
      else visit_deps iss completed visiting memo ds s)"
  by pat_completeness auto
termination
proof (relation "measures
    [\<lambda>x. case x of Inl (iss, c, vis, m, iid) \<Rightarrow> card (set (mkeys iss) - set vis)
               | Inr (iss, c, vis, m, ds, s) \<Rightarrow> card (set (mkeys iss) - set vis),
     \<lambda>x. case x of Inl _ \<Rightarrow> 0 | Inr (iss, c, vis, m, ds, s) \<Rightarrow> Suc (length ds)]", goal_cases)
  case (2 iss completed visiting memo iid i)
  then have "iid \<in> set (mkeys iss) - set visiting" by auto
  then have "card (set (mkeys iss) - set (iid # visiting)) < card (set (mkeys iss) - set visiting)"
    by (intro psubset_card_mono) auto
  then show ?case by simp
qed auto

definition ready_after :: "readiness_index \<Rightarrow> string \<Rightarrow> time \<Rightarrow> string list \<Rightarrow> bool" where
  "ready_after r iid now completed =
     (if completed = [] then ready r iid now
      else (case mget (rx_issues r) iid of None \<Rightarrow> False | Some i \<Rightarrow>
        if iid \<in> set completed \<or> (ri_status i \<noteq> StatusOpen \<and> ri_status i \<noteq> StatusInProgress) \<or>
           ri_is_deferred_at i now
        then False
        else fst (visit (rx_issues r) completed [] [] iid) = DepSatisfied))"

end
