(* ===== verification/Bv_Readiness_Spec.thy ===== *)
theory Bv_Readiness_Spec
  imports Bv_Readiness
begin

text \<open>
  The declarative meaning of dependency readiness, and the proof that the depth-first walk of
  \<open>ReadyAfter\<close> computes it. \<open>settled iss C x\<close> says that \<open>x\<close> counts as completed when the ids in \<open>C\<close> are
  treated as closed; \<open>C = {}\<close> is the tracker as it is.
\<close>

type_synonym rissues = "(string, readiness_issue) gomap"

definition settled :: "rissues \<Rightarrow> string set \<Rightarrow> string \<Rightarrow> bool" where
  "settled iss C x \<longleftrightarrow> x \<in> C \<or> closed_id iss x"

definition live :: "rissues \<Rightarrow> string set \<Rightarrow> string \<Rightarrow> bool" where
  "live iss C x \<longleftrightarrow> mget iss x \<noteq> None \<and> \<not> settled iss C x"

text \<open>The open parents through which a parent's trouble is inherited.\<close>

definition parent_edges :: "rissues \<Rightarrow> string set \<Rightarrow> (string \<times> string) set" where
  "parent_edges iss C = {(x, p). live iss C x \<and> live iss C p \<and>
     (\<exists>i d. mget iss x = Some i \<and> d \<in> set (ri_deps i) \<and> rd_kind d = DepParentChild \<and> rd_on d = p)}"

text \<open>What one dependency contributes by itself.\<close>

definition dep_local :: "rissues \<Rightarrow> string set \<Rightarrow> readiness_dep \<Rightarrow> dep_state" where
  "dep_local iss C d =
     (if is_blocking (rd_kind d) then
        (if mget iss (rd_on d) = None then DepUnknown
         else if settled iss C (rd_on d) then DepSatisfied else DepUnsatisfied)
      else if rd_kind d = DepParentChild \<and> mget iss (rd_on d) = None then DepUnknown
      else DepSatisfied)"

definition deps_of :: "rissues \<Rightarrow> string \<Rightarrow> readiness_dep list" where
  "deps_of iss x = (case mget iss x of None \<Rightarrow> [] | Some i \<Rightarrow> ri_deps i)"

definition join_states :: "dep_state list \<Rightarrow> dep_state" where
  "join_states = (\<lambda>ss. fold max ss DepSatisfied)"

text \<open>The condition of one issue: on a parent cycle it is unknown, else what its own edges say.\<close>

definition condition_of :: "rissues \<Rightarrow> string set \<Rightarrow> string \<Rightarrow> dep_state" where
  "condition_of iss C x =
     (if (x, x) \<in> (parent_edges iss C)\<^sup>+ then DepUnknown
      else join_states (map (dep_local iss C) (deps_of iss x)))"

text \<open>The worst condition at the issue or at any ancestor reached through open parents.\<close>

definition spec_state :: "rissues \<Rightarrow> string set \<Rightarrow> string \<Rightarrow> dep_state" where
  "spec_state iss C x =
     (if mget iss x = None then DepUnknown
      else if settled iss C x then DepSatisfied
      else Max (condition_of iss C ` ((parent_edges iss C)\<^sup>* `` {x})))"

definition dep_spec :: "rissues \<Rightarrow> string set \<Rightarrow> readiness_dep \<Rightarrow> dep_state" where
  "dep_spec iss C d =
     (if is_blocking (rd_kind d) then dep_local iss C d
      else if rd_kind d = DepParentChild then spec_state iss C (rd_on d)
      else DepSatisfied)"

text \<open>The meaning depends on the issues of the tracker only, not on the list that represents the map.\<close>

lemma spec_state_cong:
  assumes "\<And>k. mget iss k = mget iss' k"
  shows "spec_state iss C x = spec_state iss' C x"
proof -
  have settled: "settled iss C = settled iss' C" by (simp add: fun_eq_iff settled_def closed_id_def assms)
  then have live: "live iss C = live iss' C" by (simp add: fun_eq_iff live_def assms)
  have edges: "parent_edges iss C = parent_edges iss' C" unfolding parent_edges_def live assms ..
  have dep: "dep_local iss C = dep_local iss' C" by (simp add: fun_eq_iff dep_local_def settled assms)
  have "condition_of iss C = condition_of iss' C" by (rule ext) (simp add: condition_of_def edges deps_of_def dep assms)
  then show ?thesis by (simp add: spec_state_def settled edges assms)
qed

section \<open>The order of states\<close>

lemma dep_state_order [simp]:
  "DepSatisfied \<le> s" "s \<le> DepUnknown" "DepUnknown \<le> s \<longleftrightarrow> s = DepUnknown"
  "s \<le> DepSatisfied \<longleftrightarrow> s = DepSatisfied"
  by (cases s; simp add: less_eq_dep_state_def)+

lemma max_dep_state [simp]:
  "max DepSatisfied s = s" "max s DepSatisfied = s" "max DepUnknown s = DepUnknown" "max s DepUnknown = DepUnknown"
  by (auto simp: max_def)

lemma fold_max_le: "fold max ss (s :: dep_state) \<le> t \<longleftrightarrow> s \<le> t \<and> (\<forall>u \<in> set ss. u \<le> t)"
  by (induction ss arbitrary: s) auto

lemma join_states_le [simp]: "join_states ss \<le> t \<longleftrightarrow> (\<forall>u \<in> set ss. u \<le> t)"
  by (simp add: join_states_def fold_max_le)

lemma join_states_upper: "u \<in> set ss \<Longrightarrow> u \<le> join_states ss"
  using join_states_le order_refl by blast

lemma dep_state_eqI: "(\<And>t. a \<le> t \<longleftrightarrow> b \<le> t) \<Longrightarrow> a = (b :: dep_state)"
  by (meson order.antisym order_refl)

lemma fold_max_join: "fold max ss s = max s (join_states ss)"
  by (rule dep_state_eqI) (simp add: fold_max_le)

section \<open>Unfolding the specification\<close>

lemma parent_edges_finite: "finite (parent_edges iss C)"
  by (rule finite_subset[of _ "set (mkeys iss) \<times> set (mkeys iss)"])
    (auto simp: parent_edges_def live_def mkeys_ex)

lemma parent_reach_finite: "finite ((parent_edges iss C)\<^sup>* `` {x})"
proof -
  have "y = x \<or> y \<in> Range (parent_edges iss C)" if "(x, y) \<in> (parent_edges iss C)\<^sup>*" for y
    using that by (cases rule: rtranclE) auto
  then have "(parent_edges iss C)\<^sup>* `` {x} \<subseteq> insert x (Range (parent_edges iss C))"
    by blast
  then show ?thesis
    by (rule finite_subset) (simp add: parent_edges_finite finite_Range)
qed

lemma live_get: "live iss C x \<Longrightarrow> \<exists>i. mget iss x = Some i"
  by (auto simp: live_def)

lemma parent_edges_live: "(x, p) \<in> parent_edges iss C \<Longrightarrow> live iss C x \<and> live iss C p"
  by (auto simp: parent_edges_def)

lemma parent_edge_iff:
  "(x, p) \<in> parent_edges iss C \<longleftrightarrow> live iss C x \<and> live iss C p \<and>
     (\<exists>d \<in> set (deps_of iss x). rd_kind d = DepParentChild \<and> rd_on d = p)"
  by (auto simp: parent_edges_def deps_of_def live_def split: option.splits)

lemma spec_le:
  assumes "live iss C x"
  shows "spec_state iss C x \<le> t \<longleftrightarrow> (\<forall>a. (x, a) \<in> (parent_edges iss C)\<^sup>* \<longrightarrow> condition_of iss C a \<le> t)"
proof -
  have "(x, x) \<in> (parent_edges iss C)\<^sup>*" by simp
  then have "(parent_edges iss C)\<^sup>* `` {x} \<noteq> {}" by blast
  then show ?thesis
    using assms parent_reach_finite[of iss C x]
    by (auto simp: spec_state_def live_def)
qed

lemma condition_le_spec: "live iss C x \<Longrightarrow> (x, a) \<in> (parent_edges iss C)\<^sup>* \<Longrightarrow> condition_of iss C a \<le> spec_state iss C x"
  using spec_le by blast

lemma spec_cycle:
  assumes "live iss C x" and "(x, a) \<in> (parent_edges iss C)\<^sup>*" and "(a, a) \<in> (parent_edges iss C)\<^sup>+"
  shows "spec_state iss C x = DepUnknown"
  using condition_le_spec [OF assms(1,2)] assms(3) by (simp add: condition_of_def)

lemma spec_not_live: "\<not> live iss C x \<Longrightarrow> spec_state iss C x = (if mget iss x = None then DepUnknown else DepSatisfied)"
  by (auto simp: spec_state_def live_def)

lemma dep_spec_eq:
  "dep_spec iss C d =
     (if rd_kind d = DepParentChild \<and> live iss C (rd_on d) then spec_state iss C (rd_on d)
      else dep_local iss C d)"
  by (auto simp: dep_spec_def dep_local_def spec_not_live)

lemma spec_unfold_le:
  assumes "live iss C x"
  shows "spec_state iss C x \<le> t \<longleftrightarrow> (\<forall>d \<in> set (deps_of iss x). dep_spec iss C d \<le> t)"
proof (cases "t = DepUnknown")
  case True
  then show ?thesis by simp
next
  case False
  let ?E = "parent_edges iss C"
  show ?thesis
  proof
    assume L: "spec_state iss C x \<le> t"
    show "\<forall>d \<in> set (deps_of iss x). dep_spec iss C d \<le> t"
    proof
      fix d assume d: "d \<in> set (deps_of iss x)"
      have "condition_of iss C x \<le> t" using L spec_le[OF assms] by blast
      with False have "dep_local iss C d \<le> t"
        using d by (auto simp: condition_of_def split: if_splits)
      moreover have "spec_state iss C (rd_on d) \<le> t"
        if "rd_kind d = DepParentChild" "live iss C (rd_on d)"
      proof -
        have "(x, rd_on d) \<in> ?E" using that d assms by (auto simp: parent_edge_iff)
        then have "(x, a) \<in> ?E\<^sup>*" if "(rd_on d, a) \<in> ?E\<^sup>*" for a
          using that by (rule converse_rtrancl_into_rtrancl)
        then show ?thesis
          using L by (simp add: spec_le[OF assms] spec_le[OF that(2)])
      qed
      ultimately show "dep_spec iss C d \<le> t" by (simp add: dep_spec_eq)
    qed
  next
    assume R: "\<forall>d \<in> set (deps_of iss x). dep_spec iss C d \<le> t"
    have parent: "live iss C p \<and> spec_state iss C p \<le> t" if "(x, p) \<in> ?E" for p
      using that R by (auto simp: parent_edge_iff dep_spec_eq)
    have acyc: "(x, x) \<notin> ?E\<^sup>+"
    proof
      assume cyc: "(x, x) \<in> ?E\<^sup>+"
      then obtain p where p: "(x, p) \<in> ?E" "(p, x) \<in> ?E\<^sup>*" by (meson tranclD)
      with parent[OF p(1)] spec_cycle[OF _ p(2) cyc] False show False by auto
    qed
    show "spec_state iss C x \<le> t"
      unfolding spec_le[OF assms]
    proof (intro allI impI)
      fix a assume "(x, a) \<in> ?E\<^sup>*"
      then show "condition_of iss C a \<le> t"
      proof (cases rule: converse_rtranclE)
        case base
        have "dep_local iss C d \<le> t" if "d \<in> set (deps_of iss x)" for d
        proof (cases "rd_kind d = DepParentChild \<and> live iss C (rd_on d)")
          case True
          then show ?thesis by (auto simp: dep_local_def live_def)
        next
          case False
          then show ?thesis using R that by (auto simp: dep_spec_eq)
        qed
        with acyc base show ?thesis by (auto simp: condition_of_def)
      next
        case (step p)
        then show ?thesis using parent spec_le by blast
      qed
    qed
  qed
qed

lemma spec_unfold:
  assumes "live iss C x"
  shows "spec_state iss C x = join_states (map (dep_spec iss C) (deps_of iss x))"
  by (rule dep_state_eqI) (simp add: spec_unfold_le[OF assms])

section \<open>The memoizing walk computes the specification\<close>

definition memo_ok :: "rissues \<Rightarrow> string set \<Rightarrow> (string, dep_state) gomap \<Rightarrow> bool" where
  "memo_ok iss C memo \<longleftrightarrow> (\<forall>k s. mget memo k = Some s \<longrightarrow> live iss C k \<and> s = spec_state iss C k)"

text \<open>The ids being visited are open, and each reaches the id that is visited next.\<close>

definition path_to :: "rissues \<Rightarrow> string set \<Rightarrow> string list \<Rightarrow> string \<Rightarrow> bool" where
  "path_to iss C vis x \<longleftrightarrow> (\<forall>v \<in> set vis. live iss C v \<and> (live iss C x \<longrightarrow> (v, x) \<in> (parent_edges iss C)\<^sup>+))"

lemma visit_hit: "path_to iss C vis x \<Longrightarrow> x \<in> set vis \<Longrightarrow> live iss C x \<and> spec_state iss C x = DepUnknown"
  by (auto simp: path_to_def intro: spec_cycle)

lemma path_to_parent:
  assumes "live iss C x" and "path_to iss C vis x" and "(x, p) \<in> parent_edges iss C \<or> \<not> live iss C p"
  shows "path_to iss C (x # vis) p"
  using assms by (auto simp: path_to_def intro: trancl.trancl_into_trancl)

lemma visit_correct:
  shows "path_to iss (set completed) visiting x \<Longrightarrow> memo_ok iss (set completed) memo \<Longrightarrow>
      fst (visit iss completed visiting memo x) = spec_state iss (set completed) x \<and>
      memo_ok iss (set completed) (snd (visit iss completed visiting memo x))"
    and "(\<And>d. d \<in> set ds \<Longrightarrow> rd_kind d = DepParentChild \<Longrightarrow> path_to iss (set completed) visiting (rd_on d)) \<Longrightarrow>
      memo_ok iss (set completed) memo \<Longrightarrow>
      fst (visit_deps iss completed visiting memo ds s) = fold max (map (dep_spec iss (set completed)) ds) s \<and>
      memo_ok iss (set completed) (snd (visit_deps iss completed visiting memo ds s))"
proof (induction iss completed visiting memo x and iss completed visiting memo ds s
    rule: visit_visit_deps.induct)
  case (1 iss completed visiting memo x)
  let ?C = "set completed"
  consider (missing) "mget iss x = None"
    | (hit) i where "mget iss x = Some i" "x \<in> set visiting"
    | (settled) i where "mget iss x = Some i" "x \<notin> set visiting" "settled iss ?C x"
    | (memo) i s where "mget iss x = Some i" "x \<notin> set visiting" "live iss ?C x" "mget memo x = Some s"
    | (walk) i where "mget iss x = Some i" "x \<notin> set visiting" "live iss ?C x" "mget memo x = None"
    by (cases "mget iss x"; cases "x \<in> set visiting"; cases "settled iss ?C x"; cases "mget memo x")
      (auto simp: live_def)
  then show ?case
  proof cases
    case missing
    then show ?thesis using "1.prems" by (simp add: spec_state_def)
  next
    case hit
    then show ?thesis using "1.prems" visit_hit by simp
  next
    case settled
    then show ?thesis using "1.prems"
      by (auto simp: spec_state_def settled_def closed_id_def)
  next
    case memo
    then show ?thesis using "1.prems" by (simp add: memo_ok_def live_def settled_def closed_id_def)
  next
    case walk
    have open_x: "\<not> (x \<in> set completed \<or> closed_for_readiness (ri_status i))"
      using walk by (simp add: live_def settled_def closed_id_def)
    have paths: "path_to iss ?C (x # visiting) (rd_on d)"
      if "d \<in> set (ri_deps i)" "rd_kind d = DepParentChild" for d
      using that walk "1.prems"(1)
      by (intro path_to_parent) (auto simp: parent_edge_iff deps_of_def)
    obtain s m where r: "visit_deps iss completed (x # visiting) memo (ri_deps i) DepSatisfied = (s, m)"
      by fastforce
    have "s = spec_state iss ?C x \<and> memo_ok iss ?C m"
      using "1.IH"[OF walk(1,2) open_x walk(4) paths "1.prems"(2)] r spec_unfold[OF walk(3)] walk(1)
      by (simp add: join_states_def deps_of_def)
    then show ?thesis using walk open_x r by (auto simp: memo_ok_def)
  qed
next
  case (2 iss completed visiting memo s)
  then show ?case by simp
next
  case (3 iss completed visiting memo d ds s)
  let ?C = "set completed"
  consider (blk) "is_blocking (rd_kind d)" | (pc) "\<not> is_blocking (rd_kind d)" "rd_kind d = DepParentChild"
    | (other) "\<not> is_blocking (rd_kind d)" "rd_kind d \<noteq> DepParentChild" by blast
  then show ?case
  proof cases
    case blk
    then show ?thesis
      using 3 by (cases "mget iss (rd_on d)")
        (auto simp: dep_spec_def dep_local_def combine_state_max settled_def closed_id_def max.commute)
  next
    case pc
    obtain sp m where r: "visit iss completed visiting memo (rd_on d) = (sp, m)" by fastforce
    have p: "path_to iss ?C visiting (rd_on d)" using 3 pc by simp
    from "3.IH"(4)[OF pc p "3.prems"(2)] r
    have sp: "sp = spec_state iss ?C (rd_on d)" and m: "memo_ok iss ?C m" by simp_all
    from "3.IH"(5)[OF pc r[symmetric] refl _ m] "3.prems"(1) pc r sp
    show ?thesis by (simp add: dep_spec_def combine_state_max max.commute)
  next
    case other
    then show ?thesis using 3 by (simp add: dep_spec_def)
  qed
qed

lemma visit_spec: "fst (visit iss completed [] [] x) = spec_state iss (set completed) x"
  using visit_correct(1)[of iss completed "[]" x "[]"] by (simp add: path_to_def memo_ok_def)

declare visit.simps [simp del] visit_deps.simps [simp del]

end
