(* ===== verification/Bv_Readiness_Compute.thy ===== *)
theory Bv_Readiness_Compute
  imports Bv_Readiness_Spec
begin

text \<open>
  The work-list computation of \<open>compute\<close> in \<open>pkg/model/readiness.go\<close> against \<open>spec_state\<close>: what the
  first loop leaves in its three maps, the invariant of the work-list, and what is unresolved when
  it stops.
\<close>

section \<open>The first loop\<close>

definition pc_count :: "rissues \<Rightarrow> string \<Rightarrow> string \<Rightarrow> nat" where
  "pc_count iss x p = length (filter (\<lambda>d. rd_kind d = DepParentChild \<and> rd_on d = p) (deps_of iss x))"

definition wait_count :: "rissues \<Rightarrow> string set \<Rightarrow> string \<Rightarrow> nat" where
  "wait_count iss P x =
     length (filter (\<lambda>d. rd_kind d = DepParentChild \<and> live iss {} (rd_on d) \<and> rd_on d \<notin> P) (deps_of iss x))"

lemma live_empty: "live iss {} x \<longleftrightarrow> mget iss x \<noteq> None \<and> \<not> closed_id iss x"
  by (simp add: live_def settled_def)

lemma closed_id_get: "mget iss x = Some i \<Longrightarrow> closed_id iss x = closed_for_readiness (ri_status i)"
  by (simp add: closed_id_def)

text \<open>One dependency of issue \<open>x\<close>: effect on the entries of \<open>x\<close> and on the children of its target.\<close>

lemma scan_dep_effect:
  fixes d s
  assumes "mget iss x = Some i"
  defines "s' \<equiv> scan_dep iss x i d s"
  shows "mget_or DepSatisfied (sc_states s') y =
           (if y = x \<and> \<not> closed_id iss x then max (mget_or DepSatisfied (sc_states s) x) (dep_local iss {} d)
            else mget_or DepSatisfied (sc_states s) y)"
    and "mget_or 0 (sc_pending s') y =
           mget_or 0 (sc_pending s) y +
           (if y = x \<and> live iss {} x \<and> rd_kind d = DepParentChild \<and> live iss {} (rd_on d) then 1 else 0)"
    and "mget_or [] (sc_children s') p =
           mget_or [] (sc_children s) p @ (if rd_kind d = DepParentChild \<and> rd_on d = p then [x] else [])"
  using assms
  by (auto simp: scan_dep_def Let_def dep_local_def settled_def combine_state_max live_empty closed_id_get
      max.commute split: option.splits)

lemma scan_dep_keys:
  "set (mkeys (sc_states (scan_dep iss x i d s))) \<subseteq> insert x (set (mkeys (sc_states s)))"
  "set (mkeys (sc_states s)) \<subseteq> set (mkeys (sc_states (scan_dep iss x i d s)))"
  by (auto simp: scan_dep_def Let_def split: option.splits)

lemma scan_deps_effect:
  fixes ds s
  assumes "mget iss x = Some i"
  defines "s' \<equiv> fold (scan_dep iss x i) ds s"
  shows "mget_or DepSatisfied (sc_states s') y =
           (if y = x \<and> \<not> closed_id iss x
            then fold max (map (dep_local iss {}) ds) (mget_or DepSatisfied (sc_states s) x)
            else mget_or DepSatisfied (sc_states s) y) \<and>
         mget_or 0 (sc_pending s') y =
           mget_or 0 (sc_pending s) y +
           (if y = x \<and> live iss {} x
            then int (length (filter (\<lambda>d. rd_kind d = DepParentChild \<and> live iss {} (rd_on d)) ds)) else 0) \<and>
         mget_or [] (sc_children s') p =
           mget_or [] (sc_children s) p @
           replicate (length (filter (\<lambda>d. rd_kind d = DepParentChild \<and> rd_on d = p) ds)) x"
  unfolding s'_def
proof (induction ds arbitrary: s)
  case Nil
  then show ?case by simp
next
  case (Cons d ds)
  show ?case
    using Cons[of "scan_dep iss x i d s"] scan_dep_effect[OF assms(1), of d s]
    by (auto simp: max.commute)
qed

lemma scan_deps_keys:
  "set (mkeys (sc_states (fold (scan_dep iss x i) ds s))) \<subseteq> insert x (set (mkeys (sc_states s)))"
  "set (mkeys (sc_states s)) \<subseteq> set (mkeys (sc_states (fold (scan_dep iss x i) ds s)))"
  by (induction ds arbitrary: s; use scan_dep_keys in fastforce)+

definition local_state :: "rissues \<Rightarrow> string \<Rightarrow> dep_state" where
  "local_state iss x = (if closed_id iss x then DepSatisfied
                        else join_states (map (dep_local iss {}) (deps_of iss x)))"

lemma scan_issue_effect:
  fixes x s
  assumes "mget iss x = Some i"
  defines "s' \<equiv> scan_issue iss x s"
  shows "mget_or DepSatisfied (sc_states s') y =
           (if y = x then local_state iss x else mget_or DepSatisfied (sc_states s) y) \<and>
         mget_or 0 (sc_pending s') y =
           mget_or 0 (sc_pending s) y + (if y = x \<and> live iss {} x then int (wait_count iss {} x) else 0) \<and>
         mget_or [] (sc_children s') p = mget_or [] (sc_children s) p @ replicate (pc_count iss x p) x"
  using scan_deps_effect[OF assms(1), of "ri_deps i" "s\<lparr>sc_states := mput x DepSatisfied (sc_states s)\<rparr>" y p]
  by (simp add: s'_def scan_issue_def assms(1) local_state_def join_states_def deps_of_def
      wait_count_def pc_count_def)

lemma scan_issue_keys:
  assumes "mget iss x = Some i"
  shows "set (mkeys (sc_states (scan_issue iss x s))) = insert x (set (mkeys (sc_states s)))"
  using scan_deps_keys[where ds = "ri_deps i" and s = "s\<lparr>sc_states := mput x DepSatisfied (sc_states s)\<rparr>"
      and iss = iss and x = x and i = i]
  by (auto simp: scan_issue_def assms)

lemma scan_fold_effect:
  fixes s
  assumes "\<And>x. x \<in> set ord \<Longrightarrow> mget iss x \<noteq> None" and "distinct ord"
  defines "s' \<equiv> fold (scan_issue iss) ord s"
  shows "mget_or DepSatisfied (sc_states s') y =
           (if y \<in> set ord then local_state iss y else mget_or DepSatisfied (sc_states s) y) \<and>
         mget_or 0 (sc_pending s') y =
           mget_or 0 (sc_pending s) y + (if y \<in> set ord \<and> live iss {} y then int (wait_count iss {} y) else 0) \<and>
         mget_or [] (sc_children s') p =
           mget_or [] (sc_children s) p @ concat (map (\<lambda>x. replicate (pc_count iss x p) x) ord) \<and>
         set (mkeys (sc_states s')) = set ord \<union> set (mkeys (sc_states s))"
  unfolding s'_def using assms(1,2)
proof (induction ord arbitrary: s)
  case Nil
  then show ?case by simp
next
  case (Cons x ord)
  then obtain i where i: "mget iss x = Some i" by force
  have "mget iss z \<noteq> None" if "z \<in> set ord" for z using Cons.prems(1) that by simp
  from Cons.IH[OF this, of "scan_issue iss x s"] Cons.prems(2)
    scan_issue_effect[OF i, of s y p] scan_issue_keys[OF i, of s]
  show ?case by auto
qed

lemma count_list_replicate: "count_list (replicate n x) c = (if c = x then n else 0)"
  by (induction n) auto

lemma count_concat_replicate:
  "distinct ord \<Longrightarrow> count_list (concat (map (\<lambda>x. replicate (f x) x) ord)) c = (if c \<in> set ord then f c else 0)"
  by (induction ord) (auto simp: count_list_replicate)

lemma scan_all_effect:
  assumes "range_order iss ord"
  shows "mget iss y \<noteq> None \<Longrightarrow> mget_or DepSatisfied (sc_states (scan_all iss ord)) y = local_state iss y"
    and "mget_or 0 (sc_pending (scan_all iss ord)) y = (if live iss {} y then int (wait_count iss {} y) else 0)"
    and "count_list (mget_or [] (sc_children (scan_all iss ord)) p) c = pc_count iss c p"
    and "set (mget_or [] (sc_children (scan_all iss ord)) p) \<subseteq> set (mkeys iss)"
    and "set (mkeys (sc_states (scan_all iss ord))) = set (mkeys iss)"
proof -
  have ord: "distinct ord" "set ord = set (mkeys iss)" using assms by (auto simp: range_order_def)
  have ex: "mget iss x \<noteq> None" if "x \<in> set ord" for x using that ord by (auto simp: mkeys_ex)
  note e = scan_fold_effect[OF ex ord(1), of "\<lparr>sc_states = [], sc_children = [], sc_pending = []\<rparr>", simplified]
  show "mget iss y \<noteq> None \<Longrightarrow> mget_or DepSatisfied (sc_states (scan_all iss ord)) y = local_state iss y"
    using e[of y p] ord by (auto simp: scan_all_def mkeys_ex)
  show "mget_or 0 (sc_pending (scan_all iss ord)) y = (if live iss {} y then int (wait_count iss {} y) else 0)"
    using e[of y p] ord by (auto simp: scan_all_def mkeys_ex live_def)
  show "count_list (mget_or [] (sc_children (scan_all iss ord)) p) c = pc_count iss c p"
    using e[of y p] ord count_concat_replicate[OF ord(1), of "\<lambda>x. pc_count iss x p" c]
    by (auto simp: scan_all_def pc_count_def deps_of_def mkeys_ex split: option.splits)
  show "set (mget_or [] (sc_children (scan_all iss ord)) p) \<subseteq> set (mkeys iss)"
    using e[of y p] ord by (auto simp: scan_all_def)
  show "set (mkeys (sc_states (scan_all iss ord))) = set (mkeys iss)"
    using e[of y p] ord by (simp add: scan_all_def)
qed

section \<open>The work-list\<close>

lemma relax_effect_all:
  assumes "relax_children iss k cs st pd = (st', pd', new)" and "k \<notin> set cs"
  shows "(\<forall>c. mget_or DepSatisfied st' c =
            (if c \<in> set cs \<and> \<not> closed_id iss c
             then max (mget_or DepSatisfied st c) (mget_or DepSatisfied st k) else mget_or DepSatisfied st c)) \<and>
    (\<forall>c. mget_or 0 pd' c = mget_or 0 pd c - (if closed_id iss c then 0 else int (count_list cs c))) \<and>
    set (mkeys st') \<subseteq> set (mkeys st) \<union> set cs \<and> set (mkeys st) \<subseteq> set (mkeys st') \<and>
    ((\<forall>c \<in> set cs. \<not> closed_id iss c \<longrightarrow> int (count_list cs c) \<le> mget_or 0 pd c) \<longrightarrow>
       distinct new \<and>
       set new = {c \<in> set cs. \<not> closed_id iss c \<and> mget_or 0 pd c = int (count_list cs c)})"
  using assms
proof (induction cs arbitrary: st pd st' pd' new)
  case Nil
  then show ?case by simp
next
  case (Cons b cs)
  show ?case
  proof (cases "closed_id iss b")
    case True
    then have "relax_children iss k cs st pd = (st', pd', new)" using Cons.prems by simp
    from Cons.IH[OF this] Cons.prems(2) True show ?thesis by auto
  next
    case False
    let ?st = "mput b (combine_state (mget_or DepSatisfied st b) (mget_or DepSatisfied st k)) st"
    let ?n = "mget_or 0 pd b - 1"
    obtain st2 pd2 new2 where r: "relax_children iss k cs ?st (mput b ?n pd) = (st2, pd2, new2)"
      by (metis prod_cases3)
    have eqs: "st' = st2" "pd' = pd2" "new = (if ?n = 0 then [b] else []) @ new2"
      using r Cons.prems(1) False by (auto simp: Let_def)
    have cnt: "\<exists>m. count_list cs b = Suc m" if "b \<in> set cs"
      using that by (metis count_list_0_iff not0_implies_Suc)
    from Cons.IH[OF r] Cons.prems(2)
    have A: "mget_or DepSatisfied st2 c =
            (if c \<in> set cs \<and> \<not> closed_id iss c
             then max (mget_or DepSatisfied ?st c) (mget_or DepSatisfied ?st k) else mget_or DepSatisfied ?st c)"
      and B: "mget_or 0 pd2 c = mget_or 0 (mput b ?n pd) c - (if closed_id iss c then 0 else int (count_list cs c))"
      and C: "set (mkeys st2) \<subseteq> set (mkeys ?st) \<union> set cs" "set (mkeys ?st) \<subseteq> set (mkeys st2)"
      and D: "(\<forall>c \<in> set cs. \<not> closed_id iss c \<longrightarrow> int (count_list cs c) \<le> mget_or 0 (mput b ?n pd) c) \<Longrightarrow>
         distinct new2 \<and>
         set new2 = {c \<in> set cs. \<not> closed_id iss c \<and> mget_or 0 (mput b ?n pd) c = int (count_list cs c)}"
      for c by simp_all
    have E: "distinct new \<and> set new = {c \<in> set (b # cs). \<not> closed_id iss c \<and> mget_or 0 pd c = int (count_list (b # cs) c)}"
      if le: "\<forall>c \<in> set (b # cs). \<not> closed_id iss c \<longrightarrow> int (count_list (b # cs) c) \<le> mget_or 0 pd c"
    proof -
      have "\<forall>c \<in> set cs. \<not> closed_id iss c \<longrightarrow> int (count_list cs c) \<le> mget_or 0 (mput b ?n pd) c"
      proof (intro ballI impI)
        fix c assume "c \<in> set cs" "\<not> closed_id iss c"
        with le show "int (count_list cs c) \<le> mget_or 0 (mput b ?n pd) c"
          by (cases "c = b") force+
      qed
      note d = D[OF this]
      have lb: "int (count_list cs b) \<le> ?n" using le False by force
      have mem2: "c \<in> set new2 \<longleftrightarrow>
          c \<in> set cs \<and> \<not> closed_id iss c \<and> mget_or 0 (mput b ?n pd) c = int (count_list cs c)" for c
        using d by blast
      have b2: "b \<in> set new2 \<longleftrightarrow> b \<in> set cs \<and> ?n = int (count_list cs b)"
        using mem2[of b] False by simp
      have n0: "?n = 0 \<Longrightarrow> b \<notin> set cs" using lb cnt by force
      have "b \<in> set new \<longleftrightarrow> ?n = int (count_list cs b)"
        using b2 n0 eqs(3) by (cases "b \<in> set cs") auto
      then have memb: "b \<in> set new \<longleftrightarrow> mget_or 0 pd b = int (count_list (b # cs) b)" by auto
      have "c \<in> set new \<longleftrightarrow>
          c \<in> set (b # cs) \<and> \<not> closed_id iss c \<and> mget_or 0 pd c = int (count_list (b # cs) c)" for c
      proof (cases "c = b")
        case True
        then show ?thesis using memb False by simp
      next
        case neq: False
        then have "c \<in> set new \<longleftrightarrow> c \<in> set new2" by (simp add: eqs(3))
        with neq mem2[of c] show ?thesis by simp
      qed
      moreover have "distinct new" using d b2 n0 by (simp add: eqs(3))
      ultimately show ?thesis by blast
    qed
    show ?thesis
    proof (intro conjI allI impI)
      fix c
      show "mget_or DepSatisfied st' c =
            (if c \<in> set (b # cs) \<and> \<not> closed_id iss c
             then max (mget_or DepSatisfied st c) (mget_or DepSatisfied st k) else mget_or DepSatisfied st c)"
        using A[of c] Cons.prems(2) False by (auto simp: eqs(1) combine_state_max)
      show "mget_or 0 pd' c = mget_or 0 pd c - (if closed_id iss c then 0 else int (count_list (b # cs) c))"
        using B[of c] False by (simp add: eqs(2))
      show "set (mkeys st') \<subseteq> set (mkeys st) \<union> set (b # cs)" "set (mkeys st) \<subseteq> set (mkeys st')"
        using C by (auto simp: eqs(1))
    next
      assume "\<forall>c \<in> set (b # cs). \<not> closed_id iss c \<longrightarrow> int (count_list (b # cs) c) \<le> mget_or 0 pd c"
      from E[OF this] show "distinct new"
        and "set new = {c \<in> set (b # cs). \<not> closed_id iss c \<and> mget_or 0 pd c = int (count_list (b # cs) c)}"
        by blast+
    qed
  qed
qed

lemma relax_effect:
  assumes "relax_children iss k cs st pd = (st', pd', new)" and "k \<notin> set cs"
  shows "mget_or DepSatisfied st' c =
           (if c \<in> set cs \<and> \<not> closed_id iss c
            then max (mget_or DepSatisfied st c) (mget_or DepSatisfied st k) else mget_or DepSatisfied st c)"
    and "mget_or 0 pd' c = mget_or 0 pd c - (if closed_id iss c then 0 else int (count_list cs c))"
    and "set (mkeys st') \<subseteq> set (mkeys st) \<union> set cs" and "set (mkeys st) \<subseteq> set (mkeys st')"
    and "(\<And>c. c \<in> set cs \<Longrightarrow> \<not> closed_id iss c \<Longrightarrow> int (count_list cs c) \<le> mget_or 0 pd c) \<Longrightarrow>
         distinct new \<and>
         set new = {c \<in> set cs. \<not> closed_id iss c \<and> mget_or 0 pd c = int (count_list cs c)}"
  using relax_effect_all[OF assms] by auto

definition contrib :: "rissues \<Rightarrow> string set \<Rightarrow> readiness_dep \<Rightarrow> dep_state" where
  "contrib iss P d =
     (if rd_kind d = DepParentChild \<and> live iss {} (rd_on d)
      then (if rd_on d \<in> P then spec_state iss {} (rd_on d) else DepSatisfied)
      else dep_local iss {} d)"

text \<open>\<open>P\<close> is the set of ids taken from the queue so far.\<close>

definition drain_inv ::
  "rissues \<Rightarrow> string set \<Rightarrow> string list \<Rightarrow> (string, dep_state) gomap \<Rightarrow> (string, int) gomap \<Rightarrow> bool" where
  "drain_inv iss P q st pd \<longleftrightarrow>
     (\<forall>x. mget_or 0 pd x = (if live iss {} x then int (wait_count iss P x) else 0)) \<and>
     distinct q \<and> set q = {x. live iss {} x \<and> x \<notin> P \<and> wait_count iss P x = 0} \<and>
     (\<forall>x. live iss {} x \<longrightarrow> mget_or DepSatisfied st x = join_states (map (contrib iss P) (deps_of iss x))) \<and>
     (\<forall>x. closed_id iss x \<longrightarrow> mget_or DepSatisfied st x = DepSatisfied) \<and>
     (\<forall>x \<in> P. live iss {} x \<and> wait_count iss P x = 0) \<and>
     set (mkeys st) = set (mkeys iss)"

lemma wait_count_0: "wait_count iss P x = 0 \<longleftrightarrow>
    (\<forall>d \<in> set (deps_of iss x). rd_kind d = DepParentChild \<and> live iss {} (rd_on d) \<longrightarrow> rd_on d \<in> P)"
  by (auto simp: wait_count_def filter_empty_conv)

lemma pc_count_0: "pc_count iss x p = 0 \<longleftrightarrow> (\<forall>d \<in> set (deps_of iss x). \<not> (rd_kind d = DepParentChild \<and> rd_on d = p))"
  by (auto simp: pc_count_def filter_empty_conv)

lemma wait_count_insert:
  assumes "live iss {} k" and "k \<notin> P"
  shows "wait_count iss P x = wait_count iss (insert k P) x + pc_count iss x k"
proof -
  have "length (filter (\<lambda>d. rd_kind d = DepParentChild \<and> live iss {} (rd_on d) \<and> rd_on d \<notin> P) ds) =
      length (filter (\<lambda>d. rd_kind d = DepParentChild \<and> live iss {} (rd_on d) \<and> rd_on d \<notin> insert k P) ds) +
      length (filter (\<lambda>d. rd_kind d = DepParentChild \<and> rd_on d = k) ds)" for ds
    using assms by (induction ds) auto
  then show ?thesis by (simp add: wait_count_def pc_count_def)
qed

lemma settled_state:
  assumes "live iss {} x" and "wait_count iss P x = 0"
  shows "join_states (map (contrib iss P) (deps_of iss x)) = spec_state iss {} x"
proof -
  have "contrib iss P d = dep_spec iss {} d" if "d \<in> set (deps_of iss x)" for d
    using assms that by (auto simp: contrib_def dep_spec_eq wait_count_0)
  then have eq: "map (contrib iss P) (deps_of iss x) = map (dep_spec iss {}) (deps_of iss x)" by simp
  show ?thesis unfolding spec_unfold[OF assms(1)] eq ..
qed

lemma contrib_insert:
  assumes "live iss {} k" and "k \<notin> P"
  shows "join_states (map (contrib iss (insert k P)) (deps_of iss x)) =
    (if pc_count iss x k = 0 then join_states (map (contrib iss P) (deps_of iss x))
     else max (join_states (map (contrib iss P) (deps_of iss x))) (spec_state iss {} k))"
  by (rule dep_state_eqI) (use assms in \<open>auto simp: pc_count_0 contrib_def\<close>)

lemma drain_step:
  assumes inv: "drain_inv iss P (k # q) st pd"
    and rel: "relax_children iss k (mget_or [] ch k) st pd = (st', pd', new)"
    and ch: "\<And>p c. count_list (mget_or [] ch p) c = pc_count iss c p"
    and ch_keys: "\<And>p. set (mget_or [] ch p) \<subseteq> set (mkeys iss)"
  shows "drain_inv iss (insert k P) (q @ new) st' pd'"
proof -
  let ?cs = "mget_or [] ch k"
  have k: "live iss {} k" "k \<notin> P" "wait_count iss P k = 0" using inv by (auto simp: drain_inv_def)
  have mem: "c \<in> set ?cs \<longleftrightarrow> pc_count iss c k \<noteq> 0" for c
    using ch[of k c] count_list_0_iff[of ?cs c] by simp
  have wk: "wait_count iss P x = wait_count iss (insert k P) x + pc_count iss x k" for x
    using wait_count_insert[OF k(1,2)] .
  have k_cs: "k \<notin> set ?cs" using mem[of k] wk[of k] k(3) by simp
  have exists: "c \<in> set ?cs \<Longrightarrow> mget iss c \<noteq> None" for c using ch_keys[of k] by (auto simp: mkeys_ex)
  have live_cs: "c \<in> set ?cs \<and> \<not> closed_id iss c \<longleftrightarrow> pc_count iss c k \<noteq> 0 \<and> live iss {} c" for c
    using exists[of c] mem[of c] by (auto simp: live_empty)
  have pd: "mget_or 0 pd x = (if live iss {} x then int (wait_count iss P x) else 0)" for x
    using inv by (simp add: drain_inv_def)
  have st_k: "mget_or DepSatisfied st k = spec_state iss {} k"
    using inv k settled_state by (simp add: drain_inv_def)
  note eff = relax_effect[OF rel k_cs]
  have new: "distinct new" "set new = {c \<in> set ?cs. \<not> closed_id iss c \<and> mget_or 0 pd c = int (count_list ?cs c)}"
  proof -
    have "int (count_list ?cs c) \<le> mget_or 0 pd c" if "c \<in> set ?cs" "\<not> closed_id iss c" for c
      using that live_cs[of c] pd[of c] wk[of c] ch[of k c] by simp
    then show "distinct new" "set new = {c \<in> set ?cs. \<not> closed_id iss c \<and> mget_or 0 pd c = int (count_list ?cs c)}"
      using eff(5) by auto
  qed
  have new': "set new = {c. live iss {} c \<and> pc_count iss c k \<noteq> 0 \<and> wait_count iss (insert k P) c = 0}"
    unfolding new(2) using live_cs pd wk ch by auto
  have q: "distinct (k # q)" "set (k # q) = {x. live iss {} x \<and> x \<notin> P \<and> wait_count iss P x = 0}"
    and Pw: "\<forall>x \<in> P. live iss {} x \<and> wait_count iss P x = 0"
    and keys: "set (mkeys st) = set (mkeys iss)"
    using inv by (auto simp: drain_inv_def)
  have new_out: "c \<notin> P \<and> c \<noteq> k \<and> c \<notin> set (k # q)" if "c \<in> set new" for c
    using that new' wk[of c] Pw q(2) k_cs mem[of c] by auto
  show ?thesis
    unfolding drain_inv_def
  proof (intro conjI)
    show "\<forall>x. mget_or 0 pd' x = (if live iss {} x then int (wait_count iss (insert k P) x) else 0)"
      using eff(2) pd wk ch by (auto simp: live_empty pc_count_def deps_of_def closed_id_def split: option.splits)
    show "distinct (q @ new)" using new(1) q(1) new_out by auto
    show "set (q @ new) = {x. live iss {} x \<and> x \<notin> insert k P \<and> wait_count iss (insert k P) x = 0}"
      using q new' new_out wk by (auto; fastforce)
    show "\<forall>x. live iss {} x \<longrightarrow>
        mget_or DepSatisfied st' x = join_states (map (contrib iss (insert k P)) (deps_of iss x))"
      using eff(1) inv contrib_insert[OF k(1,2)] st_k mem by (auto simp: drain_inv_def live_empty)
    show "\<forall>x. closed_id iss x \<longrightarrow> mget_or DepSatisfied st' x = DepSatisfied"
      using eff(1) inv by (auto simp: drain_inv_def)
    show "\<forall>x \<in> insert k P. live iss {} x \<and> wait_count iss (insert k P) x = 0"
      using Pw k wk by fastforce
    show "set (mkeys st') = set (mkeys iss)"
      using eff(3,4) keys ch_keys by blast
  qed
qed

lemma drain_result:
  assumes "drain_inv iss P q st pd"
    and "\<And>p c. count_list (mget_or [] ch p) c = pc_count iss c p"
    and "\<And>p. set (mget_or [] ch p) \<subseteq> set (mkeys iss)"
  shows "\<exists>P'. drain_inv iss P' [] (fst (drain iss ch q st pd)) (snd (drain iss ch q st pd))"
  using assms
proof (induction iss ch q st pd arbitrary: P rule: drain.induct)
  case (1 iss ch st pd)
  then show ?case by auto
next
  case (2 iss ch k q st pd)
  obtain st' pd' new where r: "relax_children iss k (mget_or [] ch k) st pd = (st', pd', new)"
    by (metis prod_cases3)
  from "2.IH"[OF r[symmetric] refl drain_step[OF "2.prems"(1) r "2.prems"(2,3)] "2.prems"(2,3)] r
  show ?case by simp
qed

section \<open>Unresolved ids reach a parent cycle\<close>

lemma finite_successors_cycle:
  assumes "finite U" and "x \<in> U" and succ: "\<And>y. y \<in> U \<Longrightarrow> \<exists>z \<in> U. (y, z) \<in> E"
  shows "\<exists>a. (x, a) \<in> E\<^sup>* \<and> (a, a) \<in> E\<^sup>+"
proof (rule ccontr)
  assume no: "\<not> ?thesis"
  let ?V = "{y \<in> U. (x, y) \<in> E\<^sup>*}"
  let ?F = "E \<inter> ?V \<times> ?V"
  have "finite ?F" using assms(1) by (auto intro: finite_subset[of _ "U \<times> U"])
  moreover have "acyclic ?F"
  proof (rule acyclicI, intro allI notI)
    fix a assume a: "(a, a) \<in> ?F\<^sup>+"
    then have "a \<in> ?V" by (meson IntD2 mem_Sigma_iff tranclD)
    moreover have "(a, a) \<in> E\<^sup>+" using a trancl_mono[OF a, of E] by blast
    ultimately show False using no by blast
  qed
  ultimately have "wf (?F\<inverse>)" by (rule finite_acyclic_wf_converse)
  moreover have "x \<in> ?V" using assms(2) by simp
  ultimately obtain m where m: "m \<in> ?V" "\<And>y. (y, m) \<in> ?F\<inverse> \<Longrightarrow> y \<notin> ?V"
    by (rule wfE_min) blast
  then obtain z where z: "z \<in> U" "(m, z) \<in> E" using succ by blast
  with m(1) have "z \<in> ?V" by auto
  with m z show False by blast
qed

lemma unresolved_unknown:
  assumes inv: "drain_inv iss P [] st pd" and x: "live iss {} x" "x \<notin> P"
  shows "spec_state iss {} x = DepUnknown"
proof -
  let ?U = "{y. live iss {} y \<and> y \<notin> P}"
  have fin: "finite ?U"
    by (rule finite_subset[of _ "set (mkeys iss)"]) (auto simp: live_def mkeys_ex)
  have "\<exists>z \<in> ?U. (y, z) \<in> parent_edges iss {}" if "y \<in> ?U" for y
  proof -
    have "wait_count iss P y \<noteq> 0" using inv that by (auto simp: drain_inv_def)
    then show ?thesis using that by (auto simp: wait_count_0 parent_edge_iff)
  qed
  from finite_successors_cycle[OF fin _ this] x obtain a
    where "(x, a) \<in> (parent_edges iss {})\<^sup>*" "(a, a) \<in> (parent_edges iss {})\<^sup>+" by blast
  then show ?thesis using spec_cycle[OF x(1)] by blast
qed

lemma mark_unresolved_get:
  "mget (mark_unresolved ord pd st) x =
     (if x \<in> set ord \<and> mget_or 0 pd x > 0 then Some DepUnknown else mget st x)"
  unfolding mark_unresolved_def
  by (induction ord arbitrary: st) auto

lemma initial_inv:
  assumes "range_order iss ord1" and "range_order iss ord2"
  shows "drain_inv iss {} (initial_queue iss (scan_all iss ord1) ord2)
           (sc_states (scan_all iss ord1)) (sc_pending (scan_all iss ord1))"
proof -
  note e = scan_all_effect[OF assms(1)]
  have ord2: "distinct ord2" "\<And>x. x \<in> set ord2 \<longleftrightarrow> mget iss x \<noteq> None"
    using assms(2) by (auto simp: range_order_def mkeys_ex)
  have contrib: "contrib iss {} d = dep_local iss {} d" for d
    by (auto simp: contrib_def dep_local_def live_def)
  have "mget_or DepSatisfied (sc_states (scan_all iss ord1)) x = DepSatisfied" if "closed_id iss x" for x
    using e(1)[of x] that by (auto simp: local_state_def closed_id_def split: option.splits)
  moreover have "mget_or DepSatisfied (sc_states (scan_all iss ord1)) x =
      join_states (map (contrib iss {}) (deps_of iss x))" if "live iss {} x" for x
    using e(1)[of x] that by (simp add: local_state_def live_empty contrib cong: map_cong)
  ultimately show ?thesis
    using e(2,5) ord2 by (auto simp: drain_inv_def initial_queue_def live_empty)
qed

text \<open>The state that \<open>compute\<close> stores for every id, whatever the three range orders are.\<close>

lemma compute_state:
  assumes "range_order iss ord1" "range_order iss ord2" "range_order iss ord3"
  shows "dependency_state (compute ord1 ord2 ord3 iss) x = spec_state iss {} x"
proof -
  let ?s = "scan_all iss ord1"
  obtain st pd where d: "drain iss (sc_children ?s) (initial_queue iss ?s ord2) (sc_states ?s) (sc_pending ?s) = (st, pd)"
    by fastforce
  note e = scan_all_effect[OF assms(1)]
  from drain_result[OF initial_inv[OF assms(1,2)] e(3,4)] d obtain P where inv: "drain_inv iss P [] st pd"
    by auto
  have st: "dependency_state (compute ord1 ord2 ord3 iss) x =
      mget_or DepUnknown (mark_unresolved ord3 pd st) x"
    by (simp add: compute_def d dependency_state_def)
  have keys: "mget st y = None \<longleftrightarrow> mget iss y = None" for y
    using inv by (simp add: drain_inv_def mget_None_iff)
  consider (missing) "mget iss x = None" | (closed) "closed_id iss x" "mget iss x \<noteq> None"
    | (opened) "live iss {} x" by (auto simp: live_empty)
  then show ?thesis
  proof cases
    case missing
    moreover have "x \<notin> set ord3" using missing assms(3) by (simp add: range_order_def mget_None_iff)
    ultimately show ?thesis
      using keys[of x] by (simp add: st mget_or_def mark_unresolved_get spec_state_def)
  next
    case closed
    then have "mget_or 0 pd x = 0" "mget_or DepSatisfied st x = DepSatisfied"
      using inv by (auto simp: drain_inv_def live_empty)
    with closed keys[of x] show ?thesis
      by (auto simp: st mget_or_def mark_unresolved_get spec_state_def settled_def split: option.splits)
  next
    case opened
    then have ex: "mget iss x \<noteq> None" "x \<in> set ord3"
      using assms(3) by (auto simp: live_def range_order_def mkeys_ex)
    have pd: "mget_or 0 pd x = int (wait_count iss P x)"
      and stx: "mget_or DepSatisfied st x = join_states (map (contrib iss P) (deps_of iss x))"
      using inv opened by (auto simp: drain_inv_def)
    show ?thesis
    proof (cases "x \<in> P")
      case True
      then have "wait_count iss P x = 0" using inv by (simp add: drain_inv_def)
      with pd stx settled_state[OF opened this] keys[of x] ex show ?thesis
        by (auto simp: st mget_or_def mark_unresolved_get split: option.splits)
    next
      case False
      then have "wait_count iss P x \<noteq> 0" using inv opened by (auto simp: drain_inv_def)
      with pd unresolved_unknown[OF inv opened False] ex show ?thesis
        by (simp add: st mget_or_def mark_unresolved_get)
    qed
  qed
qed

end
