(* ===== verification/Bv_Readiness_Props.thy ===== *)
theory Bv_Readiness_Props
  imports Bv_Readiness_Compute
begin

text \<open>
  What \<open>pkg/model/readiness.go\<close> promises to its callers: the stored state is the specification for
  every range order, the what-if query agrees with rebuilding the index, completing work never
  withdraws ready work, and the list of blockers is empty exactly when nothing withholds the issue.
\<close>

definition demo_dep :: "string \<Rightarrow> dep_type \<Rightarrow> dependency option" where
  "demo_dep on k = Some \<lparr>dep_issue_id = [], dep_on = on, dep_kind = k, dep_created_at = 0, dep_created_by = []\<rparr>"

definition demo_task :: "string \<Rightarrow> dependency option list \<Rightarrow> issue" where
  "demo_task i ds = zero_issue\<lparr>issue_id := i, title := i, status := StatusOpen, kind := ''task'', dependencies := ds\<rparr>"

text \<open>A blocker, a blocked parent, its child, and an issue that waits for the child.\<close>

definition demo_tracker :: "issue list" where
  "demo_tracker =
     [demo_task ''b'' [], demo_task ''p'' [demo_dep ''b'' DepBlocks],
      demo_task ''c'' [None, demo_dep ''p'' DepParentChild], demo_task ''d'' [demo_dep ''c'' []]]"

lemmas demo_defs = demo_tracker_def demo_task_def demo_dep_def zero_issue_def status_defs dep_type_defs

lemma own_issues_ok [simp]: "gomap_ok (own_issues issues)"
proof -
  have "gomap_ok m \<Longrightarrow> gomap_ok (fold (\<lambda>i m. mput (issue_id i) (own_issue i) m) issues m)" for m
    by (induction issues arbitrary: m) auto
  then show ?thesis by (simp add: own_issues_def)
qed

lemma own_issues_keys: "set (mkeys (own_issues issues)) = issue_id ` set issues"
proof -
  have "set (mkeys (fold (\<lambda>i m. mput (issue_id i) (own_issue i) m) issues m)) = issue_id ` set issues \<union> set (mkeys m)" for m
    by (induction issues arbitrary: m) auto
  from this[of "[]"] show ?thesis by (simp add: own_issues_def)
qed

lemma demo_orders:
  "range_order (own_issues demo_tracker) [''b'', ''p'', ''c'', ''d'']"
  "range_order (own_issues demo_tracker) [''d'', ''c'', ''b'', ''p'']"
  by (auto simp: range_order_def own_issues_keys demo_defs)

section \<open>The stored state\<close>

text \<open>C4: The index that \<open>NewReadinessIndex\<close> builds stores for every id the declarative state: unknown
  for an id that is not in the source; satisfied for a closed one; otherwise the worst condition at
  the issue or at any ancestor through open parents, however far, where a missing blocker, a missing
  parent or a parent cycle is unknown and an open blocker is unsatisfied. The result is the same for
  all orders in which the three map ranges of \<open>compute\<close> may run.\<close>

theorem readiness_state_correct:
  assumes "range_order (own_issues issues) ord1" "range_order (own_issues issues) ord2"
    "range_order (own_issues issues) ord3"
  shows "dependency_state (new_readiness_index ord1 ord2 ord3 issues) x = spec_state (own_issues issues) {} x"
  unfolding new_readiness_index_def using assms by (rule compute_state)

lemma readiness_state_correct_witness:
  "dependency_state (new_readiness_index [''b'', ''p'', ''c'', ''d''] [''d'', ''c'', ''b'', ''p'']
     [''b'', ''p'', ''c'', ''d''] demo_tracker) ''c'' = spec_state (own_issues demo_tracker) {} ''c'' \<and>
   dependency_state (new_readiness_index [''b'', ''p'', ''c'', ''d''] [''d'', ''c'', ''b'', ''p'']
     [''b'', ''p'', ''c'', ''d''] demo_tracker) ''c'' = DepUnsatisfied"
proof
  show "dependency_state (new_readiness_index [''b'', ''p'', ''c'', ''d''] [''d'', ''c'', ''b'', ''p'']
     [''b'', ''p'', ''c'', ''d''] demo_tracker) ''c'' = spec_state (own_issues demo_tracker) {} ''c''"
    by (rule readiness_state_correct [OF demo_orders demo_orders(1)])
  show "dependency_state (new_readiness_index [''b'', ''p'', ''c'', ''d''] [''d'', ''c'', ''b'', ''p'']
     [''b'', ''p'', ''c'', ''d''] demo_tracker) ''c'' = DepUnsatisfied"
    by code_simp
qed

section \<open>What-if queries\<close>

text \<open>The tracker in which the ids in \<open>completed\<close> have been closed.\<close>

definition close_ids :: "string list \<Rightarrow> rissues \<Rightarrow> rissues" where
  "close_ids completed iss =
     map (\<lambda>(k, i). (k, if k \<in> set completed then i\<lparr>ri_status := StatusClosed\<rparr> else i)) iss"

lemma mget_close_ids:
  "mget (close_ids completed iss) x =
     map_option (\<lambda>i. if x \<in> set completed then i\<lparr>ri_status := StatusClosed\<rparr> else i) (mget iss x)"
  by (induction iss) (auto simp: close_ids_def mget_def)

lemma range_order_close_ids [simp]: "range_order (close_ids completed iss) ord = range_order iss ord"
  by (simp add: range_order_def mkeys_def close_ids_def case_prod_beta comp_def)

lemma live_close_ids: "live (close_ids completed iss) {} x = live iss (set completed) x"
  by (cases "x \<in> set completed")
    (auto simp: live_def settled_def closed_id_def mget_close_ids closed_for_readiness_def
      split: option.splits)

lemma deps_of_close_ids: "deps_of (close_ids completed iss) x = deps_of iss x"
  by (auto simp: deps_of_def mget_close_ids split: option.splits)

lemma settled_close_ids:
  "mget iss x \<noteq> None \<Longrightarrow> settled (close_ids completed iss) {} x = settled iss (set completed) x"
  by (cases "x \<in> set completed")
    (auto simp: settled_def closed_id_def mget_close_ids closed_for_readiness_def)

lemma dep_local_close_ids: "dep_local (close_ids completed iss) {} d = dep_local iss (set completed) d"
  using settled_close_ids[of iss "rd_on d" completed] by (auto simp: dep_local_def mget_close_ids)

lemma parent_edges_close_ids: "parent_edges (close_ids completed iss) {} = parent_edges iss (set completed)"
proof -
  have "(x, p) \<in> parent_edges (close_ids completed iss) {} \<longleftrightarrow> (x, p) \<in> parent_edges iss (set completed)" for x p
    by (simp add: parent_edge_iff live_close_ids deps_of_close_ids)
  then show ?thesis by auto
qed

lemma spec_state_close_ids: "spec_state (close_ids completed iss) {} x = spec_state iss (set completed) x"
proof -
  have "condition_of (close_ids completed iss) {} = condition_of iss (set completed)"
    by (rule ext) (simp add: condition_of_def deps_of_close_ids parent_edges_close_ids
        dep_local_close_ids cong: map_cong)
  then show ?thesis
    using settled_close_ids[of iss x completed]
    by (auto simp: spec_state_def mget_close_ids parent_edges_close_ids)
qed

lemma ready_spec:
  assumes "range_order iss ord1" "range_order iss ord2" "range_order iss ord3"
  shows "ready (compute ord1 ord2 ord3 iss) x now \<longleftrightarrow>
    (\<exists>i. mget iss x = Some i \<and> (ri_status i = StatusOpen \<or> ri_status i = StatusInProgress) \<and>
         \<not> ri_is_deferred_at i now \<and> spec_state iss {} x = DepSatisfied)"
proof -
  have "rx_issues (compute ord1 ord2 ord3 iss) = iss" by (simp add: compute_def Let_def split: prod.splits)
  then show ?thesis using compute_state[OF assms] by (auto simp: ready_def split: option.splits)
qed

lemma ready_after_spec:
  assumes "range_order iss ord1" "range_order iss ord2" "range_order iss ord3"
  shows "ready_after (compute ord1 ord2 ord3 iss) x now completed \<longleftrightarrow>
    (\<exists>i. mget iss x = Some i \<and> x \<notin> set completed \<and>
         (ri_status i = StatusOpen \<or> ri_status i = StatusInProgress) \<and>
         \<not> ri_is_deferred_at i now \<and> spec_state iss (set completed) x = DepSatisfied)"
proof -
  have r: "rx_issues (compute ord1 ord2 ord3 iss) = iss" by (simp add: compute_def Let_def split: prod.splits)
  show ?thesis
  proof (cases "completed = []")
    case True
    then show ?thesis using ready_spec[OF assms] by (auto simp: ready_after_def)
  next
    case False
    then show ?thesis by (auto simp: ready_after_def r visit_spec split: option.splits)
  qed
qed

lemma status_clash [simp]: "StatusClosed \<noteq> StatusOpen" "StatusClosed \<noteq> StatusInProgress"
  by (simp_all add: status_defs)

text \<open>C5: \<open>ReadyAfter\<close> with a set of hypothetically completed ids, a memoizing depth-first walk, gives
  the answer that rebuilding the whole index with those issues closed would give, for every tracker
  (cycles, missing parents and shared ancestors included) and every range order of either index.\<close>

theorem ready_after_is_rebuild:
  assumes "range_order iss ord1" "range_order iss ord2" "range_order iss ord3"
    and "range_order iss ord1'" "range_order iss ord2'" "range_order iss ord3'"
  shows "ready_after (compute ord1 ord2 ord3 iss) x now completed =
    ready (compute ord1' ord2' ord3' (close_ids completed iss)) x now"
proof -
  have "ready (compute ord1' ord2' ord3' (close_ids completed iss)) x now \<longleftrightarrow>
    (\<exists>i. mget (close_ids completed iss) x = Some i \<and> (ri_status i = StatusOpen \<or> ri_status i = StatusInProgress) \<and>
         \<not> ri_is_deferred_at i now \<and> spec_state iss (set completed) x = DepSatisfied)"
    using ready_spec[of "close_ids completed iss" ord1' ord2' ord3'] assms(4-6) spec_state_close_ids by simp
  then show ?thesis
    using ready_after_spec[OF assms(1-3)] by (cases "mget iss x") (auto simp: mget_close_ids)
qed

lemma ready_after_is_rebuild_witness:
  "ready_after (compute [''b'', ''p'', ''c'', ''d''] [''d'', ''c'', ''b'', ''p''] [''b'', ''p'', ''c'', ''d'']
      (own_issues demo_tracker)) ''c'' 0 [''b''] =
   ready (compute [''b'', ''p'', ''c'', ''d''] [''b'', ''p'', ''c'', ''d''] [''b'', ''p'', ''c'', ''d'']
      (close_ids [''b''] (own_issues demo_tracker))) ''c'' 0 \<and>
   ready_after (compute [''b'', ''p'', ''c'', ''d''] [''d'', ''c'', ''b'', ''p''] [''b'', ''p'', ''c'', ''d'']
      (own_issues demo_tracker)) ''c'' 0 [''b'']"
  using ready_after_is_rebuild [OF demo_orders demo_orders(1) demo_orders(1) demo_orders(1) demo_orders(1),
      of "''c''" 0 "[''b'']"]
  by (rule conjI) code_simp

section \<open>Completing work never withdraws ready work\<close>

lemma settled_mono: "C \<subseteq> D \<Longrightarrow> settled iss C x \<Longrightarrow> settled iss D x"
  by (auto simp: settled_def)

lemma live_antimono: "C \<subseteq> D \<Longrightarrow> live iss D x \<Longrightarrow> live iss C x"
  using settled_mono by (auto simp: live_def)

lemma parent_edges_antimono: "C \<subseteq> D \<Longrightarrow> parent_edges iss D \<subseteq> parent_edges iss C"
  using live_antimono by (auto simp: parent_edges_def)

lemma dep_local_antimono: "C \<subseteq> D \<Longrightarrow> dep_local iss D d \<le> dep_local iss C d"
  using settled_mono[of C D iss] by (auto simp: dep_local_def)

lemma condition_antimono:
  assumes "C \<subseteq> D"
  shows "condition_of iss D a \<le> condition_of iss C a"
proof -
  have "(a, a) \<in> (parent_edges iss D)\<^sup>+ \<Longrightarrow> (a, a) \<in> (parent_edges iss C)\<^sup>+"
    using trancl_mono[OF _ parent_edges_antimono[OF assms]] by blast
  moreover have "join_states (map (dep_local iss D) ds) \<le> join_states (map (dep_local iss C) ds)" for ds
  proof -
    have "dep_local iss C d \<le> join_states (map (dep_local iss C) ds)" if "d \<in> set ds" for d
      using that by (intro join_states_upper) simp
    then show ?thesis using dep_local_antimono[OF assms] order_trans by fastforce
  qed
  ultimately show ?thesis by (auto simp: condition_of_def)
qed

lemma spec_state_antimono:
  assumes "C \<subseteq> D"
  shows "spec_state iss D x \<le> spec_state iss C x"
proof (cases "live iss D x")
  case True
  have "condition_of iss D a \<le> spec_state iss C x" if "(x, a) \<in> (parent_edges iss D)\<^sup>*" for a
    using condition_antimono[OF assms] condition_le_spec[OF live_antimono[OF assms True]]
      rtrancl_mono[OF parent_edges_antimono[OF assms]] that order_trans by blast
  then show ?thesis using spec_le[OF True] by blast
next
  case False
  then show ?thesis using spec_not_live[of iss D x] by (cases "mget iss x") (auto simp: spec_state_def)
qed

text \<open>C6: Completing more work never withdraws ready work: an issue that is ready after completing a
  set of ids is ready after completing any larger set that does not contain the issue itself.\<close>

theorem ready_after_monotone:
  assumes "range_order iss ord1" "range_order iss ord2" "range_order iss ord3"
    and "ready_after (compute ord1 ord2 ord3 iss) x now completed"
    and "set completed \<subseteq> set completed'" and "x \<notin> set completed'"
  shows "ready_after (compute ord1 ord2 ord3 iss) x now completed'"
  using assms(4-6) spec_state_antimono[OF assms(5), of iss x] ready_after_spec[OF assms(1-3)] by auto

lemma ready_after_monotone_witness:
  "ready_after (compute [''b'', ''p'', ''c'', ''d''] [''d'', ''c'', ''b'', ''p''] [''b'', ''p'', ''c'', ''d'']
      (own_issues demo_tracker)) ''c'' 0 [''p'', ''b'']"
  by (rule ready_after_monotone [OF demo_orders demo_orders(1), of "''c''" 0 "[''b'']"]; code_simp)

section \<open>Explaining why an issue is withheld\<close>

lemma blockers_fold_keys:
  "set (mkeys (fold (\<lambda>d set. if blocks_now r d then mput (rd_on d) True set else set) ds m)) =
     rd_on ` {d \<in> set ds. blocks_now r d} \<union> set (mkeys m)"
  by (induction ds arbitrary: m) auto

lemma blockers_set:
  "mget (rx_issues r) x = Some i \<Longrightarrow> \<not> closed_for_readiness (ri_status i) \<Longrightarrow>
     set (blockers r x) = rd_on ` {d \<in> set (ri_deps i). blocks_now r d}"
  by (simp add: blockers_def blockers_fold_keys)

lemma blocks_now_spec:
  assumes "range_order iss ord1" "range_order iss ord2" "range_order iss ord3"
  shows "blocks_now (compute ord1 ord2 ord3 iss) d \<longleftrightarrow> dep_spec iss {} d \<noteq> DepSatisfied"
proof -
  have "rx_issues (compute ord1 ord2 ord3 iss) = iss" by (simp add: compute_def Let_def split: prod.splits)
  then show ?thesis
    using compute_state[OF assms]
    by (auto simp: blocks_now_def dep_spec_def dep_local_def settled_def)
qed

lemma blockers_sorted: "sorted (blockers r x) \<and> distinct (blockers r x)"
proof -
  have "gomap_ok m \<Longrightarrow> gomap_ok (fold (\<lambda>d set. if blocks_now r d then mput (rd_on d) True set else set) ds m)" for ds m
    by (induction ds arbitrary: m) auto
  then show ?thesis by (auto simp: blockers_def gomap_ok_def split: option.splits)
qed

lemma blockers_empty_iff:
  assumes "range_order iss ord1" "range_order iss ord2" "range_order iss ord3"
    and "mget iss x = Some i" and "\<not> closed_for_readiness (ri_status i)"
  shows "blockers (compute ord1 ord2 ord3 iss) x = [] \<longleftrightarrow>
    dependency_state (compute ord1 ord2 ord3 iss) x = DepSatisfied"
proof -
  let ?r = "compute ord1 ord2 ord3 iss"
  have r: "rx_issues ?r = iss" by (simp add: compute_def Let_def split: prod.splits)
  have live: "live iss {} x" using assms(4,5) by (simp add: live_empty closed_id_def)
  have "blockers ?r x = [] \<longleftrightarrow> (\<forall>d \<in> set (ri_deps i). dep_spec iss {} d = DepSatisfied)"
    using blockers_set[of ?r x i] assms(4,5) r blocks_now_spec[OF assms(1-3)]
    by (metis (mono_tags, lifting) Collect_empty_eq empty_set image_is_empty set_empty)
  also have "\<dots> \<longleftrightarrow> spec_state iss {} x \<le> DepSatisfied"
    using spec_unfold_le[OF live, of DepSatisfied] assms(4) by (auto simp: deps_of_def)
  finally show ?thesis using compute_state[OF assms(1-3)] by simp
qed

text \<open>C7: For an issue that is in the source and not closed, \<open>Blockers\<close> is empty exactly when its
  dependency state is satisfied: an issue withheld for its dependencies always has an id that
  explains it, and an id is only listed for an issue that is withheld. The list is sorted and has
  each id once.\<close>

theorem blockers_explain:
  assumes "range_order iss ord1" "range_order iss ord2" "range_order iss ord3"
    and "mget iss x = Some i" and "\<not> closed_for_readiness (ri_status i)"
  shows "(blockers (compute ord1 ord2 ord3 iss) x = [] \<longleftrightarrow>
      dependency_state (compute ord1 ord2 ord3 iss) x = DepSatisfied) \<and>
    sorted (blockers (compute ord1 ord2 ord3 iss) x) \<and> distinct (blockers (compute ord1 ord2 ord3 iss) x)"
  using blockers_empty_iff[OF assms] blockers_sorted by simp

lemma demo_child: "mget (own_issues demo_tracker) ''c'' = Some (own_issue (demo_task ''c'' [None, demo_dep ''p'' DepParentChild]))"
  by (simp add: own_issues_def demo_tracker_def demo_task_def zero_issue_def)

lemma blockers_explain_witness:
  "(blockers (compute [''b'', ''p'', ''c'', ''d''] [''d'', ''c'', ''b'', ''p''] [''b'', ''p'', ''c'', ''d'']
      (own_issues demo_tracker)) ''c'' = [] \<longleftrightarrow>
    dependency_state (compute [''b'', ''p'', ''c'', ''d''] [''d'', ''c'', ''b'', ''p''] [''b'', ''p'', ''c'', ''d'']
      (own_issues demo_tracker)) ''c'' = DepSatisfied) \<and>
   blockers (compute [''b'', ''p'', ''c'', ''d''] [''d'', ''c'', ''b'', ''p''] [''b'', ''p'', ''c'', ''d'']
      (own_issues demo_tracker)) ''c'' = [''p'']"
proof
  have "\<not> closed_for_readiness (ri_status (own_issue (demo_task ''c'' [None, demo_dep ''p'' DepParentChild])))"
    by (simp add: own_issue_def demo_task_def zero_issue_def closed_for_readiness_def status_defs)
  from blockers_explain [OF demo_orders demo_orders(1) demo_child this]
  show "blockers (compute [''b'', ''p'', ''c'', ''d''] [''d'', ''c'', ''b'', ''p''] [''b'', ''p'', ''c'', ''d'']
      (own_issues demo_tracker)) ''c'' = [] \<longleftrightarrow>
    dependency_state (compute [''b'', ''p'', ''c'', ''d''] [''d'', ''c'', ''b'', ''p''] [''b'', ''p'', ''c'', ''d'']
      (own_issues demo_tracker)) ''c'' = DepSatisfied"
    by blast
qed code_simp

section \<open>Claimable work\<close>

lemma children_live:
  assumes "range_order iss ord1"
  shows "has_open_children (compute ord1 ord2 ord3 iss) p \<longleftrightarrow>
    (\<exists>c d. live iss {} c \<and> d \<in> set (deps_of iss c) \<and> rd_kind d = DepParentChild \<and> rd_on d = p)"
proof -
  have r: "rx_issues (compute ord1 ord2 ord3 iss) = iss"
    "rx_children (compute ord1 ord2 ord3 iss) = sc_children (scan_all iss ord1)"
    by (simp_all add: compute_def Let_def split: prod.splits)
  have "c \<in> set (mget_or [] (sc_children (scan_all iss ord1)) p) \<longleftrightarrow> pc_count iss c p \<noteq> 0" for c
    using scan_all_effect(3)[OF assms, of p c] count_list_0_iff by metis
  moreover have "pc_count iss c p \<noteq> 0 \<Longrightarrow> mget iss c \<noteq> None" for c
    by (auto simp: pc_count_def deps_of_def split: option.splits)
  ultimately show ?thesis
    unfolding has_open_children_def r live_empty by (metis pc_count_0)
qed

text \<open>C8: \<open>Claimable\<close> holds exactly for an existing, open, unassigned, non-epic issue that is not
  deferred, whose declarative dependency state is satisfied and that no open issue names as its
  parent.\<close>

theorem claimable_iff:
  assumes "range_order iss ord1" "range_order iss ord2" "range_order iss ord3"
  shows "claimable (compute ord1 ord2 ord3 iss) x now \<longleftrightarrow>
    (\<exists>i. mget iss x = Some i \<and> ri_status i = StatusOpen \<and> ri_assignee i = [] \<and> ri_kind i \<noteq> TypeEpic \<and>
         \<not> ri_is_deferred_at i now \<and> spec_state iss {} x = DepSatisfied \<and>
         (\<forall>c d. live iss {} c \<and> d \<in> set (deps_of iss c) \<and> rd_kind d = DepParentChild \<longrightarrow> rd_on d \<noteq> x))"
proof -
  have r: "rx_issues (compute ord1 ord2 ord3 iss) = iss" by (simp add: compute_def Let_def split: prod.splits)
  show ?thesis
    using children_live[OF assms(1)] ready_spec[OF assms] by (auto simp: claimable_def r split: option.splits)
qed

lemma claimable_iff_witness:
  "claimable (compute [''b'', ''p'', ''c'', ''d''] [''d'', ''c'', ''b'', ''p''] [''b'', ''p'', ''c'', ''d'']
      (own_issues demo_tracker)) ''b'' 0 \<and>
   spec_state (own_issues demo_tracker) {} ''b'' = DepSatisfied"
proof -
  have c: "claimable (compute [''b'', ''p'', ''c'', ''d''] [''d'', ''c'', ''b'', ''p''] [''b'', ''p'', ''c'', ''d'']
      (own_issues demo_tracker)) ''b'' 0"
    by code_simp
  with claimable_iff [OF demo_orders demo_orders(1), of "''b''" 0] show ?thesis by blast
qed

end
