(* ===== verification/Bv_Compact_Graph.thy ===== *)
theory Bv_Compact_Graph
  imports Go_Base
begin

text \<open>
  \<open>compactDirectedGraph\<close> of \<open>pkg/analysis/graph.go\<close>: adjacency lists over the node numbers
  0 to n - 1, and the iterators that the analyses (and the gonum library) walk it with. The node
  list \<open>nodes\<close> holds \<open>simple.Node(i)\<close> at index i, so its length is all of it. Numbers that callers
  pass are 64-bit integers and may be out of range: they are \<open>int\<close> here and the guards are kept;
  the stored numbers are in range and are \<open>nat\<close>. A nil node or edge is \<open>None\<close>.
\<close>

section \<open>The graph\<close>

record compact_graph =
  cg_nodes :: nat
  cg_out :: "nat list list"
  cg_in :: "nat list list"
  cg_edge_count :: nat

definition new_compact_graph :: "nat \<Rightarrow> compact_graph" where
  "new_compact_graph n =
     \<lparr>cg_nodes = n, cg_out = replicate n [], cg_in = replicate n [], cg_edge_count = 0\<rparr>"

definition add_edge :: "int \<Rightarrow> int \<Rightarrow> compact_graph \<Rightarrow> compact_graph" where
  "add_edge from to g =
     (if from < 0 \<or> to < 0 then g
      else if from \<ge> int (cg_nodes g) \<or> to \<ge> int (cg_nodes g) then g
      else g\<lparr>cg_out := (cg_out g)[nat from := cg_out g ! nat from @ [nat to]],
             cg_in := (cg_in g)[nat to := cg_in g ! nat to @ [nat from]],
             cg_edge_count := cg_edge_count g + 1\<rparr>)"

definition cg_node :: "compact_graph \<Rightarrow> int \<Rightarrow> nat option" where
  "cg_node g i = (if i < 0 \<or> i \<ge> int (cg_nodes g) then None else Some (nat i))"

definition cg_from :: "compact_graph \<Rightarrow> int \<Rightarrow> nat list" where
  "cg_from g i = (if i < 0 \<or> i \<ge> int (length (cg_out g)) then [] else cg_out g ! nat i)"

definition cg_to :: "compact_graph \<Rightarrow> int \<Rightarrow> nat list" where
  "cg_to g i = (if i < 0 \<or> i \<ge> int (length (cg_in g)) then [] else cg_in g ! nat i)"

definition has_edge_from_to :: "compact_graph \<Rightarrow> int \<Rightarrow> int \<Rightarrow> bool" where
  "has_edge_from_to g u v =
     (if u < 0 \<or> u \<ge> int (length (cg_out g)) then False
      else (\<exists>w \<in> set (cg_out g ! nat u). int w = v))"

definition has_edge_between :: "compact_graph \<Rightarrow> int \<Rightarrow> int \<Rightarrow> bool" where
  "has_edge_between g x y \<longleftrightarrow> has_edge_from_to g x y \<or> has_edge_from_to g y x"

definition cg_edge :: "compact_graph \<Rightarrow> int \<Rightarrow> int \<Rightarrow> (nat \<times> nat) option" where
  "cg_edge g u v =
     (if \<not> has_edge_from_to g u v then None
      else if u < 0 \<or> v < 0 \<or> u \<ge> int (cg_nodes g) \<or> v \<ge> int (cg_nodes g) then None
      else Some (nat u, nat v))"

section \<open>Iterators\<close>

text \<open>
  The position of \<open>compactNodes\<close> and \<open>compactIDNodes\<close> is an index that starts at -1. \<open>Next\<close> returns
  whether it moved; \<open>Node\<close> reads the current element.
\<close>

definition nodes_next :: "nat \<Rightarrow> int \<Rightarrow> bool \<times> int" where
  "nodes_next len idx = (if idx + 1 \<ge> int len then (False, idx) else (True, idx + 1))"

definition nodes_node :: "compact_graph \<Rightarrow> int \<Rightarrow> nat option" where
  "nodes_node g idx = (if idx < 0 \<or> idx \<ge> int (cg_nodes g) then None else Some (nat idx))"

definition id_nodes_node :: "compact_graph \<Rightarrow> nat list \<Rightarrow> int \<Rightarrow> nat option" where
  "id_nodes_node g ids idx =
     (if idx < 0 \<or> idx \<ge> int (length ids) then None
      else (let i = ids ! nat idx in if i \<ge> cg_nodes g then None else Some i))"

text \<open>\<open>compactEdges\<close>: \<open>fromIdx\<close> starts at 0, \<open>toIdx\<close> at -1; \<open>Next\<close> skips exhausted rows.\<close>

record edge_iter =
  from_idx :: nat
  to_idx :: int

definition edges_reset :: edge_iter where
  "edges_reset = \<lparr>from_idx = 0, to_idx = -1\<rparr>"

function edges_next :: "compact_graph \<Rightarrow> edge_iter \<Rightarrow> bool \<times> edge_iter" where
  "edges_next g it =
     (if from_idx it < length (cg_out g) then
        (let t = to_idx it + 1 in
         if t < int (length (cg_out g ! from_idx it)) then (True, it\<lparr>to_idx := t\<rparr>)
         else edges_next g \<lparr>from_idx = from_idx it + 1, to_idx = -1\<rparr>)
      else (False, it))"
  by pat_completeness auto
termination
  by (relation "measure (\<lambda>(g, it). length (cg_out g) - from_idx it)") auto

declare edges_next.simps [simp del]

definition edges_edge :: "compact_graph \<Rightarrow> edge_iter \<Rightarrow> (nat \<times> nat) option" where
  "edges_edge g it =
     (if from_idx it \<ge> length (cg_out g) then None
      else if to_idx it < 0 \<or> to_idx it \<ge> int (length (cg_out g ! from_idx it)) then None
      else (let t = cg_out g ! from_idx it ! nat (to_idx it)
            in if t \<ge> cg_nodes g then None else Some (from_idx it, t)))"

text \<open>
  The loops \<open>for nodes.Next() { ... }\<close> and \<open>for edges.Next() { ... }\<close> of the clients: the elements
  they see, in order.
\<close>

lemma edges_next_moves:
  "edges_next g it = (True, it') \<Longrightarrow>
     from_idx it' < length (cg_out g) \<and> to_idx it' < int (length (cg_out g ! from_idx it')) \<and>
     (from_idx it < from_idx it' \<or> from_idx it = from_idx it' \<and> to_idx it < to_idx it')"
proof (induction g it rule: edges_next.induct)
  case (1 g it)
  show ?case
  proof (cases "from_idx it < length (cg_out g) \<and> to_idx it + 1 \<ge> int (length (cg_out g ! from_idx it))")
    case True
    then have "edges_next g \<lparr>from_idx = from_idx it + 1, to_idx = -1\<rparr> = (True, it')"
      using "1.prems" by (subst (asm) edges_next.simps[of g it]) (simp add: Let_def)
    with "1.IH"[OF _ refl] True show ?thesis by fastforce
  next
    case False
    then show ?thesis using "1.prems" by (auto simp: edges_next.simps[of g it] Let_def split: if_splits)
  qed
qed

function collect_edges :: "compact_graph \<Rightarrow> edge_iter \<Rightarrow> (nat \<times> nat) option list" where
  "collect_edges g it =
     (case edges_next g it of
        (moved, it') \<Rightarrow> if moved then edges_edge g it' # collect_edges g it' else [])"
  by pat_completeness auto
termination
  by (relation "measures [\<lambda>(g, it). length (cg_out g) - from_idx it,
    \<lambda>(g, it). nat (int (length (cg_out g ! from_idx it)) - to_idx it)]")
    (auto dest!: edges_next_moves [OF sym])

declare collect_edges.simps [simp del]

function collect_nodes :: "compact_graph \<Rightarrow> int \<Rightarrow> nat option list" where
  "collect_nodes g idx =
     (case nodes_next (cg_nodes g) idx of
        (moved, idx') \<Rightarrow> if moved then nodes_node g idx' # collect_nodes g idx' else [])"
  by pat_completeness auto
termination
  by (relation "measure (\<lambda>(g, idx). nat (int (cg_nodes g) - idx))") (auto simp: nodes_next_def split: if_splits)

function collect_id_nodes :: "compact_graph \<Rightarrow> nat list \<Rightarrow> int \<Rightarrow> nat option list" where
  "collect_id_nodes g ids idx =
     (case nodes_next (length ids) idx of
        (moved, idx') \<Rightarrow> if moved then id_nodes_node g ids idx' # collect_id_nodes g ids idx' else [])"
  by pat_completeness auto
termination
  by (relation "measure (\<lambda>(g, ids, idx). nat (int (length ids) - idx))")
    (auto simp: nodes_next_def split: if_splits)

declare collect_nodes.simps [simp del] collect_id_nodes.simps [simp del]

section \<open>Well-formed graphs\<close>

text \<open>
  The two adjacency tables describe the same multiset of edges, all numbers are in range, and the
  edge count is the number of entries.
\<close>

definition graph_ok :: "compact_graph \<Rightarrow> bool" where
  "graph_ok g \<longleftrightarrow>
     length (cg_out g) = cg_nodes g \<and> length (cg_in g) = cg_nodes g \<and>
     (\<forall>u < cg_nodes g. set (cg_out g ! u) \<subseteq> {..<cg_nodes g}) \<and>
     (\<forall>v < cg_nodes g. set (cg_in g ! v) \<subseteq> {..<cg_nodes g}) \<and>
     (\<forall>u < cg_nodes g. \<forall>v < cg_nodes g. count_list (cg_out g ! u) v = count_list (cg_in g ! v) u) \<and>
     cg_edge_count g = sum_list (map length (cg_out g))"

definition edge_list :: "compact_graph \<Rightarrow> (nat \<times> nat) list" where
  "edge_list g = concat (map (\<lambda>u. map (Pair u) (cg_out g ! u)) [0..<cg_nodes g])"

definition edges :: "compact_graph \<Rightarrow> (nat \<times> nat) set" where
  "edges g = {(u, v). u < cg_nodes g \<and> v \<in> set (cg_out g ! u)}"

lemma set_edge_list: "set (edge_list g) = edges g"
  by (auto simp: edge_list_def edges_def)

lemma graph_ok_new [simp, intro]: "graph_ok (new_compact_graph n)"
  by (auto simp: graph_ok_def new_compact_graph_def sum_list_replicate)

lemma cg_nodes_add_edge [simp]: "cg_nodes (add_edge u v g) = cg_nodes g"
  by (simp add: add_edge_def)

lemma sum_list_length_update:
  "u < length xs \<Longrightarrow> sum_list (map length (xs[u := xs ! u @ [y]])) = sum_list (map length xs) + 1"
  by (induction xs arbitrary: u) (auto split: nat.splits)

lemma graph_ok_add_edge [intro]:
  assumes "graph_ok g"
  shows "graph_ok (add_edge u v g)"
proof (cases "0 \<le> u \<and> 0 \<le> v \<and> u < int (cg_nodes g) \<and> v < int (cg_nodes g)")
  case True
  then obtain a b where ab: "u = int a" "v = int b" "a < cg_nodes g" "b < cg_nodes g"
    by (metis nat_0_le of_nat_less_iff)
  have e: "add_edge u v g = g\<lparr>cg_out := (cg_out g)[a := cg_out g ! a @ [b]],
      cg_in := (cg_in g)[b := cg_in g ! b @ [a]], cg_edge_count := cg_edge_count g + 1\<rparr>"
    using ab by (simp add: add_edge_def)
  note ok = assms[unfolded graph_ok_def]
  have out: "cg_out (add_edge u v g) ! x = (if x = a then cg_out g ! a @ [b] else cg_out g ! x)"
    if "x < cg_nodes g" for x unfolding e using that ab(3,4) ok by (simp add: nth_list_update)
  have inn: "cg_in (add_edge u v g) ! x = (if x = b then cg_in g ! b @ [a] else cg_in g ! x)"
    if "x < cg_nodes g" for x unfolding e using that ab(3,4) ok by (simp add: nth_list_update)
  have "cg_edge_count (add_edge u v g) = sum_list (map length (cg_out (add_edge u v g)))"
    unfolding e using ok ab(3,4) by (simp add: sum_list_length_update)
  moreover have "\<forall>x < cg_nodes g. set (cg_out (add_edge u v g) ! x) \<subseteq> {..<cg_nodes g}"
  proof (intro allI impI)
    fix x assume x: "x < cg_nodes g"
    show "set (cg_out (add_edge u v g) ! x) \<subseteq> {..<cg_nodes g}"
      unfolding out[OF x] using ok ab(3,4) x by auto
  qed
  moreover have "\<forall>x < cg_nodes g. set (cg_in (add_edge u v g) ! x) \<subseteq> {..<cg_nodes g}"
  proof (intro allI impI)
    fix x assume x: "x < cg_nodes g"
    show "set (cg_in (add_edge u v g) ! x) \<subseteq> {..<cg_nodes g}"
      unfolding inn[OF x] using ok ab(3,4) x by auto
  qed
  moreover have "\<forall>x < cg_nodes g. \<forall>y < cg_nodes g.
      count_list (cg_out (add_edge u v g) ! x) y = count_list (cg_in (add_edge u v g) ! y) x"
    using ok ab out inn by simp
  moreover have "length (cg_out (add_edge u v g)) = cg_nodes g" "length (cg_in (add_edge u v g)) = cg_nodes g"
    unfolding e using ok by simp_all
  ultimately show ?thesis by (simp add: graph_ok_def)
next
  case False
  then have "add_edge u v g = g" by (auto simp: add_edge_def)
  with assms show ?thesis by simp
qed

lemma edges_range: "graph_ok g \<Longrightarrow> (u, v) \<in> edges g \<Longrightarrow> u < cg_nodes g \<and> v < cg_nodes g"
  by (auto simp: edges_def graph_ok_def)

lemma graph_ok_length:
  "graph_ok g \<Longrightarrow> length (cg_out g) = cg_nodes g" "graph_ok g \<Longrightarrow> length (cg_in g) = cg_nodes g"
  by (simp_all add: graph_ok_def)

lemma graph_ok_out: "graph_ok g \<Longrightarrow> u < cg_nodes g \<Longrightarrow> v \<in> set (cg_out g ! u) \<Longrightarrow> v < cg_nodes g"
  by (auto simp: graph_ok_def)

lemma graph_ok_in: "graph_ok g \<Longrightarrow> u < cg_nodes g \<Longrightarrow> v \<in> set (cg_in g ! u) \<Longrightarrow> v < cg_nodes g"
  by (auto simp: graph_ok_def)

lemma graph_ok_dual: "graph_ok g \<Longrightarrow> u < cg_nodes g \<Longrightarrow> v < cg_nodes g \<Longrightarrow>
    count_list (cg_out g ! u) v = count_list (cg_in g ! v) u"
  by (simp add: graph_ok_def)

lemma has_edge_iff: "graph_ok g \<Longrightarrow> has_edge_from_to g (int u) (int v) \<longleftrightarrow> (u, v) \<in> edges g"
  by (auto simp: has_edge_from_to_def edges_def graph_ok_length)

lemma in_iff_edges:
  assumes "graph_ok g" "v < cg_nodes g"
  shows "u \<in> set (cg_in g ! v) \<longleftrightarrow> (u, v) \<in> edges g"
proof -
  have "u \<in> set (cg_in g ! v) \<longleftrightarrow> u \<in> set (cg_in g ! v) \<and> u < cg_nodes g"
    using graph_ok_in[OF assms] by blast
  also have "\<dots> \<longleftrightarrow> u < cg_nodes g \<and> count_list (cg_out g ! u) v \<noteq> 0"
    using graph_ok_dual[OF assms(1) _ assms(2), of u] by (metis count_list_0_iff)
  also have "\<dots> \<longleftrightarrow> (u, v) \<in> edges g" by (simp add: edges_def count_list_0_iff)
  finally show ?thesis .
qed

lemma cg_from_int [simp]: "graph_ok g \<Longrightarrow> u < cg_nodes g \<Longrightarrow> cg_from g (int u) = cg_out g ! u"
  by (simp add: cg_from_def graph_ok_length)

lemma cg_to_int [simp]: "graph_ok g \<Longrightarrow> u < cg_nodes g \<Longrightarrow> cg_to g (int u) = cg_in g ! u"
  by (simp add: cg_to_def graph_ok_length)

section \<open>Draining the iterators\<close>

lemma collect_nodes_from:
  "-1 \<le> idx \<Longrightarrow> collect_nodes g idx = map Some [nat (idx + 1)..<cg_nodes g]"
proof (induction g idx rule: collect_nodes.induct)
  case (1 g idx)
  show ?case
  proof (cases "idx + 1 \<ge> int (cg_nodes g)")
    case True
    then show ?thesis by (subst collect_nodes.simps) (simp add: nodes_next_def)
  next
    case False
    then have "nodes_next (cg_nodes g) idx = (True, idx + 1)" by (simp add: nodes_next_def)
    then have "collect_nodes g idx = nodes_node g (idx + 1) # map Some [nat (idx + 1 + 1)..<cg_nodes g]"
      using "1.IH"[of True "idx + 1"] "1.prems" by (subst collect_nodes.simps) simp
    moreover have "nodes_node g (idx + 1) = Some (nat (idx + 1))"
      using False "1.prems" by (simp add: nodes_node_def)
    moreover have "nat (idx + 1 + 1) = Suc (nat (idx + 1))" using "1.prems" by simp
    then have "[nat (idx + 1)..<cg_nodes g] = nat (idx + 1) # [nat (idx + 1 + 1)..<cg_nodes g]"
      using False "1.prems" by (simp add: upt_conv_Cons)
    ultimately show ?thesis by simp
  qed
qed

lemma collect_id_nodes_from:
  "-1 \<le> idx \<Longrightarrow> \<forall>v \<in> set ids. v < cg_nodes g \<Longrightarrow>
     collect_id_nodes g ids idx = map Some (drop (nat (idx + 1)) ids)"
proof (induction g ids idx rule: collect_id_nodes.induct)
  case (1 g ids idx)
  show ?case
  proof (cases "idx + 1 \<ge> int (length ids)")
    case True
    then show ?thesis by (subst collect_id_nodes.simps) (simp add: nodes_next_def)
  next
    case False
    define k where "k = nat (idx + 1)"
    have k: "k < length ids" "idx + 1 = int k" using False "1.prems"(1) by (auto simp: k_def)
    have "nodes_next (length ids) idx = (True, idx + 1)" using False by (simp add: nodes_next_def)
    then have "collect_id_nodes g ids idx = id_nodes_node g ids (idx + 1) # map Some (drop (nat (idx + 1 + 1)) ids)"
      using "1.IH"[of True "idx + 1"] "1.prems" by (subst collect_id_nodes.simps) simp
    moreover have "id_nodes_node g ids (idx + 1) = Some (ids ! k)"
      using k "1.prems"(2) by (auto simp: id_nodes_node_def Let_def) (meson linorder_not_le nth_mem)
    ultimately show ?thesis using k by (simp add: Cons_nth_drop_Suc[symmetric] nat_add_distrib)
  qed
qed

definition rows_from :: "compact_graph \<Rightarrow> nat \<Rightarrow> (nat \<times> nat) list" where
  "rows_from g k = concat (map (\<lambda>u. map (Pair u) (cg_out g ! u)) [k..<cg_nodes g])"

lemma edges_next_skip:
  assumes "from_idx it < length (cg_out g)" "to_idx it + 1 \<ge> int (length (cg_out g ! from_idx it))"
  shows "edges_next g it = edges_next g \<lparr>from_idx = from_idx it + 1, to_idx = -1\<rparr>"
  using assms by (subst edges_next.simps) (simp add: Let_def)

lemma collect_edges_cong: "edges_next g it = edges_next g it' \<Longrightarrow> collect_edges g it = collect_edges g it'"
  by (subst (1 2) collect_edges.simps) simp

lemma collect_edges_row:
  assumes "graph_ok g" "u < cg_nodes g" "k \<le> length (cg_out g ! u)"
  shows "collect_edges g \<lparr>from_idx = u, to_idx = int k - 1\<rparr> =
    map (\<lambda>v. Some (u, v)) (drop k (cg_out g ! u)) @ collect_edges g \<lparr>from_idx = u + 1, to_idx = -1\<rparr>"
  using assms(3)
proof (induction k rule: inc_induct)
  case base
  have "edges_next g \<lparr>from_idx = u, to_idx = int (length (cg_out g ! u)) - 1\<rparr> =
      edges_next g \<lparr>from_idx = u + 1, to_idx = -1\<rparr>"
    using assms edges_next_skip[of "\<lparr>from_idx = u, to_idx = int (length (cg_out g ! u)) - 1\<rparr>" g]
    by (simp add: graph_ok_length)
  from collect_edges_cong[OF this] show ?case by simp
next
  case (step k)
  have nx: "edges_next g \<lparr>from_idx = u, to_idx = int k - 1\<rparr> = (True, \<lparr>from_idx = u, to_idx = int k\<rparr>)"
    using step.hyps assms by (subst edges_next.simps) (simp add: graph_ok_length)
  have "edges_edge g \<lparr>from_idx = u, to_idx = int k\<rparr> = Some (u, cg_out g ! u ! k)"
    using step.hyps assms graph_ok_out[OF assms(1,2) nth_mem[OF step.hyps(2)]]
    by (simp add: edges_edge_def graph_ok_length)
  moreover have "collect_edges g \<lparr>from_idx = u, to_idx = int k - 1\<rparr> =
      edges_edge g \<lparr>from_idx = u, to_idx = int k\<rparr> # collect_edges g \<lparr>from_idx = u, to_idx = int k\<rparr>"
    by (subst collect_edges.simps) (simp add: nx)
  ultimately show ?case using step.IH step.hyps by (simp add: Cons_nth_drop_Suc[symmetric])
qed

lemma collect_edges_rows:
  assumes "graph_ok g" "u \<le> cg_nodes g"
  shows "collect_edges g \<lparr>from_idx = u, to_idx = -1\<rparr> = map Some (rows_from g u)"
  using assms(2)
proof (induction u rule: inc_induct)
  case base
  have "edges_next g \<lparr>from_idx = cg_nodes g, to_idx = -1\<rparr> = (False, \<lparr>from_idx = cg_nodes g, to_idx = -1\<rparr>)"
    using assms by (subst edges_next.simps) (simp add: graph_ok_length)
  then show ?case by (subst collect_edges.simps) (simp add: rows_from_def)
next
  case (step u)
  have "rows_from g u = map (Pair u) (cg_out g ! u) @ rows_from g (Suc u)"
    using step.hyps by (simp add: rows_from_def upt_conv_Cons)
  then show ?case using collect_edges_row[OF assms(1) step.hyps(2), of 0] step.IH by simp
qed

lemma collect_edges_all: "graph_ok g \<Longrightarrow> collect_edges g edges_reset = map Some (edge_list g)"
  using collect_edges_rows[of g 0] by (simp add: edges_reset_def edge_list_def rows_from_def)

lemma length_edge_list: "graph_ok g \<Longrightarrow> length (edge_list g) = cg_edge_count g"
proof -
  assume ok: "graph_ok g"
  then have "map ((!) (cg_out g)) [0..<cg_nodes g] = cg_out g" by (metis graph_ok_length(1) map_nth)
  then have "map length (cg_out g) = map (\<lambda>u. length (cg_out g ! u)) [0..<cg_nodes g]"
    by (metis (no_types, lifting) comp_apply map_map map_eq_conv)
  moreover have "cg_edge_count g = sum_list (map length (cg_out g))" using ok by (simp add: graph_ok_def)
  ultimately show ?thesis by (simp add: edge_list_def length_concat comp_def)
qed

text \<open>For every graph built by \<open>addEdge\<close> (the invariant \<open>graph_ok\<close>), the three iterators are
  complete and in range: \<open>Nodes\<close> yields every node once in order, \<open>From\<close> yields the out-list of a node
  without a nil, and \<open>Edges\<close>, whose \<open>Next\<close> steps over empty and exhausted rows, yields exactly the
  edges of the out-lists, row by row, in number \<open>Len\<close> = \<open>edgeCount\<close>; and adding any edge, in range or
  not, keeps the invariant.\<close>

theorem iterators_complete:
  assumes "graph_ok g"
  shows "collect_nodes g (-1) = map Some [0..<cg_nodes g] \<and>
    (\<forall>i. collect_id_nodes g (cg_from g i) (-1) = map Some (cg_from g i)) \<and>
    collect_edges g edges_reset = map Some (edge_list g) \<and>
    length (collect_edges g edges_reset) = cg_edge_count g \<and>
    (\<forall>u v. graph_ok (add_edge u v g))"
proof (intro conjI allI)
  fix i :: int
  have "\<forall>v \<in> set (cg_from g i). v < cg_nodes g"
    using assms by (auto simp: cg_from_def graph_ok_length intro: graph_ok_out[of g "nat i"] split: if_splits)
  then show "collect_id_nodes g (cg_from g i) (-1) = map Some (cg_from g i)"
    using collect_id_nodes_from[of "-1" "cg_from g i" g] by simp
qed (use assms in \<open>auto simp: collect_nodes_from collect_edges_all length_edge_list\<close>)

definition demo_graph :: compact_graph where
  "demo_graph = add_edge 2 0 (add_edge 2 1 (add_edge 0 1 (new_compact_graph 3)))"

lemma iterators_complete_witness:
  "graph_ok demo_graph \<and> length (collect_edges demo_graph edges_reset) = 3"
proof -
  have ok: "graph_ok demo_graph" by (simp add: demo_graph_def graph_ok_add_edge)
  have "cg_edge_count demo_graph = 3" by code_simp
  with iterators_complete[OF ok] ok show ?thesis by (metis (no_types))
qed

end
