(* ===== verification/Bv_Analyzer.thy ===== *)
theory Bv_Analyzer
  imports Bv_Readiness_Props Bv_Compact_Graph
begin

text \<open>
  The \<open>Analyzer\<close> of \<open>pkg/analysis/graph.go\<close>: its construction from an issue list (\<open>NewAnalyzer\<close>),
  its readiness scope, and the queries that read the issue map and the graph. An edge u to v means
  that issue u depends on issue v, so the in-list of a node holds the issues it blocks.

  The mutex-free fields are a record; \<open>readinessOnce\<close> is \<open>an_readiness\<close> (\<open>None\<close> until the first use).
  A query that builds the index itself ranges over Go maps in an unspecified order; \<open>readiness\<close> picks
  the order of the keys, and the lemmas about \<open>compute\<close> show that every query of the index gives the
  same answer for every order. Issue bodies are values, so the defensive copies are identities.
\<close>

record analyzer =
  an_graph :: compact_graph
  an_id_to_node :: "(string, nat) gomap"
  an_node_to_id :: "(nat, string) gomap"
  an_issue_map :: "(string, issue) gomap"
  an_issues :: "issue list"
  an_children :: "(string, string list) gomap"
  an_blocker_counts :: "nat list"
  an_blocker_counts_max :: nat
  an_readiness :: "readiness_index option"
  an_candidates :: "(string, bool) gomap option"
  an_now :: time

definition is_closed_like_status :: "status \<Rightarrow> bool" where
  "is_closed_like_status s \<longleftrightarrow> s = StatusClosed \<or> s = StatusTombstone"

definition is_actionable_status :: "status \<Rightarrow> bool" where
  "is_actionable_status s \<longleftrightarrow> s = StatusOpen \<or> s = StatusInProgress"

section \<open>Construction\<close>

definition issue_map_of :: "issue list \<Rightarrow> (string, issue) gomap" where
  "issue_map_of issues = fold (\<lambda>i m. mput (issue_id i) i m) issues []"

definition sorted_ids :: "('b, 'v) gomap \<Rightarrow> ('b::linorder) list" where
  "sorted_ids m = sort (mkeys m)"

definition index_ids :: "string list \<Rightarrow> (string, nat) gomap" where
  "index_ids ids = fold (\<lambda>(i, iid) m. mput iid i m) (enumerate 0 ids) []"

definition index_nodes :: "string list \<Rightarrow> (nat, string) gomap" where
  "index_nodes ids = fold (\<lambda>(i, iid) m. mput i iid m) (enumerate 0 ids) []"

text \<open>The dependency loop: targets of blocking records, and existing parents.\<close>

definition blocking_targets :: "(string, nat) gomap \<Rightarrow> issue \<Rightarrow> nat list" where
  "blocking_targets idn i = List.map_filter (\<lambda>dep. case dep of None \<Rightarrow> None
     | Some d \<Rightarrow> if \<not> is_blocking (dep_kind d) then None else mget idn (dep_on d)) (dependencies i)"

definition parent_targets :: "(string, issue) gomap \<Rightarrow> issue \<Rightarrow> string list" where
  "parent_targets m i = List.map_filter (\<lambda>dep. case dep of None \<Rightarrow> None
     | Some d \<Rightarrow> if dep_kind d = DepParentChild \<and> mget m (dep_on d) \<noteq> None then Some (dep_on d) else None)
     (dependencies i)"

record build =
  bd_graph :: compact_graph
  bd_counts :: "nat list"
  bd_seen :: "nat list"
  bd_children :: "(string, string list) gomap"

text \<open>One sorted target \<open>v\<close> of issue \<open>u\<close>; \<open>seenByBlocker\<close> and \<open>epoch\<close> skip repeated records.\<close>

definition add_target :: "nat \<Rightarrow> nat \<Rightarrow> nat \<Rightarrow> build \<Rightarrow> build" where
  "add_target epoch u v b =
     (if v \<ge> length (bd_counts b) then b
      else if bd_seen b ! v = epoch then b
      else b\<lparr>bd_seen := (bd_seen b)[v := epoch],
             bd_counts := (bd_counts b)[v := bd_counts b ! v + 1],
             bd_graph := add_edge (int u) (int v) (bd_graph b)\<rparr>)"

definition add_child :: "string \<Rightarrow> string \<Rightarrow> (string, string list) gomap \<Rightarrow> (string, string list) gomap" where
  "add_child iid p ch = mput p (mget_or [] ch p @ [iid]) ch"

definition add_issue ::
  "(string, issue) gomap \<Rightarrow> (string, nat) gomap \<Rightarrow> nat \<times> string \<Rightarrow> build \<Rightarrow> build" where
  "add_issue m idn = (\<lambda>(epoch, iid) b.
     case mget idn iid of None \<Rightarrow> b | Some u \<Rightarrow>
     (case mget m iid of None \<Rightarrow> b | Some i \<Rightarrow>
      if dependencies i = [] then b
      else
        (let b = b\<lparr>bd_children := fold (add_child iid) (remdups_adj (sort (parent_targets m i))) (bd_children b)\<rparr>
         in fold (add_target epoch u) (sort (blocking_targets idn i)) b)))"

definition build_graph :: "(string, issue) gomap \<Rightarrow> string list \<Rightarrow> build" where
  "build_graph m ids =
     (let n = length ids
      in fold (add_issue m (index_ids ids)) (enumerate 1 ids)
           \<lparr>bd_graph = new_compact_graph n, bd_counts = replicate n 0, bd_seen = replicate n 0, bd_children = []\<rparr>)"

definition max_count :: "nat list \<Rightarrow> nat" where
  "max_count counts = fold (\<lambda>c mx. if c > mx then c else mx) counts 0"

definition new_analyzer :: "issue list \<Rightarrow> time \<Rightarrow> analyzer" where
  "new_analyzer issues now =
     (let m = issue_map_of issues; ids = sorted_ids m; b = build_graph m ids
      in \<lparr>an_graph = bd_graph b, an_id_to_node = index_ids ids, an_node_to_id = index_nodes ids,
          an_issue_map = m, an_issues = issues, an_children = bd_children b,
          an_blocker_counts = bd_counts b, an_blocker_counts_max = max_count (bd_counts b),
          an_readiness = None, an_candidates = None, an_now = now\<rparr>)"

section \<open>Readiness scope and candidates\<close>

definition index_of_issues :: "issue list \<Rightarrow> readiness_index" where
  "index_of_issues issues =
     (let ks = mkeys (own_issues issues) in new_readiness_index ks ks ks issues)"

text \<open>\<open>readinessOnce.Do\<close>: only the first call has an effect.\<close>

definition readiness_once :: "readiness_index \<Rightarrow> analyzer \<Rightarrow> analyzer" where
  "readiness_once r a = (case an_readiness a of None \<Rightarrow> a\<lparr>an_readiness := Some r\<rparr> | Some _ \<Rightarrow> a)"

definition set_readiness_scope ::
  "readiness_index option \<Rightarrow> (string, bool) gomap option \<Rightarrow> analyzer \<Rightarrow> analyzer" where
  "set_readiness_scope authority cand a =
     (let r = (case authority of None \<Rightarrow> index_of_issues (an_issues a) | Some r \<Rightarrow> r);
          a = readiness_once r a
      in (case cand of None \<Rightarrow> a | Some c \<Rightarrow> a\<lparr>an_candidates := Some c\<rparr>))"

definition readiness :: "analyzer \<Rightarrow> readiness_index" where
  "readiness a = (case an_readiness a of None \<Rightarrow> index_of_issues (an_issues a) | Some r \<Rightarrow> r)"

definition is_candidate :: "analyzer \<Rightarrow> string \<Rightarrow> bool" where
  "is_candidate a iid = (case an_candidates a of None \<Rightarrow> True | Some c \<Rightarrow> mget_or False c iid)"

definition set_now :: "time \<Rightarrow> analyzer \<Rightarrow> analyzer" where
  "set_now now a = a\<lparr>an_now := now\<rparr>"

section \<open>Queries\<close>

definition get_issue :: "analyzer \<Rightarrow> string \<Rightarrow> issue option" where
  "get_issue a iid = mget (an_issue_map a) iid"

definition actionable_issues_after :: "analyzer \<Rightarrow> string list \<Rightarrow> issue list" where
  "actionable_issues_after a completed =
     List.map_filter (\<lambda>iid. if is_candidate a iid \<and> ready_after (readiness a) iid (an_now a) completed
                            then mget (an_issue_map a) iid else None)
       (sorted_ids (an_issue_map a))"

definition get_actionable_issues :: "analyzer \<Rightarrow> issue list" where
  "get_actionable_issues a = actionable_issues_after a []"

definition is_actionable_after_completions :: "analyzer \<Rightarrow> string \<Rightarrow> string list \<Rightarrow> bool" where
  "is_actionable_after_completions a iid completed \<longleftrightarrow>
     mget (an_issue_map a) iid \<noteq> None \<and> is_candidate a iid \<and>
     ready_after (readiness a) iid (an_now a) completed"

definition count_actionable_issues :: "analyzer \<Rightarrow> nat" where
  "count_actionable_issues a =
     fold (\<lambda>iid c. if is_actionable_after_completions a iid [] then c + 1 else c) (mkeys (an_issue_map a)) 0"

definition parents_with_open_children :: "analyzer \<Rightarrow> (string, bool) gomap" where
  "parents_with_open_children a =
     fold (\<lambda>iid r. if has_open_children (readiness a) iid then mput iid True r else r)
       (mkeys (an_issue_map a)) []"

text \<open>\<open>sortedUniqueIssueIDs\<close>: the write index follows the last id that was kept.\<close>

fun keep_new :: "string \<Rightarrow> string list \<Rightarrow> string list" where
  "keep_new prev [] = []"
| "keep_new prev (x # xs) = (if x = prev then keep_new prev xs else x # keep_new x xs)"

definition sorted_unique_issue_ids :: "string list \<Rightarrow> string list" where
  "sorted_unique_issue_ids ids =
     (if length ids < 2 then ids
      else (case sort ids of [] \<Rightarrow> [] | x # xs \<Rightarrow> x # keep_new x xs))"

definition get_blockers :: "analyzer \<Rightarrow> string \<Rightarrow> string list" where
  "get_blockers a iid = (case mget (an_issue_map a) iid of None \<Rightarrow> [] | Some i \<Rightarrow>
     sorted_unique_issue_ids (List.map_filter (\<lambda>dep. case dep of None \<Rightarrow> None
       | Some d \<Rightarrow> if is_blocking (dep_kind d) \<and> mget (an_issue_map a) (dep_on d) \<noteq> None
                   then Some (dep_on d) else None) (dependencies i)))"

definition get_open_blockers :: "analyzer \<Rightarrow> string \<Rightarrow> string list" where
  "get_open_blockers a iid = blockers (readiness a) iid"

definition count_blocked_by :: "analyzer \<Rightarrow> string \<Rightarrow> nat" where
  "count_blocked_by a iid =
     fold (\<lambda>(k, i) c. if is_closed_like_status (status i) then c
                      else if (\<exists>dep \<in> set (dependencies i). case dep of None \<Rightarrow> False
                                | Some d \<Rightarrow> is_blocking (dep_kind d) \<and> dep_on d = iid)
                           then c + 1 else c) (an_issue_map a) 0"

text \<open>
  \<open>activeCycleGraph\<close>: the graph itself when nothing is closed, otherwise a copy without the edges at
  closed issues.
\<close>

definition node_active :: "analyzer \<Rightarrow> nat \<Rightarrow> bool" where
  "node_active a v = (case mget (an_issue_map a) (mget_or [] (an_node_to_id a) v) of
     None \<Rightarrow> False | Some i \<Rightarrow> \<not> is_closed_like_status (status i))"

definition add_active :: "analyzer \<Rightarrow> (nat \<times> nat) option \<Rightarrow> compact_graph \<Rightarrow> compact_graph" where
  "add_active a e g = (case e of None \<Rightarrow> g
     | Some (u, v) \<Rightarrow> if \<not> node_active a u \<or> \<not> node_active a v then g else add_edge (int u) (int v) g)"

definition active_cycle_graph :: "analyzer \<Rightarrow> compact_graph" where
  "active_cycle_graph a =
     (if \<not> (\<exists>(k, i) \<in> set (an_issue_map a). is_closed_like_status (status i)) then an_graph a
      else fold (add_active a) (collect_edges (an_graph a) edges_reset)
             (new_compact_graph (length (an_node_to_id a))))"

section \<open>The graph that \<open>NewAnalyzer\<close> builds\<close>

lemma sorted_ids_facts [simp]:
  "set (sorted_ids m) = set (mkeys m)" "sorted (sorted_ids m)" "distinct (sorted_ids m) = distinct (mkeys m)"
  by (simp_all add: sorted_ids_def)

lemma issue_map_fold:
  "mget (fold (\<lambda>i m. mput (issue_id i) i m) issues m) k =
     (case find (\<lambda>i. issue_id i = k) (rev issues) of None \<Rightarrow> mget m k | Some i \<Rightarrow> Some i)"
  by (induction issues rule: rev_induct) auto

lemma issue_map_of_get: "mget (issue_map_of issues) k = find (\<lambda>i. issue_id i = k) (rev issues)"
  by (simp add: issue_map_of_def issue_map_fold split: option.splits)

lemma issue_map_of_id: "mget (issue_map_of issues) k = Some i \<Longrightarrow> issue_id i = k \<and> i \<in> set issues"
  by (auto simp: issue_map_of_get find_Some_iff) (metis nth_mem length_rev set_rev)+

lemma issue_map_of_ok [simp, intro]: "gomap_ok (issue_map_of issues)"
proof -
  have "gomap_ok m \<Longrightarrow> gomap_ok (fold (\<lambda>i m. mput (issue_id i) i m) issues m)" for m
    by (induction issues arbitrary: m) auto
  then show ?thesis by (simp add: issue_map_of_def)
qed

lemma index_ids_fold:
  "distinct ids \<Longrightarrow>
   mget (fold (\<lambda>(i, iid) m. mput iid i m) (enumerate k ids) m) x = Some v \<longleftrightarrow>
     (if x \<in> set ids then k \<le> v \<and> v < k + length ids \<and> ids ! (v - k) = x else mget m x = Some v)"
proof (induction ids arbitrary: k m)
  case (Cons y ys)
  have "(x = y \<or> x \<in> set ys) \<Longrightarrow>
    (k \<le> v \<and> v < k + length (y # ys) \<and> (y # ys) ! (v - k) = x) \<longleftrightarrow>
    (if x \<in> set ys then Suc k \<le> v \<and> v < Suc k + length ys \<and> ys ! (v - Suc k) = x else v = k)"
    using Cons.prems by (cases "v = k") (auto simp: nth_Cons' Suc_diff_le dest: nth_mem split: if_splits)
  with Cons show ?case by auto
qed simp

lemma index_ids_get: "distinct ids \<Longrightarrow> mget (index_ids ids) x = Some v \<longleftrightarrow> v < length ids \<and> ids ! v = x"
  by (auto simp: index_ids_def index_ids_fold)

lemma index_nodes_fold:
  "mget (fold (\<lambda>(i, iid) m. mput i iid m) (enumerate k ids) m) v =
     (if k \<le> v \<and> v < k + length ids then Some (ids ! (v - k)) else mget m v)"
  by (induction ids arbitrary: k m) (auto simp: nth_Cons' Suc_diff_le)

lemma index_nodes_get: "mget (index_nodes ids) v = (if v < length ids then Some (ids ! v) else None)"
  by (simp add: index_nodes_def index_nodes_fold)

text \<open>The declarative edge relation on node numbers.\<close>

definition blocks_dep :: "issue \<Rightarrow> string \<Rightarrow> bool" where
  "blocks_dep i k \<longleftrightarrow> (\<exists>d. Some d \<in> set (dependencies i) \<and> is_blocking (dep_kind d) \<and> dep_on d = k)"

definition depends_on :: "(string, issue) gomap \<Rightarrow> string \<Rightarrow> string \<Rightarrow> bool" where
  "depends_on m x y \<longleftrightarrow> mget m y \<noteq> None \<and> (\<exists>i. mget m x = Some i \<and> blocks_dep i y)"

lemma set_blocking_targets:
  assumes "distinct ids" "mget m (ids ! u) = Some i" "set ids = set (mkeys m)"
  shows "set (blocking_targets (index_ids ids) i) = {v. v < length ids \<and> depends_on m (ids ! u) (ids ! v)}"
proof -
  have "v \<in> set (blocking_targets (index_ids ids) i) \<longleftrightarrow>
      (\<exists>d. Some d \<in> set (dependencies i) \<and> is_blocking (dep_kind d) \<and> mget (index_ids ids) (dep_on d) = Some v)" for v
    by (force simp: blocking_targets_def List.map_filter_def image_iff split: option.splits if_splits)
  moreover have "v < length ids \<Longrightarrow> mget m (ids ! v) \<noteq> None" for v
    using assms(3) by (metis mget_None_iff nth_mem)
  ultimately have "v \<in> set (blocking_targets (index_ids ids) i) \<longleftrightarrow>
      v < length ids \<and> depends_on m (ids ! u) (ids ! v)" for v
    using assms(2) unfolding index_ids_get[OF assms(1)] depends_on_def blocks_dep_def
    by (metis option.inject)
  then show ?thesis by blast
qed

lemma sorted_list_insert_max:
  assumes "finite S" "\<forall>x \<in> S. x \<le> (t :: nat)"
  shows "sorted_list_of_set (insert t S) = (if t \<in> S then sorted_list_of_set S else sorted_list_of_set S @ [t])"
proof (cases "t \<in> S")
  case True
  then show ?thesis by (simp only: insert_absorb if_True)
next
  case False
  with assms show ?thesis by (simp add: sorted_insort_is_snoc)
qed

text \<open>One issue: what the fold over its sorted targets does to the tables.\<close>

definition build_ok :: "nat \<Rightarrow> build \<Rightarrow> bool" where
  "build_ok n b \<longleftrightarrow> graph_ok (bd_graph b) \<and> cg_nodes (bd_graph b) = n \<and>
     length (bd_counts b) = n \<and> length (bd_seen b) = n"

lemma build_okD:
  assumes "build_ok n b"
  shows "graph_ok (bd_graph b)" "cg_nodes (bd_graph b) = n" "length (bd_counts b) = n" "length (bd_seen b) = n"
    "length (cg_out (bd_graph b)) = n" "length (cg_in (bd_graph b)) = n"
  using assms by (simp_all add: build_ok_def graph_ok_length)

lemma add_target_ok [intro]: "build_ok n b \<Longrightarrow> build_ok n (add_target epoch u v b)"
  by (auto simp: build_ok_def add_target_def)

lemma add_targets:
  assumes "build_ok n b" "u < n" "sorted ts" "set ts \<subseteq> {..<n}" "\<forall>v < n. bd_seen b ! v \<noteq> epoch"
    "cg_out (bd_graph b) ! u = []"
  defines "b' \<equiv> fold (add_target epoch u) ts b"
  shows "build_ok n b' \<and> bd_children b' = bd_children b \<and>
    (\<forall>x < n. cg_out (bd_graph b') ! x = (if x = u then sorted_list_of_set (set ts) else cg_out (bd_graph b) ! x)) \<and>
    (\<forall>v < n. cg_in (bd_graph b') ! v = cg_in (bd_graph b) ! v @ (if v \<in> set ts then [u] else [])) \<and>
    (\<forall>v < n. bd_counts b' ! v = bd_counts b ! v + (if v \<in> set ts then 1 else 0)) \<and>
    (\<forall>v < n. bd_seen b' ! v = (if v \<in> set ts then epoch else bd_seen b ! v))"
  using assms(3,4) unfolding b'_def
proof (induction ts rule: rev_induct)
  case Nil
  then show ?case using assms by simp
next
  case (snoc t ts)
  define c where "c = fold (add_target epoch u) ts b"
  have IH: "build_ok n c \<and> bd_children c = bd_children b \<and>
    (\<forall>x < n. cg_out (bd_graph c) ! x = (if x = u then sorted_list_of_set (set ts) else cg_out (bd_graph b) ! x)) \<and>
    (\<forall>v < n. cg_in (bd_graph c) ! v = cg_in (bd_graph b) ! v @ (if v \<in> set ts then [u] else [])) \<and>
    (\<forall>v < n. bd_counts c ! v = bd_counts b ! v + (if v \<in> set ts then 1 else 0)) \<and>
    (\<forall>v < n. bd_seen c ! v = (if v \<in> set ts then epoch else bd_seen b ! v))"
    unfolding c_def using snoc by (simp add: sorted_append)
  note c = build_okD[of n c, OF IH[THEN conjunct1]]
  have t: "t < n" "\<forall>x \<in> set ts. x \<le> t" using snoc.prems by (auto simp: sorted_append)
  have ins: "sorted_list_of_set (insert t (set ts)) =
      (if t \<in> set ts then sorted_list_of_set (set ts) else sorted_list_of_set (set ts) @ [t])"
    using t by (intro sorted_list_insert_max) auto
  have step: "fold (add_target epoch u) (ts @ [t]) b = add_target epoch u t c" by (simp add: c_def)
  show ?case
  proof (cases "t \<in> set ts")
    case True
    then have "add_target epoch u t c = c" using IH t by (simp add: add_target_def)
    moreover have "insert t (set ts) = set ts" using True by auto
    ultimately show ?thesis unfolding step using IH by simp
  next
    case False
    then have s: "bd_seen c ! t \<noteq> epoch" using IH t assms(5) by simp
    define d where "d = add_target epoch u t c"
    have d: "bd_seen d = (bd_seen c)[t := epoch]" "bd_counts d = (bd_counts c)[t := bd_counts c ! t + 1]"
      "bd_children d = bd_children c" "bd_graph d = add_edge (int u) (int t) (bd_graph c)"
      using s t c by (simp_all add: add_target_def d_def)
    have e: "cg_out (bd_graph d) = (cg_out (bd_graph c))[u := cg_out (bd_graph c) ! u @ [t]]"
      "cg_in (bd_graph d) = (cg_in (bd_graph c))[t := cg_in (bd_graph c) ! t @ [u]]"
      using t assms(2) c by (simp_all add: d add_edge_def)
    have "build_ok n d" using IH by (auto simp: d_def)
    then show ?thesis
      unfolding step d_def[symmetric]
      using IH t assms(2) c False ins by (simp add: d(1-3) e nth_list_update)
  qed
qed


lemma add_targets_children: "bd_children (fold (add_target epoch u) ts b) = bd_children b"
proof (induction ts arbitrary: b)
  case (Cons t ts)
  have "bd_children (add_target epoch u t b) = bd_children b" by (simp add: add_target_def)
  with Cons show ?case by simp
qed simp

text \<open>After the first \<open>k\<close> issues the tables hold the rows of those issues.\<close>

definition build_inv :: "(string, issue) gomap \<Rightarrow> string list \<Rightarrow> nat \<Rightarrow> build \<Rightarrow> bool" where
  "build_inv m ids k b \<longleftrightarrow> build_ok (length ids) b \<and>
     (\<forall>u < length ids. cg_out (bd_graph b) ! u =
        (if u < k then sorted_list_of_set {v. v < length ids \<and> depends_on m (ids ! u) (ids ! v)} else [])) \<and>
     (\<forall>v < length ids. cg_in (bd_graph b) ! v = filter (\<lambda>u. depends_on m (ids ! u) (ids ! v)) [0..<k]) \<and>
     (\<forall>v < length ids. bd_counts b ! v = length (cg_in (bd_graph b) ! v)) \<and>
     (\<forall>v < length ids. bd_seen b ! v \<le> k)"

lemma add_issue_inv:
  assumes inv: "build_inv m ids k b" and k: "k < length ids"
    and ids: "distinct ids" "set ids = set (mkeys m)"
  shows "build_inv m ids (Suc k) (add_issue m (index_ids ids) (Suc k, ids ! k) b)"
proof -
  let ?n = "length ids" and ?T = "{v. v < length ids \<and> depends_on m (ids ! k) (ids ! v)}"
  from k ids(2) obtain i where i: "mget m (ids ! k) = Some i" by (metis mkeys_ex nth_mem)
  have idx: "mget (index_ids ids) (ids ! k) = Some k" using k ids(1) by (simp add: index_ids_get)
  have T: "set (blocking_targets (index_ids ids) i) = ?T"
    using set_blocking_targets[OF ids(1) i ids(2)] .
  define ts where "ts = sort (blocking_targets (index_ids ids) i)"
  define b0 where "b0 = b\<lparr>bd_children :=
    (if dependencies i = [] then bd_children b
     else fold (add_child (ids ! k)) (remdups_adj (sort (parent_targets m i))) (bd_children b))\<rparr>"
  have ts: "sorted ts" "set ts = ?T" using T by (simp_all add: ts_def)
  have "dependencies i = [] \<Longrightarrow> ts = []" by (simp add: ts_def blocking_targets_def List.map_filter_def)
  then have step: "add_issue m (index_ids ids) (Suc k, ids ! k) b = fold (add_target (Suc k) k) ts b0"
    by (simp add: add_issue_def idx i b0_def ts_def Let_def)
  have b0: "build_ok ?n b0" "bd_graph b0 = bd_graph b" "bd_counts b0 = bd_counts b" "bd_seen b0 = bd_seen b"
    using inv by (simp_all add: b0_def build_inv_def build_ok_def)
  have seen: "\<forall>v < ?n. bd_seen b0 ! v \<noteq> Suc k" using inv b0 by (fastforce simp: build_inv_def)
  have out: "cg_out (bd_graph b0) ! k = []" using inv b0 k by (simp add: build_inv_def)
  have sub: "set ts \<subseteq> {..<?n}" using ts by auto
  note r = add_targets[OF b0(1) k ts(1) sub seen out]
  show ?thesis
    unfolding step build_inv_def
    using r inv b0 ts by (auto simp: build_inv_def less_Suc_eq le_SucI)
qed

lemma build_graph_inv:
  assumes "distinct ids" "set ids = set (mkeys m)"
  shows "build_inv m ids (length ids) (build_graph m ids)"
proof -
  let ?b0 = "\<lparr>bd_graph = new_compact_graph (length ids), bd_counts = replicate (length ids) 0,
    bd_seen = replicate (length ids) 0, bd_children = []\<rparr>"
  have "k \<le> length ids \<Longrightarrow>
    build_inv m ids k (fold (add_issue m (index_ids ids)) (take k (enumerate 1 ids)) ?b0)" for k
  proof (induction k)
    case 0
    show ?case by (simp add: build_inv_def build_ok_def) (simp add: new_compact_graph_def)
  next
    case (Suc k)
    then have "take (Suc k) (enumerate 1 ids) = take k (enumerate 1 ids) @ [(Suc k, ids ! k)]"
      by (simp add: take_Suc_conv_app_nth nth_enumerate_eq)
    then show ?case using Suc add_issue_inv[OF _ _ assms] by simp
  qed
  from this[of "length ids"] show ?thesis by (simp add: build_graph_def Let_def)
qed

text \<open>The facts about the graph of an analyzer, by issue id.\<close>

definition node_ids :: "issue list \<Rightarrow> string list" where
  "node_ids issues = sorted_ids (issue_map_of issues)"

lemma node_ids_facts [simp]:
  "distinct (node_ids issues)" "sorted (node_ids issues)" "set (node_ids issues) = set (mkeys (issue_map_of issues))"
  using issue_map_of_ok[of issues] by (simp_all add: node_ids_def gomap_ok_def)

lemma new_analyzer_raw:
  "an_graph (new_analyzer issues now) = bd_graph (build_graph (issue_map_of issues) (node_ids issues))"
  "an_blocker_counts (new_analyzer issues now) = bd_counts (build_graph (issue_map_of issues) (node_ids issues))"
  "an_children (new_analyzer issues now) = bd_children (build_graph (issue_map_of issues) (node_ids issues))"
  by (simp_all add: new_analyzer_def node_ids_def Let_def)

lemma new_analyzer_simps [simp]:
  "an_id_to_node (new_analyzer issues now) = index_ids (node_ids issues)"
  "an_node_to_id (new_analyzer issues now) = index_nodes (node_ids issues)"
  "an_issue_map (new_analyzer issues now) = issue_map_of issues"
  "an_issues (new_analyzer issues now) = issues"
  "an_blocker_counts_max (new_analyzer issues now) = max_count (an_blocker_counts (new_analyzer issues now))"
  "an_readiness (new_analyzer issues now) = None" "an_candidates (new_analyzer issues now) = None"
  "an_now (new_analyzer issues now) = now"
  by (simp_all add: new_analyzer_def node_ids_def Let_def)

lemma build_inv_analyzer:
  "build_inv (issue_map_of issues) (node_ids issues) (length (node_ids issues))
     (build_graph (issue_map_of issues) (node_ids issues))"
  by (rule build_graph_inv) simp_all

lemma analyzer_graph_ok [simp]: "graph_ok (an_graph (new_analyzer issues now))"
  and analyzer_nodes [simp]: "cg_nodes (an_graph (new_analyzer issues now)) = length (node_ids issues)"
  using build_inv_analyzer[of issues] by (simp_all add: new_analyzer_raw build_inv_def build_ok_def)

lemma analyzer_edges:
  "(u, v) \<in> edges (an_graph (new_analyzer issues now)) \<longleftrightarrow>
     u < length (node_ids issues) \<and> v < length (node_ids issues) \<and>
     depends_on (issue_map_of issues) (node_ids issues ! u) (node_ids issues ! v)"
  using build_inv_analyzer[of issues] by (auto simp: new_analyzer_raw build_inv_def build_ok_def edges_def)

lemma max_count_Max: "max_count cs = Max (set (0 # cs))"
proof -
  have "fold (\<lambda>c mx. if c > mx then c else mx) cs k = fold max cs k" for k
    by (induction cs arbitrary: k) (auto simp: max_def)
  then have "max_count cs = fold max cs 0" by (simp add: max_count_def)
  also have "\<dots> = Max (set (0 # cs))" by (subst Max.set_eq_fold) simp
  finally show ?thesis .
qed

end
