(* ===== verification/Bv_Analyzer_Props.thy ===== *)
theory Bv_Analyzer_Props
  imports Bv_Analyzer
begin

text \<open>
  Correctness of the analyzer's graph and of the queries over it: the two adjacency tables against
  the dependency records, independence of the order of the input, the graph of open work, blockers
  and the actionable set.
\<close>

section \<open>Adjacency tables\<close>

lemma analyzer_out:
  "u < length (node_ids issues) \<Longrightarrow> cg_out (an_graph (new_analyzer issues now)) ! u =
     sorted_list_of_set {v. v < length (node_ids issues) \<and>
       depends_on (issue_map_of issues) (node_ids issues ! u) (node_ids issues ! v)}"
  using build_inv_analyzer[of issues] by (simp add: new_analyzer_raw build_inv_def)

lemma analyzer_in:
  "v < length (node_ids issues) \<Longrightarrow> cg_in (an_graph (new_analyzer issues now)) ! v =
     filter (\<lambda>u. depends_on (issue_map_of issues) (node_ids issues ! u) (node_ids issues ! v))
       [0..<length (node_ids issues)]"
  using build_inv_analyzer[of issues] by (simp add: new_analyzer_raw build_inv_def)

lemma analyzer_counts:
  "an_blocker_counts (new_analyzer issues now) =
     map (\<lambda>v. length (cg_in (an_graph (new_analyzer issues now)) ! v)) [0..<length (node_ids issues)]"
  using build_inv_analyzer[of issues] by (intro nth_equalityI) (simp_all add: new_analyzer_raw build_inv_def build_ok_def)

text \<open>C10: The graph of \<open>NewAnalyzer\<close> has one node per distinct issue id, numbered in id order, and an
  edge from u to v exactly when issue u has a blocking dependency record on the existing issue v;
  repeated records give one edge, so every out-list and in-list is strictly ascending and
  \<open>blockerCounts\<close> is the number of distinct direct dependents, with its maximum in
  \<open>blockerCountsMax\<close>.\<close>

theorem new_analyzer_graph:
  "let a = new_analyzer issues now; g = an_graph a; ids = node_ids issues; m = issue_map_of issues in
   graph_ok g \<and> cg_nodes g = length ids \<and> sorted_wrt (<) ids \<and> set ids = issue_id ` set issues \<and>
   edges g = {(u, v). u < length ids \<and> v < length ids \<and> depends_on m (ids ! u) (ids ! v)} \<and>
   (\<forall>u < length ids. sorted_wrt (<) (cg_out g ! u) \<and> sorted_wrt (<) (cg_in g ! u)) \<and>
   an_blocker_counts a = map (\<lambda>v. card {u. (u, v) \<in> edges g}) [0..<length ids] \<and>
   an_blocker_counts_max a = Max (insert 0 (set (an_blocker_counts a)))"
proof -
  let ?a = "new_analyzer issues now" and ?ids = "node_ids issues"
  let ?g = "an_graph ?a"
  have st: "sorted_wrt (<) (cg_out ?g ! u)" "sorted_wrt (<) (cg_in ?g ! u)" if "u < length ?ids" for u
    using that by (simp_all only: analyzer_out analyzer_in)
      (simp_all add: strict_sorted_iff sorted_filter[of id, simplified])
  have ids: "set ?ids = issue_id ` set issues"
  proof -
    have "x \<in> set ?ids \<longleftrightarrow> x \<in> issue_id ` set issues" for x
      by (auto simp: mkeys_ex issue_map_of_get find_None_iff simp flip: not_None_eq)
    then show ?thesis by blast
  qed
  have len: "length (cg_in ?g ! v) = card {u. (u, v) \<in> edges ?g}" if "v < length ?ids" for v
  proof -
    have "set (cg_in ?g ! v) = {u. (u, v) \<in> edges ?g}"
      using in_iff_edges[OF analyzer_graph_ok[of issues now], of v] that by (auto simp: analyzer_nodes)
    then show ?thesis using st(2)[OF that] by (metis distinct_card strict_sorted_iff)
  qed
  have cnt: "an_blocker_counts ?a = map (\<lambda>v. card {u. (u, v) \<in> edges ?g}) [0..<length ?ids]"
    unfolding analyzer_counts using len by simp
  have ed: "edges ?g = {(u, v). u < length ?ids \<and> v < length ?ids \<and>
      depends_on (issue_map_of issues) (?ids ! u) (?ids ! v)}"
    using analyzer_edges[of _ _ issues now] by auto
  show ?thesis
    unfolding Let_def
  proof (intro conjI)
    show "sorted_wrt (<) ?ids" by (simp add: strict_sorted_iff)
    show "an_blocker_counts_max ?a = Max (insert 0 (set (an_blocker_counts ?a)))"
      unfolding new_analyzer_simps max_count_Max by simp
  qed (use st ids cnt ed analyzer_graph_ok[of issues now] analyzer_nodes[of issues now] in blast)+
qed

lemma new_analyzer_graph_witness:
  "sorted_wrt (<) (cg_out (an_graph (new_analyzer demo_tracker 0)) ! 3)"
proof -
  have "node_ids demo_tracker = [''b'', ''c'', ''d'', ''p'']" by code_simp
  then show ?thesis using new_analyzer_graph[of demo_tracker 0] by (simp add: Let_def del: node_ids_facts)
qed

section \<open>Independence of the input order\<close>

lemma compact_graph_eqI:
  assumes "graph_ok g" "graph_ok h" "cg_nodes g = cg_nodes h"
    and "\<And>u. u < cg_nodes g \<Longrightarrow> cg_out g ! u = cg_out h ! u"
    and "\<And>u. u < cg_nodes g \<Longrightarrow> cg_in g ! u = cg_in h ! u"
  shows "g = h"
proof -
  have "cg_out g = cg_out h" "cg_in g = cg_in h"
    using assms by (auto intro!: nth_equalityI simp: graph_ok_length)
  moreover then have "cg_edge_count g = cg_edge_count h" using assms(1,2) by (simp add: graph_ok_def)
  ultimately show ?thesis using assms(3) by (intro compact_graph.equality) simp_all
qed

lemma issue_map_perm:
  assumes "mset issues = mset issues'" "distinct (map issue_id issues)"
  shows "mget (issue_map_of issues) k = mget (issue_map_of issues') k"
proof -
  have sets: "set issues = set issues'" using assms(1) by (rule mset_eq_setD)
  have "inj_on issue_id (set issues)" using assms(2) by (simp add: distinct_map)
  then have u: "i \<in> set issues \<Longrightarrow> j \<in> set issues \<Longrightarrow> issue_id i = issue_id j \<Longrightarrow> i = j" for i j
    by (auto dest: inj_onD)
  have g: "mget (issue_map_of xs) k = Some i \<longleftrightarrow> i \<in> set xs \<and> issue_id i = k"
    if "set xs = set issues" for xs i
  proof
    assume "mget (issue_map_of xs) k = Some i"
    then show "i \<in> set xs \<and> issue_id i = k" using issue_map_of_id by blast
  next
    assume i: "i \<in> set xs \<and> issue_id i = k"
    then have "find (\<lambda>i. issue_id i = k) (rev xs) \<noteq> None" by (auto simp: find_None_iff)
    then obtain j where "mget (issue_map_of xs) k = Some j" by (auto simp: issue_map_of_get)
    then show "mget (issue_map_of xs) k = Some i" using u i that issue_map_of_id by metis
  qed
  show ?thesis using g[of issues] g[of issues'] sets by (metis not_None_eq)
qed

lemma node_ids_perm:
  assumes "mset issues = mset issues'" "distinct (map issue_id issues)"
  shows "node_ids issues = node_ids issues'"
proof -
  have "set (mkeys (issue_map_of issues)) = set (mkeys (issue_map_of issues'))"
    using issue_map_perm[OF assms] by (auto simp: mkeys_ex)
  then show ?thesis
    unfolding node_ids_def sorted_ids_def
    using issue_map_of_ok by (intro sort_perm_cong) (simp_all add: gomap_ok_def)
qed

text \<open>Reordering the input issues (with unique ids) cannot change the analysis graph: the node
  numbering, the two adjacency tables in their order, and the blocker counts are the same, as the
  comment in \<open>NewAnalyzer\<close> promises for the numeric analyses built on them.\<close>

theorem new_analyzer_order_independent:
  assumes "mset issues = mset issues'" "distinct (map issue_id issues)"
  shows "an_graph (new_analyzer issues now) = an_graph (new_analyzer issues' now) \<and>
    an_id_to_node (new_analyzer issues now) = an_id_to_node (new_analyzer issues' now) \<and>
    an_node_to_id (new_analyzer issues now) = an_node_to_id (new_analyzer issues' now) \<and>
    an_blocker_counts (new_analyzer issues now) = an_blocker_counts (new_analyzer issues' now)"
proof -
  note ids = node_ids_perm[OF assms]
  have dep: "depends_on (issue_map_of issues) = depends_on (issue_map_of issues')"
    by (intro ext) (simp add: depends_on_def issue_map_perm[OF assms])
  have g: "an_graph (new_analyzer issues now) = an_graph (new_analyzer issues' now)"
  proof (rule compact_graph_eqI)
    fix u assume "u < cg_nodes (an_graph (new_analyzer issues now))"
    then have "u < length (node_ids issues)" by (simp only: analyzer_nodes)
    with ids dep show "cg_out (an_graph (new_analyzer issues now)) ! u = cg_out (an_graph (new_analyzer issues' now)) ! u"
      "cg_in (an_graph (new_analyzer issues now)) ! u = cg_in (an_graph (new_analyzer issues' now)) ! u"
      by (simp_all only: analyzer_out analyzer_in)
  qed (simp_all only: analyzer_graph_ok analyzer_nodes ids)
  then have "an_blocker_counts (new_analyzer issues now) = an_blocker_counts (new_analyzer issues' now)"
    by (simp only: analyzer_counts ids)
  with g show ?thesis using ids by simp
qed

lemma new_analyzer_order_independent_witness:
  "an_blocker_counts (new_analyzer (rev demo_tracker) 0) = [1, 1, 0, 0]"
proof -
  have "distinct (map issue_id demo_tracker)" by (simp add: demo_defs)
  moreover have "an_blocker_counts (new_analyzer demo_tracker 0) = [1, 1, 0, 0]" by code_simp
  ultimately show ?thesis using new_analyzer_order_independent[of demo_tracker "rev demo_tracker" 0] by simp
qed

section \<open>The graph of open work\<close>

lemma edges_add_edge:
  assumes "graph_ok g" "u < cg_nodes g" "v < cg_nodes g"
  shows "edges (add_edge (int u) (int v) g) = insert (u, v) (edges g)"
  using assms by (auto simp: edges_def add_edge_def graph_ok_length nth_list_update split: if_splits)

lemma edges_new [simp]: "edges (new_compact_graph n) = {}"
  by (auto simp: edges_def new_compact_graph_def)

lemma cg_nodes_new [simp]: "cg_nodes (new_compact_graph n) = n"
  by (simp add: new_compact_graph_def)

lemma fold_add_active:
  assumes "graph_ok g" "\<forall>(u, v) \<in> set es. u < cg_nodes g \<and> v < cg_nodes g"
  shows "graph_ok (fold (add_active a) (map Some es) g) \<and>
    cg_nodes (fold (add_active a) (map Some es) g) = cg_nodes g \<and>
    edges (fold (add_active a) (map Some es) g) =
      edges g \<union> {(u, v) \<in> set es. node_active a u \<and> node_active a v}"
  using assms
proof (induction es arbitrary: g)
  case (Cons e es)
  obtain u v where e: "e = (u, v)" by force
  define h where "h = add_active a (Some e) g"
  have h: "graph_ok h" "cg_nodes h = cg_nodes g"
    "edges h = edges g \<union> {x. x = e \<and> node_active a u \<and> node_active a v}"
    using Cons.prems e by (auto simp: h_def add_active_def edges_add_edge)
  have "fold (add_active a) (map Some (e # es)) g = fold (add_active a) (map Some es) h"
    by (simp add: h_def)
  with Cons.IH[of h] Cons.prems e h show ?case by auto
qed simp

lemma length_index_nodes [simp]: "length (index_nodes ids) = length ids"
proof -
  have "length (fold (\<lambda>(i, iid) m. mput i iid m) (enumerate k ids) m) = length m + length ids"
    if "\<forall>i \<in> set (mkeys m). i < k" for k m
    using that
  proof (induction ids arbitrary: k m)
    case (Cons y ys)
    have "length (mput k y m) = Suc (length m)"
      using Cons.prems by (induction m) (auto simp: mput_def mkeys_def)
    moreover have "\<forall>i \<in> set (mkeys (mput k y m)). i < Suc k" using Cons.prems by auto
    ultimately show ?case using Cons.IH[of "mput k y m" "Suc k"] by simp
  qed simp
  from this[of "[]" 0] show ?thesis by (simp add: index_nodes_def)
qed

lemma node_issue: "u < length (node_ids issues) \<Longrightarrow> \<exists>i. mget (issue_map_of issues) (node_ids issues ! u) = Some i"
  by (metis mkeys_ex node_ids_facts(3) nth_mem)

lemma node_active_new:
  "u < length (node_ids issues) \<Longrightarrow> node_active (new_analyzer issues now) u \<longleftrightarrow>
     (\<exists>i. mget (issue_map_of issues) (node_ids issues ! u) = Some i \<and> \<not> is_closed_like_status (status i))"
  by (auto simp: node_active_def mget_or_def index_nodes_get split: option.splits)

text \<open>The graph on which cycles are looked for has the same nodes and exactly the blocking edges
  between two issues that are not closed or tombstoned, whether or not the shortcut for a tracker
  without closed issues is taken.\<close>

theorem active_cycle_graph_edges:
  "graph_ok (active_cycle_graph (new_analyzer issues now)) \<and>
   cg_nodes (active_cycle_graph (new_analyzer issues now)) = length (node_ids issues) \<and>
   edges (active_cycle_graph (new_analyzer issues now)) =
     {(u, v) \<in> edges (an_graph (new_analyzer issues now)). \<forall>w \<in> {u, v}. \<exists>i.
        mget (issue_map_of issues) (node_ids issues ! w) = Some i \<and> \<not> is_closed_like_status (status i)}"
proof -
  let ?a = "new_analyzer issues now"
  let ?g = "an_graph ?a" and ?ids = "node_ids issues"
  have rng: "(u, v) \<in> edges ?g \<Longrightarrow> u < length ?ids \<and> v < length ?ids" for u v
    by (simp add: analyzer_edges)
  have act: "{(u, v) \<in> edges ?g. \<forall>w \<in> {u, v}. \<exists>i. mget (issue_map_of issues) (?ids ! w) = Some i \<and>
      \<not> is_closed_like_status (status i)} = {(u, v) \<in> edges ?g. node_active ?a u \<and> node_active ?a v}"
    using rng by (auto simp: node_active_new)
  show ?thesis
  proof (cases "\<exists>(k, i) \<in> set (issue_map_of issues). is_closed_like_status (status i)")
    case False
    then have "node_active ?a u" if "u < length ?ids" for u
      using node_issue[OF that] by (auto simp: node_active_new[OF that] mget_def dest: map_of_SomeD)
    moreover have "active_cycle_graph ?a = ?g" using False by (simp add: active_cycle_graph_def)
    ultimately show ?thesis unfolding act using rng by auto
  next
    case True
    have es: "\<forall>(u, v) \<in> set (edge_list ?g). u < cg_nodes (new_compact_graph (length ?ids)) \<and>
        v < cg_nodes (new_compact_graph (length ?ids))"
      using rng by (auto simp: set_edge_list)
    show ?thesis
      unfolding act
      using fold_add_active[OF graph_ok_new es, of ?a] True
      by (simp add: active_cycle_graph_def collect_edges_all set_edge_list)
  qed
qed

lemma active_cycle_graph_edges_witness:
  "(3, 0) \<in> edges (active_cycle_graph (new_analyzer demo_tracker 0))"
proof -
  have "node_ids demo_tracker = [''b'', ''c'', ''d'', ''p'']" by code_simp
  moreover have "cg_out (an_graph (new_analyzer demo_tracker 0)) ! 3 = [0]"
    "cg_nodes (an_graph (new_analyzer demo_tracker 0)) = 4" by code_simp+
  then have "(3, 0) \<in> edges (an_graph (new_analyzer demo_tracker 0))" by (simp add: edges_def)
  moreover have "map_option status (mget (issue_map_of demo_tracker) ''p'') = Some StatusOpen"
    "map_option status (mget (issue_map_of demo_tracker) ''b'') = Some StatusOpen" by code_simp+
  ultimately show ?thesis
    using active_cycle_graph_edges[of demo_tracker 0]
    by (auto simp: is_closed_like_status_def status_defs)
qed

section \<open>Direct blockers and dependents\<close>

lemma keep_new_sorted:
  "sorted (x # xs) \<Longrightarrow> sorted_wrt (<) (x # keep_new x xs) \<and> insert x (set (keep_new x xs)) = set (x # xs)"
proof (induction xs arbitrary: x)
  case (Cons y ys)
  then have "sorted_wrt (<) (y # keep_new y ys)" "insert y (set (keep_new y ys)) = set (y # ys)" by simp_all
  with Cons show ?case
    by (cases "x = y") (auto simp: order_less_le intro: order_trans)
qed simp

lemma sorted_unique_ids_facts:
  "sorted_wrt (<) (sorted_unique_issue_ids xs)" "set (sorted_unique_issue_ids xs) = set xs"
proof -
  consider "xs = []" | x where "xs = [x]" | "\<not> length xs < 2" by (cases xs rule: remdups_adj.cases) auto
  then have "sorted_wrt (<) (sorted_unique_issue_ids xs) \<and> set (sorted_unique_issue_ids xs) = set xs"
  proof cases
    case 3
    then obtain y ys where y: "sort xs = y # ys" by (metis length_0_conv length_sort neq_Nil_conv zero_less_numeral)
    have "sorted (y # ys)" "set (y # ys) = set xs" using y by (metis sorted_sort, metis set_sort)
    then show ?thesis using keep_new_sorted[of y ys] 3 by (simp add: sorted_unique_issue_ids_def y)
  qed (simp_all add: sorted_unique_issue_ids_def)
  then show "sorted_wrt (<) (sorted_unique_issue_ids xs)" "set (sorted_unique_issue_ids xs) = set xs" by simp_all
qed

lemma set_get_blockers: "set (get_blockers a x) = {y. depends_on (an_issue_map a) x y}"
proof (cases "mget (an_issue_map a) x")
  case (Some i)
  have "y \<in> set (get_blockers a x) \<longleftrightarrow> (\<exists>dep \<in> set (dependencies i). \<exists>d. dep = Some d \<and>
      is_blocking (dep_kind d) \<and> mget (an_issue_map a) (dep_on d) \<noteq> None \<and> dep_on d = y)" for y
    unfolding get_blockers_def Some option.case sorted_unique_ids_facts mem_map_filter
    by (rule bex_cong[OF refl]) (auto split: option.splits)
  with Some show ?thesis by (auto simp: depends_on_def blocks_dep_def)
qed (simp add: get_blockers_def depends_on_def)

lemma sorted_get_blockers: "sorted_wrt (<) (get_blockers a x)"
  by (auto simp: get_blockers_def sorted_unique_ids_facts split: option.splits)

lemma sorted_map_nth:
  "sorted_wrt (<) ids \<Longrightarrow> sorted_wrt (<) us \<Longrightarrow> set us \<subseteq> {..<length ids} \<Longrightarrow>
    sorted_wrt (<) (map ((!) ids) us)"
  by (induction us) (auto simp: sorted_wrt_nth_less)

text \<open>\<open>GetBlockers\<close>, which re-reads the dependency records, and the adjacency tables of the graph
  agree: for every issue, its sorted unique blockers are the out-list of its node translated to ids,
  and the issues that name it as a blocker are its in-list.\<close>

theorem get_blockers_is_adjacency:
  "\<forall>u < length (node_ids issues).
     get_blockers (new_analyzer issues now) (node_ids issues ! u) =
       map ((!) (node_ids issues)) (cg_from (an_graph (new_analyzer issues now)) (int u)) \<and>
     (\<forall>v < length (node_ids issues).
       node_ids issues ! u \<in> set (get_blockers (new_analyzer issues now) (node_ids issues ! v)) \<longleftrightarrow>
       v \<in> set (cg_to (an_graph (new_analyzer issues now)) (int u)))"
proof (intro allI impI conjI)
  fix u v
  let ?a = "new_analyzer issues now" and ?ids = "node_ids issues"
  assume u: "u < length ?ids"
  have out: "cg_from (an_graph ?a) (int u) =
      sorted_list_of_set {v. v < length ?ids \<and> depends_on (issue_map_of issues) (?ids ! u) (?ids ! v)}"
    using u by (simp add: analyzer_out)
  have "set (get_blockers ?a (?ids ! u)) = set (map ((!) ?ids) (cg_from (an_graph ?a) (int u)))"
  proof -
    have "depends_on (issue_map_of issues) x y \<Longrightarrow> y \<in> set ?ids" for x y
      by (auto simp: depends_on_def mkeys_ex)
    then have "{y. depends_on (issue_map_of issues) (?ids ! u) y} =
        (!) ?ids ` {v. v < length ?ids \<and> depends_on (issue_map_of issues) (?ids ! u) (?ids ! v)}"
      by (auto simp only: in_set_conv_nth image_iff mem_Collect_eq)
    then show ?thesis unfolding set_get_blockers out by simp
  qed
  moreover have "sorted_wrt (<) (map ((!) ?ids) (cg_from (an_graph ?a) (int u)))"
    unfolding out by (rule sorted_map_nth) (auto simp: strict_sorted_iff)
  ultimately show "get_blockers ?a (?ids ! u) = map ((!) ?ids) (cg_from (an_graph ?a) (int u))"
    using sorted_get_blockers[of ?a "?ids ! u"]
    by (intro sorted_distinct_set_unique) (simp_all only: strict_sorted_iff)
  assume v: "v < length ?ids"
  show "?ids ! u \<in> set (get_blockers ?a (?ids ! v)) \<longleftrightarrow> v \<in> set (cg_to (an_graph ?a) (int u))"
    using u v by (simp add: set_get_blockers in_iff_edges analyzer_edges)
qed

lemma get_blockers_is_adjacency_witness:
  "get_blockers (new_analyzer demo_tracker 0) (node_ids demo_tracker ! 3) = [''b'']"
proof -
  have "node_ids demo_tracker = [''b'', ''c'', ''d'', ''p'']" by code_simp
  moreover have "cg_from (an_graph (new_analyzer demo_tracker 0)) 3 = [0]" by code_simp
  ultimately show ?thesis using get_blockers_is_adjacency[of demo_tracker 0, THEN spec, of 3] by simp
qed

section \<open>The actionable set\<close>

lemma own_issues_get: "mget (own_issues issues) k = map_option own_issue (mget (issue_map_of issues) k)"
proof -
  have "mget (fold (\<lambda>i m. mput (issue_id i) (own_issue i) m) issues m') k =
      map_option own_issue (mget (fold (\<lambda>i m. mput (issue_id i) i m) issues m) k)"
    if "mget m' k = map_option own_issue (mget m k)" for m m'
    using that by (induction issues arbitrary: m m') auto
  then show ?thesis by (simp add: own_issues_def issue_map_of_def)
qed

lemma ready_index_of_issues:
  "ready (index_of_issues issues) k now \<longleftrightarrow>
    (\<exists>i. mget (issue_map_of issues) k = Some i \<and> is_actionable_status (status i) \<and>
         \<not> is_deferred_at i now \<and> spec_state (own_issues issues) {} k = DepSatisfied)"
proof -
  let ?ks = "mkeys (own_issues issues)"
  have ord: "range_order (own_issues issues) ?ks" by (rule range_order_mkeys) simp
  show ?thesis
    unfolding index_of_issues_def new_readiness_index_def Let_def ready_spec[OF ord ord ord]
    by (auto simp: own_issues_get own_issue_def is_actionable_status_def ri_is_deferred_at_def is_deferred_at_def)
qed

lemma map_filter_ids:
  assumes "\<And>k i. mget m k = Some i \<Longrightarrow> issue_id i = k"
    and "set ks \<subseteq> set (mkeys m)"
  shows "map issue_id (List.map_filter (\<lambda>k. if P k then mget m k else None) ks) = filter P ks"
  using assms(2)
proof (induction ks)
  case (Cons k ks)
  then obtain i where "mget m k = Some i" by (auto simp: mkeys_ex)
  with Cons assms(1)[of k i] show ?case by (simp add: List.map_filter_simps)
qed simp

lemma count_fold: "fold (\<lambda>x c. if P x then c + 1 else c) xs (n :: nat) = n + length (filter P xs)"
  by (induction xs arbitrary: n) auto

lemma ready_after_nil [simp]: "ready_after r k now [] = ready r k now"
  by (simp add: ready_after_def)

lemma scope_simps [simp]:
  "readiness (set_readiness_scope auth cand (new_analyzer issues now)) =
     (case auth of None \<Rightarrow> index_of_issues issues | Some r \<Rightarrow> r)"
  "an_issue_map (set_readiness_scope auth cand (new_analyzer issues now)) = issue_map_of issues"
  "an_now (set_readiness_scope auth cand (new_analyzer issues now)) = now"
  "is_candidate (set_readiness_scope auth cand (new_analyzer issues now)) k =
     (case cand of None \<Rightarrow> True | Some c \<Rightarrow> mget_or False c k)"
  by (auto simp: set_readiness_scope_def readiness_once_def readiness_def is_candidate_def Let_def
      split: option.splits)

text \<open>C14: In an analyzer scoped to any candidate set, \<open>GetActionableIssues\<close> lists, in strictly
  ascending id order, exactly the candidate issues that are open or in progress, not deferred at the
  reference instant, and whose dependencies, parents included, are satisfied by the declarative
  semantics; and \<open>CountActionableIssues\<close>, which loops over the map, counts the same issues.\<close>

theorem actionable_issues_correct:
  "let a = set_readiness_scope None cand (new_analyzer issues now) in
   sorted_wrt (<) (map issue_id (get_actionable_issues a)) \<and>
   set (get_actionable_issues a) = {i. mget (issue_map_of issues) (issue_id i) = Some i \<and>
      (case cand of None \<Rightarrow> True | Some c \<Rightarrow> mget_or False c (issue_id i)) \<and>
      is_actionable_status (status i) \<and> \<not> is_deferred_at i now \<and>
      spec_state (own_issues issues) {} (issue_id i) = DepSatisfied} \<and>
   count_actionable_issues a = length (get_actionable_issues a)"
proof -
  let ?a = "set_readiness_scope None cand (new_analyzer issues now)" and ?m = "issue_map_of issues"
  let ?P = "\<lambda>k. is_candidate ?a k \<and> ready (index_of_issues issues) k now"
  have ids: "map issue_id (get_actionable_issues ?a) = filter ?P (node_ids issues)"
    unfolding get_actionable_issues_def actionable_issues_after_def
    unfolding scope_simps(2,3) ready_after_nil scope_simps(1) option.case node_ids_def
    by (rule map_filter_ids) (simp_all add: issue_map_of_id)
  have mem: "i \<in> set (get_actionable_issues ?a) \<longleftrightarrow> mget ?m (issue_id i) = Some i \<and> ?P (issue_id i)" for i
    unfolding get_actionable_issues_def actionable_issues_after_def
      scope_simps(2,3) ready_after_nil scope_simps(1) option.case
    by (auto simp: mem_map_filter mkeys_ex dest: issue_map_of_id split: if_splits)
  have cnt: "count_actionable_issues ?a = length (filter ?P (mkeys ?m))"
    unfolding count_actionable_issues_def is_actionable_after_completions_def count_fold
    by (auto simp: mkeys_ex intro!: arg_cong[where f = length] filter_cong)
  have "mset (filter ?P (mkeys ?m)) = mset (filter ?P (node_ids issues))"
    by (simp add: node_ids_def sorted_ids_def mset_filter)
  then have "count_actionable_issues ?a = length (get_actionable_issues ?a)"
    unfolding cnt by (metis ids length_map size_mset)
  moreover have "sorted_wrt (<) (map issue_id (get_actionable_issues ?a))"
    unfolding ids by (simp add: strict_sorted_iff sorted_filter[of id, simplified])
  moreover have "set (get_actionable_issues ?a) = {i. mget ?m (issue_id i) = Some i \<and>
      (case cand of None \<Rightarrow> True | Some c \<Rightarrow> mget_or False c (issue_id i)) \<and>
      is_actionable_status (status i) \<and> \<not> is_deferred_at i now \<and>
      spec_state (own_issues issues) {} (issue_id i) = DepSatisfied}"
    unfolding set_eq_iff mem by (auto simp: ready_index_of_issues)
  ultimately show ?thesis by (simp add: Let_def)
qed

end
