(* ===== verification/Bv_Undirected.thy ===== *)
theory Bv_Undirected
  imports Bv_Analyzer_Props
begin

text \<open>
  The undirected view of the analysis graph (\<open>pkg/analysis/graph.go\<close>), on which core numbers and
  articulation points are computed: its neighbour lists are the symmetric closure of the edges, without
  self-loops, sorted and without repetitions.
\<close>

section \<open>The undirected view\<close>

record undirected =
  ud_nodes :: "nat list"
  ud_neighbors :: "nat list list"

definition add_neighbors :: "nat \<times> nat \<Rightarrow> nat list list \<Rightarrow> nat list list" where
  "add_neighbors = (\<lambda>(u, v) nb.
     if u = v then nb
     else (let nb = nb[u := nb ! u @ [v]] in nb[v := nb ! v @ [u]]))"

text \<open>The in-place compaction of a sorted neighbour list.\<close>

fun drop_repeats :: "nat \<Rightarrow> nat list \<Rightarrow> nat list" where
  "drop_repeats prev [] = []"
| "drop_repeats prev (x # xs) = (if x = prev then drop_repeats prev xs else x # drop_repeats x xs)"

definition dedup_neighbors :: "nat list \<Rightarrow> nat list" where
  "dedup_neighbors nbrs =
     (if length nbrs < 2 then nbrs
      else (case sort nbrs of [] \<Rightarrow> [] | x # xs \<Rightarrow> x # drop_repeats x xs))"

definition new_undirected :: "compact_graph \<Rightarrow> undirected" where
  "new_undirected g =
     (let nodes = List.map_filter (\<lambda>n. n) (collect_nodes g (-1));
          max_id = fold max nodes 0;
          nb = fold add_neighbors (List.map_filter (\<lambda>e. e) (collect_edges g edges_reset)) (replicate (max_id + 1) [])
      in \<lparr>ud_nodes = nodes, ud_neighbors = fold (\<lambda>n nb. nb[n := dedup_neighbors (nb ! n)]) nodes nb\<rparr>)"

definition neighbors_of :: "undirected \<Rightarrow> int \<Rightarrow> nat list" where
  "neighbors_of ud i = (if i < 0 \<or> i \<ge> int (length (ud_neighbors ud)) then [] else ud_neighbors ud ! nat i)"

definition ud_degree :: "undirected \<Rightarrow> int \<Rightarrow> nat" where
  "ud_degree ud i = length (neighbors_of ud i)"

section \<open>The symmetric closure\<close>

lemma length_add_neighbors [simp]: "length (fold add_neighbors es nb) = length nb"
  by (induction es arbitrary: nb) (auto simp: add_neighbors_def Let_def)

lemma set_add_neighbors:
  assumes "\<forall>(a, b) \<in> set es. a < length nb \<and> b < length nb" "u < length nb"
  shows "set (fold add_neighbors es nb ! u) =
    set (nb ! u) \<union> {v. u \<noteq> v \<and> ((u, v) \<in> set es \<or> (v, u) \<in> set es)}"
  using assms
proof (induction es arbitrary: nb)
  case (Cons e es)
  obtain a b where e: "e = (a, b)" by (cases e)
  have ab: "a < length nb" "b < length nb" using Cons.prems e by auto
  have len: "length (add_neighbors (a, b) nb) = length nb" by (simp add: add_neighbors_def Let_def)
  have "set (fold add_neighbors es (add_neighbors (a, b) nb) ! u) =
      set (add_neighbors (a, b) nb ! u) \<union> {v. u \<noteq> v \<and> ((u, v) \<in> set es \<or> (v, u) \<in> set es)}"
    using Cons.prems len by (intro Cons.IH) auto
  moreover have "set (add_neighbors (a, b) nb ! u) =
      set (nb ! u) \<union> {v. u \<noteq> v \<and> ((u, v) = (a, b) \<or> (v, u) = (a, b))}"
    using ab Cons.prems(2) by (auto simp: add_neighbors_def Let_def nth_list_update)
  ultimately show ?case using e by auto
qed simp

lemma drop_repeats_sorted:
  "sorted (x # xs) \<Longrightarrow> sorted_wrt (<) (x # drop_repeats x xs) \<and> insert x (set (drop_repeats x xs)) = set (x # xs)"
proof (induction xs arbitrary: x)
  case (Cons y ys)
  then have "sorted_wrt (<) (y # drop_repeats y ys)" "insert y (set (drop_repeats y ys)) = set (y # ys)" by simp_all
  then show ?case using Cons.IH[of x] Cons.prems by (cases "y = x") auto
qed simp

lemma dedup_neighbors_facts:
  "sorted_wrt (<) (dedup_neighbors xs)" "set (dedup_neighbors xs) = set xs"
proof -
  have "sorted_wrt (<) (dedup_neighbors xs) \<and> set (dedup_neighbors xs) = set xs"
  proof (cases "length xs < 2")
    case True
    then show ?thesis by (cases xs rule: remdups_adj.cases) (auto simp: dedup_neighbors_def)
  next
    case False
    then obtain y ys where "sort xs = y # ys" by (metis length_sort list.exhaust list.size(3) zero_less_numeral)
    moreover have "set (sort xs) = set xs" "sorted (sort xs)" by simp_all
    ultimately show ?thesis using False drop_repeats_sorted[of y ys] by (simp add: dedup_neighbors_def)
  qed
  then show "sorted_wrt (<) (dedup_neighbors xs)" "set (dedup_neighbors xs) = set xs" by simp_all
qed

lemma dedup_rows:
  "distinct ns \<Longrightarrow> length (fold (\<lambda>n nb. nb[n := dedup_neighbors (nb ! n)]) ns nb) = length nb \<and>
    (\<forall>u < length nb. fold (\<lambda>n nb. nb[n := dedup_neighbors (nb ! n)]) ns nb ! u =
       (if u \<in> set ns then dedup_neighbors (nb ! u) else nb ! u))"
proof (induction ns arbitrary: nb)
  case (Cons k ns)
  then show ?case
    using Cons.IH[of "nb[k := dedup_neighbors (nb ! k)]"] by (cases "k < length nb") (auto simp: nth_list_update)
qed simp

lemma fold_max_upt: "fold max [0..<n] 0 = n - (1 :: nat)"
  by (induction n) auto

text \<open>Undirected views have the nodes 0, ..., n - 1 and symmetric, irreflexive, distinct neighbour lists.\<close>

definition undirected_ok :: "undirected \<Rightarrow> bool" where
  "undirected_ok ud \<longleftrightarrow>
     (let n = length (ud_nodes ud); nb = ud_neighbors ud in
      ud_nodes ud = [0..<n] \<and> length nb = max n 1 \<and> (n = 0 \<longrightarrow> nb = [[]]) \<and>
      (\<forall>u < n. distinct (nb ! u) \<and> u \<notin> set (nb ! u) \<and>
        (\<forall>v \<in> set (nb ! u). v < n \<and> u \<in> set (nb ! v))))"

lemma new_undirected_view:
  assumes ok: "graph_ok g"
  shows "undirected_ok (new_undirected g) \<and> length (ud_nodes (new_undirected g)) = cg_nodes g \<and>
    (\<forall>u < cg_nodes g. sorted_wrt (<) (ud_neighbors (new_undirected g) ! u) \<and>
      set (ud_neighbors (new_undirected g) ! u) = {v. u \<noteq> v \<and> ((u, v) \<in> edges g \<or> (v, u) \<in> edges g)})"
proof -
  define n where "n = cg_nodes g"
  define es where "es = edge_list g"
  define raw where "raw = fold add_neighbors es (replicate (max n 1) [])"
  define nb where "nb = fold (\<lambda>k nb. nb[k := dedup_neighbors (nb ! k)]) [0..<n] raw"
  have sets: "List.map_filter (\<lambda>x. x) (map Some xs) = xs" for xs :: "'z list"
    by (simp add: List.map_filter_def comp_def)
  have "fold max [0..<n] 0 + 1 = max n 1" by (simp add: fold_max_upt)
  then have ud: "new_undirected g = \<lparr>ud_nodes = [0..<n], ud_neighbors = nb\<rparr>"
    using collect_nodes_from[of "-1" g] collect_edges_all[OF ok]
    by (simp add: new_undirected_def sets Let_def nb_def raw_def es_def n_def flip: replicate_Suc)
  have len: "length raw = max n 1" by (simp add: raw_def)
  have range: "a < n \<and> b < n" if "(a, b) \<in> edges g" for a b
    using edges_range[OF ok that] by (simp add: n_def)
  have raw: "set (raw ! u) = {v. u \<noteq> v \<and> ((u, v) \<in> edges g \<or> (v, u) \<in> edges g)}" if "u < n" for u
    using set_add_neighbors[of es "replicate (max n 1) []" u] that range
    by (auto simp: raw_def es_def set_edge_list split: prod.splits)
  have row: "length nb = max n 1" "nb ! u = dedup_neighbors (raw ! u)" if "u < n" for u
    using dedup_rows[of "[0..<n]" raw] len that by (auto simp: nb_def)
  have empty: "nb = [[]]" if "n = 0"
    using that ok by (auto simp: nb_def raw_def es_def edge_list_def n_def)
  have rows: "sorted_wrt (<) (nb ! u)" "set (nb ! u) = {v. u \<noteq> v \<and> ((u, v) \<in> edges g \<or> (v, u) \<in> edges g)}"
    if "u < n" for u
    using row(2)[OF that] raw[OF that] dedup_neighbors_facts by auto
  have "length nb = max n 1" using row(1)[of 0] empty by (cases "n = 0") auto
  moreover have "distinct (nb ! u)" if "u < n" for u
    using rows(1)[OF that] strict_sorted_iff by blast
  ultimately have "undirected_ok (new_undirected g)"
    using rows(2) range empty by (auto simp: undirected_ok_def ud Let_def)
  then show ?thesis using rows by (simp add: ud flip: n_def)
qed

section \<open>The contract of the view\<close>

definition nbrs :: "undirected \<Rightarrow> nat \<Rightarrow> nat set" where
  "nbrs ud u = set (neighbors_of ud (int u))"

text \<open>What the algorithms on the view rely on: the contract that \<open>newUndirectedAdjacency\<close> provides.\<close>

locale undirected_view =
  fixes ud :: undirected
  assumes ok: "undirected_ok ud"
begin

abbreviation n :: nat where "n \<equiv> length (ud_nodes ud)"

lemma nodes: "ud_nodes ud = [0..<n]"
  using ok by (simp add: undirected_ok_def Let_def)

lemma set_nodes: "set (ud_nodes ud) = {..<n}"
  by (subst nodes) auto

lemma neighbors: "u < n \<Longrightarrow> neighbors_of ud (int u) = ud_neighbors ud ! u"
  using ok by (auto simp: undirected_ok_def Let_def neighbors_of_def)

lemma nbrs_facts:
  assumes "u < n"
  shows "distinct (neighbors_of ud (int u))" "nbrs ud u \<subseteq> {..<n}" "u \<notin> nbrs ud u" "ud_degree ud (int u) = card (nbrs ud u)"
proof -
  show d: "distinct (neighbors_of ud (int u))" and "nbrs ud u \<subseteq> {..<n}" "u \<notin> nbrs ud u"
    using ok assms by (auto simp: undirected_ok_def Let_def neighbors nbrs_def)
  show "ud_degree ud (int u) = card (nbrs ud u)" using distinct_card[OF d] by (simp add: ud_degree_def nbrs_def)
qed

lemma nbrs_sym:
  assumes "u < n" "v \<in> nbrs ud u"
  shows "u \<in> nbrs ud v"
proof -
  have "v \<in> set (ud_neighbors ud ! u)" using assms by (simp add: nbrs_def neighbors)
  then have "v < n" "u \<in> set (ud_neighbors ud ! v)"
    using ok assms(1) unfolding undirected_ok_def Let_def by blast+
  then show ?thesis by (simp add: nbrs_def neighbors)
qed

lemma finite_nbrs [simp]: "finite (nbrs ud u)"
  by (simp add: nbrs_def)

end

lemma new_undirected_nbrs:
  assumes "graph_ok g" "u < cg_nodes g"
  shows "nbrs (new_undirected g) u = {v. u \<noteq> v \<and> ((u, v) \<in> edges g \<or> (v, u) \<in> edges g)}"
proof -
  have "undirected_ok (new_undirected g)" "length (ud_nodes (new_undirected g)) = cg_nodes g"
    using new_undirected_view[OF assms(1)] by simp_all
  then have "neighbors_of (new_undirected g) (int u) = ud_neighbors (new_undirected g) ! u"
    using assms(2) by (auto simp: undirected_ok_def Let_def neighbors_of_def)
  then show ?thesis using new_undirected_view[OF assms(1)] assms(2) by (simp add: nbrs_def)
qed

interpretation analysis: undirected_view "new_undirected (an_graph (new_analyzer issues now))" for issues now
  by unfold_locales (simp add: new_undirected_view analyzer_graph_ok)

end
