(* ===== verification/Bv_Kcore.thy ===== *)
theory Bv_Kcore
  imports Bv_Undirected "HOL-Library.Monad_Syntax"
begin

text \<open>
  \<open>computeKCore\<close> of \<open>pkg/analysis/graph.go\<close>: core numbers of the undirected view by the algorithm of
  Batagelj and Zaversnik. The arrays \<open>deg\<close>, \<open>pos\<close>, \<open>bin\<close> and \<open>vert\<close> are lists, every access is
  checked and an access out of range, which panics in Go, is \<open>None\<close>. The elements are never negative:
  a degree is only lowered while it exceeds another one.

  The specification is the definition of the core number: the largest k such that the node lies in a set
  of nodes each of which has k neighbours inside the set.
\<close>

section \<open>The algorithm\<close>

record kcore =
  kc_deg :: "nat list"
  kc_pos :: "nat list"
  kc_bin :: "nat list"
  kc_vert :: "nat list"

text \<open>Degrees, the nodes that are present, and the largest degree.\<close>

definition read_degree ::
  "undirected \<Rightarrow> nat \<Rightarrow> nat list \<times> bool list \<times> nat \<Rightarrow> (nat list \<times> bool list \<times> nat) option" where
  "read_degree ud v = (\<lambda>(deg, present, mx). do {
     present \<leftarrow> set_slot present v True;
     let d = ud_degree ud (int v);
     deg \<leftarrow> set_slot deg v d;
     Some (deg, present, if d > mx then d else mx) })"

definition count_degree :: "nat list \<Rightarrow> nat \<Rightarrow> nat list \<Rightarrow> nat list option" where
  "count_degree deg v bin = do {
     d \<leftarrow> slot deg v;
     c \<leftarrow> slot bin d;
     set_slot bin d (c + 1) }"

text \<open>The counters become the start positions of the bins.\<close>

definition start_bin :: "nat \<Rightarrow> nat list \<times> nat \<Rightarrow> (nat list \<times> nat) option" where
  "start_bin d = (\<lambda>(bin, start). do {
     num \<leftarrow> slot bin d;
     bin \<leftarrow> set_slot bin d start;
     Some (bin, start + num) })"

definition place_vertex :: "nat \<Rightarrow> kcore \<Rightarrow> kcore option" where
  "place_vertex v st = do {
     d \<leftarrow> slot (kc_deg st) v;
     i \<leftarrow> slot (kc_bin st) d;
     pos \<leftarrow> set_slot (kc_pos st) v i;
     vert \<leftarrow> set_slot (kc_vert st) i v;
     bin \<leftarrow> set_slot (kc_bin st) d (i + 1);
     Some (st\<lparr>kc_pos := pos, kc_vert := vert, kc_bin := bin\<rparr>) }"

definition restore_bin :: "nat \<Rightarrow> nat list \<Rightarrow> nat list option" where
  "restore_bin d bin = do {
     b \<leftarrow> slot bin (d - 1);
     set_slot bin d b }"

definition bin_sort :: "undirected \<Rightarrow> nat \<Rightarrow> (bool list \<times> kcore) option" where
  "bin_sort ud sz = do {
     (deg, present, mx) \<leftarrow> run (read_degree ud) (ud_nodes ud) (replicate sz 0, replicate sz False, 0);
     bin \<leftarrow> run (count_degree deg) (ud_nodes ud) (replicate (mx + 1) 0);
     (bin, _) \<leftarrow> run start_bin [0..<mx + 1] (bin, 0);
     st \<leftarrow> run place_vertex (ud_nodes ud)
       \<lparr>kc_deg = deg, kc_pos = replicate sz 0, kc_bin = bin, kc_vert = replicate (length (ud_nodes ud)) 0\<rparr>;
     bin \<leftarrow> run restore_bin (rev [1..<mx + 1]) (kc_bin st);
     bin \<leftarrow> set_slot bin 0 0;
     Some (present, st\<lparr>kc_bin := bin\<rparr>) }"

text \<open>A neighbour of higher degree moves to the front of its bin and into the next lower one.\<close>

definition lower_neighbor :: "bool list \<Rightarrow> nat \<Rightarrow> nat \<Rightarrow> kcore \<Rightarrow> kcore option" where
  "lower_neighbor present v u st = do {
     p \<leftarrow> slot present u;
     if \<not> p then Some st
     else do {
       du \<leftarrow> slot (kc_deg st) u;
       dv \<leftarrow> slot (kc_deg st) v;
       if \<not> du > dv then Some st
       else do {
         pu \<leftarrow> slot (kc_pos st) u;
         pw \<leftarrow> slot (kc_bin st) du;
         w \<leftarrow> slot (kc_vert st) pw;
         st \<leftarrow> (if u = w then Some st
           else do {
             vert \<leftarrow> set_slot (kc_vert st) pu w;
             vert \<leftarrow> set_slot vert pw u;
             pos \<leftarrow> set_slot (kc_pos st) u pw;
             pos \<leftarrow> set_slot pos w pu;
             Some (st\<lparr>kc_vert := vert, kc_pos := pos\<rparr>) });
         bin \<leftarrow> set_slot (kc_bin st) du (pw + 1);
         deg \<leftarrow> set_slot (kc_deg st) u (du - 1);
         Some (st\<lparr>kc_bin := bin, kc_deg := deg\<rparr>) } } }"

definition process_vertex :: "undirected \<Rightarrow> bool list \<Rightarrow> nat \<Rightarrow> kcore \<Rightarrow> kcore option" where
  "process_vertex ud present i st = do {
     v \<leftarrow> slot (kc_vert st) i;
     run (lower_neighbor present v) (neighbors_of ud (int v)) st }"

definition compute_kcore :: "undirected \<Rightarrow> (nat, nat) gomap option" where
  "compute_kcore ud =
     (let n = length (ud_nodes ud) in
      if n = 0 then Some []
      else do {
        let sz = fold max (ud_nodes ud) 0 + 1;
        (present, st) \<leftarrow> bin_sort ud sz;
        st \<leftarrow> run (process_vertex ud present) [0..<n] st;
        run (\<lambda>v core. do { d \<leftarrow> slot (kc_deg st) v; Some (mput v d core) }) (ud_nodes ud) [] })"

section \<open>The layout of the arrays\<close>

text \<open>
  \<open>vert\<close> lists the nodes by degree, \<open>pos\<close> is its inverse, and \<open>bin\<close> points to the first position of
  every degree above the current level.
\<close>

definition below :: "nat list \<Rightarrow> nat \<Rightarrow> nat \<Rightarrow> nat" where
  "below deg n d = card {x. x < n \<and> deg ! x < d}"

definition inverse_slices :: "nat \<Rightarrow> nat list \<Rightarrow> nat list \<Rightarrow> bool" where
  "inverse_slices n pos vert \<longleftrightarrow> length pos = n \<and> length vert = n \<and>
     (\<forall>x < n. pos ! x < n \<and> vert ! (pos ! x) = x) \<and> (\<forall>i < n. vert ! i < n \<and> pos ! (vert ! i) = i)"

definition layout :: "nat \<Rightarrow> nat \<Rightarrow> nat \<Rightarrow> kcore \<Rightarrow> bool" where
  "layout n mx level st \<longleftrightarrow>
     length (kc_deg st) = n \<and> length (kc_bin st) = mx + 1 \<and> (\<forall>x < n. kc_deg st ! x \<le> mx) \<and>
     inverse_slices n (kc_pos st) (kc_vert st) \<and>
     (\<forall>j < n. \<forall>i \<le> j. kc_deg st ! (kc_vert st ! i) \<le> kc_deg st ! (kc_vert st ! j)) \<and>
     (\<forall>d. level < d \<longrightarrow> d \<le> mx \<longrightarrow> kc_bin st ! d = below (kc_deg st) n d)"

lemma initial_segment:
  assumes "\<And>i j. j \<in> I \<Longrightarrow> i \<le> j \<Longrightarrow> i \<in> I" "finite (I :: nat set)"
  shows "I = {..<card I}"
proof -
  obtain m where m: "m \<notin> I" using assms(2) ex_new_if_finite by blast
  define k where "k = (LEAST m. m \<notin> I)"
  have "k \<notin> I" using m LeastI[of "\<lambda>m. m \<notin> I"] by (simp add: k_def)
  moreover have "i \<in> I" if "i < k" for i using not_less_Least[of i "\<lambda>m. m \<notin> I"] that by (auto simp: k_def)
  ultimately have "I = {..<k}" using assms(1) by (auto simp: not_less) (meson linorder_not_le)
  then show ?thesis by simp
qed

lemma swap_inverse:
  assumes inv: "inverse_slices n pos vert" and ab: "a < n" "b < n"
  shows "inverse_slices n (pos[vert ! b := a, vert ! a := b]) (vert[b := vert ! a, a := vert ! b])"
  unfolding inverse_slices_def
proof (intro conjI allI impI)
  have len: "length pos = n" "length vert = n" using inv by (simp_all add: inverse_slices_def)
  have p: "pos ! x < n" "vert ! (pos ! x) = x" if "x < n" for x using inv that by (auto simp: inverse_slices_def)
  have v: "vert ! i < n" "pos ! (vert ! i) = i" if "i < n" for i using inv that by (auto simp: inverse_slices_def)
  have p': "pos[vert ! b := a, vert ! a := b] ! x =
      (if x = vert ! a then b else if x = vert ! b then a else pos ! x)" if "x < n" for x
    using that len v ab by (auto simp: nth_list_update)
  have v': "vert[b := vert ! a, a := vert ! b] ! i =
      (if i = a then vert ! b else if i = b then vert ! a else vert ! i)" if "i < n" for i
    using that len ab by (simp add: nth_list_update)
  fix x assume x: "x < n"
  show "pos[vert ! b := a, vert ! a := b] ! x < n" using x p' p ab by simp
  show "vert[b := vert ! a, a := vert ! b] ! (pos[vert ! b := a, vert ! a := b] ! x) = x"
    using x p' v' p[OF x] ab by auto
  show "vert[b := vert ! a, a := vert ! b] ! x < n" using x v' v ab by simp
  show "pos[vert ! b := a, vert ! a := b] ! (vert[b := vert ! a, a := vert ! b] ! x) = x"
    using x p' v' v ab by (auto) (metis v(2))+
qed (use inv in \<open>simp_all add: inverse_slices_def\<close>)

lemma layout_facts:
  assumes "layout n mx level st"
  shows "length (kc_deg st) = n" "length (kc_pos st) = n" "length (kc_vert st) = n" "length (kc_bin st) = Suc mx"
    and "x < n \<Longrightarrow> kc_deg st ! x \<le> mx" "x < n \<Longrightarrow> kc_pos st ! x < n" "x < n \<Longrightarrow> kc_vert st ! (kc_pos st ! x) = x"
    and "i < n \<Longrightarrow> kc_vert st ! i < n" "i < n \<Longrightarrow> kc_pos st ! (kc_vert st ! i) = i"
    and "i \<le> j \<Longrightarrow> j < n \<Longrightarrow> kc_deg st ! (kc_vert st ! i) \<le> kc_deg st ! (kc_vert st ! j)"
    and "level < d \<Longrightarrow> d \<le> mx \<Longrightarrow> kc_bin st ! d = below (kc_deg st) n d"
  using assms by (auto simp: layout_def inverse_slices_def)

lemma layout_position:
  assumes lay: "layout n mx level st" and i: "i < n"
  shows "i < below (kc_deg st) n d \<longleftrightarrow> kc_deg st ! (kc_vert st ! i) < d"
proof -
  define I where "I = {i. i < n \<and> kc_deg st ! (kc_vert st ! i) < d}"
  note inv = layout_facts(6,7)[OF lay] and inv' = layout_facts(8,9)[OF lay]
  have "bij_betw (\<lambda>i. kc_vert st ! i) I {x. x < n \<and> kc_deg st ! x < d}"
    by (rule bij_betw_byWitness[where f' = "\<lambda>x. kc_pos st ! x"]) (use inv inv' in \<open>auto simp: I_def\<close>)
  then have "card I = below (kc_deg st) n d" by (simp add: below_def bij_betw_same_card)
  moreover have "a \<in> I" if "b \<in> I" "a \<le> b" for a b
  proof -
    have "kc_deg st ! (kc_vert st ! a) \<le> kc_deg st ! (kc_vert st ! b)" using layout_facts(10)[OF lay] that by (simp add: I_def)
    then show ?thesis using that by (auto simp: I_def)
  qed
  then have "I = {..<card I}" by (rule initial_segment) (simp_all add: I_def)
  ultimately have "i \<in> I \<longleftrightarrow> i < below (kc_deg st) n d" by (metis lessThan_iff)
  then show ?thesis using i by (simp add: I_def)
qed

lemma below_lowered:
  assumes "u < n" "length deg = n" "deg ! u = Suc k"
  shows "below (deg[u := k]) n d = below deg n d + (if d = Suc k then 1 else 0)"
proof -
  have set: "{x. x < n \<and> deg[u := k] ! x < d} = (if d = Suc k then insert u {x. x < n \<and> deg ! x < d}
      else {x. x < n \<and> deg ! x < d})"
    using assms by (auto simp: nth_list_update less_Suc_eq split: if_splits)
  show ?thesis using assms(3) by (auto simp: below_def set)
qed

text \<open>The lists after the body has run, and that they are laid out for the lowered degree.\<close>

definition lowered :: "nat \<Rightarrow> kcore \<Rightarrow> kcore" where
  "lowered u st =
     (let du = kc_deg st ! u; pu = kc_pos st ! u; pw = kc_bin st ! du; w = kc_vert st ! pw in
      st\<lparr>kc_deg := (kc_deg st)[u := du - 1], kc_pos := (kc_pos st)[u := pw, w := pu],
        kc_bin := (kc_bin st)[du := pw + 1], kc_vert := (kc_vert st)[pu := w, pw := u]\<rparr>)"

lemma front_of_bin:
  assumes lay: "layout n mx level st" and u: "u < n" and higher: "kc_deg st ! u > level"
    and pw: "pw = kc_bin st ! (kc_deg st ! u)"
  shows "pw = below (kc_deg st) n (kc_deg st ! u)" "pw \<le> kc_pos st ! u" "pw < n"
    "kc_deg st ! (kc_vert st ! pw) = kc_deg st ! u"
proof -
  note facts = layout_facts[OF lay] and at = layout_position[OF lay]
  show b: "pw = below (kc_deg st) n (kc_deg st ! u)" using facts(5)[OF u] facts(11) higher pw by simp
  have pu: "kc_pos st ! u < n" "kc_vert st ! (kc_pos st ! u) = u" using facts(6,7) u by auto
  show le: "pw \<le> kc_pos st ! u" using at[OF pu(1), of "kc_deg st ! u"] pu(2) b by simp
  then show "pw < n" using pu(1) by simp
  then show "kc_deg st ! (kc_vert st ! pw) = kc_deg st ! u"
    using at[of pw "kc_deg st ! u"] facts(10)[OF le pu(1)] pu(2) b by (simp add: le_antisym)
qed

lemma lower_neighbor_eq:
  assumes lay: "layout n mx level st" and v: "v < n" "kc_deg st ! v = level" and u: "u < n"
    and present: "u < length present" "present ! u" and higher: "kc_deg st ! u > level"
  shows "lower_neighbor present v u st = Some (lowered u st)"
proof -
  note facts = layout_facts[OF lay] and front = front_of_bin[OF lay u higher refl]
  define pu where "pu = kc_pos st ! u"
  define pw where "pw = kc_bin st ! (kc_deg st ! u)"
  define w where "w = kc_vert st ! pw"
  have slots: "slot (kc_deg st) u = Some (kc_deg st ! u)" "slot (kc_deg st) v = Some level"
    "slot (kc_pos st) u = Some pu" "slot (kc_bin st) (kc_deg st ! u) = Some pw" "slot (kc_vert st) pw = Some w"
    using facts u v front by (simp_all add: pu_def pw_def w_def le_imp_less_Suc)
  have bounds: "pu < n" "pw < n" "w < n" "kc_deg st ! u < Suc mx"
    using facts u front by (simp_all add: pu_def pw_def w_def le_imp_less_Suc)
  show ?thesis
  proof (cases "u = w")
    case True
    then have "pu = pw" using facts(9) bounds by (simp add: pu_def w_def)
    then have "(kc_pos st)[u := pw, w := pu] = kc_pos st" "(kc_vert st)[pu := w, pw := u] = kc_vert st"
      using True by (auto simp: pu_def w_def) (metis list_update_id)
    then show ?thesis using slots True higher facts present bounds u
      by (simp add: lower_neighbor_def lowered_def Let_def flip: pw_def w_def pu_def)
  next
    case False
    then show ?thesis using slots higher facts present bounds u
      by (simp add: lower_neighbor_def lowered_def Let_def flip: pw_def w_def pu_def)
  qed
qed

lemma lowered_layout:
  assumes lay: "layout n mx level st" and u: "u < n" and higher: "kc_deg st ! u > level"
  shows "layout n mx level (lowered u st)"
proof -
  obtain deg pos bin vert where st: "st = \<lparr>kc_deg = deg, kc_pos = pos, kc_bin = bin, kc_vert = vert\<rparr>" by (cases st)
  note facts = layout_facts[OF lay, unfolded st, simplified]
  obtain k where k: "deg ! u = Suc k" "level \<le> k" using higher st by (cases "deg ! u") auto
  define pu where "pu = pos ! u"
  define pw where "pw = bin ! Suc k"
  note front = front_of_bin[OF lay u higher refl, unfolded st, simplified, unfolded k(1), folded pw_def pu_def]
  have at: "i < pw \<longleftrightarrow> deg ! (vert ! i) < Suc k" if "i < n" for i
    using layout_position[OF lay that, of "Suc k"] st front(1) by simp
  have pu: "pu < n" "vert ! pu = u" using facts u by (auto simp: pu_def)
  define deg' where "deg' = deg[u := k]"
  define vert' where "vert' = vert[pu := vert ! pw, pw := u]"
  define pos' where "pos' = pos[u := pw, vert ! pw := pu]"
  have eq: "lowered u st = \<lparr>kc_deg = deg', kc_pos = pos', kc_bin = bin[Suc k := Suc pw], kc_vert = vert'\<rparr>"
    using st k by (simp add: lowered_def Let_def deg'_def vert'_def pos'_def pw_def pu_def)
  have swapped: "inverse_slices n pos' vert'"
    using swap_inverse[of n pos vert pw pu] lay st front(3) pu by (simp add: layout_def pos'_def vert'_def)
  have val: "deg' ! (vert' ! a) = (if a = pw then k else deg ! (vert ! a))" if a: "a < n" for a
  proof -
    have v: "vert' ! a = (if a = pw then u else if a = pu then vert ! pw else vert ! a)"
      using a facts(3) pu(1) front(3) by (simp add: vert'_def nth_list_update)
    have d: "deg' ! x = (if x = u then k else deg ! x)" for x
      using facts(1) u by (simp add: deg'_def nth_list_update)
    have "vert ! pw \<noteq> u" if "pw \<noteq> pu" using facts(9)[OF front(3)] that by (auto simp: pu_def)
    moreover have "vert ! a \<noteq> u" if "a \<noteq> pu" using facts(9)[OF a] that by (auto simp: pu_def)
    ultimately show ?thesis unfolding v d using pu(2) front(4) k(1) by auto
  qed
  have low: "deg ! (vert ! a) \<le> k" if "a < pw" for a using at[of a] that front(3) by simp
  have high: "deg ! (vert ! a) \<ge> Suc k" if "pw \<le> a" "a < n" for a using at[of a] that by simp
  have sorted: "deg' ! (vert' ! i) \<le> deg' ! (vert' ! j)" if ij: "i \<le> j" "j < n" for i j
    using val[OF ij(2)] val[of i] facts(10)[OF ij] low[of i] high[of j] ij by (auto intro: Suc_leD)
  have "bin[Suc k := Suc pw] ! d = below deg' n d" if "level < d" "d \<le> mx" for d
    using below_lowered[OF u facts(1) k(1), of d] facts(11)[OF that] facts(4) front(1) that
    by (auto simp: deg'_def nth_list_update)
  moreover have "deg' ! x \<le> mx" if "x < n" for x
    using facts(1) facts(5)[OF that] facts(5)[OF u] k(1) that u by (simp add: deg'_def nth_list_update)
  ultimately show ?thesis using sorted swapped facts unfolding layout_def eq by (simp add: deg'_def)
qed

lemma lowered_prefix:
  assumes lay: "layout n mx level st" and v: "v < n" "kc_deg st ! v \<le> level" and u: "u < n"
    and higher: "kc_deg st ! u > level" and j: "j \<le> kc_pos st ! v"
  shows "kc_vert (lowered u st) ! j = kc_vert st ! j"
proof -
  note facts = layout_facts[OF lay] and front = front_of_bin[OF lay u higher refl]
  have "kc_pos st ! v < kc_bin st ! (kc_deg st ! u)"
    using layout_position[OF lay, of "kc_pos st ! v" "kc_deg st ! u"] facts(6,7)[OF v(1)] v(2) higher front(1) by simp
  then show ?thesis using j front(2) by (simp add: lowered_def Let_def)
qed

section \<open>The loop over the neighbours\<close>

lemma layout_raise: "layout n mx level st \<Longrightarrow> level \<le> k \<Longrightarrow> layout n mx k st"
  by (auto simp: layout_def)

lemma neighbors_loop:
  assumes "layout n mx level st" "v < n" "kc_deg st ! v = level" "distinct us" "set us \<subseteq> {..<n}"
    and present: "\<And>u. u < n \<Longrightarrow> u < length present \<and> present ! u"
  shows "\<exists>st'. run (lower_neighbor present v) us st = Some st' \<and> layout n mx level st' \<and>
    (\<forall>x < n. kc_deg st' ! x = (if x \<in> set us \<and> kc_deg st ! x > level then kc_deg st ! x - 1 else kc_deg st ! x)) \<and>
    (\<forall>j \<le> kc_pos st ! v. kc_vert st' ! j = kc_vert st ! j)"
  using assms(1-5)
proof (induction us arbitrary: st)
  case (Cons u us)
  note facts = layout_facts[OF Cons.prems(1)]
  have u: "u < n" "u \<notin> set us" using Cons.prems by auto
  show ?case
  proof (cases "kc_deg st ! u > level")
    case False
    then have "lower_neighbor present v u st = Some st"
      using present[OF u(1)] facts(1) u Cons.prems(2,3) by (simp add: lower_neighbor_def)
    then show ?thesis using Cons.IH[OF Cons.prems(1-3)] Cons.prems(4,5) False by auto
  next
    case True
    let ?t = "lowered u st"
    have step: "lower_neighbor present v u st = Some ?t"
      using lower_neighbor_eq[OF Cons.prems(1-3) u(1)] present[OF u(1)] True by simp
    have deg: "kc_deg ?t ! x = (if x = u then kc_deg st ! u - 1 else kc_deg st ! x)" for x
      using facts(1) u by (simp add: lowered_def Let_def nth_list_update)
    have v: "v \<noteq> u" using Cons.prems(3) True by auto
    note lay = lowered_layout[OF Cons.prems(1) u(1) True]
    note prefix = lowered_prefix[OF Cons.prems(1,2) _ u(1) True]
    have vert: "kc_vert ?t ! j = kc_vert st ! j" if "j \<le> kc_pos st ! v" for j
      using prefix that Cons.prems(3) by simp
    have pos: "kc_pos ?t ! v = kc_pos st ! v"
      using layout_facts(9)[OF lay facts(6)[OF Cons.prems(2)]] vert[of "kc_pos st ! v"] facts(7)[OF Cons.prems(2)] by simp
    obtain st' where st': "run (lower_neighbor present v) us ?t = Some st'" "layout n mx level st'"
      "\<forall>x < n. kc_deg st' ! x = (if x \<in> set us \<and> kc_deg ?t ! x > level then kc_deg ?t ! x - 1 else kc_deg ?t ! x)"
      "\<forall>j \<le> kc_pos st ! v. kc_vert st' ! j = kc_vert ?t ! j"
      using Cons.IH[OF lay Cons.prems(2)] Cons.prems deg v pos by auto
    have "kc_deg st' ! x = (if x \<in> set (u # us) \<and> kc_deg st ! x > level then kc_deg st ! x - 1 else kc_deg st ! x)"
      if "x < n" for x
      using st'(3) that deg u(2) True by auto
    then show ?thesis using st' step vert by auto
  qed
qed auto

section \<open>Core numbers\<close>

text \<open>\<open>x\<close> lies in a set of nodes that all have \<open>k\<close> neighbours within the set.\<close>

definition in_core :: "undirected \<Rightarrow> nat \<Rightarrow> nat \<Rightarrow> bool" where
  "in_core ud k x \<longleftrightarrow> (\<exists>S \<subseteq> set (ud_nodes ud). x \<in> S \<and> (\<forall>y \<in> S. k \<le> card (nbrs ud y \<inter> S)))"

lemma in_core_antimono: "in_core ud k x \<Longrightarrow> j \<le> k \<Longrightarrow> in_core ud j x"
  unfolding in_core_def by (meson order_trans)

section \<open>The decomposition\<close>

definition rest :: "nat \<Rightarrow> kcore \<Rightarrow> nat \<Rightarrow> nat set" where
  "rest n st i = {..<n} - (\<lambda>j. kc_vert st ! j) ` {..<i}"

definition core_inv :: "undirected \<Rightarrow> nat \<Rightarrow> nat \<Rightarrow> nat \<Rightarrow> kcore \<Rightarrow> bool" where
  "core_inv ud mx i level st \<longleftrightarrow>
     (let n = length (ud_nodes ud) in
      layout n mx level st \<and> (\<forall>j < i. kc_deg st ! (kc_vert st ! j) \<le> level) \<and>
      (\<forall>x \<in> rest n st i. kc_deg st ! x = max level (card (nbrs ud x \<inter> rest n st i))) \<and>
      (\<exists>S \<subseteq> {..<n}. rest n st i \<subseteq> S \<and> (\<forall>y \<in> S. level \<le> card (nbrs ud y \<inter> S))) \<and>
      (\<forall>j < i. in_core ud (kc_deg st ! (kc_vert st ! j)) (kc_vert st ! j)) \<and>
      (\<forall>j < i. card (nbrs ud (kc_vert st ! j) \<inter> rest n st j) \<le> kc_deg st ! (kc_vert st ! j)))"

context undirected_view
begin

lemma core_inv_facts:
  assumes "core_inv ud mx i level st"
  shows "layout n mx level st" "j < i \<Longrightarrow> kc_deg st ! (kc_vert st ! j) \<le> level"
    and "x \<in> rest n st i \<Longrightarrow> kc_deg st ! x = max level (card (nbrs ud x \<inter> rest n st i))"
    and "\<exists>S \<subseteq> {..<n}. rest n st i \<subseteq> S \<and> (\<forall>y \<in> S. level \<le> card (nbrs ud y \<inter> S))"
    and "j < i \<Longrightarrow> in_core ud (kc_deg st ! (kc_vert st ! j)) (kc_vert st ! j)"
    and "j < i \<Longrightarrow> card (nbrs ud (kc_vert st ! j) \<inter> rest n st j) \<le> kc_deg st ! (kc_vert st ! j)"
  using assms by (auto simp: core_inv_def Let_def)

text \<open>The next node and all that are left lie in a common core of its degree.\<close>

lemma next_core:
  assumes inv: "core_inv ud mx i level st" and i: "i < n"
  shows "kc_vert st ! i \<in> rest n st i" "level \<le> kc_deg st ! (kc_vert st ! i)"
    and "\<exists>S \<subseteq> {..<n}. rest n st i \<subseteq> S \<and> (\<forall>y \<in> S. kc_deg st ! (kc_vert st ! i) \<le> card (nbrs ud y \<inter> S))"
proof -
  note facts = core_inv_facts[OF inv] and lay = layout_facts[OF core_inv_facts(1)[OF inv]]
  let ?k = "kc_deg st ! (kc_vert st ! i)"
  have "kc_vert st ! i \<noteq> kc_vert st ! j" if "j < i" for j
    using lay(9)[OF i] lay(9)[of j] that i by auto
  then show v: "kc_vert st ! i \<in> rest n st i" using lay(8)[OF i] by (auto simp: rest_def)
  show ge: "level \<le> ?k" using facts(3)[OF v] by simp
  show "\<exists>S \<subseteq> {..<n}. rest n st i \<subseteq> S \<and> (\<forall>y \<in> S. ?k \<le> card (nbrs ud y \<inter> S))"
  proof (cases "?k = level")
    case True
    then show ?thesis using facts(4) by auto
  next
    case False
    have "?k \<le> card (nbrs ud y \<inter> rest n st i)" if y: "y \<in> rest n st i" for y
    proof -
      have "y < n" using y by (simp add: rest_def)
      have "\<not> kc_pos st ! y < i" using y lay(7)[OF \<open>y < n\<close>] by (force simp: rest_def)
      then have "?k \<le> kc_deg st ! y" using lay(10)[of i "kc_pos st ! y"] lay(6,7)[OF \<open>y < n\<close>] by simp
      then show ?thesis using facts(3)[OF y] False ge by auto
    qed
    then show ?thesis by (intro exI[of _ "rest n st i"]) (auto simp: rest_def)
  qed
qed

lemma process_vertex_inv:
  assumes inv: "core_inv ud mx i level st" and i: "i < n"
    and present: "\<And>u. u < n \<Longrightarrow> u < length present \<and> present ! u"
  shows "\<exists>st'. process_vertex ud present i st = Some st' \<and> core_inv ud mx (Suc i) (kc_deg st ! (kc_vert st ! i)) st'"
proof -
  note facts = core_inv_facts[OF inv] and lay = layout_facts[OF core_inv_facts(1)[OF inv]]
  note nc = next_core[OF inv i]
  define v where "v = kc_vert st ! i"
  define k where "k = kc_deg st ! v"
  have v: "v < n" "kc_pos st ! v = i" using lay(8,9)[OF i] by (auto simp: v_def)
  have ge: "level \<le> k" using nc(2) by (simp add: k_def v_def)
  obtain st' where st': "run (lower_neighbor present v) (neighbors_of ud (int v)) st = Some st'" "layout n mx k st'"
    "\<forall>x < n. kc_deg st' ! x = (if x \<in> nbrs ud v \<and> kc_deg st ! x > k then kc_deg st ! x - 1 else kc_deg st ! x)"
    "\<forall>j \<le> i. kc_vert st' ! j = kc_vert st ! j"
    using neighbors_loop[OF layout_raise[OF facts(1) ge] v(1) k_def[symmetric] nbrs_facts(1)[OF v(1)] _ present]
      nbrs_facts(2)[OF v(1)] v(2) by (auto simp: nbrs_def)
  have run: "process_vertex ud present i st = Some st'"
    using st'(1) lay(3) i by (simp add: process_vertex_def flip: v_def)
  have rest': "rest n st' j = rest n st j" if "j \<le> Suc i" for j
    using st'(4) that by (auto simp: rest_def)
  have rest: "rest n st (Suc i) = rest n st i - {v}" by (auto simp: rest_def v_def lessThan_Suc)
  have old: "kc_deg st' ! (kc_vert st' ! j) = kc_deg st ! (kc_vert st ! j)" if "j \<le> i" for j
  proof -
    have "kc_deg st ! (kc_vert st ! j) \<le> k" using lay(10)[OF that i] by (simp add: k_def v_def)
    then show ?thesis using st'(3,4) that lay(8)[of j] i by auto
  qed
  have degs: "kc_deg st' ! x = max k (card (nbrs ud x \<inter> rest n st (Suc i)))" if x: "x \<in> rest n st (Suc i)" for x
  proof -
    have x': "x \<in> rest n st i" "x \<noteq> v" "x < n" using x rest by (auto simp: rest_def)
    have "\<not> kc_pos st ! x < i" using x'(1) lay(7)[OF x'(3)] by (force simp: rest_def)
    then have "k \<le> kc_deg st ! x"
      using lay(10)[of i "kc_pos st ! x"] lay(6,7)[OF x'(3)] by (simp add: k_def v_def)
    moreover have "card (nbrs ud x \<inter> rest n st (Suc i)) =
        (if x \<in> nbrs ud v then card (nbrs ud x \<inter> rest n st i) - 1 else card (nbrs ud x \<inter> rest n st i))"
    proof -
      have "nbrs ud x \<inter> rest n st (Suc i) = nbrs ud x \<inter> rest n st i - {v}" using rest by auto
      moreover have "v \<in> nbrs ud x \<inter> rest n st i \<longleftrightarrow> x \<in> nbrs ud v"
        using nbrs_sym[OF v(1)] nbrs_sym[OF x'(3)] nc(1) by (auto simp: v_def)
      ultimately show ?thesis by (simp add: card_Diff_singleton_if)
    qed
    ultimately show ?thesis using st'(3) x'(3) facts(3)[OF x'(1)] ge by auto
  qed
  have core: "\<exists>S \<subseteq> {..<n}. rest n st (Suc i) \<subseteq> S \<and> v \<in> S \<and> (\<forall>y \<in> S. k \<le> card (nbrs ud y \<inter> S))"
    using nc rest by (auto simp: k_def v_def)
  have at: "kc_vert st' ! i = v" using st'(4) by (simp add: v_def)
  have "core_inv ud mx (Suc i) k st'"
    unfolding core_inv_def Let_def
  proof (intro conjI allI impI ballI)
    show "layout n mx k st'" by (rule st'(2))
    show "kc_deg st' ! x = max k (card (nbrs ud x \<inter> rest n st' (Suc i)))" if "x \<in> rest n st' (Suc i)" for x
      using degs that rest' by simp
    show "\<exists>S \<subseteq> {..<n}. rest n st' (Suc i) \<subseteq> S \<and> (\<forall>y \<in> S. k \<le> card (nbrs ud y \<inter> S))"
      using core rest' by auto
    fix j assume j: "j < Suc i"
    show "kc_deg st' ! (kc_vert st' ! j) \<le> k" using old[of j] lay(10)[of j i] i j by (simp add: k_def v_def)
    show "in_core ud (kc_deg st' ! (kc_vert st' ! j)) (kc_vert st' ! j)"
    proof (cases "j = i")
      case True
      then show ?thesis using core old[of i] at unfolding in_core_def set_nodes by (auto simp: k_def v_def)
    next
      case False
      then show ?thesis using facts(5)[of j] old[of j] st'(4) j by simp
    qed
    show "card (nbrs ud (kc_vert st' ! j) \<inter> rest n st' j) \<le> kc_deg st' ! (kc_vert st' ! j)"
    proof (cases "j = i")
      case True
      then show ?thesis using facts(3)[OF nc(1)] old[of i] rest' st'(4) by simp
    next
      case False
      then show ?thesis using facts(6)[of j] old[of j] rest' st'(4) j by simp
    qed
  qed
  then show ?thesis using run by (auto simp: k_def v_def)
qed

lemma processed_core_numbers:
  assumes inv: "core_inv ud mx n level st" and x: "x < n"
  shows "in_core ud k x \<longleftrightarrow> k \<le> kc_deg st ! x"
proof
  note facts = core_inv_facts[OF inv] and lay = layout_facts[OF core_inv_facts(1)[OF inv]]
  assume "k \<le> kc_deg st ! x"
  then show "in_core ud k x" using facts(5)[of "kc_pos st ! x"] lay(6,7)[OF x] in_core_antimono by metis
next
  note facts = core_inv_facts[OF inv] and lay = layout_facts[OF core_inv_facts(1)[OF inv]]
  assume "in_core ud k x"
  then obtain S where S: "S \<subseteq> {..<n}" "x \<in> S" "\<forall>y \<in> S. k \<le> card (nbrs ud y \<inter> S)"
    unfolding in_core_def set_nodes by blast
  define j where "j = Min ((\<lambda>y. kc_pos st ! y) ` S)"
  have fin: "finite S" using S(1) finite_subset by blast
  have "j \<in> (\<lambda>y. kc_pos st ! y) ` S" unfolding j_def using fin S(2) by (intro Min_in) auto
  then obtain y where y: "y \<in> S" "j = kc_pos st ! y" by auto
  have jy: "j < n" "kc_vert st ! j = y" using lay(6,7) y S(1) by auto
  have least: "j \<le> kc_pos st ! z" if "z \<in> S" for z using fin that by (simp add: j_def)
  have "S \<subseteq> rest n st j"
  proof
    fix z assume z: "z \<in> S"
    have "z \<noteq> kc_vert st ! i" if "i < j" for i
      using least[OF z] lay(9)[of i] that jy(1) by auto
    then show "z \<in> rest n st j" using z S(1) by (auto simp: rest_def)
  qed
  then have "card (nbrs ud y \<inter> S) \<le> card (nbrs ud y \<inter> rest n st j)" by (intro card_mono) auto
  also have "\<dots> \<le> kc_deg st ! y" using facts(6)[OF jy(1)] jy(2) by simp
  also have "\<dots> \<le> kc_deg st ! x"
    using lay(10)[OF least[OF S(2)]] lay(6,7)[OF x] jy(2) by simp
  finally show "k \<le> kc_deg st ! x" using S(3) y(1) by (meson order_trans)
qed

end

section \<open>The bin sort\<close>

text \<open>A node's position: nodes of lower degree come first, nodes of the same degree by number.\<close>

definition equal_before :: "nat list \<Rightarrow> nat \<Rightarrow> nat \<Rightarrow> nat" where
  "equal_before deg i d = card {x. x < i \<and> deg ! x = d}"

definition position :: "nat list \<Rightarrow> nat \<Rightarrow> nat \<Rightarrow> nat" where
  "position deg n x = below deg n (deg ! x) + equal_before deg x (deg ! x)"

lemma equal_before_Suc: "equal_before deg (Suc i) d = equal_before deg i d + (if deg ! i = d then 1 else 0)"
proof -
  have set: "{x. x < Suc i \<and> deg ! x = d} = {x. x < i \<and> deg ! x = d} \<union> (if deg ! i = d then {i} else {})"
    by (auto simp: less_Suc_eq)
  show ?thesis unfolding equal_before_def set by auto
qed

lemma equal_before_0 [simp]: "equal_before deg 0 d = 0" and below_0 [simp]: "below deg n 0 = 0"
  by (simp_all add: equal_before_def below_def)

lemma below_Suc: "below deg n (Suc d) = below deg n d + equal_before deg n d"
proof -
  have set: "{x. x < n \<and> deg ! x < Suc d} = {x. x < n \<and> deg ! x < d} \<union> {x. x < n \<and> deg ! x = d}" by auto
  show ?thesis unfolding equal_before_def below_def set by (rule card_Un_disjoint) auto
qed

lemma below_mono: "d \<le> e \<Longrightarrow> below deg n d \<le> below deg n e"
  unfolding below_def by (rule card_mono) auto

lemma below_le: "below deg n d \<le> n"
proof -
  have "below deg n d \<le> card {..<n}" unfolding below_def by (rule card_mono) auto
  then show ?thesis by simp
qed

lemma position_less:
  assumes "x < n" "y < n" "deg ! x < deg ! y \<or> deg ! x = deg ! y \<and> x < y"
  shows "position deg n x < position deg n y"
proof (cases "deg ! x < deg ! y")
  case True
  have "equal_before deg x (deg ! x) < equal_before deg n (deg ! x)"
    unfolding equal_before_def by (rule psubset_card_mono) (use assms(1) in auto)
  then have "position deg n x < below deg n (Suc (deg ! x))" by (simp add: position_def below_Suc)
  also have "\<dots> \<le> below deg n (deg ! y)" using True by (intro below_mono) simp
  finally show ?thesis by (simp add: position_def)
next
  case False
  then have eq: "deg ! x = deg ! y" "x < y" using assms(3) by auto
  then have "equal_before deg x (deg ! y) < equal_before deg y (deg ! y)"
    unfolding equal_before_def by (intro psubset_card_mono) auto
  then show ?thesis using eq by (simp add: position_def)
qed

lemma position_bound:
  assumes "x < n"
  shows "position deg n x < n"
proof -
  have "equal_before deg x (deg ! x) < equal_before deg n (deg ! x)"
    unfolding equal_before_def by (rule psubset_card_mono) (use assms in auto)
  then have "position deg n x < below deg n (Suc (deg ! x))" by (simp add: position_def below_Suc)
  then show ?thesis using below_le[of deg n "Suc (deg ! x)"] by simp
qed

lemma position_mono: "x < n \<Longrightarrow> y < n \<Longrightarrow> position deg n x \<le> position deg n y \<Longrightarrow> deg ! x \<le> deg ! y"
  by (meson leD leI position_less)

lemma position_inj:
  assumes "x < n" "y < n" "position deg n x = position deg n y"
  shows "x = y"
  using position_less[of x n y deg] position_less[of y n x deg] assms
  by (metis less_irrefl linorder_neqE_nat)

lemma position_surj:
  assumes "i < n"
  shows "\<exists>x < n. position deg n x = i"
proof -
  have "inj_on (position deg n) {..<n}" using position_inj by (auto simp: inj_on_def)
  then have "position deg n ` {..<n} = {..<n}"
    by (rule endo_inj_surj[rotated 2]) (use position_bound in auto)
  then show ?thesis using assms by (metis imageE lessThan_iff)
qed

lemma positions_inverse:
  assumes "length pos = n" "length vert = n"
    and "\<And>x. x < n \<Longrightarrow> pos ! x = position deg n x \<and> vert ! position deg n x = x"
  shows "inverse_slices n pos vert"
  unfolding inverse_slices_def
proof (intro conjI allI impI)
  fix i assume "i < n"
  then obtain x where x: "x < n" "position deg n x = i" using position_surj by blast
  then show "vert ! i < n" "pos ! (vert ! i) = i" using assms(3)[of x] by auto
qed (use assms position_bound in auto)

text \<open>The five loops.\<close>

context undirected_view
begin

lemma read_degrees:
  "\<exists>deg present mx. run (read_degree ud) (ud_nodes ud) (replicate n 0, replicate n False, 0) = Some (deg, present, mx) \<and>
     length deg = n \<and> length present = n \<and>
     (\<forall>x < n. deg ! x = card (nbrs ud x) \<and> present ! x \<and> deg ! x \<le> mx)"
proof -
  let ?P = "\<lambda>i (deg, present, mx). length deg = n \<and> length present = n \<and>
    (\<forall>x < i. deg ! x = card (nbrs ud x) \<and> present ! x \<and> deg ! x \<le> mx)"
  have "\<exists>s'. run (read_degree ud) (ud_nodes ud) (replicate n 0, replicate n False, 0) = Some s' \<and> ?P (length (ud_nodes ud)) s'"
  proof (rule run_invariant[where P = ?P])
    fix i s assume i: "i < n" and P: "?P i s"
    have at: "ud_nodes ud ! i = i" using i by (subst nodes) simp
    obtain deg present mx where s: "s = (deg, present, mx)" by (cases s)
    have read: "read_degree ud i s = Some (deg[i := card (nbrs ud i)], present[i := True], max (card (nbrs ud i)) mx)"
      using s P i nbrs_facts(4)[OF i] by (simp add: read_degree_def Let_def max_def)
    show "\<exists>s'. read_degree ud (ud_nodes ud ! i) s = Some s' \<and> ?P (Suc i) s'"
      unfolding at read using s P i by (auto simp: less_Suc_eq nth_list_update intro: max.coboundedI2)
  qed simp
  then show ?thesis by auto
qed

lemma count_degrees:
  assumes "length deg = n" "\<And>x. x < n \<Longrightarrow> deg ! x \<le> mx"
  shows "\<exists>bin. run (count_degree deg) (ud_nodes ud) (replicate (mx + 1) 0) = Some bin \<and>
    length bin = mx + 1 \<and> (\<forall>d \<le> mx. bin ! d = equal_before deg n d)"
proof (rule run_invariant[where P = "\<lambda>i bin. length bin = mx + 1 \<and> (\<forall>d \<le> mx. bin ! d = equal_before deg i d)"])
  fix i bin assume i: "i < n" and P: "length bin = mx + 1 \<and> (\<forall>d \<le> mx. bin ! d = equal_before deg i d)"
  have at: "ud_nodes ud ! i = i" using i by (subst nodes) simp
  have count: "count_degree deg i bin = Some (bin[deg ! i := bin ! (deg ! i) + 1])"
    using i P assms(1) assms(2)[OF i] by (simp add: count_degree_def)
  show "\<exists>bin'. count_degree deg (ud_nodes ud ! i) bin = Some bin' \<and>
      length bin' = mx + 1 \<and> (\<forall>d \<le> mx. bin' ! d = equal_before deg (Suc i) d)"
    unfolding at count using P assms(2)[OF i] by (auto simp: equal_before_Suc nth_list_update)
qed (simp del: replicate.simps)

end

lemma start_bins:
  assumes "length bin = mx + 1" "\<forall>d \<le> mx. bin ! d = equal_before deg n d"
  shows "\<exists>bin' t. run start_bin [0..<mx + 1] (bin, 0) = Some (bin', t) \<and>
    length bin' = mx + 1 \<and> (\<forall>d \<le> mx. bin' ! d = below deg n d)"
proof -
  let ?P = "\<lambda>i (bin, t). length bin = mx + 1 \<and> t = below deg n i \<and>
    (\<forall>d \<le> mx. bin ! d = (if d < i then below deg n d else equal_before deg n d))"
  have "\<exists>s'. run start_bin [0..<mx + 1] (bin, 0) = Some s' \<and> ?P (length [0..<mx + 1]) s'"
  proof (rule run_invariant[where P = ?P])
    fix i s assume i: "i < length [0..<mx + 1]" and P: "?P i s"
    have at: "[0..<mx + 1] ! i = i" "i \<le> mx" using i by (simp_all del: upt_Suc add: nth_append)
    obtain b t where s: "s = (b, t)" by (cases s)
    have "start_bin i s = Some (b[i := t], t + b ! i)" using s P at(2) by (simp add: start_bin_def)
    then show "\<exists>s'. start_bin ([0..<mx + 1] ! i) s = Some s' \<and> ?P (Suc i) s'"
      unfolding at(1) using s P at(2) by (auto simp: below_Suc nth_list_update less_Suc_eq_le)
  qed (use assms in simp)
  then show ?thesis by auto
qed

lemma restore_bins:
  assumes "length bin = mx + 1" "\<forall>d \<le> mx. bin ! d = below deg n (Suc d)"
  shows "\<exists>bin'. run restore_bin (rev [1..<mx + 1]) bin = Some bin' \<and>
    length bin' = mx + 1 \<and> (\<forall>d \<le> mx. 0 < d \<longrightarrow> bin' ! d = below deg n d)"
proof -
  let ?P = "\<lambda>i bin. length bin = mx + 1 \<and>
    (\<forall>d \<le> mx. bin ! d = (if mx - i < d then below deg n d else below deg n (Suc d)))"
  have "\<exists>b'. run restore_bin (rev [1..<mx + 1]) bin = Some b' \<and> ?P (length (rev [1..<mx + 1])) b'"
  proof (rule run_invariant[where P = ?P])
    fix i b assume i: "i < length (rev [1..<mx + 1])" and P: "?P i b"
    have at: "rev [1..<mx + 1] ! i = mx - i" "i < mx" using i by (auto simp: rev_nth simp del: upt_Suc)
    have "restore_bin (mx - i) b = Some (b[mx - i := b ! (mx - i - 1)])"
      using P at(2) by (simp add: restore_bin_def)
    moreover have "?P (Suc i) (b[mx - i := b ! (mx - i - 1)])"
    proof -
      have "b ! (mx - i - 1) = below deg n (mx - i)" using P at(2) by (auto simp: Suc_diff_Suc)
      then show ?thesis using P at(2) by (auto simp: nth_list_update)
    qed
    ultimately show "\<exists>b'. restore_bin (rev [1..<mx + 1] ! i) b = Some b' \<and> ?P (Suc i) b'"
      unfolding at(1) by blast
  qed (use assms in simp)
  then show ?thesis by auto
qed

context undirected_view
begin

lemma place_vertices:
  assumes deg: "length deg = n" "\<And>x. x < n \<Longrightarrow> deg ! x \<le> mx"
    and bin: "length bin = mx + 1" "\<forall>d \<le> mx. bin ! d = below deg n d"
  shows "\<exists>st. run place_vertex (ud_nodes ud)
      \<lparr>kc_deg = deg, kc_pos = replicate n 0, kc_bin = bin, kc_vert = replicate n 0\<rparr> = Some st \<and>
    kc_deg st = deg \<and> inverse_slices n (kc_pos st) (kc_vert st) \<and> (\<forall>x < n. kc_pos st ! x = position deg n x) \<and>
    length (kc_bin st) = mx + 1 \<and> (\<forall>d \<le> mx. kc_bin st ! d = below deg n (Suc d))"
proof -
  let ?P = "\<lambda>i (st :: kcore). kc_deg st = deg \<and> length (kc_pos st) = n \<and> length (kc_vert st) = n \<and>
    length (kc_bin st) = mx + 1 \<and> (\<forall>d \<le> mx. kc_bin st ! d = below deg n d + equal_before deg i d) \<and>
    (\<forall>x < i. kc_pos st ! x = position deg n x \<and> kc_vert st ! position deg n x = x)"
  have "\<exists>st. run place_vertex (ud_nodes ud)
      \<lparr>kc_deg = deg, kc_pos = replicate n 0, kc_bin = bin, kc_vert = replicate n 0\<rparr> = Some st \<and>
    ?P (length (ud_nodes ud)) st"
  proof (rule run_invariant[where P = ?P])
    fix i st assume i: "i < n" and P: "?P i st"
    have at: "ud_nodes ud ! i = i" using i by (subst nodes) simp
    let ?p = "position deg n i"
    have "kc_bin st ! (deg ! i) = ?p" using P deg(2)[OF i] by (simp add: position_def)
    then have place: "place_vertex i st = Some (st\<lparr>kc_pos := (kc_pos st)[i := ?p], kc_vert := (kc_vert st)[?p := i],
        kc_bin := (kc_bin st)[deg ! i := ?p + 1]\<rparr>)"
      using P i deg(1) deg(2)[OF i] position_bound[OF i, of deg] by (simp add: place_vertex_def)
    have "position deg n x \<noteq> ?p \<and> ?p \<noteq> position deg n x" if "x < i" for x
      using position_inj[of x n i deg] that i by auto
    moreover have "(kc_bin st)[deg ! i := ?p + 1] ! d = below deg n d + equal_before deg (Suc i) d" if "d \<le> mx" for d
      using P that by (auto simp: equal_before_Suc nth_list_update position_def)
    ultimately show "\<exists>st'. place_vertex (ud_nodes ud ! i) st = Some st' \<and> ?P (Suc i) st'"
      unfolding at place using P i position_bound[OF i, of deg]
      by (auto simp: less_Suc_eq nth_list_update)
  qed (use bin in simp)
  then show ?thesis using positions_inverse[of _ n _ deg] by (auto simp: below_Suc)
qed

lemma bin_sort_inv:
  assumes "0 < n"
  shows "\<exists>present st mx. bin_sort ud n = Some (present, st) \<and> core_inv ud mx 0 0 st \<and>
    (\<forall>u < n. u < length present \<and> present ! u)"
proof -
  obtain deg present mx where 1: "run (read_degree ud) (ud_nodes ud) (replicate n 0, replicate n False, 0) = Some (deg, present, mx)"
    "length deg = n" "length present = n" "\<forall>x < n. deg ! x = card (nbrs ud x) \<and> present ! x \<and> deg ! x \<le> mx"
    using read_degrees by blast
  then have le: "\<forall>x < n. deg ! x \<le> mx" by blast
  obtain cnt where 2: "run (count_degree deg) (ud_nodes ud) (replicate (mx + 1) 0) = Some cnt"
    "length cnt = mx + 1" "\<forall>d \<le> mx. cnt ! d = equal_before deg n d"
    using count_degrees[OF 1(2), of mx] 1(4) by blast
  obtain bin t where 3: "run start_bin [0..<mx + 1] (cnt, 0) = Some (bin, t)" "length bin = mx + 1"
    "\<forall>d \<le> mx. bin ! d = below deg n d"
    using start_bins[OF 2(2,3)] by blast
  obtain st where 4: "run place_vertex (ud_nodes ud)
      \<lparr>kc_deg = deg, kc_pos = replicate n 0, kc_bin = bin, kc_vert = replicate n 0\<rparr> = Some st"
    "kc_deg st = deg" "inverse_slices n (kc_pos st) (kc_vert st)" "\<forall>x < n. kc_pos st ! x = position deg n x"
    "length (kc_bin st) = mx + 1" "\<forall>d \<le> mx. kc_bin st ! d = below deg n (Suc d)"
    using place_vertices[OF 1(2) _ 3(2,3)] 1(4) by blast
  obtain bin' where 5: "run restore_bin (rev [1..<mx + 1]) (kc_bin st) = Some bin'" "length bin' = mx + 1"
    "\<forall>d \<le> mx. 0 < d \<longrightarrow> bin' ! d = below deg n d"
    using restore_bins[OF 4(5,6)] by blast
  have sort: "bin_sort ud n = Some (present, st\<lparr>kc_bin := bin'[0 := 0]\<rparr>)"
    unfolding bin_sort_def 1(1) by (simp del: upt_Suc replicate_Suc add: 2(1)[simplified] 3(1)[simplified] 4(1) 5(1)[simplified] 5(2))
  have inv: "kc_vert st ! i < n" "kc_pos st ! (kc_vert st ! i) = i" if "i < n" for i
    using 4(3) that by (auto simp: inverse_slices_def)
  have "deg ! (kc_vert st ! i) \<le> deg ! (kc_vert st ! j)" if "i \<le> j" "j < n" for i j
    using position_mono[of "kc_vert st ! i" n "kc_vert st ! j" deg] inv[of i] inv[of j] 4(4) that by simp
  then have "layout n mx 0 (st\<lparr>kc_bin := bin'[0 := 0]\<rparr>)"
    using 1(2) le 4 5 by (simp add: layout_def nth_list_update)
  moreover have "nbrs ud x \<inter> {..<n} = nbrs ud x" if "x < n" for x using nbrs_facts(2)[OF that] by auto
  ultimately have "core_inv ud mx 0 0 (st\<lparr>kc_bin := bin'[0 := 0]\<rparr>)"
    using 1(4) 4(2) by (auto simp: core_inv_def Let_def rest_def)
  then show ?thesis using sort 1 by auto
qed

lemma process_all:
  assumes "core_inv ud mx 0 0 st" and present: "\<And>u. u < n \<Longrightarrow> u < length present \<and> present ! u"
  shows "\<exists>st' level. run (process_vertex ud present) [0..<n] st = Some st' \<and> core_inv ud mx n level st'"
proof -
  have "\<exists>st'. run (process_vertex ud present) [0..<n] st = Some st' \<and> (\<exists>level. core_inv ud mx (length [0..<n]) level st')"
    by (rule run_invariant[where P = "\<lambda>i st. \<exists>level. core_inv ud mx i level st"])
      (use assms process_vertex_inv[OF _ _ present] in \<open>auto, blast\<close>)
  then show ?thesis by auto
qed

text \<open>The algorithm never panics and computes the core number of every node.\<close>

lemma kcore_correct:
  "\<exists>core. compute_kcore ud = Some core \<and> set (mkeys core) = {..<n} \<and>
     (\<forall>x < n. \<exists>c. mget core x = Some c \<and> (\<forall>k. in_core ud k x \<longleftrightarrow> k \<le> c))"
proof (cases "n = 0")
  case True
  then show ?thesis by (simp add: compute_kcore_def)
next
  case False
  then have sz: "fold max (ud_nodes ud) 0 + 1 = n" by (subst nodes) (simp add: fold_max_upt)
  obtain present st mx where sort: "bin_sort ud n = Some (present, st)" "core_inv ud mx 0 0 st"
    "\<forall>u < n. u < length present \<and> present ! u"
    using bin_sort_inv False by auto
  obtain st' level where st': "run (process_vertex ud present) [0..<n] st = Some st'" "core_inv ud mx n level st'"
    using process_all[OF sort(2)] sort(3) by blast
  have len: "length (kc_deg st') = n" using layout_facts(1)[OF core_inv_facts(1)[OF st'(2)]] .
  let ?P = "\<lambda>i core. set (mkeys core) = {..<i} \<and> (\<forall>x < i. mget core x = Some (kc_deg st' ! x))"
  have "\<exists>core. run (\<lambda>v core. do { d \<leftarrow> slot (kc_deg st') v; Some (mput v d core) }) (ud_nodes ud) [] = Some core \<and>
    ?P (length (ud_nodes ud)) core"
  proof (rule run_invariant[where P = ?P])
    fix i and core :: "(nat, nat) gomap" assume i: "i < n" and P: "?P i core"
    have at: "ud_nodes ud ! i = i" using i by (subst nodes) simp
    show "\<exists>core'. do { d \<leftarrow> slot (kc_deg st') (ud_nodes ud ! i); Some (mput (ud_nodes ud ! i) d core) } = Some core' \<and>
        ?P (Suc i) core'"
      unfolding at using P i len by (auto simp: less_Suc_eq lessThan_Suc)
  qed simp
  then obtain core where core: "run (\<lambda>v core. do { d \<leftarrow> slot (kc_deg st') v; Some (mput v d core) }) (ud_nodes ud) [] = Some core"
    "?P n core" by blast
  have "compute_kcore ud = Some core"
    using False sort(1) st'(1) core(1) unfolding compute_kcore_def Let_def sz by simp
  then show ?thesis using core(2) processed_core_numbers[OF st'(2)] by auto
qed

end

end
