(* ===== verification/Bv_Articulation.thy ===== *)
theory Bv_Articulation
  imports Bv_Undirected "HOL-Library.Monad_Syntax"
begin

text \<open>
  \<open>findArticulationPoints\<close> of \<open>pkg/analysis/graph.go\<close>: Tarjan's cut vertices of the undirected view.

  The closure \<open>dfs\<close> and the slices it updates are a function on a state record. Slice accesses are
  checked, with \<open>None\<close> for a panic. The recursion ends because every call marks a node; it has fuel
  here, and the number of nodes is shown to be enough. The specification is that of a cut vertex: two
  other nodes are connected, but not without it.
\<close>

section \<open>The search\<close>

record art =
  ar_time :: nat
  ar_disc :: "nat list"
  ar_low :: "nat list"
  ar_parent :: "int list"
  ar_ap :: "bool list"

fun art_dfs :: "nat \<Rightarrow> undirected \<Rightarrow> nat \<Rightarrow> art \<Rightarrow> art option"
  and art_loop :: "nat \<Rightarrow> undirected \<Rightarrow> nat \<Rightarrow> nat list \<Rightarrow> nat \<Rightarrow> art \<Rightarrow> art option" where
  "art_dfs 0 ud v st = None"
| "art_dfs (Suc f) ud v st = do {
     let t = ar_time st + 1;
     disc \<leftarrow> set_slot (ar_disc st) v t;
     low \<leftarrow> set_slot (ar_low st) v t;
     art_loop f ud v (neighbors_of ud (int v)) 0 (st\<lparr>ar_time := t, ar_disc := disc, ar_low := low\<rparr>) }"
| "art_loop f ud v [] children st = Some st"
| "art_loop f ud v (u # us) children st = do {
     du \<leftarrow> slot (ar_disc st) u;
     if du = 0 then do {
       parent \<leftarrow> set_slot (ar_parent st) u (int v);
       st \<leftarrow> art_dfs f ud u (st\<lparr>ar_parent := parent\<rparr>);
       lv \<leftarrow> slot (ar_low st) v;
       lu \<leftarrow> slot (ar_low st) u;
       low \<leftarrow> set_slot (ar_low st) v (min lv lu);
       pv \<leftarrow> slot (ar_parent st) v;
       dv \<leftarrow> slot (ar_disc st) v;
       ap \<leftarrow> (if pv = - 1 \<and> children + 1 > 1 then set_slot (ar_ap st) v True else Some (ar_ap st));
       ap \<leftarrow> (if pv \<noteq> - 1 \<and> lu \<ge> dv then set_slot ap v True else Some ap);
       art_loop f ud v us (children + 1) (st\<lparr>ar_low := low, ar_ap := ap\<rparr>) }
     else do {
       pv \<leftarrow> slot (ar_parent st) v;
       low \<leftarrow> (if int u \<noteq> pv then do { lv \<leftarrow> slot (ar_low st) v; set_slot (ar_low st) v (min lv du) }
         else Some (ar_low st));
       art_loop f ud v us children (st\<lparr>ar_low := low\<rparr>) } }"

definition art_start :: "undirected \<Rightarrow> art" where
  "art_start ud =
     (let sz = length (ud_neighbors ud) in
      \<lparr>ar_time = 0, ar_disc = replicate sz 0, ar_low = replicate sz 0, ar_parent = replicate sz 0,
       ar_ap = replicate sz False\<rparr>)"

definition art_root :: "undirected \<Rightarrow> nat \<Rightarrow> art \<Rightarrow> art option" where
  "art_root ud v st = do {
     d \<leftarrow> slot (ar_disc st) v;
     if d = 0 then do {
       parent \<leftarrow> set_slot (ar_parent st) v (- 1);
       art_dfs (length (ud_nodes ud)) ud v (st\<lparr>ar_parent := parent\<rparr>) }
     else Some st }"

definition find_articulation_points :: "undirected \<Rightarrow> (nat, bool) gomap option" where
  "find_articulation_points ud =
     (if ud_nodes ud = [] then Some []
      else do {
        st \<leftarrow> run (art_root ud) (ud_nodes ud) (art_start ud);
        run (\<lambda>v out. do { b \<leftarrow> slot (ar_ap st) v; Some (if b then mput v True out else out) }) (ud_nodes ud) [] })"

section \<open>Cut vertices\<close>

definition adj :: "undirected \<Rightarrow> (nat \<times> nat) set" where
  "adj ud = {(x, y). x < length (ud_nodes ud) \<and> y \<in> nbrs ud x}"

definition within :: "undirected \<Rightarrow> nat set \<Rightarrow> (nat \<times> nat) set" where
  "within ud A = adj ud \<inter> A \<times> A"

definition avoiding :: "undirected \<Rightarrow> nat \<Rightarrow> (nat \<times> nat) set" where
  "avoiding ud v = within ud (- {v})"

definition cut_vertex :: "undirected \<Rightarrow> nat \<Rightarrow> bool" where
  "cut_vertex ud v \<longleftrightarrow> (\<exists>a b. a \<noteq> v \<and> b \<noteq> v \<and> (a, b) \<in> (adj ud)\<^sup>* \<and> (a, b) \<notin> (avoiding ud v)\<^sup>*)"

lemma within_mono: "A \<subseteq> B \<Longrightarrow> within ud A \<subseteq> within ud B"
  by (auto simp: within_def)

lemma within_avoiding: "v \<notin> A \<Longrightarrow> (x, y) \<in> (within ud A)\<^sup>* \<Longrightarrow> (x, y) \<in> (avoiding ud v)\<^sup>*"
  unfolding avoiding_def using rtrancl_mono[OF within_mono[of A "- {v}" ud]] by blast

text \<open>What is closed under the edges that avoid \<open>v\<close> is not left without \<open>v\<close>.\<close>

lemma closed_avoiding:
  assumes "(x, y) \<in> (avoiding ud v)\<^sup>*" "x \<in> A" "\<And>a b. a \<in> A \<Longrightarrow> b \<in> nbrs ud a \<Longrightarrow> b \<noteq> v \<Longrightarrow> b \<in> A"
  shows "y \<in> A"
  using assms(1,2) by (induction rule: rtrancl_induct) (auto simp: avoiding_def within_def adj_def assms(3))

context undirected_view
begin

lemma adj_sym: "(x, y) \<in> adj ud \<Longrightarrow> (y, x) \<in> adj ud"
  using nbrs_sym nbrs_facts(2) by (auto simp: adj_def)

lemma within_sym:
  assumes "(x, y) \<in> (within ud A)\<^sup>*"
  shows "(y, x) \<in> (within ud A)\<^sup>*"
proof -
  have "sym (within ud A)" using adj_sym by (auto simp: sym_def within_def)
  then show ?thesis using assms sym_rtrancl symD by metis
qed

lemma avoiding_sym: "(x, y) \<in> (avoiding ud v)\<^sup>* \<Longrightarrow> (y, x) \<in> (avoiding ud v)\<^sup>*"
  unfolding avoiding_def by (rule within_sym)

lemma avoiding_trans:
  "(x, y) \<in> (avoiding ud v)\<^sup>* \<Longrightarrow> (y, z) \<in> (avoiding ud v)\<^sup>* \<Longrightarrow> (x, z) \<in> (avoiding ud v)\<^sup>*"
  by (rule rtrancl_trans)

lemma avoiding_or_neighbor:
  assumes "(a, b) \<in> (adj ud)\<^sup>*" "a \<noteq> v"
  shows "(a, b) \<in> (avoiding ud v)\<^sup>* \<or> (\<exists>z \<in> nbrs ud v. (a, z) \<in> (avoiding ud v)\<^sup>*)"
  using assms(1)
proof (induction rule: rtrancl_induct)
  case (step y z)
  from step.IH show ?case
  proof
    assume ay: "(a, y) \<in> (avoiding ud v)\<^sup>*"
    have "y \<noteq> v" using ay assms(2) by (induction rule: rtrancl_induct) (auto simp: avoiding_def within_def)
    show ?thesis
    proof (cases "z = v")
      case True
      then have "y \<in> nbrs ud v" using step.hyps(2) nbrs_sym by (auto simp: adj_def)
      then show ?thesis using ay by blast
    next
      case False
      then have "(y, z) \<in> avoiding ud v" using step.hyps(2) \<open>y \<noteq> v\<close> by (simp add: avoiding_def within_def)
      then show ?thesis using ay by (meson rtrancl.rtrancl_into_rtrancl)
    qed
  qed auto
qed simp

text \<open>A cut vertex separates two of its neighbours.\<close>

lemma cut_vertex_neighbors:
  assumes v: "v < n"
  shows "cut_vertex ud v \<longleftrightarrow> (\<exists>y \<in> nbrs ud v. \<exists>z \<in> nbrs ud v. (y, z) \<notin> (avoiding ud v)\<^sup>*)"
proof
  assume "cut_vertex ud v"
  then obtain a b where ab: "a \<noteq> v" "b \<noteq> v" "(a, b) \<in> (adj ud)\<^sup>*" "(a, b) \<notin> (avoiding ud v)\<^sup>*"
    unfolding cut_vertex_def by blast
  have "sym (adj ud)" using adj_sym by (auto simp: sym_def)
  then have ba: "(b, a) \<in> (adj ud)\<^sup>*" using ab(3) sym_rtrancl symD by metis
  obtain y where y: "y \<in> nbrs ud v" "(a, y) \<in> (avoiding ud v)\<^sup>*"
    using avoiding_or_neighbor[OF ab(3,1)] ab(4) by blast
  obtain z where z: "z \<in> nbrs ud v" "(b, z) \<in> (avoiding ud v)\<^sup>*"
    using avoiding_or_neighbor[OF ba ab(2)] ab(4) avoiding_sym by blast
  have "(y, z) \<notin> (avoiding ud v)\<^sup>*" using ab(4) y(2) z(2) avoiding_trans avoiding_sym by metis
  then show "\<exists>y \<in> nbrs ud v. \<exists>z \<in> nbrs ud v. (y, z) \<notin> (avoiding ud v)\<^sup>*" using y(1) z(1) by blast
next
  assume "\<exists>y \<in> nbrs ud v. \<exists>z \<in> nbrs ud v. (y, z) \<notin> (avoiding ud v)\<^sup>*"
  then obtain y z where yz: "y \<in> nbrs ud v" "z \<in> nbrs ud v" "(y, z) \<notin> (avoiding ud v)\<^sup>*" by blast
  have "(y, v) \<in> adj ud" "(v, z) \<in> adj ud" using yz v nbrs_sym[OF v] nbrs_facts(2)[OF v] by (auto simp: adj_def)
  then have "(y, z) \<in> (adj ud)\<^sup>*" by (meson converse_rtrancl_into_rtrancl r_into_rtrancl)
  moreover have "y \<noteq> v" "z \<noteq> v" using yz nbrs_facts(3)[OF v] by auto
  ultimately show "cut_vertex ud v" using yz(3) by (auto simp: cut_vertex_def)
qed

end

section \<open>States of the search\<close>

definition seen :: "art \<Rightarrow> nat set" where
  "seen st = {x. x < length (ar_disc st) \<and> ar_disc st ! x \<noteq> 0}"

lemma seen_update [simp]:
  "seen (s\<lparr>ar_low := l\<rparr>) = seen s" "seen (s\<lparr>ar_ap := b\<rparr>) = seen s" "seen (s\<lparr>ar_parent := p\<rparr>) = seen s"
  by (simp_all add: seen_def)

definition art_ok :: "nat \<Rightarrow> art \<Rightarrow> bool" where
  "art_ok n st \<longleftrightarrow> length (ar_disc st) = n \<and> length (ar_low st) = n \<and> length (ar_parent st) = n \<and>
     length (ar_ap st) = n \<and> (\<forall>x < n. ar_disc st ! x \<le> ar_time st) \<and> (\<forall>x < n. ar_ap st ! x \<longrightarrow> x \<in> seen st)"

text \<open>A node that is finished, that is seen and not on the stack \<open>P\<close>, has only seen neighbours.\<close>

definition finished_closed :: "undirected \<Rightarrow> nat set \<Rightarrow> art \<Rightarrow> bool" where
  "finished_closed ud P st \<longleftrightarrow> (\<forall>x \<in> seen st - P. nbrs ud x \<subseteq> seen st)"

text \<open>When \<open>dfs\<close> is called: the stack is connected and ends in the parent; a root has an empty stack.\<close>

definition entry :: "undirected \<Rightarrow> nat \<Rightarrow> nat set \<Rightarrow> art \<Rightarrow> bool" where
  "entry ud v P st \<longleftrightarrow> art_ok (length (ud_nodes ud)) st \<and> v < length (ud_nodes ud) \<and> v \<notin> seen st \<and>
     P \<subseteq> seen st \<and> finished_closed ud P st \<and>
     (P = {} \<and> ar_parent st ! v = - 1 \<or>
      (\<exists>p \<in> P. ar_parent st ! v = int p \<and> p \<in> nbrs ud v \<and> (\<forall>y \<in> P. (y, p) \<in> (within ud P)\<^sup>*)))"

text \<open>What \<open>dfs\<close> leaves alone, and the region it has discovered.\<close>

definition extends :: "nat \<Rightarrow> nat \<Rightarrow> art \<Rightarrow> art \<Rightarrow> bool" where
  "extends n v s0 s \<longleftrightarrow> art_ok n s \<and> seen s0 \<subseteq> seen s \<and> v \<in> seen s \<and> ar_time s0 \<le> ar_time s \<and>
     (\<forall>x \<in> seen s0. ar_disc s ! x = ar_disc s0 ! x \<and> ar_low s ! x = ar_low s0 ! x \<and> ar_ap s ! x = ar_ap s0 ! x) \<and>
     (\<forall>x \<in> insert v (seen s0). ar_parent s ! x = ar_parent s0 ! x) \<and>
     (\<forall>x \<in> seen s - seen s0. ar_time s0 < ar_disc s ! x)"

definition region_ok :: "undirected \<Rightarrow> nat \<Rightarrow> art \<Rightarrow> art \<Rightarrow> bool" where
  "region_ok ud v s0 s \<longleftrightarrow> (\<forall>x \<in> seen s - seen s0. (v, x) \<in> (within ud (seen s - seen s0))\<^sup>*)"

text \<open>
  After \<open>dfs\<close>: \<open>low\<close> of the node is the least discovery time at the far end of an edge from its region
  to the nodes seen before, the edge to the parent excepted.
\<close>

definition explored :: "undirected \<Rightarrow> nat \<Rightarrow> art \<Rightarrow> art \<Rightarrow> bool" where
  "explored ud v s0 s \<longleftrightarrow> extends (length (ud_nodes ud)) v s0 s \<and> region_ok ud v s0 s \<and>
     (\<forall>b. b \<le> ar_low s ! v \<longleftrightarrow> b \<le> ar_disc s ! v \<and>
        (\<forall>x \<in> seen s - seen s0. \<forall>y \<in> nbrs ud x \<inter> seen s0.
           \<not> (x = v \<and> int y = ar_parent s0 ! v) \<longrightarrow> b \<le> ar_disc s0 ! y)) \<and>
     (\<forall>x \<in> seen s - seen s0. ar_ap s ! x \<longleftrightarrow> cut_vertex ud x)"

text \<open>In the loop of \<open>dfs\<close>, after the neighbours \<open>Q\<close>, of which \<open>c\<close> were new.\<close>

definition root_mark :: "undirected \<Rightarrow> nat \<Rightarrow> art \<Rightarrow> nat set \<Rightarrow> nat \<Rightarrow> art \<Rightarrow> bool" where
  "root_mark ud v s0 Q c s \<longleftrightarrow> (let R = seen s - seen s0 - {v} in
     (ar_ap s ! v \<longleftrightarrow> 1 < c) \<and> (c = 0 \<longrightarrow> R = {}) \<and> (0 < c \<longrightarrow> Q \<inter> R \<noteq> {}) \<and>
     (c = 1 \<longrightarrow> (\<forall>x \<in> R. \<forall>y \<in> R. (x, y) \<in> (avoiding ud v)\<^sup>*)) \<and>
     (1 < c \<longrightarrow> (\<exists>y \<in> Q. \<exists>z \<in> Q. (y, z) \<notin> (avoiding ud v)\<^sup>*)))"

definition inner_mark :: "undirected \<Rightarrow> nat \<Rightarrow> art \<Rightarrow> nat set \<Rightarrow> art \<Rightarrow> bool" where
  "inner_mark ud v s0 Q s \<longleftrightarrow>
     (ar_ap s ! v \<longleftrightarrow> (\<exists>z \<in> Q. (z, nat (ar_parent s0 ! v)) \<notin> (avoiding ud v)\<^sup>*))"

definition loop_inv :: "undirected \<Rightarrow> nat \<Rightarrow> nat set \<Rightarrow> art \<Rightarrow> nat set \<Rightarrow> nat \<Rightarrow> art \<Rightarrow> bool" where
  "loop_inv ud v P s0 Q c s \<longleftrightarrow>
     extends (length (ud_nodes ud)) v s0 s \<and> region_ok ud v s0 s \<and> finished_closed ud (insert v P) s \<and>
     Q \<subseteq> nbrs ud v \<and> Q \<subseteq> seen s \<and>
     (\<forall>x \<in> seen s - seen s0 - {v}. ar_disc s ! v < ar_disc s ! x \<and> (ar_ap s ! x \<longleftrightarrow> cut_vertex ud x) \<and>
        (\<exists>u \<in> Q \<inter> (seen s - seen s0 - {v}). (x, u) \<in> (avoiding ud v)\<^sup>*)) \<and>
     (\<forall>b. b \<le> ar_low s ! v \<longleftrightarrow> b \<le> ar_disc s ! v \<and>
        (\<forall>x \<in> seen s - seen s0 - {v}. \<forall>y \<in> nbrs ud x \<inter> seen s0. b \<le> ar_disc s0 ! y) \<and>
        (\<forall>y \<in> Q \<inter> seen s0. int y \<noteq> ar_parent s0 ! v \<longrightarrow> b \<le> ar_disc s0 ! y)) \<and>
     (if P = {} then root_mark ud v s0 Q c s else inner_mark ud v s0 Q s)"

lemma art_okD:
  assumes "art_ok n s"
  shows "length (ar_disc s) = n" "length (ar_low s) = n" "length (ar_parent s) = n" "length (ar_ap s) = n"
    and "x < n \<Longrightarrow> ar_disc s ! x \<le> ar_time s" "x < n \<Longrightarrow> ar_ap s ! x \<Longrightarrow> x \<in> seen s" "x \<in> seen s \<Longrightarrow> x < n"
    and "x < n \<Longrightarrow> x \<notin> seen s \<longleftrightarrow> ar_disc s ! x = 0"
  using assms by (auto simp: art_ok_def seen_def)

lemma extendsD:
  assumes "extends n v s0 s"
  shows "art_ok n s" "seen s0 \<subseteq> seen s" "v \<in> seen s" "ar_time s0 \<le> ar_time s"
    and "x \<in> seen s0 \<Longrightarrow> ar_disc s ! x = ar_disc s0 ! x" "x \<in> seen s0 \<Longrightarrow> ar_low s ! x = ar_low s0 ! x"
    and "x \<in> seen s0 \<Longrightarrow> ar_ap s ! x = ar_ap s0 ! x" "ar_parent s ! v = ar_parent s0 ! v"
    and "x \<in> seen s0 \<Longrightarrow> ar_parent s ! x = ar_parent s0 ! x"
    and "x \<in> seen s - seen s0 \<Longrightarrow> ar_time s0 < ar_disc s ! x"
  using assms by (auto simp: extends_def)

lemma loop_invD:
  assumes "loop_inv ud v P s0 Q c s"
  shows "extends (length (ud_nodes ud)) v s0 s" "region_ok ud v s0 s" "finished_closed ud (insert v P) s"
    and "Q \<subseteq> nbrs ud v" "Q \<subseteq> seen s"
    and "x \<in> seen s - seen s0 - {v} \<Longrightarrow> ar_disc s ! v < ar_disc s ! x"
    and "x \<in> seen s - seen s0 - {v} \<Longrightarrow> ar_ap s ! x \<longleftrightarrow> cut_vertex ud x"
    and "x \<in> seen s - seen s0 - {v} \<Longrightarrow> \<exists>u \<in> Q \<inter> (seen s - seen s0 - {v}). (x, u) \<in> (avoiding ud v)\<^sup>*"
    and "b \<le> ar_low s ! v \<longleftrightarrow> b \<le> ar_disc s ! v \<and>
        (\<forall>x \<in> seen s - seen s0 - {v}. \<forall>y \<in> nbrs ud x \<inter> seen s0. b \<le> ar_disc s0 ! y) \<and>
        (\<forall>y \<in> Q \<inter> seen s0. int y \<noteq> ar_parent s0 ! v \<longrightarrow> b \<le> ar_disc s0 ! y)"
    and "P = {} \<Longrightarrow> root_mark ud v s0 Q c s" "P \<noteq> {} \<Longrightarrow> inner_mark ud v s0 Q s"
  using assms unfolding loop_inv_def by auto

lemma entryD:
  assumes "entry ud v P s"
  shows "art_ok (length (ud_nodes ud)) s" "v < length (ud_nodes ud)" "v \<notin> seen s" "P \<subseteq> seen s"
    "finished_closed ud P s" "P = {} \<Longrightarrow> ar_parent s ! v = - 1"
    and "P \<noteq> {} \<Longrightarrow> nat (ar_parent s ! v) \<in> P \<and> ar_parent s ! v = int (nat (ar_parent s ! v)) \<and>
      nat (ar_parent s ! v) \<in> nbrs ud v \<and> (\<forall>y \<in> P. (y, nat (ar_parent s ! v)) \<in> (within ud P)\<^sup>*)"
  using assms by (auto simp: entry_def)

text \<open>Nodes with an unseen neighbour are on the stack.\<close>

lemma unseen_neighbor: "finished_closed ud P s \<Longrightarrow> x \<in> seen s \<Longrightarrow> y \<in> nbrs ud x \<Longrightarrow> y \<notin> seen s \<Longrightarrow> x \<in> P"
  by (auto simp: finished_closed_def)

context undirected_view
begin

lemma loop_start:
  assumes "entry ud v P s0"
  defines "t \<equiv> ar_time s0 + 1"
  shows "loop_inv ud v P s0 {} 0
    (s0\<lparr>ar_time := t, ar_disc := (ar_disc s0)[v := t], ar_low := (ar_low s0)[v := t]\<rparr>)"
proof -
  note e = entryD[OF assms(1)] and ok = art_okD[OF entryD(1)[OF assms(1)]]
  let ?s = "s0\<lparr>ar_time := t, ar_disc := (ar_disc s0)[v := t], ar_low := (ar_low s0)[v := t]\<rparr>"
  have seen: "seen ?s = insert v (seen s0)"
    using e(2) ok(1) by (auto simp: seen_def t_def nth_list_update)
  note seen = seen seen[simplified]
  have new: "insert v (seen s0) - seen s0 = {v}" using e(3) by auto
  have ap: "\<not> ar_ap s0 ! v" using ok(6) e(2,3) by blast
  have neq: "v \<noteq> x" if "x \<in> seen s0" for x using that e(3) by auto
  have t: "ar_time s0 < t" "ar_time s0 \<le> t" by (simp_all add: t_def)
  have "art_ok n ?s" using e(2) ok seen by (auto simp: art_ok_def t_def nth_list_update intro: le_SucI)
  then have "extends n v s0 ?s" using neq e(2) ok(1,2) t new by (auto simp: extends_def seen)
  moreover have "region_ok ud v s0 ?s" by (simp add: region_ok_def seen new)
  moreover have "finished_closed ud (insert v P) ?s" using e(5) by (auto simp: finished_closed_def seen)
  ultimately show ?thesis
    using ap e(2) ok(1,2) by (auto simp: loop_inv_def root_mark_def inner_mark_def seen new)
qed

lemma loop_end:
  assumes e: "entry ud v P s0" and inv: "loop_inv ud v P s0 (nbrs ud v) c s"
  shows "explored ud v s0 s \<and> finished_closed ud P s"
proof -
  note e = entryD[OF e] and l = loop_invD[OF inv]
  have vD: "v \<in> seen s - seen s0" using extendsD(3)[OF l(1)] e(3) by auto
  have cut: "ar_ap s ! v \<longleftrightarrow> cut_vertex ud v"
  proof (cases "P = {}")
    case True
    have sub: "nbrs ud v \<subseteq> seen s - seen s0 - {v}"
      using l(5) nbrs_facts(3)[OF e(2)] unseen_neighbor[OF e(5)] nbrs_sym[OF e(2)] e(3) True by blast
    have mark: "ar_ap s ! v \<longleftrightarrow> 1 < c" "c = 0 \<Longrightarrow> seen s - seen s0 - {v} = {}"
      "c = 1 \<Longrightarrow> x \<in> seen s - seen s0 - {v} \<Longrightarrow> y \<in> seen s - seen s0 - {v} \<Longrightarrow> (x, y) \<in> (avoiding ud v)\<^sup>*"
      "1 < c \<Longrightarrow> \<exists>y \<in> nbrs ud v. \<exists>z \<in> nbrs ud v. (y, z) \<notin> (avoiding ud v)\<^sup>*" for x y
      using l(10)[OF True] unfolding root_mark_def Let_def by auto
    consider "c = 0" | "c = 1" | "1 < c" by linarith
    then show ?thesis
      unfolding cut_vertex_neighbors[OF e(2)] mark(1)
      by cases (use sub mark(2,3,4) in \<open>auto; blast\<close>)+
  next
    case False
    then show ?thesis
      using l(11) e(7) unfolding cut_vertex_neighbors[OF e(2)] inner_mark_def
      by (metis avoiding_sym avoiding_trans)
  qed
  have "b \<le> ar_low s ! v \<longleftrightarrow> b \<le> ar_disc s ! v \<and> (\<forall>x \<in> seen s - seen s0. \<forall>y \<in> nbrs ud x \<inter> seen s0.
      \<not> (x = v \<and> int y = ar_parent s0 ! v) \<longrightarrow> b \<le> ar_disc s0 ! y)" for b
    unfolding l(9) using vD by (safe; metis DiffI singletonD IntI)
  then have "explored ud v s0 s" using l(1,2,7) cut by (auto simp: explored_def)
  moreover have "finished_closed ud P s" using l(3,5) by (auto simp: finished_closed_def)
  ultimately show ?thesis by blast
qed

text \<open>A neighbour that has been seen: only \<open>low\<close> changes, and only for one seen before \<open>v\<close>.\<close>

lemma loop_old:
  assumes e: "entry ud v P s0" and inv: "loop_inv ud v P s0 Q c s" and u: "u \<in> nbrs ud v" "u \<in> seen s"
  shows "loop_inv ud v P s0 (insert u Q) c (s\<lparr>ar_low :=
    (if int u \<noteq> ar_parent s ! v then (ar_low s)[v := min (ar_low s ! v) (ar_disc s ! u)] else ar_low s)\<rparr>)"
proof -
  note e = entryD[OF e] and l = loop_invD[OF inv] and x = extendsD[OF loop_invD(1)[OF inv]]
  note ok = art_okD[OF x(1)]
  define low where
    "low = (if int u \<noteq> ar_parent s ! v then (ar_low s)[v := min (ar_low s ! v) (ar_disc s ! u)] else ar_low s)"
  let ?s = "s\<lparr>ar_low := low\<rparr>"
  have seen: "seen ?s = seen s" by (simp add: seen_def)
  have uv: "u \<noteq> v" using u(1) nbrs_facts(3)[OF e(2)] by auto
  have lowv: "low ! v = (if int u \<noteq> ar_parent s0 ! v then min (ar_low s ! v) (ar_disc s ! u) else ar_low s ! v)"
    using ok(2) e(2) x(8) by (simp add: low_def)
  have other: "low ! y = ar_low s ! y" if "y \<noteq> v" for y using that by (simp add: low_def)
  have neq: "y \<noteq> v" if "y \<in> seen s0" for y using that e(3) by auto
  have ext: "extends n v s0 ?s"
    using l(1) other neq ok(2) by (auto simp: extends_def art_ok_def seen low_def)
  have conn: "(u, p) \<in> (avoiding ud v)\<^sup>*"
    if "p = nat (ar_parent s0 ! v)" "P \<noteq> {}" "\<forall>z \<in> Q. (z, p) \<in> (avoiding ud v)\<^sup>*" for p
  proof (cases "u \<in> seen s0")
    case True
    then have "u \<in> P" using unseen_neighbor[OF e(5) True nbrs_sym[OF e(2) u(1)]] e(3) by simp
    then show ?thesis using e(7)[OF that(2)] within_avoiding[of v P] e(3,4) that(1) by blast
  next
    case False
    then obtain w where "w \<in> Q" "(u, w) \<in> (avoiding ud v)\<^sup>*" using l(8)[of u] u(2) uv by blast
    then show ?thesis using that(3) avoiding_trans by blast
  qed
  have mark: "if P = {} then root_mark ud v s0 (insert u Q) c ?s else inner_mark ud v s0 (insert u Q) ?s"
  proof (cases "P = {}")
    case True
    then show ?thesis using l(10) by (auto simp: root_mark_def Let_def seen)
  next
    case False
    then show ?thesis using l(11) conn by (auto simp: inner_mark_def)
  qed
  have lows: "b \<le> ar_low ?s ! v \<longleftrightarrow> b \<le> ar_disc s ! v \<and>
      (\<forall>x \<in> seen s - seen s0 - {v}. \<forall>y \<in> nbrs ud x \<inter> seen s0. b \<le> ar_disc s0 ! y) \<and>
      (\<forall>y \<in> insert u Q \<inter> seen s0. int y \<noteq> ar_parent s0 ! v \<longrightarrow> b \<le> ar_disc s0 ! y)" for b
  proof (cases "u \<in> seen s0")
    case True
    then show ?thesis using l(9)[of b] lowv x(5)[OF True] by auto
  next
    case False
    then have "ar_disc s ! v < ar_disc s ! u" using l(6)[of u] u(2) uv by simp
    then show ?thesis using l(9)[of b] lowv False by auto
  qed
  have inside: "\<forall>x \<in> seen s - seen s0 - {v}. ar_disc s ! v < ar_disc s ! x \<and> (ar_ap s ! x \<longleftrightarrow> cut_vertex ud x) \<and>
      (\<exists>w \<in> insert u Q \<inter> (seen s - seen s0 - {v}). (x, w) \<in> (avoiding ud v)\<^sup>*)"
  proof
    fix x assume "x \<in> seen s - seen s0 - {v}"
    then show "ar_disc s ! v < ar_disc s ! x \<and> (ar_ap s ! x \<longleftrightarrow> cut_vertex ud x) \<and>
        (\<exists>w \<in> insert u Q \<inter> (seen s - seen s0 - {v}). (x, w) \<in> (avoiding ud v)\<^sup>*)"
      using l(6)[of x] l(7)[of x] l(8)[of x] by blast
  qed
  have "loop_inv ud v P s0 (insert u Q) c ?s"
    unfolding loop_inv_def
    using ext l(2-5) u mark lows inside by (simp add: region_ok_def finished_closed_def)
  then show ?thesis by (simp add: low_def)
qed

text \<open>A new neighbour: its call of \<open>dfs\<close> is well prepared.\<close>

lemma loop_entry:
  assumes e: "entry ud v P s0" and inv: "loop_inv ud v P s0 Q c s" and u: "u \<in> nbrs ud v" "u \<notin> seen s"
  shows "entry ud u (insert v P) (s\<lparr>ar_parent := (ar_parent s)[u := int v]\<rparr>)"
proof -
  note e = entryD[OF e] and l = loop_invD[OF inv] and x = extendsD[OF loop_invD(1)[OF inv]]
  note ok = art_okD[OF x(1)]
  let ?s = "s\<lparr>ar_parent := (ar_parent s)[u := int v]\<rparr>"
  have seen: "seen ?s = seen s" by (simp add: seen_def)
  have un: "u < n" using nbrs_facts(2)[OF e(2)] u(1) by auto
  have conn: "(y, v) \<in> (within ud (insert v P))\<^sup>*" if "y \<in> insert v P" for y
  proof (cases "y = v")
    case False
    then have "y \<in> P" "P \<noteq> {}" using that by auto
    define p where "p = nat (ar_parent s0 ! v)"
    have p: "p \<in> P" "p \<in> nbrs ud v" "(y, p) \<in> (within ud P)\<^sup>*"
      using e(7)[OF \<open>P \<noteq> {}\<close>] \<open>y \<in> P\<close> by (auto simp: p_def)
    have "(p, v) \<in> within ud (insert v P)"
      using p nbrs_sym[OF e(2)] nbrs_facts(2)[OF e(2)] by (auto simp: within_def adj_def)
    moreover have "(y, p) \<in> (within ud (insert v P))\<^sup>*"
      using p(3) rtrancl_mono[OF within_mono[of P "insert v P" ud]] by blast
    ultimately show ?thesis by (meson rtrancl.rtrancl_into_rtrancl)
  qed simp
  have "art_ok n ?s" using x(1) seen by (simp add: art_ok_def)
  moreover have "insert v P \<subseteq> seen ?s" using seen x(2,3) e(4) by auto
  moreover have "finished_closed ud (insert v P) ?s" using l(3) seen by (simp add: finished_closed_def)
  moreover have "v \<in> nbrs ud u" by (rule nbrs_sym[OF e(2) u(1)])
  ultimately show ?thesis using un u(2) seen ok(3) conn by (auto simp: entry_def)
qed

end

text \<open>A new neighbour: the loop of \<open>v\<close> resumes in the state in which its call has ended.\<close>

definition called :: "undirected \<Rightarrow> nat \<Rightarrow> nat set \<Rightarrow> art \<Rightarrow> nat set \<Rightarrow> nat \<Rightarrow> art \<Rightarrow> nat \<Rightarrow> art \<Rightarrow> bool" where
  "called ud v P s0 Q c s u s2 \<longleftrightarrow> entry ud v P s0 \<and> loop_inv ud v P s0 Q c s \<and> u \<in> nbrs ud v \<and> u \<notin> seen s \<and>
     explored ud u (s\<lparr>ar_parent := (ar_parent s)[u := int v]\<rparr>) s2 \<and> finished_closed ud (insert v P) s2"

lemma calledD:
  assumes "called ud v P s0 Q c s u s2" "u < length (ud_nodes ud)"
  shows "art_ok (length (ud_nodes ud)) s2" "seen s \<subseteq> seen s2" "u \<in> seen s2 - seen s" "ar_time s \<le> ar_time s2"
    and "x \<in> seen s \<Longrightarrow> ar_disc s2 ! x = ar_disc s ! x" "x \<in> seen s \<Longrightarrow> ar_low s2 ! x = ar_low s ! x"
    and "x \<in> seen s \<Longrightarrow> ar_ap s2 ! x = ar_ap s ! x" "x \<in> seen s \<Longrightarrow> ar_parent s2 ! x = ar_parent s ! x"
    and "x \<in> seen s2 - seen s \<Longrightarrow> ar_time s < ar_disc s2 ! x"
    and "x \<in> seen s2 - seen s \<Longrightarrow> (u, x) \<in> (within ud (seen s2 - seen s))\<^sup>*"
    and "x \<in> seen s2 - seen s \<Longrightarrow> ar_ap s2 ! x \<longleftrightarrow> cut_vertex ud x"
    and "b \<le> ar_low s2 ! u \<longleftrightarrow> b \<le> ar_disc s2 ! u \<and>
        (\<forall>x \<in> seen s2 - seen s. \<forall>y \<in> nbrs ud x \<inter> seen s. \<not> (x = u \<and> y = v) \<longrightarrow> b \<le> ar_disc s ! y)"
proof -
  let ?s = "s\<lparr>ar_parent := (ar_parent s)[u := int v]\<rparr>"
  have u: "u \<notin> seen s" and ex: "explored ud u ?s s2" and ok: "art_ok (length (ud_nodes ud)) s"
    using assms(1) extendsD(1)[OF loop_invD(1)] by (auto simp: called_def)
  have x: "extends (length (ud_nodes ud)) u ?s s2" using ex by (simp add: explored_def)
  note xs = extendsD[OF x, simplified]
  have par: "ar_parent ?s ! u = int v" using assms(2) art_okD(3)[OF ok] by simp
  show "art_ok (length (ud_nodes ud)) s2" "seen s \<subseteq> seen s2" "u \<in> seen s2 - seen s" "ar_time s \<le> ar_time s2"
    using xs u by auto
  show "x \<in> seen s \<Longrightarrow> ar_disc s2 ! x = ar_disc s ! x" "x \<in> seen s \<Longrightarrow> ar_low s2 ! x = ar_low s ! x"
    "x \<in> seen s \<Longrightarrow> ar_ap s2 ! x = ar_ap s ! x" using xs(5-7) by auto
  show "x \<in> seen s \<Longrightarrow> ar_parent s2 ! x = ar_parent s ! x"
    using xs(9)[of x] u by (cases "x = u") auto
  show "x \<in> seen s2 - seen s \<Longrightarrow> ar_time s < ar_disc s2 ! x" using xs(10)[of x] by simp
  show "x \<in> seen s2 - seen s \<Longrightarrow> (u, x) \<in> (within ud (seen s2 - seen s))\<^sup>*"
    "x \<in> seen s2 - seen s \<Longrightarrow> ar_ap s2 ! x \<longleftrightarrow> cut_vertex ud x"
    using ex by (auto simp: explored_def region_ok_def)
  show "b \<le> ar_low s2 ! u \<longleftrightarrow> b \<le> ar_disc s2 ! u \<and>
      (\<forall>x \<in> seen s2 - seen s. \<forall>y \<in> nbrs ud x \<inter> seen s. \<not> (x = u \<and> y = v) \<longrightarrow> b \<le> ar_disc s ! y)"
    using ex par by (simp add: explored_def)
qed

context undirected_view
begin

lemma called_node: "called ud v P s0 Q c s u s2 \<Longrightarrow> u < n"
  using nbrs_facts(2)[of v] entryD(2)[of ud v P s0] by (auto simp: called_def)

lemma called_disc:
  assumes ca: "called ud v P s0 Q c s u s2"
  shows "x \<in> seen s2 - seen s0 - {v} \<Longrightarrow> ar_disc s ! v < ar_disc s2 ! x" "ar_disc s2 ! v = ar_disc s ! v"
    and "y \<in> seen s0 \<Longrightarrow> ar_disc s ! y < ar_disc s ! v"
proof -
  note d = calledD[OF ca called_node[OF ca]]
  have inv: "loop_inv ud v P s0 Q c s" and e: "entry ud v P s0" using ca by (simp_all add: called_def)
  note l = loop_invD[OF inv] and x = extendsD[OF loop_invD(1)[OF inv]] and ok = art_okD[OF extendsD(1)[OF loop_invD(1)[OF inv]]]
  have le: "ar_disc s ! v \<le> ar_time s" using ok(5,7) x(3) by blast
  show "ar_disc s2 ! v = ar_disc s ! v" using d(5) x(3) by simp
  show "ar_disc s ! v < ar_disc s2 ! x" if "x \<in> seen s2 - seen s0 - {v}"
  proof (cases "x \<in> seen s")
    case True
    then show ?thesis using l(6)[of x] d(5) that by simp
  next
    case False
    then show ?thesis using d(9)[of x] that le by simp
  qed
  show "ar_disc s ! y < ar_disc s ! v" if "y \<in> seen s0"
  proof -
    have "ar_disc s0 ! y \<le> ar_time s0" using art_okD(5,7)[OF entryD(1)[OF e]] that by blast
    moreover have "v \<in> seen s - seen s0" using x(3) entryD(3)[OF e] by simp
    ultimately show ?thesis using x(5)[OF that] x(10)[of v] by simp
  qed
qed

text \<open>No edge leads back above \<open>v\<close> exactly if the new region hangs on \<open>v\<close> alone.\<close>

lemma called_bound:
  assumes ca: "called ud v P s0 Q c s u s2" and P: "P \<noteq> {}"
  shows "ar_disc s ! v \<le> ar_low s2 ! u \<longleftrightarrow> (u, nat (ar_parent s0 ! v)) \<notin> (avoiding ud v)\<^sup>*"
proof -
  define p where "p = nat (ar_parent s0 ! v)"
  define R where "R = seen s2 - seen s"
  note d = calledD[OF ca called_node[OF ca]] and disc = called_disc[OF ca]
  have inv: "loop_inv ud v P s0 Q c s" and e: "entry ud v P s0" and cl: "finished_closed ud (insert v P) s2"
    using ca by (simp_all add: called_def)
  note e = entryD[OF e] and l = loop_invD[OF inv] and x = extendsD[OF loop_invD(1)[OF inv]]
  have p: "p \<in> P" "\<And>y. y \<in> P \<Longrightarrow> (y, p) \<in> (within ud P)\<^sup>*" using e(7)[OF P] by (auto simp: p_def)
  have RV: "v \<notin> R" "R \<inter> P = {}" "u \<in> R" using x(2,3) e(4) d(3) by (auto simp: R_def)
  have far: "y \<in> insert v P" if "a \<in> R" "y \<in> nbrs ud a" "y \<in> seen s" for a y
  proof -
    have "a < n" using art_okD(7)[OF d(1)] that(1) by (auto simp: R_def)
    then show ?thesis using unseen_neighbor[OF l(3) that(3) nbrs_sym[of a y]] that by (auto simp: R_def)
  qed
  show ?thesis
  proof
    assume low: "ar_disc s ! v \<le> ar_low s2 ! u"
    show "(u, nat (ar_parent s0 ! v)) \<notin> (avoiding ud v)\<^sup>*"
    proof
      assume "(u, nat (ar_parent s0 ! v)) \<in> (avoiding ud v)\<^sup>*"
      then have "p \<in> R" unfolding p_def
      proof (rule closed_avoiding[OF _ RV(3)])
        fix a b assume ab: "a \<in> R" "b \<in> nbrs ud a" "b \<noteq> v"
        have "b \<in> seen s2" using cl ab(1,2) RV by (auto simp: finished_closed_def R_def)
        moreover have "b \<notin> seen s"
        proof
          assume b: "b \<in> seen s"
          then have "b \<in> seen s0" using far[OF ab(1,2)] ab(3) e(4) by auto
          moreover have "ar_disc s ! v \<le> ar_disc s ! b" using low ab b unfolding d(12) R_def by blast
          ultimately show False using disc(3)[of b] by simp
        qed
        ultimately show "b \<in> R" by (simp add: R_def)
      qed
      then show False using p(1) RV(2) by auto
    qed
  next
    assume no: "(u, nat (ar_parent s0 ! v)) \<notin> (avoiding ud v)\<^sup>*"
    have "ar_disc s ! v \<le> ar_disc s ! y"
      if ab: "a \<in> R" "y \<in> nbrs ud a" "y \<in> seen s" "\<not> (a = u \<and> y = v)" for a y
    proof (cases "y = v")
      case False
      then have "y \<in> P" using far[OF ab(1-3)] by simp
      then have "(y, p) \<in> (avoiding ud v)\<^sup>*" using p(2) within_avoiding[of v P] e(3,4) by blast
      moreover have "(a, y) \<in> avoiding ud v"
        using ab False RV art_okD(7)[OF d(1)] by (auto simp: avoiding_def within_def adj_def R_def)
      moreover have "(u, a) \<in> (avoiding ud v)\<^sup>*" using d(10)[of a] ab(1) within_avoiding[OF RV(1)] by (simp add: R_def)
      ultimately have "(u, p) \<in> (avoiding ud v)\<^sup>*" by (meson converse_rtrancl_into_rtrancl rtrancl_trans)
      then show ?thesis using no by (simp add: p_def)
    qed simp
    moreover have "u \<in> seen s2 - seen s0 - {v}" using d(3) x(2,3) by auto
    then have "ar_disc s ! v \<le> ar_disc s2 ! u" using disc(1)[of u] by simp
    ultimately show "ar_disc s ! v \<le> ar_low s2 ! u" unfolding d(12) R_def by blast
  qed
qed

lemma called_low:
  assumes ca: "called ud v P s0 Q c s u s2"
  shows "b \<le> min (ar_low s2 ! v) (ar_low s2 ! u) \<longleftrightarrow> b \<le> ar_disc s2 ! v \<and>
    (\<forall>x \<in> seen s2 - seen s0 - {v}. \<forall>y \<in> nbrs ud x \<inter> seen s0. b \<le> ar_disc s0 ! y) \<and>
    (\<forall>y \<in> insert u Q \<inter> seen s0. int y \<noteq> ar_parent s0 ! v \<longrightarrow> b \<le> ar_disc s0 ! y)"
    (is "_ \<longleftrightarrow> ?disc \<and> ?region \<and> ?nbrs")
proof -
  note d = calledD[OF ca called_node[OF ca]] and disc = called_disc[OF ca]
  have inv: "loop_inv ud v P s0 Q c s" and e: "entry ud v P s0" using ca by (simp_all add: called_def)
  note e = entryD[OF e] and l = loop_invD[OF inv] and x = extendsD[OF loop_invD(1)[OF inv]]
  have u: "u \<in> seen s2 - seen s0 - {v}" "u \<notin> seen s0" using d(3) x(2,3) by auto
  have low: "ar_low s2 ! v = ar_low s ! v" using d(6) x(3) by simp
  have "b \<le> ar_low s ! v \<longleftrightarrow> ?disc \<and>
      (\<forall>x \<in> seen s - seen s0 - {v}. \<forall>y \<in> nbrs ud x \<inter> seen s0. b \<le> ar_disc s0 ! y) \<and> ?nbrs"
    unfolding l(9) disc(2) using u(2) by auto
  moreover have "?disc \<Longrightarrow> b \<le> ar_low s2 ! u \<longleftrightarrow>
      (\<forall>x \<in> seen s2 - seen s. \<forall>y \<in> nbrs ud x \<inter> seen s0. b \<le> ar_disc s0 ! y)"
  proof -
    assume b: ?disc
    have bu: "b \<le> ar_disc s2 ! u" using b disc(1)[OF u(1)] disc(2) by simp
    have far: "b \<le> ar_disc s ! y" if "y \<in> seen s" "y \<notin> seen s0" for y
      using b disc(1)[of y] disc(2) d(2) d(5)[of y] that by (cases "y = v") auto
    show ?thesis
      unfolding d(12)
    proof (intro iffI conjI ballI impI)
      fix a y assume low: "b \<le> ar_disc s2 ! u \<and> (\<forall>x \<in> seen s2 - seen s. \<forall>y \<in> nbrs ud x \<inter> seen s.
          \<not> (x = u \<and> y = v) \<longrightarrow> b \<le> ar_disc s ! y)"
        and a: "a \<in> seen s2 - seen s" "y \<in> nbrs ud a \<inter> seen s0"
      have "y \<noteq> v" "y \<in> seen s" using a(2) e(3) x(2) by auto
      then show "b \<le> ar_disc s0 ! y" using low a x(5)[of y] by (metis Int_iff)
    next
      fix a y assume low: "\<forall>x \<in> seen s2 - seen s. \<forall>y \<in> nbrs ud x \<inter> seen s0. b \<le> ar_disc s0 ! y"
        and a: "a \<in> seen s2 - seen s" "y \<in> nbrs ud a \<inter> seen s"
      show "b \<le> ar_disc s ! y"
        using low a far[of y] x(5)[of y] by (cases "y \<in> seen s0") auto
    qed (rule bu)
  qed
  moreover have "?region \<longleftrightarrow> (\<forall>x \<in> seen s - seen s0 - {v}. \<forall>y \<in> nbrs ud x \<inter> seen s0. b \<le> ar_disc s0 ! y) \<and>
      (\<forall>x \<in> seen s2 - seen s. \<forall>y \<in> nbrs ud x \<inter> seen s0. b \<le> ar_disc s0 ! y)"
  proof -
    have "seen s2 - seen s0 - {v} = (seen s - seen s0 - {v}) \<union> (seen s2 - seen s)"
      using d(2) x(2,3) by auto
    then show ?thesis by (simp only: ball_Un)
  qed
  ultimately show ?thesis unfolding low min.bounded_iff by argo
qed

lemma called_conn:
  assumes ca: "called ud v P s0 Q c s u s2" and "x \<in> seen s2 - seen s"
  shows "(x, u) \<in> (avoiding ud v)\<^sup>*"
proof -
  have "loop_inv ud v P s0 Q c s" using ca by (simp add: called_def)
  then have "v \<in> seen s" using extendsD(3)[OF loop_invD(1)] by blast
  then show ?thesis
    using calledD(10)[OF ca called_node[OF ca] assms(2)] within_avoiding[of v "seen s2 - seen s"] avoiding_sym by blast
qed

text \<open>A second new neighbour of the root is separated from the first.\<close>

lemma called_root:
  assumes ca: "called ud v {} s0 Q c s u s2" and s3: "seen s3 = seen s2" "ar_ap s3 ! v \<longleftrightarrow> ar_ap s2 ! v \<or> 0 < c"
  shows "root_mark ud v s0 (insert u Q) (c + 1) s3"
proof -
  note d = calledD[OF ca called_node[OF ca]]
  have inv: "loop_inv ud v {} s0 Q c s" and e: "entry ud v {} s0" using ca by (simp_all add: called_def)
  note l = loop_invD[OF inv] and x = extendsD[OF loop_invD(1)[OF inv]]
  have u: "u \<in> seen s2 - seen s0 - {v}" "u \<notin> seen s" using d(3) x(2,3) by auto
  have mark: "ar_ap s2 ! v \<longleftrightarrow> 1 < c" "c = 0 \<Longrightarrow> seen s - seen s0 - {v} = {}"
    "0 < c \<Longrightarrow> Q \<inter> (seen s - seen s0 - {v}) \<noteq> {}"
    using l(10) d(7) x(3) unfolding root_mark_def Let_def by auto
  have conn: "(x, y) \<in> (avoiding ud v)\<^sup>*" if "c = 0" "x \<in> seen s2 - seen s0 - {v}" "y \<in> seen s2 - seen s0 - {v}" for x y
    using mark(2)[OF that(1)] called_conn[OF ca] that(2,3) avoiding_trans avoiding_sym by blast
  have sep: "\<exists>y \<in> insert u Q. \<exists>z \<in> insert u Q. (y, z) \<notin> (avoiding ud v)\<^sup>*" if c: "0 < c"
  proof -
    obtain w where w: "w \<in> Q" "w \<in> seen s - {v}" using mark(3)[OF c] by blast
    have "(w, u) \<notin> (avoiding ud v)\<^sup>*"
    proof
      assume "(w, u) \<in> (avoiding ud v)\<^sup>*"
      then have "u \<in> seen s - {v}"
        by (rule closed_avoiding[OF _ w(2)]) (use l(3) in \<open>auto simp: finished_closed_def\<close>)
      then show False using u by simp
    qed
    then show ?thesis using w(1) by blast
  qed
  show ?thesis
    unfolding root_mark_def Let_def s3 using mark(1) conn sep u by auto
qed

lemma loop_new:
  assumes ca: "called ud v P s0 Q c s u s2"
  shows "loop_inv ud v P s0 (insert u Q) (c + 1)
    (s2\<lparr>ar_low := (ar_low s2)[v := min (ar_low s2 ! v) (ar_low s2 ! u)],
       ar_ap := (if P = {} \<and> 0 < c \<or> P \<noteq> {} \<and> ar_low s2 ! u \<ge> ar_disc s2 ! v then (ar_ap s2)[v := True]
         else ar_ap s2)\<rparr>)"
proof -
  note d = calledD[OF ca called_node[OF ca]] and disc = called_disc[OF ca]
  have inv: "loop_inv ud v P s0 Q c s" and e: "entry ud v P s0" and cl: "finished_closed ud (insert v P) s2"
    and uv: "u \<in> nbrs ud v" using ca by (simp_all add: called_def)
  note l = loop_invD[OF inv] and x = extendsD[OF loop_invD(1)[OF inv]] and e = entryD[OF e]
  note ok = art_okD[OF d(1)]
  define ap where "ap = (if P = {} \<and> 0 < c \<or> P \<noteq> {} \<and> ar_low s2 ! u \<ge> ar_disc s2 ! v then (ar_ap s2)[v := True]
         else ar_ap s2)"
  let ?low = "(ar_low s2)[v := min (ar_low s2 ! v) (ar_low s2 ! u)]"
  let ?s = "s2\<lparr>ar_low := ?low, ar_ap := ap\<rparr>"
  have v: "v \<in> seen s" "v \<in> seen s2" using x(3) d(2) by auto
  have u: "u \<in> seen s2 - seen s0 - {v}" using d(3) x(2,3) by auto
  have apv: "ap ! v \<longleftrightarrow> ar_ap s2 ! v \<or> P = {} \<and> 0 < c \<or> P \<noteq> {} \<and> ar_low s2 ! u \<ge> ar_disc s2 ! v"
    using ok(4) e(2) by (auto simp: ap_def)
  have apx: "ap ! y = ar_ap s2 ! y" if "y \<noteq> v" for y using that by (simp add: ap_def)
  have neq: "y \<noteq> v" if "y \<in> seen s0" for y using that e(3) by auto
  have "y \<in> seen s2" if "y < n" "ap ! y" for y using that apx[of y] ok(6)[of y] v(2) by (cases "y = v") auto
  moreover have "length ap = n" using ok(4) by (simp add: ap_def)
  ultimately have ok': "art_ok n ?s" using d(1) by (simp add: art_ok_def)
  have old: "y \<in> seen s" "y \<noteq> v" "v \<noteq> y" if "y \<in> seen s0" for y using that x(2) neq by auto
  have ext: "extends n v s0 ?s"
    unfolding extends_def
  proof (intro conjI ballI)
    fix y assume y: "y \<in> seen s0"
    show "ar_disc ?s ! y = ar_disc s0 ! y" "ar_low ?s ! y = ar_low s0 ! y" "ar_ap ?s ! y = ar_ap s0 ! y"
      using d(5-7)[OF old(1)[OF y]] x(5-7)[OF y] apx[OF old(2)[OF y]] old(3)[OF y] by simp_all
  next
    fix y assume "y \<in> insert v (seen s0)"
    then show "ar_parent ?s ! y = ar_parent s0 ! y" using d(8)[of y] x(8) x(9)[of y] v(1) old(1)[of y] by auto
  next
    fix y assume "y \<in> seen ?s - seen s0"
    then show "ar_time s0 < ar_disc ?s ! y"
      using x(4) x(10)[of y] d(5)[of y] d(9)[of y] by (cases "y \<in> seen s") auto
  qed (use ok' d(2,4) x(2,4) v in auto)
  have reg: "region_ok ud v s0 ?s"
    unfolding region_ok_def seen_update
  proof
    fix y assume y: "y \<in> seen s2 - seen s0"
    show "(v, y) \<in> (within ud (seen s2 - seen s0))\<^sup>*"
    proof (cases "y \<in> seen s")
      case True
      then have "(v, y) \<in> (within ud (seen s - seen s0))\<^sup>*" using l(2) y by (simp add: region_ok_def)
      then show ?thesis using rtrancl_mono[OF within_mono[of "seen s - seen s0" "seen s2 - seen s0"]] d(2) by blast
    next
      case False
      then have "(u, y) \<in> (within ud (seen s2 - seen s))\<^sup>*" using d(10) y by simp
      then have "(u, y) \<in> (within ud (seen s2 - seen s0))\<^sup>*"
        using rtrancl_mono[OF within_mono[of "seen s2 - seen s" "seen s2 - seen s0"]] x(2) by blast
      moreover have "(v, u) \<in> within ud (seen s2 - seen s0)" using uv u v e(2,3) by (simp add: within_def adj_def)
      ultimately show ?thesis by (meson converse_rtrancl_into_rtrancl)
    qed
  qed
  have inside: "\<forall>x \<in> seen s2 - seen s0 - {v}. ar_disc s2 ! v < ar_disc s2 ! x \<and> (ap ! x \<longleftrightarrow> cut_vertex ud x) \<and>
      (\<exists>w \<in> insert u Q \<inter> (seen s2 - seen s0 - {v}). (x, w) \<in> (avoiding ud v)\<^sup>*)"
  proof
    fix y assume y: "y \<in> seen s2 - seen s0 - {v}"
    have "ap ! y \<longleftrightarrow> cut_vertex ud y" using apx[of y] d(7)[of y] l(7)[of y] d(11)[of y] y by (cases "y \<in> seen s") auto
    moreover have "\<exists>w \<in> insert u Q \<inter> (seen s2 - seen s0 - {v}). (y, w) \<in> (avoiding ud v)\<^sup>*"
      using l(8)[of y] called_conn[OF ca, of y] y u d(2) by (cases "y \<in> seen s") blast+
    ultimately show "ar_disc s2 ! v < ar_disc s2 ! y \<and> (ap ! y \<longleftrightarrow> cut_vertex ud y) \<and>
      (\<exists>w \<in> insert u Q \<inter> (seen s2 - seen s0 - {v}). (y, w) \<in> (avoiding ud v)\<^sup>*)"
      using disc(1)[OF y] disc(2) by simp
  qed
  have mark: "if P = {} then root_mark ud v s0 (insert u Q) (c + 1) ?s else inner_mark ud v s0 (insert u Q) ?s"
  proof (cases "P = {}")
    case True
    then show ?thesis using called_root[OF ca[unfolded True], of ?s] apv by simp
  next
    case False
    have "ap ! v \<longleftrightarrow> ar_ap s ! v \<or> (u, nat (ar_parent s0 ! v)) \<notin> (avoiding ud v)\<^sup>*"
      unfolding apv disc(2) called_bound[OF ca False] using False d(7)[OF v(1)] by simp
    then show ?thesis using l(11)[OF False] False by (auto simp: inner_mark_def)
  qed
  have "?low ! v = min (ar_low s2 ! v) (ar_low s2 ! u)" using ok(2) e(2) by simp
  then have "loop_inv ud v P s0 (insert u Q) (c + 1) ?s"
    unfolding loop_inv_def using ext reg cl inside mark[folded Suc_eq_plus1] called_low[OF ca] uv u subset_trans[OF l(5) d(2)] l(4)
    by (simp add: finished_closed_def)
  then show ?thesis by (simp add: ap_def)
qed

section \<open>The whole search\<close>

text \<open>\<open>dfs\<close> returns if the fuel covers the nodes that have not been seen.\<close>

lemma unseen_less:
  assumes "seen s \<subseteq> seen s'" "v \<in> seen s'" "v \<notin> seen s" "v < n"
  shows "card ({..<n} - seen s') < card ({..<n} - seen s)"
  by (rule psubset_card_mono) (use assms in auto)

lemma loop_correct:
  assumes dfs: "\<And>u P s. entry ud u P s \<Longrightarrow> card ({..<n} - seen s) \<le> f \<Longrightarrow>
      \<exists>s'. art_dfs f ud u s = Some s' \<and> explored ud u s s' \<and> finished_closed ud P s'"
    and e: "entry ud v P s0"
  shows "loop_inv ud v P s0 Q c s \<Longrightarrow> set us \<union> Q = nbrs ud v \<Longrightarrow> card ({..<n} - seen s) \<le> f \<Longrightarrow>
    \<exists>s'. art_loop f ud v us c s = Some s' \<and> explored ud v s0 s' \<and> finished_closed ud P s'"
proof (induction us arbitrary: Q c s)
  case Nil
  then show ?case using loop_end[OF e] by auto
next
  case (Cons u us)
  note inv = Cons.prems(1) and x = extendsD[OF loop_invD(1)[OF Cons.prems(1)]]
  note ok = art_okD[OF x(1)] and v = entryD(2)[OF e]
  have u: "u \<in> nbrs ud v" "u < n" using Cons.prems(2) nbrs_facts(2)[OF v] by auto
  have Q: "set us \<union> insert u Q = nbrs ud v" using Cons.prems(2) by auto
  show ?case
  proof (cases "u \<in> seen s")
    case True
    let ?s = "s\<lparr>ar_low :=
      (if int u \<noteq> ar_parent s ! v then (ar_low s)[v := min (ar_low s ! v) (ar_disc s ! u)] else ar_low s)\<rparr>"
    have "art_loop f ud v (u # us) c s = art_loop f ud v us c ?s"
      using True u(2) v ok(1,2,3) ok(8)[OF u(2)] by simp
    then show ?thesis using Cons.IH[OF loop_old[OF e inv u(1) True] Q] Cons.prems(3) by simp
  next
    case False
    note en = loop_entry[OF e inv u(1) False]
    obtain s2 where s2: "art_dfs f ud u (s\<lparr>ar_parent := (ar_parent s)[u := int v]\<rparr>) = Some s2"
      "explored ud u (s\<lparr>ar_parent := (ar_parent s)[u := int v]\<rparr>) s2" "finished_closed ud (insert v P) s2"
      using dfs[OF en] Cons.prems(3) by auto
    have ca: "called ud v P s0 Q c s u s2" using e inv u(1) False s2 by (simp add: called_def)
    note d = calledD[OF ca u(2)] and ok2 = art_okD[OF calledD(1)[OF ca u(2)]]
    have par: "ar_parent s2 ! v = - 1 \<longleftrightarrow> P = {}" using d(8)[OF x(3)] x(8) entryD(6,7)[OF e] by fastforce
    let ?s = "s2\<lparr>ar_low := (ar_low s2)[v := min (ar_low s2 ! v) (ar_low s2 ! u)],
       ar_ap := (if P = {} \<and> 0 < c \<or> P \<noteq> {} \<and> ar_low s2 ! u \<ge> ar_disc s2 ! v then (ar_ap s2)[v := True]
         else ar_ap s2)\<rparr>"
    have step: "art_loop f ud v (u # us) c s = art_loop f ud v us (c + 1) ?s"
      using False u(2) v ok(1,2,3) ok(8)[OF u(2)] s2(1) ok2(1-4) par by simp
    have "card ({..<n} - seen s2) \<le> f" using unseen_less[OF d(2), of u] d(3) u(2) Cons.prems(3) by simp
    then show ?thesis unfolding step using Cons.IH[OF loop_new[OF ca] Q] by simp
  qed
qed

lemma art_dfs_correct:
  "entry ud v P s \<Longrightarrow> card ({..<n} - seen s) \<le> f \<Longrightarrow>
    \<exists>s'. art_dfs f ud v s = Some s' \<and> explored ud v s s' \<and> finished_closed ud P s'"
proof (induction f arbitrary: v P s)
  case 0
  then have "v \<in> {..<n} - seen s" using entryD(2,3)[OF 0(1)] by simp
  then show ?case using 0(2) by auto
next
  case (Suc f)
  note e = entryD[OF Suc.prems(1)] and ok = art_okD[OF entryD(1)[OF Suc.prems(1)]]
  let ?t = "ar_time s + 1"
  let ?s = "s\<lparr>ar_time := ?t, ar_disc := (ar_disc s)[v := ?t], ar_low := (ar_low s)[v := ?t]\<rparr>"
  note start = loop_start[OF Suc.prems(1)]
  note x = extendsD[OF loop_invD(1)[OF start]]
  have "card ({..<n} - seen ?s) \<le> f" using unseen_less[OF x(2,3) e(3,2)] Suc.prems(2) by simp
  then have "\<exists>s'. art_loop f ud v (neighbors_of ud (int v)) 0 ?s = Some s' \<and> explored ud v s s' \<and> finished_closed ud P s'"
    using loop_correct[OF Suc.IH Suc.prems(1) start, of "neighbors_of ud (int v)"] by (simp add: nbrs_def)
  then show ?case using e(2) ok(1,2) by simp
qed

lemma search_step:
  assumes ok: "art_ok n s" and cl: "finished_closed ud {} s" and ap: "\<forall>x \<in> seen s. ar_ap s ! x \<longleftrightarrow> cut_vertex ud x"
    and v: "v < n"
  shows "\<exists>s'. art_root ud v s = Some s' \<and> art_ok n s' \<and> finished_closed ud {} s' \<and> insert v (seen s) \<subseteq> seen s' \<and>
    (\<forall>x \<in> seen s'. ar_ap s' ! x \<longleftrightarrow> cut_vertex ud x)"
proof (cases "v \<in> seen s")
  case True
  then show ?thesis using art_okD(1)[OF ok] art_okD(8)[OF ok v] assms by (simp add: art_root_def)
next
  case False
  let ?s = "s\<lparr>ar_parent := (ar_parent s)[v := - 1]\<rparr>"
  have e: "entry ud v {} ?s"
    using ok cl v False art_okD(3)[OF ok] by (simp add: entry_def art_ok_def finished_closed_def)
  have "card ({..<n} - seen ?s) \<le> card {..<n}" by (rule card_mono) auto
  then obtain s' where s': "art_dfs n ud v ?s = Some s'" "explored ud v ?s s'" "finished_closed ud {} s'"
    using art_dfs_correct[OF e, of n] by auto
  have x: "extends n v ?s s'" and new: "x \<in> seen s' - seen s \<Longrightarrow> ar_ap s' ! x \<longleftrightarrow> cut_vertex ud x" for x
    using s'(2) by (auto simp: explored_def)
  have "ar_ap s' ! x \<longleftrightarrow> cut_vertex ud x" if "x \<in> seen s'" for x
    using that new[of x] extendsD(7)[OF x, of x] ap by (cases "x \<in> seen s") auto
  moreover have "art_root ud v s = Some s'"
    using False art_okD(1,3)[OF ok] art_okD(8)[OF ok v] v s'(1) by (simp add: art_root_def)
  ultimately show ?thesis using extendsD(1-3)[OF x] s'(3) by auto
qed

text \<open>The search never panics, its fuel suffices, and it marks exactly the cut vertices.\<close>

lemma articulation_correct:
  "\<exists>out. find_articulation_points ud = Some out \<and>
     (\<forall>x. mget out x = (if x < n \<and> cut_vertex ud x then Some True else None))"
proof (cases "n = 0")
  case True
  then show ?thesis by (simp add: find_articulation_points_def)
next
  case False
  have len: "length (ud_neighbors ud) = n" using ok False by (auto simp: undirected_ok_def Let_def)
  let ?P = "\<lambda>i s. art_ok n s \<and> finished_closed ud {} s \<and> {..<i} \<subseteq> seen s \<and>
    (\<forall>x \<in> seen s. ar_ap s ! x \<longleftrightarrow> cut_vertex ud x)"
  have "\<exists>s. run (art_root ud) (ud_nodes ud) (art_start ud) = Some s \<and> ?P (length (ud_nodes ud)) s"
  proof (rule run_invariant[where P = ?P])
    show "?P 0 (art_start ud)" by (auto simp: art_start_def art_ok_def seen_def finished_closed_def len Let_def)
  next
    fix i s assume i: "i < n" and P: "?P i s"
    have at: "ud_nodes ud ! i = i" using i by (subst nodes) simp
    show "\<exists>s'. art_root ud (ud_nodes ud ! i) s = Some s' \<and> ?P (Suc i) s'"
      unfolding at using search_step[of s i] P i by (auto simp: lessThan_Suc)
  qed
  then obtain s where s: "run (art_root ud) (ud_nodes ud) (art_start ud) = Some s" "?P n s" by blast
  note aok = art_okD[OF conjunct1[OF s(2)]]
  let ?f = "\<lambda>v (out :: (nat, bool) gomap). do { b \<leftarrow> slot (ar_ap s) v; Some (if b then mput v True out else out) }"
  let ?Q = "\<lambda>i out. \<forall>x. mget out x = (if x < i \<and> cut_vertex ud x then Some True else None)"
  have "\<exists>out. run ?f (ud_nodes ud) [] = Some out \<and> ?Q (length (ud_nodes ud)) out"
  proof (rule run_invariant[where P = ?Q])
    fix i and out :: "(nat, bool) gomap" assume i: "i < n" and Q: "?Q i out"
    have at: "ud_nodes ud ! i = i" using i by (subst nodes) simp
    have "ar_ap s ! i \<longleftrightarrow> cut_vertex ud i" using s(2) i by auto
    then show "\<exists>out'. ?f (ud_nodes ud ! i) out = Some out' \<and> ?Q (Suc i) out'"
      unfolding at using Q i aok(4) by (auto simp: less_Suc_eq)
  qed simp
  then show ?thesis using s(1) False by (auto simp: find_articulation_points_def)
qed

end

end
