(* ===== verification/Bv_Core_Articulation.thy ===== *)
theory Bv_Core_Articulation
  imports Bv_Kcore Bv_Articulation
begin

text \<open>
  \<open>computeCoreAndArticulation\<close> of \<open>pkg/analysis/graph.go\<close> on the analyzer: core numbers and articulation
  points by issue id. The two properties state them over the blocking dependencies of the tracker, read
  as an undirected graph on the ids, and so do not mention node numbers.

  The orders in which Go ranges over the two maps are arguments.
\<close>

definition core_by_id :: "analyzer \<Rightarrow> (nat, nat) gomap \<Rightarrow> nat list \<Rightarrow> (string, nat) gomap" where
  "core_by_id a core order = fold (\<lambda>i m. case mget core i of None \<Rightarrow> m
     | Some d \<Rightarrow> mput (mget_or [] (an_node_to_id a) i) d m) order []"

definition art_by_id :: "analyzer \<Rightarrow> nat list \<Rightarrow> (string, bool) gomap" where
  "art_by_id a order = fold (\<lambda>i m. mput (mget_or [] (an_node_to_id a) i) True m) order []"

definition compute_core_and_articulation ::
  "analyzer \<Rightarrow> nat list \<Rightarrow> nat list \<Rightarrow> ((string, nat) gomap \<times> (string, bool) gomap) option" where
  "compute_core_and_articulation a core_order art_order = (let ud = new_undirected (an_graph a) in do {
     core \<leftarrow> compute_kcore ud;
     art \<leftarrow> find_articulation_points ud;
     Some (core_by_id a core core_order, art_by_id a art_order) })"

section \<open>The dependency graph on ids\<close>

definition linked :: "(string, issue) gomap \<Rightarrow> (string \<times> string) set" where
  "linked m = {(x, y). x \<noteq> y \<and> (depends_on m x y \<or> depends_on m y x)}"

text \<open>\<open>x\<close> lies in a set of issues each of which is linked to \<open>k\<close> others in the set.\<close>

definition core_member :: "(string, issue) gomap \<Rightarrow> nat \<Rightarrow> string \<Rightarrow> bool" where
  "core_member m k x \<longleftrightarrow>
     (\<exists>S \<subseteq> set (mkeys m). x \<in> S \<and> (\<forall>y \<in> S. k \<le> card {z \<in> S. (y, z) \<in> linked m}))"

text \<open>Two other issues are linked by dependencies, but not without \<open>x\<close>.\<close>

definition separates :: "(string, issue) gomap \<Rightarrow> string \<Rightarrow> bool" where
  "separates m x \<longleftrightarrow> (\<exists>a b. a \<noteq> x \<and> b \<noteq> x \<and> (a, b) \<in> (linked m)\<^sup>* \<and>
     (a, b) \<notin> (linked m \<inter> (- {x}) \<times> (- {x}))\<^sup>*)"

section \<open>From node numbers to ids\<close>

lemma rtrancl_image:
  assumes inj: "inj_on f A" and R: "R \<subseteq> A \<times> A" and xy: "x \<in> A" "y \<in> A"
  shows "(f x, f y) \<in> (map_prod f f ` R)\<^sup>* \<longleftrightarrow> (x, y) \<in> R\<^sup>*"
proof
  assume "(x, y) \<in> R\<^sup>*"
  then show "(f x, f y) \<in> (map_prod f f ` R)\<^sup>*"
    by (induction rule: rtrancl_induct) (auto intro: rtrancl.rtrancl_into_rtrancl)
next
  have "\<exists>z \<in> A. w = f z \<and> (x, z) \<in> R\<^sup>*" if "(f x, w) \<in> (map_prod f f ` R)\<^sup>*" for w
    using that
  proof (induction rule: rtrancl_induct)
    case (step w w')
    then obtain z where z: "z \<in> A" "w = f z" "(x, z) \<in> R\<^sup>*" by blast
    obtain a b where ab: "(a, b) \<in> R" "w = f a" "w' = f b" using step.hyps(2) by auto
    have "a = z" using inj z(1,2) ab(1,2) R by (auto simp: inj_on_def)
    then show ?case using z(3) ab R by (auto intro: rtrancl.rtrancl_into_rtrancl)
  qed (use xy in auto)
  moreover assume "(f x, f y) \<in> (map_prod f f ` R)\<^sup>*"
  ultimately obtain z where "z \<in> A" "f y = f z" "(x, z) \<in> R\<^sup>*" by blast
  then show "(x, y) \<in> R\<^sup>*" using inj xy(2) by (auto simp: inj_on_def)
qed

abbreviation view_of :: "issue list \<Rightarrow> time \<Rightarrow> undirected" where
  "view_of issues now \<equiv> new_undirected (an_graph (new_analyzer issues now))"

lemma view_size [simp]: "length (ud_nodes (view_of issues now)) = length (node_ids issues)"
  using new_undirected_view[OF analyzer_graph_ok[of issues now]] by (simp add: analyzer_nodes)

lemma node_ids_inj: "inj_on ((!) (node_ids issues)) {..<length (node_ids issues)}"
  by (rule inj_on_nth) auto

lemma ids_eq:
  "u < length (node_ids issues) \<Longrightarrow> v < length (node_ids issues) \<Longrightarrow> node_ids issues ! u = node_ids issues ! v \<longleftrightarrow> u = v"
  by (rule nth_eq_iff_index_eq) simp_all

lemma view_nbrs:
  assumes "u < length (node_ids issues)"
  shows "v \<in> nbrs (view_of issues now) u \<longleftrightarrow> v < length (node_ids issues) \<and>
    (node_ids issues ! u, node_ids issues ! v) \<in> linked (issue_map_of issues)"
proof -
  have "nbrs (view_of issues now) u = {v. u \<noteq> v \<and> ((u, v) \<in> edges (an_graph (new_analyzer issues now)) \<or>
      (v, u) \<in> edges (an_graph (new_analyzer issues now)))}"
    using assms by (intro new_undirected_nbrs) (simp_all add: analyzer_nodes)
  then show ?thesis using assms ids_eq[OF assms, of v] unfolding analyzer_edges linked_def by blast
qed

lemma linked_ids:
  assumes "(x, y) \<in> linked (issue_map_of issues)"
  shows "x \<in> set (node_ids issues)" "y \<in> set (node_ids issues)"
proof -
  have "z \<in> set (node_ids issues)" if "mget (issue_map_of issues) z \<noteq> None" for z
    using that by (auto simp: mkeys_ex)
  then show "x \<in> set (node_ids issues)" "y \<in> set (node_ids issues)"
    using assms by (auto simp: linked_def depends_on_def)
qed

lemma view_adj: "map_prod ((!) (node_ids issues)) ((!) (node_ids issues)) ` adj (view_of issues now) = linked (issue_map_of issues)"
proof
  show "map_prod ((!) (node_ids issues)) ((!) (node_ids issues)) ` adj (view_of issues now) \<subseteq> linked (issue_map_of issues)"
    by (auto simp: adj_def view_nbrs)
  show "linked (issue_map_of issues) \<subseteq> map_prod ((!) (node_ids issues)) ((!) (node_ids issues)) ` adj (view_of issues now)"
  proof
    fix e assume e: "e \<in> linked (issue_map_of issues)"
    obtain x y where xy: "e = (x, y)" by (cases e)
    obtain u v where "u < length (node_ids issues)" "node_ids issues ! u = x"
      "v < length (node_ids issues)" "node_ids issues ! v = y"
      using linked_ids[of x y issues] e xy by (metis in_set_conv_nth)
    then show "e \<in> map_prod ((!) (node_ids issues)) ((!) (node_ids issues)) ` adj (view_of issues now)"
      using e xy by (intro image_eqI[of _ _ "(u, v)"]) (auto simp: adj_def view_nbrs)
  qed
qed

lemma adj_range: "adj (view_of issues now) \<subseteq> {..<length (node_ids issues)} \<times> {..<length (node_ids issues)}"
  by (auto simp: adj_def view_nbrs)

lemma view_avoiding:
  assumes "u < length (node_ids issues)"
  shows "map_prod ((!) (node_ids issues)) ((!) (node_ids issues)) ` avoiding (view_of issues now) u =
    linked (issue_map_of issues) \<inter> (- {node_ids issues ! u}) \<times> (- {node_ids issues ! u})"
proof -
  have "avoiding (view_of issues now) u =
      {(a, b) \<in> adj (view_of issues now). node_ids issues ! a \<noteq> node_ids issues ! u \<and> node_ids issues ! b \<noteq> node_ids issues ! u}"
    using adj_range[of issues now] assms by (auto simp: avoiding_def within_def ids_eq)
  then show ?thesis by (simp flip: view_adj[of issues now]) force
qed

lemma cut_vertex_separates:
  assumes u: "u < length (node_ids issues)"
  shows "cut_vertex (view_of issues now) u \<longleftrightarrow> separates (issue_map_of issues) (node_ids issues ! u)"
proof -
  let ?ids = "node_ids issues" and ?ud = "view_of issues now" and ?m = "issue_map_of issues"
  have av: "avoiding ?ud u \<subseteq> {..<length ?ids} \<times> {..<length ?ids}"
    using adj_range[of issues now] by (auto simp: avoiding_def within_def)
  have all: "(?ids ! a, ?ids ! b) \<in> (linked ?m)\<^sup>* \<longleftrightarrow> (a, b) \<in> (adj ?ud)\<^sup>*"
    and avoid: "(?ids ! a, ?ids ! b) \<in> (linked ?m \<inter> (- {?ids ! u}) \<times> (- {?ids ! u}))\<^sup>* \<longleftrightarrow> (a, b) \<in> (avoiding ?ud u)\<^sup>*"
    if "a < length ?ids" "b < length ?ids" for a b
    using rtrancl_image[OF node_ids_inj adj_range[of issues now], where x = a and y = b]
      rtrancl_image[OF node_ids_inj av, where x = a and y = b] that
    by (simp_all add: view_adj view_avoiding[OF u])
  show ?thesis
  proof
    assume "cut_vertex ?ud u"
    then obtain a b where ab: "a \<noteq> u" "b \<noteq> u" "(a, b) \<in> (adj ?ud)\<^sup>*" "(a, b) \<notin> (avoiding ?ud u)\<^sup>*"
      unfolding cut_vertex_def by blast
    then have "a \<noteq> b" by auto
    then have "a < length ?ids" "b < length ?ids"
      using ab(3) adj_range[of issues now] by (blast elim: converse_rtranclE rtranclE)+
    then show "separates ?m (?ids ! u)"
      using ab u all avoid unfolding separates_def
      by (intro exI[of _ "?ids ! a"] exI[of _ "?ids ! b"]) (auto simp: ids_eq)
  next
    assume "separates ?m (?ids ! u)"
    then obtain x y where xy: "x \<noteq> ?ids ! u" "y \<noteq> ?ids ! u" "(x, y) \<in> (linked ?m)\<^sup>*"
      "(x, y) \<notin> (linked ?m \<inter> (- {?ids ! u}) \<times> (- {?ids ! u}))\<^sup>*"
      unfolding separates_def by blast
    then have "x \<noteq> y" by auto
    then have "x \<in> set ?ids" "y \<in> set ?ids"
      using xy(3) linked_ids by (blast elim: converse_rtranclE rtranclE)+
    then obtain a b where "a < length ?ids" "?ids ! a = x" "b < length ?ids" "?ids ! b = y"
      by (metis in_set_conv_nth)
    then show "cut_vertex ?ud u"
      using xy all avoid unfolding cut_vertex_def by (intro exI[of _ a] exI[of _ b]) auto
  qed
qed

lemma in_core_member:
  assumes u: "u < length (node_ids issues)"
  shows "in_core (view_of issues now) k u \<longleftrightarrow> core_member (issue_map_of issues) k (node_ids issues ! u)"
proof -
  let ?ids = "node_ids issues" and ?ud = "view_of issues now" and ?m = "issue_map_of issues"
  let ?f = "(!) ?ids" and ?A = "{..<length ?ids}"
  have nodes: "set (ud_nodes ?ud) = ?A" using analysis.set_nodes[of issues now] by simp
  have card: "card (nbrs ?ud y \<inter> S) = card {z \<in> ?f ` S. (?f y, z) \<in> linked ?m}" if "S \<subseteq> ?A" "y \<in> S" for S y
  proof -
    have "{z \<in> ?f ` S. (?f y, z) \<in> linked ?m} = ?f ` (nbrs ?ud y \<inter> S)"
      using that by (auto simp: view_nbrs subset_iff)
    then show ?thesis using card_image[OF inj_on_subset[OF node_ids_inj]] that by (metis Int_lower2 subset_trans)
  qed
  show ?thesis
  proof
    assume "in_core ?ud k u"
    then obtain S where S: "S \<subseteq> ?A" "u \<in> S" "\<forall>y \<in> S. k \<le> card (nbrs ?ud y \<inter> S)" unfolding in_core_def nodes by blast
    then show "core_member ?m k (?ids ! u)"
      unfolding core_member_def by (intro exI[of _ "?f ` S"]) (use card in \<open>auto simp flip: node_ids_facts(3)\<close>)
  next
    assume "core_member ?m k (?ids ! u)"
    then obtain T where T: "T \<subseteq> set ?ids" "?f u \<in> T" "\<forall>y \<in> T. k \<le> card {z \<in> T. (y, z) \<in> linked ?m}"
      unfolding core_member_def by auto
    define S where "S = {i \<in> ?A. ?f i \<in> T}"
    have img: "?f ` S = T"
    proof
      show "T \<subseteq> ?f ` S"
      proof
        fix t assume t: "t \<in> T"
        then obtain i where "i < length ?ids" "?ids ! i = t" using T(1) by (metis in_set_conv_nth subsetD)
        then show "t \<in> ?f ` S" using t by (auto simp: S_def)
      qed
    qed (auto simp: S_def)
    show "in_core ?ud k u"
      unfolding in_core_def nodes
    proof (intro exI[of _ S] conjI ballI)
      fix y assume y: "y \<in> S"
      have "S \<subseteq> ?A" "?f y \<in> T" using y by (auto simp: S_def)
      then show "k \<le> card (nbrs ?ud y \<inter> S)" using card[OF _ y] T(3) img by simp
    qed (use u T(2) in \<open>auto simp: S_def\<close>)
  qed
qed

lemma core_by_id_get:
  assumes "set order \<subseteq> {..<length (node_ids issues)}" "distinct order" "\<forall>i \<in> set order. mget core i = Some (f i)"
    and u: "u < length (node_ids issues)"
  shows "mget (core_by_id (new_analyzer issues now) core order) (node_ids issues ! u) =
    (if u \<in> set order then Some (f u) else None)"
proof -
  have "mget (fold (\<lambda>i m. case mget core i of None \<Rightarrow> m
      | Some d \<Rightarrow> mput (mget_or [] (index_nodes (node_ids issues)) i) d m) order m0) (node_ids issues ! u) =
    (if u \<in> set order then Some (f u) else mget m0 (node_ids issues ! u))" for m0
    using assms(1-3)
    by (induction order arbitrary: m0) (auto simp: mget_or_def index_nodes_get ids_eq u)
  from this[of "[]"] show ?thesis by (simp add: core_by_id_def cong: option.case_cong)
qed

lemma art_by_id_get:
  assumes "set order \<subseteq> {..<length (node_ids issues)}" and u: "u < length (node_ids issues)"
  shows "mget (art_by_id (new_analyzer issues now) order) (node_ids issues ! u) =
    (if u \<in> set order then Some True else None)"
proof -
  have "mget (fold (\<lambda>i m. mput (mget_or [] (index_nodes (node_ids issues)) i) True m) order m0) (node_ids issues ! u) =
    (if u \<in> set order then Some True else mget m0 (node_ids issues ! u))" for m0
    using assms(1)
    by (induction order arbitrary: m0) (auto simp: mget_or_def index_nodes_get ids_eq u)
  from this[of "[]"] show ?thesis by (simp add: art_by_id_def)
qed

section \<open>Properties\<close>

lemma issue_node:
  assumes "x \<in> issue_id ` set issues"
  obtains u where "u < length (node_ids issues)" "node_ids issues ! u = x"
proof -
  have "x \<in> set (node_ids issues)"
    using assms by (auto simp: mkeys_ex issue_map_of_get find_None_iff simp flip: not_None_eq)
  then show ?thesis using that by (metis in_set_conv_nth)
qed

text \<open>A triangle of dependencies with a tail.\<close>

definition demo_kite :: "issue list" where
  "demo_kite = [demo_task ''a'' [], demo_task ''b'' [demo_dep ''a'' DepBlocks],
     demo_task ''c'' [demo_dep ''a'' DepBlocks, demo_dep ''b'' DepBlocks], demo_task ''d'' [demo_dep ''c'' []]]"

text \<open>C12: The core decomposition never indexes out of range, whatever the graph, and gives every issue
  its core number: the largest k for which some set of issues contains it in which each is linked by
  blocking dependencies, in either direction, to k others of the set. The order in which Go ranges over
  the core map makes no difference.\<close>

theorem core_numbers_correct:
  "\<exists>core. compute_kcore (view_of issues now) = Some core \<and>
    (\<forall>core_order art_order. range_order core core_order \<longrightarrow>
      (\<exists>cores arts. compute_core_and_articulation (new_analyzer issues now) core_order art_order = Some (cores, arts) \<and>
        (\<forall>x \<in> issue_id ` set issues. \<exists>c. mget cores x = Some c \<and>
          (\<forall>k. core_member (issue_map_of issues) k x \<longleftrightarrow> k \<le> c))))"
proof -
  obtain core where core: "compute_kcore (view_of issues now) = Some core" "set (mkeys core) = {..<length (node_ids issues)}"
    "\<forall>u < length (node_ids issues). \<exists>c. mget core u = Some c \<and> (\<forall>k. in_core (view_of issues now) k u \<longleftrightarrow> k \<le> c)"
    using analysis.kcore_correct[of issues now] by auto
  obtain art where art: "find_articulation_points (view_of issues now) = Some art"
    using analysis.articulation_correct[of issues now] by blast
  show ?thesis
  proof (intro exI[of _ core] conjI allI impI ballI)
    fix ks ao assume ks: "range_order core ks"
    show "\<exists>cores arts. compute_core_and_articulation (new_analyzer issues now) ks ao = Some (cores, arts) \<and>
        (\<forall>x \<in> issue_id ` set issues. \<exists>c. mget cores x = Some c \<and> (\<forall>k. core_member (issue_map_of issues) k x \<longleftrightarrow> k \<le> c))"
    proof (rule exI, rule exI, rule conjI[OF _ ballI])
      show "compute_core_and_articulation (new_analyzer issues now) ks ao =
          Some (core_by_id (new_analyzer issues now) core ks, art_by_id (new_analyzer issues now) ao)"
        using core(1) art by (simp add: compute_core_and_articulation_def)
      fix x assume "x \<in> issue_id ` set issues"
      then obtain u where u: "u < length (node_ids issues)" "node_ids issues ! u = x" by (rule issue_node)
      have order: "set ks = {..<length (node_ids issues)}" "distinct ks" using ks core(2) by (simp_all add: range_order_def)
      have some: "\<forall>i \<in> set ks. mget core i = Some (the (mget core i))" using order(1) core(3) by fastforce
      have "mget (core_by_id (new_analyzer issues now) core ks) x = mget core u"
        using core_by_id_get[OF _ order(2) some u(1)] some order(1) u by simp
      then show "\<exists>c. mget (core_by_id (new_analyzer issues now) core ks) x = Some c \<and>
          (\<forall>k. core_member (issue_map_of issues) k x \<longleftrightarrow> k \<le> c)"
        using core(3)[rule_format, OF u(1)] in_core_member[OF u(1), of now] u(2) by simp
    qed
  qed (rule core(1))
qed

lemma core_numbers_correct_witness:
  "core_member (issue_map_of demo_kite) 2 ''a'' \<and> \<not> core_member (issue_map_of demo_kite) 2 ''d''"
proof -
  have core: "compute_kcore (view_of demo_kite 0) = Some [(0, 2), (1, 2), (2, 2), (3, 1)]" by code_simp
  have eval: "compute_core_and_articulation (new_analyzer demo_kite 0) [3, 0, 2, 1] [2] =
      Some ([(''d'', 1), (''a'', 2), (''c'', 2), (''b'', 2)], [(''c'', True)])" by code_simp
  have "range_order [(0 :: nat, 2 :: nat), (1, 2), (2, 2), (3, 1)] [3, 0, 2, 1]"
    by (auto simp: range_order_def mkeys_def)
  then have "\<exists>cores arts. compute_core_and_articulation (new_analyzer demo_kite 0) [3, 0, 2, 1] [2] = Some (cores, arts) \<and>
      (\<forall>x \<in> issue_id ` set demo_kite. \<exists>c. mget cores x = Some c \<and>
        (\<forall>k. core_member (issue_map_of demo_kite) k x \<longleftrightarrow> k \<le> c))"
    using core_numbers_correct[of demo_kite 0] unfolding core by blast
  then have all: "\<exists>c. mget [(''d'', 1), (''a'', 2), (''c'', 2), (''b'', 2)] x = Some (c :: nat) \<and>
      (\<forall>k. core_member (issue_map_of demo_kite) k x \<longleftrightarrow> k \<le> c)" if "x \<in> issue_id ` set demo_kite" for x
    using that unfolding eval by blast
  have "''a'' \<in> issue_id ` set demo_kite" "''d'' \<in> issue_id ` set demo_kite"
    by (simp_all add: demo_kite_def demo_task_def)
  from this[THEN all] show ?thesis by (simp add: mget_def)
qed

text \<open>C13: The search for articulation points ends, never indexes out of range, and marks exactly the
  issues whose removal disconnects two others that dependencies link, for every order in which Go ranges
  over the result.\<close>

theorem articulation_points_correct:
  "\<exists>art. find_articulation_points (view_of issues now) = Some art \<and>
    (\<forall>core_order art_order. range_order art art_order \<longrightarrow>
      (\<exists>cores arts. compute_core_and_articulation (new_analyzer issues now) core_order art_order = Some (cores, arts) \<and>
        (\<forall>x \<in> issue_id ` set issues. mget arts x = (if separates (issue_map_of issues) x then Some True else None))))"
proof -
  obtain core where core: "compute_kcore (view_of issues now) = Some core"
    using analysis.kcore_correct[of issues now] by blast
  obtain art where art: "find_articulation_points (view_of issues now) = Some art"
    "\<forall>u. mget art u = (if u < length (node_ids issues) \<and> cut_vertex (view_of issues now) u then Some True else None)"
    using analysis.articulation_correct[of issues now] by auto
  show ?thesis
  proof (intro exI[of _ art] conjI allI impI ballI)
    fix ks ao assume ao: "range_order art ao"
    have set: "u \<in> set ao \<longleftrightarrow> u < length (node_ids issues) \<and> cut_vertex (view_of issues now) u" for u
      using range_order_set[OF ao, of u] art(2) by auto
    show "\<exists>cores arts. compute_core_and_articulation (new_analyzer issues now) ks ao = Some (cores, arts) \<and>
        (\<forall>x \<in> issue_id ` set issues. mget arts x = (if separates (issue_map_of issues) x then Some True else None))"
    proof (intro exI conjI ballI)
      show "compute_core_and_articulation (new_analyzer issues now) ks ao =
          Some (core_by_id (new_analyzer issues now) core ks, art_by_id (new_analyzer issues now) ao)"
        using core art(1) by (simp add: compute_core_and_articulation_def)
      fix x assume "x \<in> issue_id ` set issues"
      then obtain u where u: "u < length (node_ids issues)" "node_ids issues ! u = x" by (rule issue_node)
      then show "mget (art_by_id (new_analyzer issues now) ao) x =
          (if separates (issue_map_of issues) x then Some True else None)"
        using art_by_id_get[OF _ u(1), of ao now] set cut_vertex_separates[OF u(1), of now] by (simp add: subset_iff)
    qed
  qed (rule art(1))
qed

lemma articulation_points_correct_witness:
  "separates (issue_map_of demo_kite) ''c'' \<and> \<not> separates (issue_map_of demo_kite) ''a''"
proof -
  have art: "find_articulation_points (view_of demo_kite 0) = Some [(2, True)]" by code_simp
  have eval: "compute_core_and_articulation (new_analyzer demo_kite 0) [3, 0, 2, 1] [2] =
      Some ([(''d'', 1), (''a'', 2), (''c'', 2), (''b'', 2)], [(''c'', True)])" by code_simp
  have "range_order [(2 :: nat, True)] [2]" by (simp add: range_order_def mkeys_def)
  then have "\<exists>cores arts. compute_core_and_articulation (new_analyzer demo_kite 0) [3, 0, 2, 1] [2] = Some (cores, arts) \<and>
      (\<forall>x \<in> issue_id ` set demo_kite. mget arts x = (if separates (issue_map_of demo_kite) x then Some True else None))"
    using articulation_points_correct[of demo_kite 0] unfolding art by blast
  then have all: "mget [(''c'', True)] x = (if separates (issue_map_of demo_kite) x then Some True else None)"
    if "x \<in> issue_id ` set demo_kite" for x
    using that unfolding eval by blast
  have "''a'' \<in> issue_id ` set demo_kite" "''c'' \<in> issue_id ` set demo_kite"
    by (simp_all add: demo_kite_def demo_task_def)
  from this[THEN all] show ?thesis by (simp add: mget_def split: if_splits)
qed

end
