(* ===== verification/Bv_Triage_Context.thy ===== *)
theory Bv_Triage_Context
  imports Bv_Analyzer_Props
begin

text \<open>
  \<open>TriageContext\<close> of \<open>pkg/analysis/triage_context.go\<close>: lazily computed caches over an analyzer, with
  \<open>buildUnblocksMap\<close> of \<open>triage.go\<close>. Every method takes the context and returns its result with
  the context it leaves behind. A method holds the mutex for its whole body, so one call is one step.

  \<open>computeBlockerDepthInternal\<close> recurses over open blockers; it has fuel here, since it stops only
  because the readiness index is finite. \<open>None\<close> means that the fuel ran out; the lemmas show that
  the fuel that \<open>blocker_depth\<close> gives is enough in every context with consistent caches.
\<close>

record triage_ctx =
  tc_analyzer :: analyzer
  tc_actionable :: "issue list"
  tc_actionable_set :: "(string, bool) gomap"
  tc_actionable_computed :: bool
  tc_blocker_depth :: "(string, int) gomap"
  tc_open_blockers :: "(string, string list) gomap"
  tc_unblocks :: "(string, string list) gomap"
  tc_unblocks_computed :: bool

definition new_triage_context :: "analyzer \<Rightarrow> triage_ctx" where
  "new_triage_context a =
     \<lparr>tc_analyzer = a, tc_actionable = [], tc_actionable_set = [], tc_actionable_computed = False,
      tc_blocker_depth = [], tc_open_blockers = [], tc_unblocks = [], tc_unblocks_computed = False\<rparr>"

definition ensure_actionable :: "triage_ctx \<Rightarrow> triage_ctx" where
  "ensure_actionable ctx =
     (if tc_actionable_computed ctx then ctx
      else (let act = get_actionable_issues (tc_analyzer ctx)
            in ctx\<lparr>tc_actionable := act,
                   tc_actionable_set := fold (\<lambda>i m. mput (issue_id i) True m) act [],
                   tc_actionable_computed := True\<rparr>))"

definition ctx_actionable_issues :: "triage_ctx \<Rightarrow> issue list \<times> triage_ctx" where
  "ctx_actionable_issues ctx = (let ctx = ensure_actionable ctx in (tc_actionable ctx, ctx))"

definition ctx_is_actionable :: "triage_ctx \<Rightarrow> string \<Rightarrow> bool \<times> triage_ctx" where
  "ctx_is_actionable ctx iid =
     (let ctx = ensure_actionable ctx in (mget_or False (tc_actionable_set ctx) iid, ctx))"

definition ctx_actionable_count :: "triage_ctx \<Rightarrow> nat \<times> triage_ctx" where
  "ctx_actionable_count ctx = (let (l, ctx) = ctx_actionable_issues ctx in (length l, ctx))"

definition open_blockers :: "triage_ctx \<Rightarrow> string \<Rightarrow> string list \<times> triage_ctx" where
  "open_blockers ctx iid =
     (case mget (tc_open_blockers ctx) iid of
        Some bs \<Rightarrow> (bs, ctx)
      | None \<Rightarrow> (let bs = blockers (readiness (tc_analyzer ctx)) iid
                 in (bs, ctx\<lparr>tc_open_blockers := mput iid bs (tc_open_blockers ctx)\<rparr>)))"

section \<open>Blocker depth\<close>

definition put_depth :: "string \<Rightarrow> int \<Rightarrow> triage_ctx \<Rightarrow> triage_ctx" where
  "put_depth iid d ctx = ctx\<lparr>tc_blocker_depth := mput iid d (tc_blocker_depth ctx)\<rparr>"

text \<open>
  \<open>visiting\<close> holds the ids on the current path: \<open>visiting[id] = true\<close> with the deferred reset is the
  argument \<open>iid # visiting\<close> of the inner calls. \<open>depth_loop\<close> is the loop over the blockers of \<open>iid\<close>,
  with its early return on -1.
\<close>

fun compute_depth :: "nat \<Rightarrow> triage_ctx \<Rightarrow> string list \<Rightarrow> string \<Rightarrow> (int \<times> triage_ctx) option"
  and depth_loop :: "nat \<Rightarrow> triage_ctx \<Rightarrow> string list \<Rightarrow> string \<Rightarrow> string list \<Rightarrow> int \<Rightarrow>
                     (int \<times> triage_ctx) option" where
  "compute_depth 0 ctx visiting iid = None"
| "compute_depth (Suc n) ctx visiting iid =
     (case mget (tc_blocker_depth ctx) iid of
        Some d \<Rightarrow> Some (d, ctx)
      | None \<Rightarrow>
        if iid \<in> set visiting then Some (-1, ctx)
        else (case open_blockers ctx iid of (bs, ctx') \<Rightarrow>
          if bs = [] then Some (0, put_depth iid 0 ctx')
          else depth_loop n ctx' (iid # visiting) iid bs 0))"
| "depth_loop n ctx visiting iid [] mx = Some (mx, put_depth iid mx ctx)"
| "depth_loop n ctx visiting iid (b # bs) mx =
     (case compute_depth n ctx visiting b of
        None \<Rightarrow> None
      | Some (d, ctx') \<Rightarrow>
        if d = -1 then Some (-1, put_depth iid (-1) ctx')
        else depth_loop n ctx' visiting iid bs (if d + 1 > mx then d + 1 else mx))"

definition depth_fuel :: "triage_ctx \<Rightarrow> nat" where
  "depth_fuel ctx = length (rx_issues (readiness (tc_analyzer ctx))) + 1"

definition blocker_depth :: "triage_ctx \<Rightarrow> string \<Rightarrow> (int \<times> triage_ctx) option" where
  "blocker_depth ctx iid =
     (case mget (tc_blocker_depth ctx) iid of
        Some d \<Rightarrow> Some (d, ctx)
      | None \<Rightarrow> map_option (\<lambda>(d, ctx'). (d, put_depth iid d ctx')) (compute_depth (depth_fuel ctx) ctx [] iid))"

text \<open>The loop of \<open>AllBlockerDepths\<close> over the issue map, in any order \<open>ord\<close>; it returns the cache.\<close>

fun all_depths_loop :: "string list \<Rightarrow> triage_ctx \<Rightarrow> triage_ctx option" where
  "all_depths_loop [] ctx = Some ctx"
| "all_depths_loop (iid # ord) ctx =
     (case mget (tc_blocker_depth ctx) iid of
        Some d \<Rightarrow> all_depths_loop ord ctx
      | None \<Rightarrow> (case compute_depth (depth_fuel ctx) ctx [] iid of
                   None \<Rightarrow> None | Some (d, ctx') \<Rightarrow> all_depths_loop ord ctx'))"

definition all_blocker_depths :: "string list \<Rightarrow> triage_ctx \<Rightarrow> ((string, int) gomap \<times> triage_ctx) option" where
  "all_blocker_depths ord ctx = map_option (\<lambda>ctx'. (tc_blocker_depth ctx', ctx')) (all_depths_loop ord ctx)"

section \<open>Unblocks\<close>

text \<open>One iteration of \<open>buildUnblocksMap\<close> over the issue map.\<close>

definition unblock_issue ::
  "string \<Rightarrow> (string, string list) gomap \<times> triage_ctx \<Rightarrow> (string, string list) gomap \<times> triage_ctx" where
  "unblock_issue k = (\<lambda>(um, ctx).
     case mget (an_issue_map (tc_analyzer ctx)) k of None \<Rightarrow> (um, ctx) | Some i \<Rightarrow>
     if is_closed_like_status (status i) \<or> is_deferred_at i (an_now (tc_analyzer ctx)) then (um, ctx)
     else
       (let um = (if mget um (issue_id i) = None then mput (issue_id i) [] um else um);
            (obs, ctx) = open_blockers ctx (issue_id i)
        in (case obs of
              [b] \<Rightarrow> if is_actionable_after_completions (tc_analyzer ctx) (issue_id i) [b]
                     then (mput b (mget_or [] um b @ [issue_id i]) um, ctx)
                     else (um, ctx)
            | _ \<Rightarrow> (um, ctx))))"

definition build_unblocks_map ::
  "string list \<Rightarrow> triage_ctx \<Rightarrow> (string, string list) gomap \<times> triage_ctx" where
  "build_unblocks_map ord ctx =
     (let (um, ctx) = fold unblock_issue ord ([], ctx)
      in (map (\<lambda>(k, l). (k, sort l)) um, ctx))"

definition unblocks_map ::
  "string list \<Rightarrow> triage_ctx \<Rightarrow> (string, string list) gomap \<times> triage_ctx" where
  "unblocks_map ord ctx =
     (if tc_unblocks_computed ctx then (tc_unblocks ctx, ctx)
      else (let (um, ctx) = build_unblocks_map ord ctx
            in (um, ctx\<lparr>tc_unblocks := um, tc_unblocks_computed := True\<rparr>)))"

definition unblocks :: "string list \<Rightarrow> triage_ctx \<Rightarrow> string \<Rightarrow> string list \<times> triage_ctx" where
  "unblocks ord ctx iid = (let (um, ctx) = unblocks_map ord ctx in (mget_or [] um iid, ctx))"

definition unblocks_count :: "string list \<Rightarrow> triage_ctx \<Rightarrow> string \<Rightarrow> nat \<times> triage_ctx" where
  "unblocks_count ord ctx iid = (let (l, ctx) = unblocks ord ctx iid in (length l, ctx))"

definition reset_context :: "triage_ctx \<Rightarrow> triage_ctx" where
  "reset_context ctx = ctx\<lparr>tc_actionable := [], tc_actionable_set := [], tc_actionable_computed := False,
     tc_blocker_depth := [], tc_open_blockers := [], tc_unblocks := [], tc_unblocks_computed := False\<rparr>"

section \<open>Consistent caches\<close>

abbreviation ctx_blockers :: "triage_ctx \<Rightarrow> string \<Rightarrow> string list" where
  "ctx_blockers ctx \<equiv> blockers (readiness (tc_analyzer ctx))"

text \<open>The graph of open blockers, and the depth it gives to an id.\<close>

definition blocker_rel :: "(string \<Rightarrow> string list) \<Rightarrow> (string \<times> string) set" where
  "blocker_rel B = {(x, y). y \<in> set (B x)}"

definition reaches_cycle :: "(string \<Rightarrow> string list) \<Rightarrow> string \<Rightarrow> bool" where
  "reaches_cycle B x \<longleftrightarrow> (\<exists>y. (x, y) \<in> (blocker_rel B)\<^sup>* \<and> (y, y) \<in> (blocker_rel B)\<^sup>+)"

definition chain_depth :: "(string \<Rightarrow> string list) \<Rightarrow> string \<Rightarrow> int \<Rightarrow> bool" where
  "chain_depth B x d \<longleftrightarrow>
     (if reaches_cycle B x then d = -1
      else 0 \<le> d \<and> (\<exists>y. (x, y) \<in> blocker_rel B ^^ nat d) \<and> (\<forall>y. (x, y) \<notin> blocker_rel B ^^ Suc (nat d)))"

definition ctx_ok :: "triage_ctx \<Rightarrow> bool" where
  "ctx_ok ctx \<longleftrightarrow>
     (\<forall>x bs. mget (tc_open_blockers ctx) x = Some bs \<longrightarrow> bs = ctx_blockers ctx x) \<and>
     (\<forall>x d. mget (tc_blocker_depth ctx) x = Some d \<longrightarrow> chain_depth (ctx_blockers ctx) x d)"

lemma ctx_ok_new [simp, intro]: "ctx_ok (new_triage_context a)"
  by (simp add: ctx_ok_def new_triage_context_def)

lemma open_blockers_ok:
  assumes "ctx_ok ctx" "open_blockers ctx x = (bs, ctx')"
  shows "bs = ctx_blockers ctx x" "ctx_ok ctx'" "tc_analyzer ctx' = tc_analyzer ctx"
    "tc_blocker_depth ctx' = tc_blocker_depth ctx"
  using assms by (auto simp: open_blockers_def ctx_ok_def Let_def split: option.splits if_splits)

lemma put_depth_simps [simp]:
  "tc_analyzer (put_depth x d ctx) = tc_analyzer ctx"
  "tc_open_blockers (put_depth x d ctx) = tc_open_blockers ctx"
  by (simp_all add: put_depth_def)

lemma put_depth_ok: "ctx_ok ctx \<Longrightarrow> chain_depth (ctx_blockers ctx) x d \<Longrightarrow> ctx_ok (put_depth x d ctx)"
  by (auto simp: ctx_ok_def put_depth_def split: if_splits)

lemma blockers_in_source: "blockers r x \<noteq> [] \<Longrightarrow> x \<in> set (mkeys (rx_issues r))"
  by (auto simp: blockers_def mkeys_ex split: option.splits)

lemma relpow_Suc_iff: "(x, y) \<in> R ^^ Suc n \<longleftrightarrow> (\<exists>z. (x, z) \<in> R \<and> (z, y) \<in> R ^^ n)"
proof
  assume "(x, y) \<in> R ^^ Suc n"
  then show "\<exists>z. (x, z) \<in> R \<and> (z, y) \<in> R ^^ n" by (rule relpow_Suc_E2) blast
qed (blast intro: relpow_Suc_I2)

lemma reaches_cycle_step: "reaches_cycle B x \<longleftrightarrow> (\<exists>y \<in> set (B x). reaches_cycle B y)"
proof
  let ?R = "blocker_rel B"
  assume "reaches_cycle B x"
  then obtain y where y: "(x, y) \<in> ?R\<^sup>*" "(y, y) \<in> ?R\<^sup>+" by (auto simp: reaches_cycle_def)
  then have "(x, y) \<in> ?R\<^sup>+" by (metis rtrancl_eq_or_trancl)
  then obtain z where "(x, z) \<in> ?R" "(z, y) \<in> ?R\<^sup>*" by (meson tranclD)
  with y show "\<exists>y \<in> set (B x). reaches_cycle B y" by (auto simp: reaches_cycle_def blocker_rel_def)
next
  assume "\<exists>y \<in> set (B x). reaches_cycle B y"
  then show "reaches_cycle B x"
    by (auto simp: reaches_cycle_def) (metis blocker_rel_def case_prodI converse_rtrancl_into_rtrancl mem_Collect_eq)
qed

lemma chain_depth_cycle: "reaches_cycle B x \<Longrightarrow> chain_depth B x (-1)"
  by (simp add: chain_depth_def)

lemma chain_depth_leaf: "B x = [] \<Longrightarrow> chain_depth B x 0"
proof -
  assume B: "B x = []"
  then have "\<not> reaches_cycle B x" by (subst reaches_cycle_step) simp
  moreover have "(x, y) \<notin> blocker_rel B" for y by (simp add: blocker_rel_def B)
  ultimately show ?thesis by (simp add: chain_depth_def)
qed

lemma relpow_le: "(x, y) \<in> R ^^ n \<Longrightarrow> m \<le> n \<Longrightarrow> \<exists>z. (x, z) \<in> R ^^ m" for R :: "('a \<times> 'a) set"
proof -
  assume "(x, y) \<in> R ^^ n" "m \<le> n"
  then have "(x, y) \<in> R ^^ m O R ^^ (n - m)" by (simp flip: relpow_add)
  then show ?thesis by blast
qed

lemma chain_depth_node:
  assumes "B x \<noteq> []"
    and "\<And>y. y \<in> set (B x) \<Longrightarrow> d y \<noteq> -1 \<and> chain_depth B y (d y)"
    and "mx = Max ((\<lambda>y. d y + 1) ` set (B x))"
  shows "chain_depth B x mx"
proof -
  let ?R = "blocker_rel B"
  have nc: "\<not> reaches_cycle B y" "0 \<le> d y" "\<exists>z. (y, z) \<in> ?R ^^ nat (d y)" "\<forall>z. (y, z) \<notin> ?R ^^ Suc (nat (d y))"
    if "y \<in> set (B x)" for y
    using assms(2)[OF that] by (auto simp: chain_depth_def split: if_splits)
  then have nx: "\<not> reaches_cycle B x" using reaches_cycle_step by blast
  have "mx \<in> (\<lambda>y. d y + 1) ` set (B x)" unfolding assms(3) using assms(1) by (intro Max_in) auto
  then obtain y where y: "y \<in> set (B x)" "mx = d y + 1" by blast
  have le: "d z + 1 \<le> mx" if "z \<in> set (B x)" for z unfolding assms(3) using that by simp
  from y nc[OF y(1)] have "nat mx = Suc (nat (d y))" by simp
  with y nc[OF y(1)] have ex: "\<exists>z. (x, z) \<in> ?R ^^ nat mx"
    by (simp add: relpow_Suc_iff del: relpow.simps) (metis blocker_rel_def case_prodI mem_Collect_eq)
  have "(x, z) \<notin> ?R ^^ Suc (nat mx)" for z
  proof
    assume "(x, z) \<in> ?R ^^ Suc (nat mx)"
    then obtain w where w: "w \<in> set (B x)" "(w, z) \<in> ?R ^^ nat mx"
      unfolding relpow_Suc_iff by (auto simp: blocker_rel_def)
    then have "Suc (nat (d w)) \<le> nat mx" using le[OF w(1)] nc(2)[OF w(1)] by simp
    then show False using relpow_le[OF w(2)] nc(4)[OF w(1)] by blast
  qed
  with nx ex y nc[OF y(1)] show ?thesis by (simp add: chain_depth_def)
qed

section \<open>The depth computation\<close>

text \<open>
  With enough fuel for the issues that are not on the current path, the recursion returns the depth
  of the open-blocker graph and leaves consistent caches, whatever was cached before.
\<close>

lemma card_path_less:
  "finite K \<Longrightarrow> x \<in> K \<Longrightarrow> x \<notin> V \<Longrightarrow> card (K - insert x V) < card (K - V)"
  by (rule psubset_card_mono) auto

lemma chain_depth_unique: "chain_depth B x d \<Longrightarrow> chain_depth B x d' \<Longrightarrow> d = d'"
proof -
  have le: "d' \<le> d" if d: "\<not> reaches_cycle B x" "chain_depth B x d" "chain_depth B x d'" for d d'
  proof (rule ccontr)
    assume "\<not> d' \<le> d"
    then have "Suc (nat d) \<le> nat d'" using d by (auto simp: chain_depth_def)
    moreover obtain y where "(x, y) \<in> blocker_rel B ^^ nat d'"
      using d by (auto simp: chain_depth_def)
    ultimately obtain z where "(x, z) \<in> blocker_rel B ^^ Suc (nat d)" by (meson relpow_le)
    with d show False by (auto simp: chain_depth_def simp del: relpow.simps)
  qed
  assume "chain_depth B x d" "chain_depth B x d'"
  then show "d = d'"
    using le[of d d'] le[of d' d] by (cases "reaches_cycle B x") (auto simp: chain_depth_def)
qed

definition depth_of :: "(string \<Rightarrow> string list) \<Rightarrow> string \<Rightarrow> int" where
  "depth_of B x = (THE d. chain_depth B x d)"

lemma depth_of_eq: "chain_depth B x d \<Longrightarrow> depth_of B x = d"
  unfolding depth_of_def by (rule the_equality) (auto intro: chain_depth_unique)

text \<open>The value of \<open>maxDepth\<close> after the blockers \<open>ys\<close>.\<close>

definition max_depth :: "(string \<Rightarrow> string list) \<Rightarrow> string list \<Rightarrow> int" where
  "max_depth B ys = (if ys = [] then 0 else Max ((\<lambda>y. depth_of B y + 1) ` set ys))"

lemma max_depth_snoc:
  assumes "0 \<le> depth_of B b"
  shows "max_depth B (ys @ [b]) =
    (if depth_of B b + 1 > max_depth B ys then depth_of B b + 1 else max_depth B ys)"
proof (cases "ys = []")
  case True
  with assms show ?thesis by (simp add: max_depth_def)
next
  case False
  then have "Max ((\<lambda>y. depth_of B y + 1) ` set (ys @ [b])) =
      max (depth_of B b + 1) (Max ((\<lambda>y. depth_of B y + 1) ` set ys))"
    by (simp add: Max_insert)
  then have "max_depth B (ys @ [b]) = max (depth_of B b + 1) (max_depth B ys)"
    using False by (simp add: max_depth_def)
  then show ?thesis by (simp add: max_def)
qed

lemma compute_depth_correct:
  "ctx_ok ctx \<Longrightarrow> \<forall>v \<in> set vs. (v, x) \<in> (blocker_rel (ctx_blockers ctx))\<^sup>+ \<Longrightarrow>
   card (set (mkeys (rx_issues (readiness (tc_analyzer ctx)))) - set vs) < n \<Longrightarrow>
   \<exists>d ctx'. compute_depth n ctx vs x = Some (d, ctx') \<and> ctx_ok ctx' \<and>
     tc_analyzer ctx' = tc_analyzer ctx \<and> chain_depth (ctx_blockers ctx) x d"
  "ctx_ok ctx \<Longrightarrow> vs = x # ws \<Longrightarrow> ctx_blockers ctx x = ys @ bs \<Longrightarrow> ys @ bs \<noteq> [] \<Longrightarrow>
   \<forall>v \<in> set ws. (v, x) \<in> (blocker_rel (ctx_blockers ctx))\<^sup>+ \<Longrightarrow>
   card (set (mkeys (rx_issues (readiness (tc_analyzer ctx)))) - set vs) < n \<Longrightarrow>
   \<forall>y \<in> set ys. chain_depth (ctx_blockers ctx) y (depth_of (ctx_blockers ctx) y) \<and>
     depth_of (ctx_blockers ctx) y \<noteq> -1 \<Longrightarrow>
   mx = max_depth (ctx_blockers ctx) ys \<Longrightarrow>
   \<exists>d ctx'. depth_loop n ctx vs x bs mx = Some (d, ctx') \<and> ctx_ok ctx' \<and>
     tc_analyzer ctx' = tc_analyzer ctx \<and> chain_depth (ctx_blockers ctx) x d"
proof (induction n ctx vs x and n ctx vs x bs mx arbitrary: and ws ys rule: compute_depth_depth_loop.induct)
  case (1 ctx vs x)
  then show ?case by simp
next
  case (2 n ctx vs x)
  let ?B = "ctx_blockers ctx"
  show ?case
  proof (cases "mget (tc_blocker_depth ctx) x")
    case (Some d)
    with "2.prems"(1) show ?thesis by (auto simp: ctx_ok_def)
  next
    case None
    show ?thesis
    proof (cases "x \<in> set vs")
      case True
      with "2.prems"(2) have "reaches_cycle ?B x" by (auto simp: reaches_cycle_def)
      with None True "2.prems"(1) show ?thesis by (simp add: chain_depth_cycle)
    next
      case False
      obtain bs ctx1 where o: "open_blockers ctx x = (bs, ctx1)" by force
      note ob = open_blockers_ok[OF "2.prems"(1) o]
      show ?thesis
      proof (cases "bs = []")
        case True
        with o None False ob have "compute_depth (Suc n) ctx vs x = Some (0, put_depth x 0 ctx1)" by simp
        moreover have "chain_depth ?B x 0" using True ob by (simp add: chain_depth_leaf)
        ultimately show ?thesis using ob by (auto intro: put_depth_ok)
      next
        case ne: False
        have "x \<in> set (mkeys (rx_issues (readiness (tc_analyzer ctx))))"
          using ne ob(1) blockers_in_source by blast
        then have "card (set (mkeys (rx_issues (readiness (tc_analyzer ctx)))) - insert x (set vs)) <
            card (set (mkeys (rx_issues (readiness (tc_analyzer ctx)))) - set vs)"
          using False by (intro card_path_less) auto
        then have "card (set (mkeys (rx_issues (readiness (tc_analyzer ctx1)))) - set (x # vs)) < n"
          using "2.prems"(3) unfolding ob(3) list.set(2) by linarith
        then have "\<exists>d ctx'. depth_loop n ctx1 (x # vs) x bs 0 = Some (d, ctx') \<and> ctx_ok ctx' \<and>
            tc_analyzer ctx' = tc_analyzer ctx1 \<and> chain_depth (ctx_blockers ctx1) x d"
        proof (intro "2.IH"[OF None False o[symmetric] ne])
          show "ctx_blockers ctx1 x = [] @ bs" using ob by simp
        qed (use ob ne "2.prems"(2) in \<open>simp_all add: max_depth_def\<close>)
        then show ?thesis using None False o ne ob(3) by simp
      qed
    qed
  qed
next
  case (3 n ctx vs x mx)
  let ?B = "ctx_blockers ctx"
  from "3.prems" have "?B x \<noteq> []" "mx = Max ((\<lambda>y. depth_of ?B y + 1) ` set (?B x))"
    by (simp_all add: max_depth_def)
  then have "chain_depth ?B x mx" using "3.prems" by (intro chain_depth_node) auto
  then show ?case using "3.prems"(1) by (auto intro: put_depth_ok)
next
  case (4 n ctx vs x b bs mx)
  let ?B = "ctx_blockers ctx"
  have b: "b \<in> set (?B x)" using "4.prems"(3) by simp
  then have r: "(x, b) \<in> blocker_rel ?B" by (simp add: blocker_rel_def)
  have "\<forall>v \<in> set vs. (v, b) \<in> (blocker_rel ?B)\<^sup>+"
    using "4.prems"(2,5) r by (auto intro: trancl_into_trancl)
  then obtain d ctx1 where c: "compute_depth n ctx vs b = Some (d, ctx1)" "ctx_ok ctx1"
      "tc_analyzer ctx1 = tc_analyzer ctx" "chain_depth ?B b d"
    using "4.IH"(1)[OF "4.prems"(1)] "4.prems"(6) by blast
  show ?case
  proof (cases "d = -1")
    case True
    then have "reaches_cycle ?B b" using c(4) by (auto simp: chain_depth_def split: if_splits)
    then have "chain_depth ?B x (-1)" using reaches_cycle_step b chain_depth_cycle by blast
    then show ?thesis using c True by (auto intro: put_depth_ok)
  next
    case False
    then have d: "0 \<le> d" "depth_of ?B b = d" using c(4) depth_of_eq by (auto simp: chain_depth_def split: if_splits)
    have "\<exists>e ctx'. depth_loop n ctx1 vs x bs (if d + 1 > mx then d + 1 else mx) = Some (e, ctx') \<and> ctx_ok ctx' \<and>
        tc_analyzer ctx' = tc_analyzer ctx1 \<and> chain_depth (ctx_blockers ctx1) x e"
    proof (rule "4.IH"(2)[OF c(1) refl False c(2) "4.prems"(2)])
      show "ctx_blockers ctx1 x = (ys @ [b]) @ bs" using "4.prems"(3) c(3) by simp
      show "(if d + 1 > mx then d + 1 else mx) = max_depth (ctx_blockers ctx1) (ys @ [b])"
        using max_depth_snoc[of ?B b ys] d c(3) "4.prems"(8) by simp
    qed (use "4.prems" c d False in auto)
    then show ?thesis using c False by simp
  qed
qed

end
