(* ===== verification/Bv_Triage_Props.thy ===== *)
theory Bv_Triage_Props
  imports Bv_Triage_Context
begin

text \<open>
  What the caches of \<open>TriageContext\<close> compute: the blocker depth is the length of the longest chain of
  open blockers, or -1 where a cycle is reachable, whatever was asked before; and the unblocks map
  is the set of issues that a single completion makes actionable.
\<close>

section \<open>Blocker depth\<close>

lemma depth_fuel_enough: "card (set (mkeys (rx_issues (readiness (tc_analyzer ctx)))) - {}) < depth_fuel ctx"
  by (simp add: depth_fuel_def mkeys_def) (metis card_length le_imp_less_Suc length_map set_map)

lemma compute_depth_top:
  assumes "ctx_ok ctx"
  obtains d ctx' where "compute_depth (depth_fuel ctx) ctx [] x = Some (d, ctx')" "ctx_ok ctx'"
    "tc_analyzer ctx' = tc_analyzer ctx" "chain_depth (ctx_blockers ctx) x d"
  using compute_depth_correct(1)[OF assms, of "[]" x "depth_fuel ctx"] depth_fuel_enough by auto

text \<open>C15: In every context with consistent caches, so after any sequence of earlier queries,
  \<open>BlockerDepth\<close> returns: -1 if the issue's open blockers lead into a cycle, and otherwise the length
  of the longest chain of open blockers below it (0 without blockers); and it leaves the caches
  consistent. The depths that an inner call cached, also while a cycle was being explored, are never
  wrong.\<close>

theorem blocker_depth_correct:
  assumes "ctx_ok ctx"
  shows "\<exists>d ctx'. blocker_depth ctx x = Some (d, ctx') \<and> ctx_ok ctx' \<and> tc_analyzer ctx' = tc_analyzer ctx \<and>
    (if reaches_cycle (ctx_blockers ctx) x then d = -1
     else 0 \<le> d \<and> (\<exists>y. (x, y) \<in> blocker_rel (ctx_blockers ctx) ^^ nat d) \<and>
          (\<forall>y n. (x, y) \<in> blocker_rel (ctx_blockers ctx) ^^ n \<longrightarrow> n \<le> nat d))"
proof -
  have longest: "\<forall>y n. (x, y) \<in> R ^^ n \<longrightarrow> n \<le> m" if "\<forall>y. (x, y) \<notin> R ^^ Suc m"
    for R :: "(string \<times> string) set" and m
    using that relpow_le[of x _ _ R "Suc m"] by (metis not_less_eq_eq)
  have "\<exists>d ctx'. blocker_depth ctx x = Some (d, ctx') \<and> ctx_ok ctx' \<and> tc_analyzer ctx' = tc_analyzer ctx \<and>
    chain_depth (ctx_blockers ctx) x d"
  proof (cases "mget (tc_blocker_depth ctx) x")
    case None
    obtain d ctx1 where c: "compute_depth (depth_fuel ctx) ctx [] x = Some (d, ctx1)" "ctx_ok ctx1"
      "tc_analyzer ctx1 = tc_analyzer ctx" "chain_depth (ctx_blockers ctx) x d"
      by (rule compute_depth_top[OF assms])
    then have "blocker_depth ctx x = Some (d, put_depth x d ctx1)" using None by (simp add: blocker_depth_def)
    with c show ?thesis by (auto intro: put_depth_ok)
  qed (use assms in \<open>auto simp: blocker_depth_def ctx_ok_def\<close>)
  then obtain d ctx' where b: "blocker_depth ctx x = Some (d, ctx')" "ctx_ok ctx'"
      "tc_analyzer ctx' = tc_analyzer ctx" "chain_depth (ctx_blockers ctx) x d" by blast
  show ?thesis
    using b longest[where R = "blocker_rel (ctx_blockers ctx)" and m = "nat d"]
    by (intro exI[of _ d] exI[of _ ctx']) (auto simp: chain_depth_def simp del: relpow.simps split: if_splits)
qed

lemma all_depths_loop_correct:
  "ctx_ok ctx \<Longrightarrow> \<exists>ctx'. all_depths_loop ord ctx = Some ctx' \<and> ctx_ok ctx' \<and>
     tc_analyzer ctx' = tc_analyzer ctx"
proof (induction ord arbitrary: ctx)
  case (Cons x ord)
  show ?case
  proof (cases "mget (tc_blocker_depth ctx) x")
    case None
    obtain d ctx1 where c: "compute_depth (depth_fuel ctx) ctx [] x = Some (d, ctx1)" "ctx_ok ctx1"
      "tc_analyzer ctx1 = tc_analyzer ctx" by (rule compute_depth_top[OF Cons.prems])
    then show ?thesis using None Cons.IH[of ctx1] by auto
  qed (use Cons in auto)
qed simp

text \<open>An issue that waits for a cycle without being on it also has depth -1.\<close>

definition demo_cycle :: "issue list" where
  "demo_cycle = [demo_task ''a'' [demo_dep ''b'' DepBlocks], demo_task ''b'' [demo_dep ''a'' DepBlocks],
     demo_task ''c'' [demo_dep ''a'' DepBlocks]]"

lemma demo_cycle_blockers:
  "ctx_blockers (new_triage_context (new_analyzer demo_cycle 0)) ''a'' = [''b'']"
  "ctx_blockers (new_triage_context (new_analyzer demo_cycle 0)) ''b'' = [''a'']"
  "ctx_blockers (new_triage_context (new_analyzer demo_cycle 0)) ''c'' = [''a'']"
  by code_simp+

lemma blocker_depth_correct_witness:
  "\<exists>ctx'. blocker_depth (new_triage_context (new_analyzer demo_cycle 0)) ''c'' = Some (-1, ctx')"
proof -
  let ?c = "new_triage_context (new_analyzer demo_cycle 0)"
  let ?R = "blocker_rel (ctx_blockers ?c)"
  have "(''c'', ''a'') \<in> ?R" "(''a'', ''b'') \<in> ?R" "(''b'', ''a'') \<in> ?R"
    by (simp_all add: blocker_rel_def demo_cycle_blockers)
  then have "(''c'', ''a'') \<in> ?R\<^sup>*" "(''a'', ''a'') \<in> ?R\<^sup>+" by (auto intro: trancl_into_trancl)
  then have "reaches_cycle (ctx_blockers ?c) ''c''" by (auto simp: reaches_cycle_def)
  then show ?thesis using blocker_depth_correct[OF ctx_ok_new, of "new_analyzer demo_cycle 0" "''c''"] by auto
qed

lemma depth_minus_one_off_cycle:
  "(\<exists>ctx'. blocker_depth (new_triage_context (new_analyzer demo_cycle 0)) ''c'' = Some (-1, ctx')) \<and>
   (''c'', ''c'') \<notin> (blocker_rel (ctx_blockers (new_triage_context (new_analyzer demo_cycle 0))))\<^sup>+"
proof
  let ?c = "new_triage_context (new_analyzer demo_cycle 0)"
  let ?R = "blocker_rel (ctx_blockers ?c)"
  have "map_option fst (blocker_depth ?c ''c'') = Some (-1)" by code_simp
  then show "\<exists>ctx'. blocker_depth ?c ''c'' = Some (-1, ctx')" by auto
  have "y \<in> {''a'', ''b''}" if "(''c'', y) \<in> ?R\<^sup>+" for y
    using that by (induction rule: trancl_induct) (auto simp: blocker_rel_def demo_cycle_blockers)
  then show "(''c'', ''c'') \<notin> ?R\<^sup>+" by fastforce
qed

section \<open>The unblocks map\<close>

definition unblocked_by :: "analyzer \<Rightarrow> string \<Rightarrow> string set" where
  "unblocked_by a b = {x. \<exists>i. mget (an_issue_map a) x = Some i \<and> \<not> is_closed_like_status (status i) \<and>
     \<not> is_deferred_at i (an_now a) \<and> blockers (readiness a) x = [b] \<and> is_actionable_after_completions a x [b]}"

lemma unblock_issue_step:
  assumes ok: "ctx_ok ctx" "\<And>k i. mget (an_issue_map (tc_analyzer ctx)) k = Some i \<Longrightarrow> issue_id i = k"
    and r: "unblock_issue k (um, ctx) = (um', ctx')"
  shows "ctx_ok ctx' \<and> tc_analyzer ctx' = tc_analyzer ctx \<and>
    (\<forall>b. mget_or [] um' b = mget_or [] um b @ (if k \<in> unblocked_by (tc_analyzer ctx) b then [k] else []))"
proof (cases "mget (an_issue_map (tc_analyzer ctx)) k")
  case None
  with ok r show ?thesis by (auto simp: unblock_issue_def unblocked_by_def)
next
  case (Some i)
  note idi = ok(2)[OF Some]
  show ?thesis
  proof (cases "is_closed_like_status (status i) \<or> is_deferred_at i (an_now (tc_analyzer ctx))")
    case True
    with Some ok r show ?thesis by (auto simp: unblock_issue_def unblocked_by_def)
  next
    case False
    define um1 where "um1 = (if mget um k = None then mput k [] um else um)"
    have um1: "mget_or [] um1 b = mget_or [] um b" for b
      by (auto simp: um1_def mget_or_def split: option.splits)
    obtain obs c1 where o: "open_blockers ctx k = (obs, c1)" by force
    note ob = open_blockers_ok[OF ok(1) o]
    have st: "unblock_issue k (um, ctx) = (case obs of
              [b] \<Rightarrow> if is_actionable_after_completions (tc_analyzer c1) k [b]
                     then (mput b (mget_or [] um1 b @ [k]) um1, c1) else (um1, c1)
            | _ \<Rightarrow> (um1, c1))"
      using False by (simp add: unblock_issue_def Some o idi Let_def um1_def cong: list.case_cong if_cong)
    have un: "k \<in> unblocked_by (tc_analyzer ctx) b \<longleftrightarrow> obs = [b] \<and>
        is_actionable_after_completions (tc_analyzer ctx) k [b]" for b
      using Some False ob(1) by (auto simp: unblocked_by_def)
    show ?thesis
    proof (cases "\<exists>b. obs = [b] \<and> is_actionable_after_completions (tc_analyzer ctx) k [b]")
      case True
      then obtain b where b: "obs = [b]" "is_actionable_after_completions (tc_analyzer ctx) k [b]" by blast
      with st r ob(3) have "um' = mput b (mget_or [] um1 b @ [k]) um1" "ctx' = c1" by simp_all
      with b ob(2,3) um1 un show ?thesis by auto
    next
      case no: False
      then have "unblock_issue k (um, ctx) = (um1, c1)"
        using st ob(3) by (auto split: list.splits)
      with r have "um' = um1" "ctx' = c1" by simp_all
      with ob(2,3) um1 un no show ?thesis by auto
    qed
  qed
qed

lemma unblock_issues:
  assumes "ctx_ok ctx" "\<And>k i. mget (an_issue_map (tc_analyzer ctx)) k = Some i \<Longrightarrow> issue_id i = k"
    and "fold unblock_issue ord (um, ctx) = (um', ctx')"
  shows "ctx_ok ctx' \<and> tc_analyzer ctx' = tc_analyzer ctx \<and>
    (\<forall>b. mget_or [] um' b = mget_or [] um b @ filter (\<lambda>k. k \<in> unblocked_by (tc_analyzer ctx) b) ord)"
  using assms
proof (induction ord arbitrary: um ctx)
  case (Cons k ord)
  obtain um1 c1 where s: "unblock_issue k (um, ctx) = (um1, c1)" by force
  note st = unblock_issue_step[OF Cons.prems(1,2) s]
  have "fold unblock_issue ord (um1, c1) = (um', ctx')" using Cons.prems(3) s by simp
  then show ?case using Cons.IH[of c1 um1] st Cons.prems(2) by simp
qed simp

lemma unblocks_map_content:
  assumes "ctx_ok ctx" "\<not> tc_unblocks_computed ctx" "range_order (an_issue_map (tc_analyzer ctx)) ord"
    and "\<And>k i. mget (an_issue_map (tc_analyzer ctx)) k = Some i \<Longrightarrow> issue_id i = k"
  shows "mget_or [] (fst (unblocks_map ord ctx)) b = sorted_list_of_set (unblocked_by (tc_analyzer ctx) b)"
proof -
  let ?U = "unblocked_by (tc_analyzer ctx)"
  obtain um ctx' where f: "fold unblock_issue ord ([], ctx) = (um, ctx')" by force
  have "unblocked_by (tc_analyzer ctx) b \<subseteq> set ord"
    using range_order_set[OF assms(3)] by (auto simp: unblocked_by_def)
  then have "set (filter (\<lambda>k. k \<in> ?U b) ord) = ?U b" by auto
  moreover have "distinct (filter (\<lambda>k. k \<in> ?U b) ord)" using assms(3) by (simp add: range_order_def)
  ultimately have "sort (filter (\<lambda>k. k \<in> ?U b) ord) = sorted_list_of_set (?U b)"
    by (metis sorted_list_of_set_sort_remdups distinct_remdups_id)
  then show ?thesis
    using unblock_issues[OF assms(1,4) f] assms(2) f
    by (simp add: unblocks_map_def build_unblocks_map_def mget_or_map_sort Let_def)
qed

lemma index_of_issues_compute:
  "index_of_issues issues =
     compute (mkeys (own_issues issues)) (mkeys (own_issues issues)) (mkeys (own_issues issues)) (own_issues issues)"
  by (simp add: index_of_issues_def new_readiness_index_def Let_def)

lemma own_keys_order: "range_order (own_issues issues) (mkeys (own_issues issues))"
  by (rule range_order_mkeys) simp

lemma ready_no_blockers: "ready (index_of_issues issues) x now \<Longrightarrow> blockers (index_of_issues issues) x = []"
proof -
  assume r: "ready (index_of_issues issues) x now"
  then obtain i where i: "mget (own_issues issues) x = Some i"
      "ri_status i = StatusOpen \<or> ri_status i = StatusInProgress"
      "dependency_state (index_of_issues issues) x = DepSatisfied"
    by (auto simp: ready_def index_of_issues_compute compute_def Let_def split: option.splits prod.splits)
  then have "\<not> closed_for_readiness (ri_status i)" by (auto simp: closed_for_readiness_def status_defs)
  with i show ?thesis
    using blockers_empty_iff[OF own_keys_order own_keys_order own_keys_order i(1)]
    by (simp add: index_of_issues_compute)
qed

lemma ready_after_issue:
  "ready_after (index_of_issues issues) x now [b] \<Longrightarrow>
     \<exists>i. mget (issue_map_of issues) x = Some i \<and> \<not> is_closed_like_status (status i) \<and> \<not> is_deferred_at i now \<and> x \<noteq> b"
  by (auto simp: ready_after_def index_of_issues_compute compute_def Let_def own_issues_get own_issue_def
      ri_is_deferred_at_def is_deferred_at_def is_closed_like_status_def status_defs
      split: option.splits prod.splits if_splits)

lemma ready_after_one:
  "ready_after (index_of_issues issues) x now [b] \<longleftrightarrow> x \<noteq> b \<and>
     (\<exists>i. mget (issue_map_of issues) x = Some i \<and> is_actionable_status (status i) \<and> \<not> is_deferred_at i now \<and>
        spec_state (own_issues issues) {b} x = DepSatisfied)"
  unfolding index_of_issues_compute ready_after_spec[OF own_keys_order own_keys_order own_keys_order]
  by (auto simp: own_issues_get own_issue_def ri_is_deferred_at_def is_deferred_at_def is_actionable_status_def)

text \<open>C16: The unblocks map lists under an issue b, sorted, exactly the other issues whose only open blocker is b,
  that are candidates of the scope, open or in progress and not deferred, and whose dependencies are
  satisfied once b is completed. So it lists work that the completion of b makes actionable; an issue in
  any other status that is not closed, a draft for instance, and an issue outside the candidates is not
  listed even if b is its only open blocker. None of the listed issues is actionable now. The map does
  not depend on the order in which Go visits the issue map.\<close>

theorem unblocks_map_correct:
  assumes "tc_analyzer ctx = set_readiness_scope None cand (new_analyzer issues now)"
    and "ctx_ok ctx" "\<not> tc_unblocks_computed ctx" "range_order (issue_map_of issues) ord"
  shows "mget_or [] (fst (unblocks_map ord ctx)) b = sorted_list_of_set
      {x. x \<noteq> b \<and> is_candidate (tc_analyzer ctx) x \<and> blockers (index_of_issues issues) x = [b] \<and>
          (\<exists>i. mget (issue_map_of issues) x = Some i \<and> is_actionable_status (status i) \<and> \<not> is_deferred_at i now \<and>
             spec_state (own_issues issues) {b} x = DepSatisfied)} \<and>
    (\<forall>x \<in> set (mget_or [] (fst (unblocks_map ord ctx)) b). \<not> ready (index_of_issues issues) x now)"
proof -
  let ?a = "tc_analyzer ctx"
  have a: "an_issue_map ?a = issue_map_of issues" "an_now ?a = now" "readiness ?a = index_of_issues issues"
    using assms(1) by simp_all
  have u: "unblocked_by ?a b = {x. is_candidate ?a x \<and> blockers (index_of_issues issues) x = [b] \<and>
          ready_after (index_of_issues issues) x now [b]}"
    unfolding unblocked_by_def is_actionable_after_completions_def a using ready_after_issue by blast
  have c: "mget_or [] (fst (unblocks_map ord ctx)) b = sorted_list_of_set (unblocked_by ?a b)"
    using assms by (intro unblocks_map_content) (auto dest: issue_map_of_id)
  have "unblocked_by ?a b \<subseteq> set (mkeys (issue_map_of issues))"
    by (auto simp: unblocked_by_def a mkeys_ex)
  then have "finite (unblocked_by ?a b)" by (rule finite_subset) simp
  then have r: "\<forall>x \<in> set (mget_or [] (fst (unblocks_map ord ctx)) b). \<not> ready (index_of_issues issues) x now"
    unfolding c using ready_no_blockers[of issues _ now] by (auto simp: u)
  have "unblocked_by ?a b = {x. x \<noteq> b \<and> is_candidate ?a x \<and> blockers (index_of_issues issues) x = [b] \<and>
      (\<exists>i. mget (issue_map_of issues) x = Some i \<and> is_actionable_status (status i) \<and> \<not> is_deferred_at i now \<and>
         spec_state (own_issues issues) {b} x = DepSatisfied)}"
    unfolding u ready_after_one by blast
  with c r show ?thesis by simp
qed

text \<open>Completing the blocker of the demo tracker frees the parent; the child is blocked by the parent.\<close>

lemma unblocks_map_correct_witness:
  "mget_or [] (fst (unblocks_map [''p'', ''d'', ''c'', ''b'']
     (new_triage_context (set_readiness_scope None None (new_analyzer demo_tracker 0))))) ''b'' = [''p''] \<and>
   \<not> ready (index_of_issues demo_tracker) ''p'' 0"
proof -
  let ?c = "new_triage_context (set_readiness_scope None None (new_analyzer demo_tracker 0))"
  have keys: "mkeys (issue_map_of demo_tracker) = [''b'', ''p'', ''c'', ''d'']" by code_simp
  have "range_order (issue_map_of demo_tracker) [''p'', ''d'', ''c'', ''b'']"
    by (auto simp: range_order_def keys)
  moreover have "tc_analyzer ?c = set_readiness_scope None None (new_analyzer demo_tracker 0)"
    "\<not> tc_unblocks_computed ?c" by (simp_all add: new_triage_context_def)
  moreover have "mget_or [] (fst (unblocks_map [''p'', ''d'', ''c'', ''b''] ?c)) ''b'' = [''p'']" by code_simp
  ultimately show ?thesis
    using unblocks_map_correct[of ?c None demo_tracker 0 "[''p'', ''d'', ''c'', ''b'']" "''b''"] by simp
qed

text \<open>A draft is not closed and not deferred, but it is not listed under its only open blocker.\<close>

lemma draft_not_unblocked:
  "let issues = [demo_task ''b'' [], (demo_task ''x'' [demo_dep ''b'' DepBlocks])\<lparr>status := StatusDraft\<rparr>];
       ctx = new_triage_context (set_readiness_scope None None (new_analyzer issues 0)) in
   blockers (index_of_issues issues) ''x'' = [''b''] \<and> mget_or [] (fst (unblocks_map [''b'', ''x''] ctx)) ''b'' = []"
  by code_simp

end
