(* ===== verification/Bv_Blocker_Chain.thy ===== *)
theory Bv_Blocker_Chain
  imports Bv_Triage_Props
begin

text \<open>
  \<open>GetBlockerChain\<close> of \<open>pkg/analysis/graph.go\<close>: the depth-first walk over open blockers that explains
  why an issue is blocked, its root blockers and the cycles it meets.

  The closure \<open>dfs\<close> updates \<open>visited\<close>, \<open>visiting\<close> and the result; they are one state record here,
  with the triage context whose caches the walk fills. The recursion stops because a path never
  repeats an issue; it has fuel here, and \<open>chain_fuel\<close>, the number of issues and one more, is
  shown to be enough.
\<close>

section \<open>The walk\<close>

record chain_entry =
  ce_id :: string
  ce_title :: string
  ce_status :: string
  ce_priority :: int
  ce_depth :: nat
  ce_is_root :: bool
  ce_actionable :: bool
  ce_blocks_count :: nat

record chain_result =
  ch_target_id :: string
  ch_target_title :: string
  ch_is_blocked :: bool
  ch_length :: nat
  ch_roots :: "chain_entry list"
  ch_chain :: "chain_entry list"
  ch_has_cycle :: bool
  ch_cycle_ids :: "string list"

record chain_state =
  cs_ctx :: triage_ctx
  cs_visited :: "(string, bool) gomap"
  cs_visiting :: "(string, bool) gomap"
  cs_result :: chain_result

definition chain_entry_of :: "analyzer \<Rightarrow> string \<Rightarrow> issue \<Rightarrow> nat \<Rightarrow> bool \<Rightarrow> bool \<Rightarrow> chain_entry" where
  "chain_entry_of a iid i depth root act =
     \<lparr>ce_id = iid, ce_title = title i, ce_status = status i, ce_priority = priority i, ce_depth = depth,
      ce_is_root = root, ce_actionable = act, ce_blocks_count = count_blocked_by a iid\<rparr>"

text \<open>The two deferred updates at each end of \<open>dfs\<close>.\<close>

definition chain_leave :: "string \<Rightarrow> chain_state \<Rightarrow> chain_state" where
  "chain_leave iid s =
     s\<lparr>cs_visiting := mput iid False (cs_visiting s), cs_visited := mput iid True (cs_visited s)\<rparr>"

definition chain_add :: "analyzer \<Rightarrow> string \<Rightarrow> issue \<Rightarrow> nat \<Rightarrow> bool \<Rightarrow> chain_state \<Rightarrow> chain_state" where
  "chain_add a iid i depth root s =
     (let (act, ctx) = ctx_is_actionable (cs_ctx s) iid;
          entry = chain_entry_of a iid i depth root act;
          r = cs_result s;
          r = r\<lparr>ch_chain := ch_chain r @ [entry]\<rparr>;
          r = (if root then r\<lparr>ch_roots := ch_roots r @ [entry]\<rparr> else r)
      in s\<lparr>cs_ctx := ctx, cs_result := r\<rparr>)"

fun chain_dfs :: "nat \<Rightarrow> analyzer \<Rightarrow> string \<Rightarrow> string \<Rightarrow> nat \<Rightarrow> chain_state \<Rightarrow> chain_state option"
  and chain_loop :: "nat \<Rightarrow> analyzer \<Rightarrow> string \<Rightarrow> string list \<Rightarrow> nat \<Rightarrow> chain_state \<Rightarrow> chain_state option" where
  "chain_dfs 0 a target iid depth s = None"
| "chain_dfs (Suc n) a target iid depth s =
     (if mget_or False (cs_visiting s) iid then
        Some (s\<lparr>cs_result := (cs_result s)\<lparr>ch_has_cycle := True, ch_cycle_ids := ch_cycle_ids (cs_result s) @ [iid]\<rparr>\<rparr>)
      else if mget_or False (cs_visited s) iid then Some s
      else
        (let s = s\<lparr>cs_visiting := mput iid True (cs_visiting s)\<rparr>
         in case mget (an_issue_map a) iid of
              None \<Rightarrow> Some (chain_leave iid s)
            | Some b \<Rightarrow>
                (let (obs, ctx) = open_blockers (cs_ctx s) iid;
                     s = s\<lparr>cs_ctx := ctx\<rparr>;
                     s = (if iid \<noteq> target then chain_add a iid b depth (obs = []) s else s)
                 in map_option (chain_leave iid) (chain_loop n a target obs (depth + 1) s))))"
| "chain_loop n a target [] depth s = Some s"
| "chain_loop n a target (x # xs) depth s =
     (case chain_dfs n a target x depth s of None \<Rightarrow> None | Some s' \<Rightarrow> chain_loop n a target xs depth s')"

definition chain_fuel :: "analyzer \<Rightarrow> nat" where
  "chain_fuel a = length (an_issue_map a) + 2"

definition root_less :: "chain_entry \<Rightarrow> chain_entry \<Rightarrow> bool" where
  "root_less e f = (if ce_priority e \<noteq> ce_priority f then ce_priority e < ce_priority f else ce_id e < ce_id f)"

interpretation root_order: less_contract root_less
proof
  fix x y z
  show "\<not> root_less x x" by (simp add: root_less_def)
  show "root_less x y \<Longrightarrow> root_less y z \<Longrightarrow> root_less x z" by (auto simp: root_less_def split: if_splits)
  show "root_less x z \<Longrightarrow> root_less x y \<or> root_less y z" by (auto simp: root_less_def split: if_splits)
qed

text \<open>
  \<open>None\<close> is a walk that runs out of fuel; \<open>Some None\<close> the nil that is returned for an unknown issue.
\<close>

definition get_blocker_chain :: "analyzer \<Rightarrow> string \<Rightarrow> chain_result option option" where
  "get_blocker_chain a target =
     (case mget (an_issue_map a) target of None \<Rightarrow> Some None | Some i \<Rightarrow>
      (let ctx = new_triage_context a;
           (act, ctx) = ctx_is_actionable ctx target;
           entry = chain_entry_of a target i 0 False act;
           r = \<lparr>ch_target_id = target, ch_target_title = title i, ch_is_blocked = False, ch_length = 0,
                ch_roots = [], ch_chain = [entry], ch_has_cycle = False, ch_cycle_ids = []\<rparr>;
           (obs, ctx) = open_blockers ctx target
       in if obs = [] then Some (Some (r\<lparr>ch_chain := [entry\<lparr>ce_is_root := True\<rparr>]\<rparr>))
          else
            (let r = r\<lparr>ch_is_blocked := True\<rparr>;
                 s = \<lparr>cs_ctx = ctx, cs_visited = [], cs_visiting = [], cs_result = r\<rparr>
             in map_option (\<lambda>s. let r = cs_result s in
                    Some (r\<lparr>ch_length := length (ch_chain r) - 1, ch_roots := sort_by root_less (ch_roots r)\<rparr>))
                  (chain_dfs (chain_fuel a) a target target 0 s))))"

section \<open>Specification\<close>

text \<open>The edges that the walk follows: from an issue of the tracker to its open blockers.\<close>

definition chain_rel :: "analyzer \<Rightarrow> (string \<times> string) set" where
  "chain_rel a = {(x, y). mget (an_issue_map a) x \<noteq> None \<and> y \<in> set (blockers (readiness a) x)}"

definition chain_nodes :: "analyzer \<Rightarrow> string \<Rightarrow> string set" where
  "chain_nodes a x = {y. (x, y) \<in> (chain_rel a)\<^sup>* \<and> mget (an_issue_map a) y \<noteq> None}"

text \<open>What an entry of the chain says of its issue.\<close>

definition entry_true :: "analyzer \<Rightarrow> string \<Rightarrow> chain_entry \<Rightarrow> bool" where
  "entry_true a target e \<longleftrightarrow>
     (\<exists>i. mget (an_issue_map a) (ce_id e) = Some i \<and> ce_title e = title i \<and> ce_status e = status i \<and>
        ce_priority e = priority i) \<and>
     (target, ce_id e) \<in> chain_rel a ^^ ce_depth e \<and>
     (ce_is_root e \<longleftrightarrow> blockers (readiness a) (ce_id e) = []) \<and>
     (ce_actionable e \<longleftrightarrow> ce_id e \<in> issue_id ` set (get_actionable_issues a)) \<and>
     ce_blocks_count e = count_blocked_by a (ce_id e)"

section \<open>Context caches during the walk\<close>

definition walk_ok :: "analyzer \<Rightarrow> triage_ctx \<Rightarrow> bool" where
  "walk_ok a ctx \<longleftrightarrow> ctx_ok ctx \<and> tc_analyzer ctx = a \<and>
     (tc_actionable_computed ctx \<longrightarrow>
        (\<forall>x. mget_or False (tc_actionable_set ctx) x \<longleftrightarrow> x \<in> issue_id ` set (get_actionable_issues a)))"

lemma walk_ok_new [simp]: "walk_ok a (new_triage_context a)"
  using ctx_ok_new[of a] by (simp add: walk_ok_def new_triage_context_def)

lemma walk_ok_open_blockers:
  "walk_ok a ctx \<Longrightarrow> open_blockers ctx x = (bs, ctx') \<Longrightarrow> bs = blockers (readiness a) x \<and> walk_ok a ctx'"
proof -
  assume w: "walk_ok a ctx" and o: "open_blockers ctx x = (bs, ctx')"
  have "tc_actionable_computed ctx' = tc_actionable_computed ctx" "tc_actionable_set ctx' = tc_actionable_set ctx"
    using o by (auto simp: open_blockers_def Let_def split: option.splits)
  then show ?thesis using open_blockers_ok[OF _ o] w by (simp add: walk_ok_def)
qed

lemma mget_fold_true:
  "mget_or False (fold (\<lambda>i m. mput (issue_id i) True m) is m) x \<longleftrightarrow> x \<in> issue_id ` set is \<or> mget_or False m x"
  by (induction "is" arbitrary: m) auto

lemma walk_ok_is_actionable:
  "walk_ok a ctx \<Longrightarrow> ctx_is_actionable ctx x = (b, ctx') \<Longrightarrow>
     (b \<longleftrightarrow> x \<in> issue_id ` set (get_actionable_issues a)) \<and> walk_ok a ctx'"
  by (auto simp: walk_ok_def ctx_is_actionable_def ensure_actionable_def ctx_ok_def Let_def mget_fold_true
    split: if_splits)

section \<open>Invariant of the walk\<close>

abbreviation seen :: "chain_state \<Rightarrow> string \<Rightarrow> bool" where
  "seen s x \<equiv> mget_or False (cs_visited s) x"

abbreviation on_path :: "chain_state \<Rightarrow> string \<Rightarrow> bool" where
  "on_path s x \<equiv> mget_or False (cs_visiting s) x"

abbreviation known :: "analyzer \<Rightarrow> string \<Rightarrow> bool" where
  "known a x \<equiv> mget (an_issue_map a) x \<noteq> None"

text \<open>The part that speaks of the visited sets and the cycle flag.\<close>

definition search_inv :: "analyzer \<Rightarrow> string \<Rightarrow> chain_state \<Rightarrow> bool" where
  "search_inv a t s \<longleftrightarrow>
     (\<forall>x. seen s x \<longrightarrow> \<not> on_path s x) \<and>
     (\<forall>x. seen s x \<or> on_path s x \<longrightarrow> (t, x) \<in> (chain_rel a)\<^sup>*) \<and>
     (\<forall>x y. seen s x \<longrightarrow> (x, y) \<in> chain_rel a \<longrightarrow> seen s y \<or> on_path s y) \<and>
     (\<forall>x \<in> set (ch_cycle_ids (cs_result s)). (t, x) \<in> (chain_rel a)\<^sup>* \<and> (x, x) \<in> (chain_rel a)\<^sup>+) \<and>
     (ch_has_cycle (cs_result s) \<longleftrightarrow> ch_cycle_ids (cs_result s) \<noteq> []) \<and>
     (\<not> ch_has_cycle (cs_result s) \<longrightarrow>
        (\<forall>x y. seen s x \<longrightarrow> (x, y) \<in> chain_rel a \<longrightarrow> seen s y) \<and> (\<forall>x. seen s x \<longrightarrow> (x, x) \<notin> (chain_rel a)\<^sup>+))"

text \<open>The part that speaks of the reported entries.\<close>

definition report_inv :: "analyzer \<Rightarrow> string \<Rightarrow> chain_state \<Rightarrow> bool" where
  "report_inv a t s \<longleftrightarrow>
     (let es = ch_chain (cs_result s) in
      es \<noteq> [] \<and> ce_id (hd es) = t \<and> distinct (map ce_id es) \<and> (\<forall>e \<in> set es. entry_true a t e) \<and>
      set (map ce_id es) = insert t {x. (seen s x \<or> on_path s x) \<and> known a x} \<and>
      ch_roots (cs_result s) = filter ce_is_root es \<and> ch_is_blocked (cs_result s) \<and>
      ch_target_id (cs_result s) = t)"

definition walk_inv :: "analyzer \<Rightarrow> string \<Rightarrow> chain_state \<Rightarrow> bool" where
  "walk_inv a t s \<longleftrightarrow> walk_ok a (cs_ctx s) \<and> search_inv a t s \<and> report_inv a t s"

lemma walk_inv_hit:
  assumes "walk_inv a t s" "(t, x) \<in> (chain_rel a)\<^sup>*" "(x, x) \<in> (chain_rel a)\<^sup>+"
  shows "walk_inv a t (s\<lparr>cs_result := (cs_result s)\<lparr>ch_has_cycle := True,
    ch_cycle_ids := ch_cycle_ids (cs_result s) @ [x]\<rparr>\<rparr>)"
  using assms by (auto simp: walk_inv_def search_inv_def report_inv_def Let_def)

lemma walk_inv_enter_unknown:
  assumes "walk_inv a t s" "(t, x) \<in> (chain_rel a)\<^sup>*" "\<not> known a x" "\<not> seen s x"
  shows "walk_inv a t (s\<lparr>cs_visiting := mput x True (cs_visiting s)\<rparr>)"
proof -
  have "search_inv a t (s\<lparr>cs_visiting := mput x True (cs_visiting s)\<rparr>)"
    using assms unfolding walk_inv_def search_inv_def by simp
  moreover have "{y. (y = x \<or> \<not> y = x \<and> on_path s y \<or> seen s y) \<and> known a y} =
      {y. (seen s y \<or> on_path s y) \<and> known a y}"
    using assms(3) by auto
  then have "report_inv a t (s\<lparr>cs_visiting := mput x True (cs_visiting s)\<rparr>)"
    using assms(1,3) unfolding walk_inv_def report_inv_def Let_def by auto
  ultimately show ?thesis using assms(1) by (simp add: walk_inv_def)
qed

lemma walk_inv_leave:
  assumes inv: "walk_inv a t s" and x: "on_path s x"
    and succ: "\<And>y. (x, y) \<in> chain_rel a \<Longrightarrow> seen s y \<or> on_path s y"
    and acyc: "\<And>y. \<not> ch_has_cycle (cs_result s) \<Longrightarrow> (x, y) \<in> chain_rel a \<Longrightarrow> seen s y"
  shows "walk_inv a t (chain_leave x s)"
proof -
  have si: "search_inv a t s" using inv by (simp add: walk_inv_def)
  have closed: "seen s z" if "\<not> ch_has_cycle (cs_result s)" "seen s y" "(y, z) \<in> (chain_rel a)\<^sup>*" for y z
    using that(3,2) by (induction rule: rtrancl_induct) (use si that(1) in \<open>auto simp: search_inv_def\<close>)
  have nc: "(x, x) \<notin> (chain_rel a)\<^sup>+" if hc: "\<not> ch_has_cycle (cs_result s)"
  proof
    assume "(x, x) \<in> (chain_rel a)\<^sup>+"
    then obtain y where "(x, y) \<in> chain_rel a" "(y, x) \<in> (chain_rel a)\<^sup>*" by (meson tranclD)
    then have "seen s x" using acyc[OF hc] closed[OF hc] by blast
    then show False using si x by (auto simp: search_inv_def)
  qed
  let ?s = "chain_leave x s"
  have leave: "seen ?s y \<longleftrightarrow> y = x \<or> seen s y" "on_path ?s y \<longleftrightarrow> y \<noteq> x \<and> on_path s y"
    "cs_result ?s = cs_result s" for y
    by (simp_all add: chain_leave_def)
  have "search_inv a t ?s"
    unfolding search_inv_def leave
  proof (intro conjI impI allI)
    show "\<not> (y \<noteq> x \<and> on_path s y)" if "y = x \<or> seen s y" for y
      using si that by (auto simp: search_inv_def)
    show "(t, y) \<in> (chain_rel a)\<^sup>*" if "(y = x \<or> seen s y) \<or> y \<noteq> x \<and> on_path s y" for y
      using si that x by (auto simp: search_inv_def)
    show "(z = x \<or> seen s z) \<or> z \<noteq> x \<and> on_path s z" if "y = x \<or> seen s y" "(y, z) \<in> chain_rel a" for y z
      using si that succ by (auto simp: search_inv_def)
    show "z = x \<or> seen s z" if "\<not> ch_has_cycle (cs_result s)" "y = x \<or> seen s y" "(y, z) \<in> chain_rel a" for y z
      using si that acyc by (auto simp: search_inv_def)
    show "(y, y) \<notin> (chain_rel a)\<^sup>+" if "\<not> ch_has_cycle (cs_result s)" "y = x \<or> seen s y" for y
      using si that nc by (auto simp: search_inv_def)
  qed (use si in \<open>simp_all add: search_inv_def\<close>)
  moreover have "report_inv a t (chain_leave x s)"
    using inv x by (auto simp: walk_inv_def report_inv_def chain_leave_def Let_def)
  ultimately show ?thesis using inv by (simp add: walk_inv_def chain_leave_def)
qed

definition chain_enter :: "analyzer \<Rightarrow> string \<Rightarrow> string \<Rightarrow> issue \<Rightarrow> nat \<Rightarrow> string list \<Rightarrow> triage_ctx \<Rightarrow> chain_state \<Rightarrow> chain_state" where
  "chain_enter a t x b d obs ctx s =
     (let s = s\<lparr>cs_visiting := mput x True (cs_visiting s), cs_ctx := ctx\<rparr>
      in if x \<noteq> t then chain_add a x b d (obs = []) s else s)"

lemma chain_enter_views [simp]:
  "seen (chain_enter a t x b d obs ctx s) y = seen s y"
  "on_path (chain_enter a t x b d obs ctx s) y \<longleftrightarrow> y = x \<or> on_path s y"
  "ch_has_cycle (cs_result (chain_enter a t x b d obs ctx s)) = ch_has_cycle (cs_result s)"
  "ch_cycle_ids (cs_result (chain_enter a t x b d obs ctx s)) = ch_cycle_ids (cs_result s)"
  by (auto simp: chain_enter_def chain_add_def Let_def split: prod.splits)

lemma walk_inv_enter:
  assumes inv: "walk_inv a t s" and b: "mget (an_issue_map a) x = Some b" and d: "(t, x) \<in> chain_rel a ^^ d"
    and new: "\<not> seen s x" "\<not> on_path s x" and o: "open_blockers (cs_ctx s) x = (obs, ctx)"
  shows "walk_inv a t (chain_enter a t x b d obs ctx s)" and "obs = blockers (readiness a) x"
proof -
  let ?s = "chain_enter a t x b d obs ctx s"
  have w: "walk_ok a (cs_ctx s)" using inv by (simp add: walk_inv_def)
  show obs: "obs = blockers (readiness a) x" using walk_ok_open_blockers[OF w o] by simp
  have w': "walk_ok a ctx" using walk_ok_open_blockers[OF w o] by simp
  obtain act ctx' where act: "ctx_is_actionable ctx x = (act, ctx')" by force
  note act' = walk_ok_is_actionable[OF w' act]
  have "(t, x) \<in> (chain_rel a)\<^sup>*" using d relpow_imp_rtrancl by blast
  then have "search_inv a t ?s"
    using inv new unfolding walk_inv_def search_inv_def chain_enter_views by blast
  moreover have "walk_ok a (cs_ctx ?s)" using w' act act' by (simp add: chain_enter_def chain_add_def Let_def)
  moreover have "report_inv a t ?s"
  proof (cases "x = t")
    case True
    have "insert t {y. (seen s y \<or> y = t \<or> on_path s y) \<and> known a y} =
        insert t {y. (seen s y \<or> on_path s y) \<and> known a y}" by auto
    moreover have "cs_result ?s = cs_result s" using True by (simp add: chain_enter_def)
    ultimately show ?thesis
      using inv True unfolding walk_inv_def report_inv_def Let_def chain_enter_views by simp
  next
    case False
    let ?e = "chain_entry_of a x b d (obs = []) act"
    let ?r = "cs_result s"
    have res: "cs_result ?s = ?r\<lparr>ch_chain := ch_chain ?r @ [?e],
        ch_roots := ch_roots ?r @ (if obs = [] then [?e] else [])\<rparr>"
      using False act by (simp add: chain_enter_def chain_add_def Let_def)
    have rep: "report_inv a t s" using inv by (simp add: walk_inv_def)
    have true: "entry_true a t ?e"
      using b d obs act' by (auto simp: entry_true_def chain_entry_of_def)
    have e: "ce_id ?e = x" "ce_is_root ?e \<longleftrightarrow> obs = []" by (simp_all add: chain_entry_of_def)
    have notin: "x \<notin> set (map ce_id (ch_chain ?r))"
      using rep new False unfolding report_inv_def Let_def by auto
    have "{y. (seen s y \<or> y = x \<or> on_path s y) \<and> known a y} =
        insert x {y. (seen s y \<or> on_path s y) \<and> known a y}" using b by auto
    then show ?thesis
      using rep true notin e unfolding report_inv_def Let_def res chain_enter_views
      by (auto simp del: set_map simp: insert_commute)
  qed
  ultimately show "walk_inv a t ?s" by (simp add: walk_inv_def)
qed

lemma chain_dfs_unfold:
  "chain_dfs (Suc n) a t x d s =
     (if on_path s x then
        Some (s\<lparr>cs_result := (cs_result s)\<lparr>ch_has_cycle := True, ch_cycle_ids := ch_cycle_ids (cs_result s) @ [x]\<rparr>\<rparr>)
      else if seen s x then Some s
      else (case mget (an_issue_map a) x of
          None \<Rightarrow> Some (chain_leave x (s\<lparr>cs_visiting := mput x True (cs_visiting s)\<rparr>))
        | Some b \<Rightarrow> (case open_blockers (cs_ctx s) x of (obs, ctx) \<Rightarrow>
            map_option (chain_leave x) (chain_loop n a t obs (d + 1) (chain_enter a t x b d obs ctx s)))))"
  by (auto simp: Let_def chain_enter_def split: option.splits prod.splits)

text \<open>What a finished call guarantees.\<close>

definition walked :: "analyzer \<Rightarrow> string \<Rightarrow> chain_state \<Rightarrow> string list \<Rightarrow> chain_state \<Rightarrow> bool" where
  "walked a t s xs s' \<longleftrightarrow>
     walk_inv a t s' \<and> (\<forall>y. on_path s' y \<longleftrightarrow> on_path s y) \<and> (\<forall>y. seen s y \<longrightarrow> seen s' y) \<and>
     (ch_has_cycle (cs_result s) \<longrightarrow> ch_has_cycle (cs_result s')) \<and>
     (\<forall>x \<in> set xs. (seen s' x \<or> on_path s' x) \<and> (\<not> ch_has_cycle (cs_result s') \<longrightarrow> seen s' x))"

lemma walked_Cons: "walked a t s [x] s1 \<Longrightarrow> walked a t s1 xs s2 \<Longrightarrow> walked a t s (x # xs) s2"
  unfolding walked_def by auto

lemma path_card_less:
  "known a x \<Longrightarrow> \<not> P x \<Longrightarrow>
     card {y. known a y \<and> \<not> (y = x \<or> P y)} < card {y. known a y \<and> \<not> P y}"
proof -
  assume x: "known a x" "\<not> P x"
  have "{y. known a y} = set (mkeys (an_issue_map a))" by (auto simp: mkeys_ex)
  then have "finite {y. known a y}" by simp
  then have "finite {y. known a y \<and> \<not> P y}" by (rule rev_finite_subset) auto
  moreover have "{y. known a y \<and> \<not> (y = x \<or> P y)} \<subset> {y. known a y \<and> \<not> P y}" using x by blast
  ultimately show ?thesis by (rule psubset_card_mono)
qed

definition dfs_correct :: "nat \<Rightarrow> analyzer \<Rightarrow> string \<Rightarrow> bool" where
  "dfs_correct n a t \<longleftrightarrow> (\<forall>x d s. walk_inv a t s \<longrightarrow> (\<forall>p. on_path s p \<longrightarrow> (p, x) \<in> (chain_rel a)\<^sup>+) \<longrightarrow>
     (t, x) \<in> chain_rel a ^^ d \<longrightarrow> card {y. known a y \<and> \<not> on_path s y} < n \<longrightarrow>
     (\<exists>s'. chain_dfs n a t x d s = Some s' \<and> walked a t s [x] s'))"

lemma chain_loop_correct:
  assumes ih: "dfs_correct n a t"
    and "walk_inv a t s" "\<forall>p. on_path s p \<longrightarrow> (p, c) \<in> (chain_rel a)\<^sup>*" "\<forall>x \<in> set xs. (c, x) \<in> chain_rel a"
    and "(t, c) \<in> chain_rel a ^^ e" "card {y. known a y \<and> \<not> on_path s y} < n"
  shows "\<exists>s'. chain_loop n a t xs (Suc e) s = Some s' \<and> walked a t s xs s'"
  using assms(2-)
proof (induction xs arbitrary: s)
  case (Cons x xs)
  have x: "(c, x) \<in> chain_rel a" using Cons.prems(3) by simp
  then have "(t, x) \<in> chain_rel a ^^ Suc e" using Cons.prems(4) by auto
  moreover have "\<forall>p. on_path s p \<longrightarrow> (p, x) \<in> (chain_rel a)\<^sup>+"
    using Cons.prems(2) x by (meson rtrancl_into_trancl1)
  ultimately obtain s1 where s1: "chain_dfs n a t x (Suc e) s = Some s1" "walked a t s [x] s1"
    using ih Cons.prems(1,5) unfolding dfs_correct_def by blast
  have p: "on_path s1 y \<longleftrightarrow> on_path s y" for y using s1(2) by (simp add: walked_def)
  obtain s2 where s2: "chain_loop n a t xs (Suc e) s1 = Some s2" "walked a t s1 xs s2"
    using Cons.IH[of s1] Cons.prems s1(2) p unfolding walked_def by auto
  then show ?case using s1 walked_Cons by auto
qed (simp add: walked_def)

lemma chain_dfs_correct: "dfs_correct n a t"
proof (induction n)
  case 0
  then show ?case by (simp add: dfs_correct_def)
next
  case (Suc n)
  show ?case
    unfolding dfs_correct_def
  proof (intro allI impI)
    fix x d s
    assume inv: "walk_inv a t s" and path: "\<forall>p. on_path s p \<longrightarrow> (p, x) \<in> (chain_rel a)\<^sup>+"
      and d: "(t, x) \<in> chain_rel a ^^ d" and fuel: "card {y. known a y \<and> \<not> on_path s y} < Suc n"
    have tx: "(t, x) \<in> (chain_rel a)\<^sup>*" using d relpow_imp_rtrancl by blast
    show "\<exists>s'. chain_dfs (Suc n) a t x d s = Some s' \<and> walked a t s [x] s'"
    proof (cases "on_path s x \<or> seen s x")
      case True
      then show ?thesis
        using inv walk_inv_hit[OF inv tx] path by (auto simp: chain_dfs_unfold walked_def)
    next
      case new: False
      then have n: "\<not> seen s x" "\<not> on_path s x" by auto
      show ?thesis
      proof (cases "mget (an_issue_map a) x")
        case None
        let ?s = "s\<lparr>cs_visiting := mput x True (cs_visiting s)\<rparr>"
        have "(x, y) \<notin> chain_rel a" for y using None by (simp add: chain_rel_def)
        then have "walk_inv a t (chain_leave x ?s)"
          using walk_inv_enter_unknown[OF inv tx] None new by (intro walk_inv_leave) auto
        then show ?thesis using new None by (auto simp: chain_dfs_unfold walked_def chain_leave_def)
      next
        case (Some b)
        obtain obs ctx where o: "open_blockers (cs_ctx s) x = (obs, ctx)" by force
        let ?s = "chain_enter a t x b d obs ctx s"
        note ent = walk_inv_enter[OF inv Some d n o]
        have "card {y. known a y \<and> \<not> on_path ?s y} < n"
          using path_card_less[of a x "on_path s"] Some n fuel by simp
        moreover have "\<forall>p. on_path ?s p \<longrightarrow> (p, x) \<in> (chain_rel a)\<^sup>*"
          using path by (auto intro: trancl_into_rtrancl)
        moreover have "\<forall>y \<in> set obs. (x, y) \<in> chain_rel a" using ent(2) Some by (simp add: chain_rel_def)
        ultimately obtain s' where s': "chain_loop n a t obs (Suc d) ?s = Some s'" "walked a t ?s obs s'"
          using chain_loop_correct[OF Suc.IH ent(1) _ _ d] by blast
        have "walk_inv a t (chain_leave x s')"
          using s'(2) ent(2) by (intro walk_inv_leave) (auto simp: walked_def chain_rel_def)
        then have "walked a t s [x] (chain_leave x s')"
          using s'(2) n by (auto simp: walked_def chain_leave_def)
        then show ?thesis using n Some o s'(1) by (simp add: chain_dfs_unfold del: chain_dfs.simps)
      qed
    qed
  qed
qed

section \<open>Correctness\<close>

text \<open>The walk from the target of a blocked issue, from the state that \<open>GetBlockerChain\<close> starts it in.\<close>

lemma walk_from_target:
  assumes inv: "walk_inv a t s" and t: "known a t" and new: "\<And>y. \<not> on_path s y" "\<And>y. \<not> seen s y"
  obtains s' where "chain_dfs (chain_fuel a) a t t 0 s = Some s'" "walk_inv a t s'"
    "set (map ce_id (ch_chain (cs_result s'))) = chain_nodes a t"
    "ch_has_cycle (cs_result s') \<longleftrightarrow> (\<exists>x. (t, x) \<in> (chain_rel a)\<^sup>* \<and> (x, x) \<in> (chain_rel a)\<^sup>+)"
proof -
  have "card {y. known a y \<and> \<not> on_path s y} \<le> card (set (mkeys (an_issue_map a)))"
    by (rule card_mono) (auto simp: mkeys_ex)
  also have "\<dots> < chain_fuel a" using card_length[of "mkeys (an_issue_map a)"] by (simp add: chain_fuel_def mkeys_def)
  finally have "card {y. known a y \<and> \<not> on_path s y} < chain_fuel a" .
  then have "\<exists>s'. chain_dfs (chain_fuel a) a t t 0 s = Some s' \<and> walked a t s [t] s'"
    using new(1) by (intro chain_dfs_correct[unfolded dfs_correct_def, rule_format, OF inv]) auto
  then obtain s' where s': "chain_dfs (chain_fuel a) a t t 0 s = Some s'" "walked a t s [t] s'" by blast
  have path: "\<not> on_path s' y" for y using s'(2) new(1) by (simp add: walked_def)
  have inv': "walk_inv a t s'" and seen_t: "seen s' t" using s'(2) path by (auto simp: walked_def)
  then have si: "search_inv a t s'" by (simp add: walk_inv_def)
  have "seen s' y" if "(t, y) \<in> (chain_rel a)\<^sup>*" for y
    using that by (induction rule: rtrancl_induct) (use seen_t si path in \<open>auto simp: search_inv_def\<close>)
  moreover have "(t, y) \<in> (chain_rel a)\<^sup>*" if "seen s' y" for y using si that by (simp add: search_inv_def)
  ultimately have reach: "seen s' y \<longleftrightarrow> (t, y) \<in> (chain_rel a)\<^sup>*" for y by blast
  have "set (map ce_id (ch_chain (cs_result s'))) = chain_nodes a t"
    using inv' path reach t by (auto simp: walk_inv_def report_inv_def Let_def chain_nodes_def simp del: set_map)
  moreover have "ch_has_cycle (cs_result s') \<longleftrightarrow> (\<exists>x. (t, x) \<in> (chain_rel a)\<^sup>* \<and> (x, x) \<in> (chain_rel a)\<^sup>+)"
  proof
    assume "ch_has_cycle (cs_result s')"
    then obtain x where "x \<in> set (ch_cycle_ids (cs_result s'))"
      using si unfolding search_inv_def by (metis list.set_intros(1) neq_Nil_conv)
    then show "\<exists>x. (t, x) \<in> (chain_rel a)\<^sup>* \<and> (x, x) \<in> (chain_rel a)\<^sup>+" using si unfolding search_inv_def by blast
  next
    assume "\<exists>x. (t, x) \<in> (chain_rel a)\<^sup>* \<and> (x, x) \<in> (chain_rel a)\<^sup>+"
    then show "ch_has_cycle (cs_result s')" using si reach unfolding search_inv_def by blast
  qed
  ultimately show thesis using that s'(1) inv' by blast
qed

lemma roots_strict:
  assumes "distinct (map ce_id es)"
  shows "sorted_wrt root_less (sort_by root_less es)"
proof -
  have "distinct (map ce_id (sort_by root_less es))"
    using assms by (metis mset_eq_imp_distinct_iff mset_map mset_sort_by)
  then have "sorted_wrt (\<lambda>x y. \<not> root_less y x \<and> ce_id x \<noteq> ce_id y) (sort_by root_less es)"
    using root_order.sort_by_sorted[of es] by (simp add: sorted_wrt_iff_nth_less distinct_conv_nth)
  then show ?thesis by (rule sorted_wrt_mono_rel[rotated]) (auto simp: root_less_def split: if_splits)
qed

text \<open>C26: For every issue of the tracker \<open>GetBlockerChain\<close> ends with a result. Its chain starts with the
  issue and lists, once each, exactly the issues reachable over open blockers; every entry carries
  the issue's own data, a depth at which it is really reached, and says root and actionable exactly
  when it has no open blocker and when it is in the actionable list. The issue is blocked exactly
  when it has an open blocker; the root blockers are the other entries without blockers, in strict
  order of priority and id; a cycle is reported exactly when one is reachable, and every reported
  id lies on one.\<close>

theorem blocker_chain_correct:
  assumes "mget (an_issue_map a) t = Some i"
  shows "\<exists>r. get_blocker_chain a t = Some (Some r) \<and> ch_target_id r = t \<and>
    (ch_is_blocked r \<longleftrightarrow> blockers (readiness a) t \<noteq> []) \<and>
    ce_id (hd (ch_chain r)) = t \<and> distinct (map ce_id (ch_chain r)) \<and>
    set (map ce_id (ch_chain r)) = chain_nodes a t \<and> ch_length r = card (chain_nodes a t) - 1 \<and>
    (\<forall>e \<in> set (ch_chain r). entry_true a t e) \<and>
    set (ch_roots r) = {e \<in> set (ch_chain r). ce_is_root e \<and> ce_id e \<noteq> t} \<and> sorted_wrt root_less (ch_roots r) \<and>
    (ch_has_cycle r \<longleftrightarrow> (\<exists>x. (t, x) \<in> (chain_rel a)\<^sup>* \<and> (x, x) \<in> (chain_rel a)\<^sup>+)) \<and>
    (\<forall>x \<in> set (ch_cycle_ids r). (t, x) \<in> (chain_rel a)\<^sup>* \<and> (x, x) \<in> (chain_rel a)\<^sup>+)"
proof -
  obtain act ctx where act: "ctx_is_actionable (new_triage_context a) t = (act, ctx)" by force
  note act' = walk_ok_is_actionable[OF walk_ok_new act]
  obtain obs ctx' where o: "open_blockers ctx t = (obs, ctx')" by force
  then have obs: "obs = blockers (readiness a) t" "walk_ok a ctx'" using walk_ok_open_blockers act' by blast+
  let ?e = "chain_entry_of a t i 0 False act"
  let ?r = "\<lparr>ch_target_id = t, ch_target_title = title i, ch_is_blocked = True, ch_length = 0,
    ch_roots = [], ch_chain = [?e], ch_has_cycle = False, ch_cycle_ids = []\<rparr>"
  have e: "entry_true a t (?e\<lparr>ce_is_root := obs = []\<rparr>)" "ce_id ?e = t"
    using assms act' obs by (auto simp: entry_true_def chain_entry_of_def)
  show ?thesis
  proof (cases "obs = []")
    case True
    have none: "(t, y) \<notin> chain_rel a" for y using True obs by (simp add: chain_rel_def)
    then have only: "(t, y) \<in> (chain_rel a)\<^sup>* \<longleftrightarrow> y = t" for y by (auto elim: converse_rtranclE)
    have acyc: "(t, t) \<notin> (chain_rel a)\<^sup>+" using none by (auto dest: tranclD)
    have nodes: "chain_nodes a t = {t}" using only assms by (auto simp: chain_nodes_def)
    have "get_blocker_chain a t =
        Some (Some (?r\<lparr>ch_is_blocked := False, ch_chain := [?e\<lparr>ce_is_root := True\<rparr>]\<rparr>))"
      using assms act o True by (simp add: get_blocker_chain_def)
    then show ?thesis using e True obs nodes only acyc by (auto simp: chain_entry_of_def)
  next
    case False
    let ?s = "\<lparr>cs_ctx = ctx', cs_visited = [], cs_visiting = [], cs_result = ?r\<rparr>"
    have ce: "?e\<lparr>ce_is_root := obs = []\<rparr> = ?e" "\<not> ce_is_root ?e" using False by (simp_all add: chain_entry_of_def)
    then have "walk_inv a t ?s"
      using e obs by (auto simp: walk_inv_def search_inv_def report_inv_def Let_def)
    then obtain s' where s': "chain_dfs (chain_fuel a) a t t 0 ?s = Some s'" "walk_inv a t s'"
      "set (map ce_id (ch_chain (cs_result s'))) = chain_nodes a t"
      "ch_has_cycle (cs_result s') \<longleftrightarrow> (\<exists>x. (t, x) \<in> (chain_rel a)\<^sup>* \<and> (x, x) \<in> (chain_rel a)\<^sup>+)"
      by (rule walk_from_target) (use assms in auto)
    let ?q = "cs_result s'"
    let ?f = "?q\<lparr>ch_length := length (ch_chain ?q) - 1, ch_roots := sort_by root_less (ch_roots ?q)\<rparr>"
    have res: "get_blocker_chain a t = Some (Some ?f)"
      using assms act o False s'(1) by (simp add: get_blocker_chain_def Let_def)
    have rep: "report_inv a t s'" "search_inv a t s'" using s'(2) by (simp_all add: walk_inv_def)
    have dist: "distinct (map ce_id (ch_chain ?q))" and roots: "ch_roots ?q = filter ce_is_root (ch_chain ?q)"
      using rep(1) by (simp_all add: report_inv_def Let_def)
    have len: "length (ch_chain ?q) = card (chain_nodes a t)"
      using distinct_card[OF dist] s'(3) by simp
    have noroot: "ce_id e \<noteq> t" if "e \<in> set (ch_chain ?q)" "ce_is_root e" for e
      using rep(1) that False obs by (auto simp: report_inv_def Let_def entry_true_def)
    have "distinct (map ce_id (ch_roots ?q))" unfolding roots using dist by (rule distinct_map_filter)
    then have srt: "sorted_wrt root_less (ch_roots ?f)" using roots_strict by simp
    have all: "\<forall>e \<in> set (ch_chain ?q). entry_true a t e" "ce_id (hd (ch_chain ?q)) = t" "ch_target_id ?q = t"
        "ch_is_blocked ?q"
      using rep(1) by (simp_all add: report_inv_def Let_def)
    have cyc: "\<forall>x \<in> set (ch_cycle_ids ?q). (t, x) \<in> (chain_rel a)\<^sup>* \<and> (x, x) \<in> (chain_rel a)\<^sup>+"
      using rep(2) by (simp add: search_inv_def)
    have rts: "set (ch_roots ?f) = {e \<in> set (ch_chain ?f). ce_is_root e \<and> ce_id e \<noteq> t}"
      using roots noroot by auto
    show ?thesis
      by (rule exI[of _ ?f], intro conjI res srt rts) (use all cyc len False obs(1) dist s'(3,4) in simp_all)
  qed
qed

lemma blocker_chain_correct_witness:
  "\<exists>r. get_blocker_chain (new_analyzer demo_cycle 0) ''c'' = Some (Some r) \<and> ch_is_blocked r \<and>
    ce_id (hd (ch_chain r)) = ''c''"
proof -
  have "\<exists>i. mget (an_issue_map (new_analyzer demo_cycle 0)) ''c'' = Some i"
  proof -
    have "map_option issue_id (mget (an_issue_map (new_analyzer demo_cycle 0)) ''c'') = Some ''c''" by code_simp
    then show ?thesis by auto
  qed
  moreover have "blockers (readiness (new_analyzer demo_cycle 0)) ''c'' = [''a'']" by code_simp
  ultimately show ?thesis using blocker_chain_correct[of "new_analyzer demo_cycle 0" "''c''"] by auto
qed

end
