(* ===== verification/Bv_Plan.thy ===== *)
theory Bv_Plan
  imports Bv_Triage_Props
begin

text \<open>
  Execution plans of \<open>pkg/analysis/plan.go\<close>: what a completion unblocks, the connected components
  found by union-find with path compression, the tracks built from them, and the summary.

  The union-find forest is the Go map \<open>parent\<close>. \<open>find\<close> follows it without a bound, so it is a
  \<open>partial_function\<close>: \<open>None\<close> is a run that does not end, and the lemmas show that on the forests the
  code builds it always ends.
\<close>

definition compute_unblocks :: "analyzer \<Rightarrow> string \<Rightarrow> string list" where
  "compute_unblocks a iid =
     (case mget (an_id_to_node a) iid of None \<Rightarrow> [] | Some v \<Rightarrow>
     (case mget (an_issue_map a) iid of None \<Rightarrow> [] | Some b \<Rightarrow>
      if is_closed_like_status (status b) then []
      else sort (filter (\<lambda>x. is_actionable_after_completions a x [iid])
             (map (\<lambda>u. mget_or [] (an_node_to_id a) u) (cg_to (an_graph a) (int v))))))"

section \<open>Union-find\<close>

type_synonym forest = "(string, string) gomap"

partial_function (option) find_root :: "forest \<Rightarrow> string \<Rightarrow> (string \<times> forest) option" where
  "find_root p x =
     (let p = (if mget_or [] p x = [] then mput x x p else p);
          y = mget_or [] p x
      in if y \<noteq> x
         then Option.bind (find_root p y) (\<lambda>(r, p). Some (r, mput x r p))
         else Some (y, p))"

declare find_root.simps [code]

definition union_roots :: "forest \<Rightarrow> string \<Rightarrow> string \<Rightarrow> forest option" where
  "union_roots p x y =
     Option.bind (find_root p x) (\<lambda>(px, p).
     Option.bind (find_root p y) (\<lambda>(py, p).
       Some (if px \<noteq> py then (if px < py then mput py px p else mput px py p) else p)))"

definition joins :: "dependency \<Rightarrow> bool" where
  "joins d \<longleftrightarrow> is_blocking (dep_kind d) \<or> dep_kind d = DepParentChild"

definition union_issue :: "(string, issue) gomap \<Rightarrow> string \<Rightarrow> forest \<Rightarrow> forest option" where
  "union_issue m k p = (case mget m k of None \<Rightarrow> Some p | Some i \<Rightarrow>
     run (\<lambda>dep p. case dep of None \<Rightarrow> Some p | Some d \<Rightarrow>
            if joins d \<and> mget m (dep_on d) \<noteq> None then union_roots p (issue_id i) (dep_on d) else Some p)
       (dependencies i) p)"

definition group_issue :: "string \<Rightarrow> (string, string list) gomap \<times> forest \<Rightarrow>
    ((string, string list) gomap \<times> forest) option" where
  "group_issue k = (\<lambda>(comps, p).
     Option.bind (find_root p k) (\<lambda>(r, p). Some (mput r (mget_or [] comps r @ [k]) comps, p)))"

definition find_connected_components :: "analyzer \<Rightarrow> (string, string list) gomap option" where
  "find_connected_components a =
     (let m = an_issue_map a;
          ids = sorted_ids m;
          p = fold (\<lambda>k p. mput k k p) ids []
      in Option.bind (run (union_issue m) ids p) (\<lambda>p.
           map_option fst (run group_issue ids ([], p))))"

section \<open>Tracks\<close>

record plan_item =
  pi_id :: string
  pi_title :: string
  pi_priority :: int
  pi_status :: string
  pi_unblocks :: "string list"

record execution_track =
  track_id :: string
  track_items :: "plan_item list"
  track_reason :: string

record plan_summary =
  highest_impact :: string
  impact_reason :: string
  summary_unblocks :: int

record execution_plan =
  plan_tracks :: "execution_track list"
  total_actionable :: int
  total_blocked :: int
  summary :: plan_summary

text \<open>Base-26 letters: \<open>n\<close> is 0-based here, the loop runs while it is not negative.\<close>

function track_letters :: "int \<Rightarrow> string \<Rightarrow> string" where
  "track_letters n letters =
     (if n \<ge> 0 then track_letters (n div 26 - 1) (char_of (65 + nat (n mod 26) :: nat) # letters)
      else letters)"
  by pat_completeness auto
termination
  by (relation "measure (\<lambda>(n, letters). nat (n + 1))") auto

declare track_letters.simps [simp del]

definition generate_track_id :: "int \<Rightarrow> string" where
  "generate_track_id n =
     (if n \<le> 0 then ''track-?'' else ''track-'' @ track_letters (n - 1) [])"

definition plan_less :: "issue \<Rightarrow> issue \<Rightarrow> bool" where
  "plan_less i j =
     (if priority i \<noteq> priority j then priority i < priority j else issue_id i < issue_id j)"

interpretation plan_order: less_contract plan_less
proof
  fix x y z
  show "\<not> plan_less x x" by (simp add: plan_less_def)
  show "plan_less x y \<Longrightarrow> plan_less y z \<Longrightarrow> plan_less x z" by (auto simp: plan_less_def split: if_splits)
  show "plan_less x z \<Longrightarrow> plan_less x y \<or> plan_less y z" by (auto simp: plan_less_def split: if_splits)
qed

definition id_less :: "issue \<Rightarrow> issue \<Rightarrow> bool" where
  "id_less i j \<longleftrightarrow> issue_id i < issue_id j"

interpretation id_order: less_contract id_less
  by unfold_locales (auto simp: id_less_def)

definition plan_item_of :: "(string, string list) gomap \<Rightarrow> issue \<Rightarrow> plan_item" where
  "plan_item_of um i = \<lparr>pi_id = issue_id i, pi_title = title i, pi_priority = priority i,
     pi_status = status i, pi_unblocks = mget_or [] um (issue_id i)\<rparr>"

definition actionable_members ::
  "analyzer \<Rightarrow> (string, bool) gomap \<Rightarrow> string list \<Rightarrow> issue list" where
  "actionable_members a act members =
     List.map_filter (\<lambda>k. if mget_or False act k then mget (an_issue_map a) k else None) members"

text \<open>One root of the loop in \<open>buildTracks\<close>: the tracks so far and the next track number.\<close>

definition build_track ::
  "analyzer \<Rightarrow> (string, string list) gomap \<Rightarrow> (string, bool) gomap \<Rightarrow> (string, string list) gomap \<Rightarrow>
   string \<Rightarrow> execution_track list \<times> int \<Rightarrow> execution_track list \<times> int" where
  "build_track a comps act um root = (\<lambda>(tracks, num).
     (let am = actionable_members a act (mget_or [] comps root)
      in if am = [] then (tracks, num)
         else
           (let am' = sort_by plan_less am;
                reason = (if length am' = 1 then ''Single actionable item''
                          else if length comps = 1 then ''All issues in connected graph''
                          else ''Independent work stream'')
            in (tracks @ [\<lparr>track_id = generate_track_id num, track_items = map (plan_item_of um) am',
                           track_reason = reason\<rparr>], num + 1))))"

definition build_tracks ::
  "analyzer \<Rightarrow> (string, string list) gomap \<Rightarrow> (string, bool) gomap \<Rightarrow> (string, string list) gomap \<Rightarrow>
   execution_track list" where
  "build_tracks a comps act um = fst (fold (build_track a comps act um) (sort (mkeys comps)) ([], 1))"

section \<open>Summary and plan\<close>

definition better :: "(string, string list) gomap \<Rightarrow> issue \<Rightarrow> string \<times> int \<times> int \<Rightarrow> string \<times> int \<times> int" where
  "better um i = (\<lambda>(hid, hcount, hprio).
     (let c = int (length (mget_or [] um (issue_id i)))
      in if c > hcount \<or> (c = hcount \<and> priority i < hprio) then (issue_id i, c, priority i)
         else (hid, hcount, hprio)))"

definition compute_plan_summary :: "issue list \<Rightarrow> (string, string list) gomap \<Rightarrow> plan_summary" where
  "compute_plan_summary act um =
     (if act = [] then \<lparr>highest_impact = [], impact_reason = [], summary_unblocks = 0\<rparr>
      else
        (let (hid, hcount, hprio) = fold (better um) (sort_by id_less act) ([], -1, 0)
         in \<lparr>highest_impact = hid,
             impact_reason = (if hcount = 1 then ''Unblocks 1 task''
                              else if hcount > 1 then ''Unblocks multiple tasks''
                              else ''No downstream dependencies''),
             summary_unblocks = hcount\<rparr>))"

text \<open>\<open>ord\<close> is the order in which the unblocks map ranges over the issue map.\<close>

definition get_execution_plan :: "string list \<Rightarrow> analyzer \<Rightarrow> execution_plan option" where
  "get_execution_plan ord a =
     (let act = actionable_issues_after a [];
          act_set = fold (\<lambda>i m. mput (issue_id i) True m) act [];
          um = fst (unblocks_map ord (new_triage_context a))
      in Option.bind (find_connected_components a) (\<lambda>comps.
        (let tracks = build_tracks a comps act_set um;
             open_count = fold (\<lambda>(k, i) c. if is_candidate a (issue_id i) \<and> \<not> is_closed_like_status (status i)
                                       then c + 1 else c) (an_issue_map a) 0
         in Some \<lparr>plan_tracks = tracks, total_actionable = int (length act),
                  total_blocked = open_count - int (length act),
                  summary = compute_plan_summary act um\<rparr>)))"

section \<open>Correctness of union-find\<close>

text \<open>
  A forest represents the root function \<open>f\<close>: parents have the same root and a smaller or equal id,
  and a node that is its own parent is a root. \<open>D\<close> is the set of ids; none of them is empty (an
  empty parent means that there is none).
\<close>

definition represents :: "string set \<Rightarrow> (string \<Rightarrow> string) \<Rightarrow> forest \<Rightarrow> bool" where
  "represents D f p \<longleftrightarrow> finite D \<and> [] \<notin> D \<and> set (mkeys p) = D \<and>
     (\<forall>x \<in> D. f x \<in> D \<and> f (f x) = f x \<and> f x \<le> x) \<and>
     (\<forall>x y. mget p x = Some y \<longrightarrow> y \<in> D \<and> f y = f x \<and> y \<le> x \<and> (y = x \<longrightarrow> f x = x))"

lemma representsD:
  assumes "represents D f p" "x \<in> D"
  shows "f x \<in> D" "f (f x) = f x" "f x \<le> x" "x \<noteq> []"
    "\<exists>y. mget p x = Some y \<and> y \<in> D \<and> f y = f x \<and> y \<le> x \<and> (y = x \<longrightarrow> f x = x)"
  using assms by (auto simp: represents_def mkeys_ex)

lemma represents_compress: "represents D f p \<Longrightarrow> x \<in> D \<Longrightarrow> represents D f (mput x (f x) p)"
  by (auto simp: represents_def split: if_splits)

lemma find_root_correct:
  assumes "represents D f p" "x \<in> D"
  shows "\<exists>p'. find_root p x = Some (f x, p') \<and> represents D f p'"
  using assms
proof (induction "card {y \<in> D. y < x}" arbitrary: x p rule: less_induct)
  case less
  obtain y where y: "mget p x = Some y" "y \<in> D" "f y = f x" "y \<le> x" "y = x \<longrightarrow> f x = x"
    using representsD(5)[OF less.prems] by blast
  have ne: "y \<noteq> []" using representsD(4)[OF less.prems(1) y(2)] .
  then have step: "find_root p x =
      (if y \<noteq> x then Option.bind (find_root p y) (\<lambda>(r, p). Some (r, mput x r p)) else Some (y, p))"
    using y(1) by (subst find_root.simps) (simp add: mget_or_def)
  show ?case
  proof (cases "y = x")
    case True
    then show ?thesis using step y less.prems by simp
  next
    case False
    then have "y < x" using y(4) by simp
    then have "card {z \<in> D. z < y} < card {z \<in> D. z < x}"
      using less.prems y(2) by (intro psubset_card_mono) (auto simp: represents_def)
    from less.hyps[OF this less.prems(1) y(2)] obtain p1 where
      "find_root p y = Some (f y, p1)" "represents D f p1" by blast
    then show ?thesis using step False y(3) less.prems(2) by (auto intro: represents_compress)
  qed
qed

definition merge_roots :: "(string \<Rightarrow> string) \<Rightarrow> string \<Rightarrow> string \<Rightarrow> string \<Rightarrow> string" where
  "merge_roots f x y = (\<lambda>z. if f z = max (f x) (f y) then min (f x) (f y) else f z)"

lemma represents_link:
  assumes "represents D f p" "a \<in> D" "b \<in> D" "f a = a" "f b = b" "a < b"
  shows "represents D (\<lambda>z. if f z = b then a else f z) (mput b a p)"
  unfolding represents_def
proof (intro conjI ballI allI impI)
  fix x assume x: "x \<in> D"
  show "(if f x = b then a else f x) \<le> x"
    using assms(6) representsD(3)[OF assms(1) x] by (auto intro: order_trans[OF order_less_imp_le])
  from x show "(if f x = b then a else f x) \<in> D"
    "(if f (if f x = b then a else f x) = b then a else f (if f x = b then a else f x)) = (if f x = b then a else f x)"
    using assms representsD[OF assms(1)] by auto
next
  fix x y assume xy: "mget (mput b a p) x = Some y"
  have old: "x \<noteq> b \<Longrightarrow> y \<in> D \<and> f y = f x \<and> y \<le> x \<and> (y = x \<longrightarrow> f x = x)"
    using assms(1) xy by (simp add: represents_def)
  show "y \<in> D" "(if f y = b then a else f y) = (if f x = b then a else f x)" "y \<le> x"
    using xy old assms by (auto split: if_splits)
  assume "y = x"
  then show "(if f x = b then a else f x) = x" using xy old assms by (auto split: if_splits)
qed (use assms in \<open>auto simp: represents_def\<close>)

lemma union_roots_correct:
  assumes "represents D f p" "x \<in> D" "y \<in> D"
  shows "\<exists>p'. union_roots p x y = Some p' \<and> represents D (merge_roots f x y) p'"
proof -
  obtain p1 where p1: "find_root p x = Some (f x, p1)" "represents D f p1"
    using find_root_correct[OF assms(1,2)] by blast
  obtain p2 where p2: "find_root p1 y = Some (f y, p2)" "represents D f p2"
    using find_root_correct[OF p1(2) assms(3)] by blast
  note r = representsD[OF assms(1,2)] representsD[OF assms(1,3)]
  consider "f x = f y" | "f x < f y" | "f y < f x" by (metis linorder_less_linear)
  then show ?thesis
  proof cases
    case 1
    then have "merge_roots f x y = f" by (auto simp: merge_roots_def)
    then show ?thesis using 1 p1 p2 by (simp add: union_roots_def)
  next
    case 2
    then have "merge_roots f x y = (\<lambda>z. if f z = f y then f x else f z)" by (auto simp: merge_roots_def)
    then show ?thesis
      using 2 p1 p2 r represents_link[OF p2(2), of "f x" "f y"] by (auto simp: union_roots_def)
  next
    case 3
    then have "merge_roots f x y = (\<lambda>z. if f z = f x then f y else f z)" by (auto simp: merge_roots_def)
    then show ?thesis
      using 3 p1 p2 r represents_link[OF p2(2), of "f y" "f x"] by (auto simp: union_roots_def)
  qed
qed

end
