(* ===== verification/Bv_Plan_Props.thy ===== *)
theory Bv_Plan_Props
  imports Bv_Plan
begin

text \<open>
  What plans promise: the components are the classes of the connectivity relation, named by their
  smallest id; tracks partition the actionable issues; track names are distinct; the summary names
  an issue that unblocks the most; and the direct what-if query agrees with the readiness rules.
\<close>

section \<open>Connected components\<close>

text \<open>The records that join two existing issues, and the equivalence they generate.\<close>

definition joined :: "(string, issue) gomap \<Rightarrow> (string \<times> string) set" where
  "joined m = {(x, y). mget m y \<noteq> None \<and>
     (\<exists>i d. mget m x = Some i \<and> Some d \<in> set (dependencies i) \<and> joins d \<and> dep_on d = y)}"

definition conn :: "(string \<times> string) set \<Rightarrow> (string \<times> string) set" where
  "conn E = (E \<union> E\<inverse>)\<^sup>*"

lemma conn_refl [simp]: "(x, x) \<in> conn E"
  by (simp add: conn_def)

lemma conn_sym: "(x, y) \<in> conn E \<Longrightarrow> (y, x) \<in> conn E"
  unfolding conn_def by (meson sym_Un_converse sym_rtrancl symD)

lemma conn_trans: "(x, y) \<in> conn E \<Longrightarrow> (y, z) \<in> conn E \<Longrightarrow> (x, z) \<in> conn E"
  unfolding conn_def by (rule rtrancl_trans)

lemma conn_edge: "(x, y) \<in> E \<Longrightarrow> (x, y) \<in> conn E"
  by (auto simp: conn_def)

lemma conn_mono: "E \<subseteq> F \<Longrightarrow> (x, y) \<in> conn E \<Longrightarrow> (x, y) \<in> conn F"
  unfolding conn_def by (metis Un_mono converse_mono rtrancl_mono subsetD)

text \<open>A root function that describes the connectivity of the edges processed so far.\<close>

definition root_fun :: "string set \<Rightarrow> (string \<times> string) set \<Rightarrow> (string \<Rightarrow> string) \<Rightarrow> bool" where
  "root_fun D E f \<longleftrightarrow> (\<forall>(x, y) \<in> E. f x = f y) \<and> (\<forall>z \<in> D. (z, f z) \<in> conn E)"

lemma root_fun_conn:
  assumes "root_fun D E f" "x \<in> D" "y \<in> D"
  shows "f x = f y \<longleftrightarrow> (x, y) \<in> conn E"
proof
  assume "f x = f y"
  then show "(x, y) \<in> conn E"
    using assms by (metis root_fun_def conn_sym conn_trans)
next
  assume "(x, y) \<in> conn E"
  then show "f x = f y"
    unfolding conn_def
    by (induction rule: rtrancl_induct) (use assms(1) in \<open>auto simp: root_fun_def\<close>)
qed

lemma root_fun_merge:
  assumes "root_fun D E f" "x \<in> D" "y \<in> D" "\<And>z. z \<in> D \<Longrightarrow> f z \<in> D"
  shows "root_fun D (insert (x, y) E) (merge_roots f x y)"
proof -
  have c: "(z, f z) \<in> conn (insert (x, y) E)" if "z \<in> D" for z
    using assms(1) that by (auto simp: root_fun_def intro: conn_mono[of E])
  have "(x, y) \<in> conn (insert (x, y) E)" by (simp add: conn_edge)
  with c assms(2,3) have "(f x, f y) \<in> conn (insert (x, y) E)" by (meson conn_sym conn_trans)
  then have m: "(max (f x) (f y), min (f x) (f y)) \<in> conn (insert (x, y) E)"
    by (auto simp: max_def min_def dest: conn_sym)
  have "(z, merge_roots f x y z) \<in> conn (insert (x, y) E)" if "z \<in> D" for z
    using c[OF that] m conn_trans by (auto simp: merge_roots_def)
  moreover have "merge_roots f x y u = merge_roots f x y v" if "(u, v) \<in> insert (x, y) E" for u v
    using that assms(1) by (auto simp: merge_roots_def root_fun_def max_def min_def)
  ultimately show ?thesis by (auto simp: root_fun_def)
qed

definition union_edges :: "(string, issue) gomap \<Rightarrow> string \<Rightarrow> (string \<times> string) set" where
  "union_edges m k = {(x, y) \<in> joined m. x = k}"

lemma union_deps_correct:
  assumes "represents D f p" "root_fun D E f" "k \<in> D" "D = set (mkeys m)"
  shows "\<exists>f' p'. run (\<lambda>dep p. case dep of None \<Rightarrow> Some p | Some d \<Rightarrow>
            if joins d \<and> mget m (dep_on d) \<noteq> None then union_roots p k (dep_on d) else Some p) ds p = Some p' \<and>
     represents D f' p' \<and>
     root_fun D (E \<union> Pair k ` {y. \<exists>d. Some d \<in> set ds \<and> joins d \<and> dep_on d = y \<and> mget m y \<noteq> None}) f'"
  using assms(1,2)
proof (induction ds arbitrary: f p E)
  case (Cons dep ds)
  show ?case
  proof (cases "\<exists>d. dep = Some d \<and> joins d \<and> mget m (dep_on d) \<noteq> None")
    case True
    then obtain d where d: "dep = Some d" "joins d" "mget m (dep_on d) \<noteq> None" by blast
    have y: "dep_on d \<in> D" using d(3) assms(4) by (auto simp: mkeys_ex)
    obtain p1 where p1: "union_roots p k (dep_on d) = Some p1" "represents D (merge_roots f k (dep_on d)) p1"
      using union_roots_correct[OF Cons.prems(1) assms(3) y] by blast
    have r: "root_fun D (insert (k, dep_on d) E) (merge_roots f k (dep_on d))"
      using Cons.prems assms(3) y by (intro root_fun_merge) (auto simp: represents_def)
    have "insert (k, dep_on d) E \<union> Pair k ` {y. \<exists>d. Some d \<in> set ds \<and> joins d \<and> dep_on d = y \<and> mget m y \<noteq> None} =
        E \<union> Pair k ` {y. \<exists>d. Some d \<in> set (dep # ds) \<and> joins d \<and> dep_on d = y \<and> mget m y \<noteq> None}"
      using d by auto
    with Cons.IH[OF p1(2) r] show ?thesis using d p1(1) by simp
  next
    case False
    then have "Pair k ` {y. \<exists>d. Some d \<in> set ds \<and> joins d \<and> dep_on d = y \<and> mget m y \<noteq> None} =
        Pair k ` {y. \<exists>d. Some d \<in> set (dep # ds) \<and> joins d \<and> dep_on d = y \<and> mget m y \<noteq> None}"
      by auto
    moreover have "(case dep of None \<Rightarrow> Some p | Some d \<Rightarrow>
            if joins d \<and> mget m (dep_on d) \<noteq> None then union_roots p k (dep_on d) else Some p) = Some p"
      using False by (auto split: option.splits)
    ultimately show ?thesis using Cons.IH[OF Cons.prems] by simp
  qed
qed (use assms in auto)

lemma union_issue_correct:
  assumes "represents D f p" "root_fun D E f" "D = set (mkeys m)" "k \<in> D"
    and "\<And>k i. mget m k = Some i \<Longrightarrow> issue_id i = k"
  shows "\<exists>f' p'. union_issue m k p = Some p' \<and> represents D f' p' \<and> root_fun D (E \<union> union_edges m k) f'"
proof -
  obtain i where i: "mget m k = Some i" using assms(3,4) by (auto simp: mkeys_ex)
  have "Pair k ` {y. \<exists>d. Some d \<in> set (dependencies i) \<and> joins d \<and> dep_on d = y \<and> mget m y \<noteq> None} = union_edges m k"
    unfolding set_eq_iff by (auto simp: i union_edges_def joined_def image_iff)
  with union_deps_correct[OF assms(1,2,4,3), of "dependencies i"] show ?thesis
    unfolding union_issue_def i option.case assms(5)[OF i] by simp
qed

lemma union_issues_correct:
  assumes "represents D f p" "root_fun D E f" "D = set (mkeys m)" "set ids \<subseteq> D"
    and "\<And>k i. mget m k = Some i \<Longrightarrow> issue_id i = k"
  shows "\<exists>f' p'. run (union_issue m) ids p = Some p' \<and> represents D f' p' \<and>
    root_fun D (E \<union> (\<Union>k \<in> set ids. union_edges m k)) f'"
  using assms(1,2,4)
proof (induction ids arbitrary: f p E)
  case (Cons k ids)
  then obtain f1 p1 where s: "union_issue m k p = Some p1" "represents D f1 p1" "root_fun D (E \<union> union_edges m k) f1"
    using union_issue_correct[OF Cons.prems(1,2) assms(3) _ assms(5), of k] Cons.prems(3)
    by (metis list.set_intros(1) subsetD)
  have "E \<union> union_edges m k \<union> (\<Union>k \<in> set ids. union_edges m k) = E \<union> (\<Union>k \<in> set (k # ids). union_edges m k)"
    by auto
  with Cons.IH[OF s(2,3)] Cons.prems(3) s(1) show ?case by simp
qed auto

lemma init_forest: "represents (set ids) (\<lambda>x. x) (fold (\<lambda>k p. mput k k p) ids [])" if "[] \<notin> set ids"
proof -
  have "mget (fold (\<lambda>k p. mput k k p) ids p) x = (if x \<in> set ids then Some x else mget p x)" for p x
    by (induction ids arbitrary: p) auto
  then show ?thesis using that by (auto simp: represents_def mkeys_ex split: if_splits)
qed

lemma group_issues_correct:
  assumes "represents D f p" "set ids \<subseteq> D"
  shows "\<exists>comps' p'. run group_issue ids (comps, p) = Some (comps', p') \<and>
    (\<forall>r. mget_or [] comps' r = mget_or [] comps r @ filter (\<lambda>k. f k = r) ids) \<and>
    set (mkeys comps') = set (mkeys comps) \<union> f ` set ids \<and> (gomap_ok comps \<longrightarrow> gomap_ok comps')"
  using assms
proof (induction ids arbitrary: comps p)
  case (Cons k ids)
  obtain p1 where p1: "find_root p k = Some (f k, p1)" "represents D f p1"
    using find_root_correct[OF Cons.prems(1), of k] Cons.prems(2) by auto
  have "group_issue k (comps, p) = Some (mput (f k) (mget_or [] comps (f k) @ [k]) comps, p1)"
    by (simp add: group_issue_def p1)
  with Cons.IH[OF p1(2), of "mput (f k) (mget_or [] comps (f k) @ [k]) comps"] Cons.prems(2)
  show ?case by auto
qed auto

text \<open>The components, described by a root function.\<close>

lemma components_root_fun:
  assumes ok: "gomap_ok m" and m: "an_issue_map a = m" and ne: "[] \<notin> set (mkeys m)"
    and idk: "\<And>k i. mget m k = Some i \<Longrightarrow> issue_id i = k"
  obtains f comps where "find_connected_components a = Some comps" "gomap_ok comps"
    "set (mkeys comps) = f ` set (mkeys m)"
    "\<And>r. mget_or [] comps r = filter (\<lambda>k. f k = r) (sorted_ids m)"
    "\<And>x. x \<in> set (mkeys m) \<Longrightarrow> f x \<in> set (mkeys m) \<and> f (f x) = f x \<and> f x \<le> x"
    "\<And>x y. x \<in> set (mkeys m) \<Longrightarrow> y \<in> set (mkeys m) \<Longrightarrow> f x = f y \<longleftrightarrow> (x, y) \<in> conn (joined m)"
proof -
  let ?D = "set (mkeys m)" and ?ids = "sorted_ids m"
  have init: "represents ?D (\<lambda>x. x) (fold (\<lambda>k p. mput k k p) ?ids [])"
    using init_forest[of ?ids] ne by simp
  have "root_fun ?D {} (\<lambda>x. x)" by (simp add: root_fun_def)
  then obtain f p where u: "run (union_issue m) ?ids (fold (\<lambda>k p. mput k k p) ?ids []) = Some p"
      "represents ?D f p" "root_fun ?D ({} \<union> (\<Union>k \<in> set ?ids. union_edges m k)) f"
    using union_issues_correct[OF init _ refl _ idk, of "{}" ?ids] by auto
  have "joined m \<subseteq> ?D \<times> UNIV" by (auto simp: joined_def mkeys_ex)
  then have "(\<Union>k \<in> set ?ids. union_edges m k) = joined m" by (auto simp: union_edges_def)
  with u(3) have rf: "root_fun ?D (joined m) f" by simp
  obtain comps p' where g: "run group_issue ?ids ([], p) = Some (comps, p')"
      "\<forall>r. mget_or [] comps r = filter (\<lambda>k. f k = r) ?ids" "set (mkeys comps) = f ` set (mkeys m)" "gomap_ok comps"
    using group_issues_correct[OF u(2), of ?ids "[]"] by auto
  have "find_connected_components a = Some comps"
    by (simp add: find_connected_components_def m Let_def u(1) g(1))
  then show thesis
    using that[of comps f] g rf u(2) root_fun_conn[OF rf] by (auto simp: represents_def)
qed

text \<open>C17: On a tracker whose ids are not empty, the union-find ends and its components are the classes
  of the relation generated by blocking and parent-child records between existing issues: two issues
  share a component exactly when they are connected; every component is listed in ascending order
  and is named by its smallest id, so neither the merge order nor path compression shows.\<close>

theorem components_are_connectivity:
  assumes "[] \<notin> issue_id ` set issues"
  shows "\<exists>comps. find_connected_components (new_analyzer issues now) = Some comps \<and>
    (\<forall>r ms. mget comps r = Some ms \<longrightarrow> ms \<noteq> [] \<and> hd ms = r \<and> sorted_wrt (<) ms \<and>
       set ms = {x \<in> issue_id ` set issues. (x, r) \<in> conn (joined (issue_map_of issues))}) \<and>
    (\<forall>x \<in> issue_id ` set issues. \<exists>r ms. mget comps r = Some ms \<and> x \<in> set ms)"
proof -
  let ?m = "issue_map_of issues"
  have keys: "set (mkeys ?m) = issue_id ` set issues"
    by (auto simp: mkeys_ex issue_map_of_get find_None_iff simp flip: not_None_eq)
  obtain f comps where c: "find_connected_components (new_analyzer issues now) = Some comps" "gomap_ok comps"
    "set (mkeys comps) = f ` set (mkeys ?m)"
    "\<And>r. mget_or [] comps r = filter (\<lambda>k. f k = r) (sorted_ids ?m)"
    "\<And>x. x \<in> set (mkeys ?m) \<Longrightarrow> f x \<in> set (mkeys ?m) \<and> f (f x) = f x \<and> f x \<le> x"
    "\<And>x y. x \<in> set (mkeys ?m) \<Longrightarrow> y \<in> set (mkeys ?m) \<Longrightarrow> f x = f y \<longleftrightarrow> (x, y) \<in> conn (joined ?m)"
    by (rule components_root_fun[of ?m "new_analyzer issues now"])
      (use assms keys issue_map_of_id in auto)
  have comp: "ms \<noteq> [] \<and> hd ms = r \<and> sorted_wrt (<) ms \<and>
       set ms = {x \<in> issue_id ` set issues. (x, r) \<in> conn (joined ?m)}" if "mget comps r = Some ms" for r ms
  proof -
    have ms: "ms = filter (\<lambda>k. f k = r) (sorted_ids ?m)" using c(4)[of r] that by (simp add: mget_or_def)
    have "r \<in> f ` set (mkeys ?m)" using that c(3) by auto
    then have r: "r \<in> set (mkeys ?m)" "f r = r" using c(5) by auto
    have st: "sorted_wrt (<) ms"
      using issue_map_of_ok[of issues]
      by (simp add: ms strict_sorted_iff sorted_filter[of id, simplified] gomap_ok_def)
    have set: "set ms = {x \<in> issue_id ` set issues. (x, r) \<in> conn (joined ?m)}"
      using c(6)[of _ r] r keys by (auto simp: ms)
    have "r \<in> set ms" using r by (simp add: ms)
    then obtain x xs where x: "ms = x # xs" by (cases ms) auto
    have "x \<in> set (filter (\<lambda>k. f k = r) (sorted_ids ?m))" using x ms by simp
    then have "r \<le> x" using c(5)[of x] by auto
    moreover have "x \<le> r" using st \<open>r \<in> set ms\<close> x by (auto intro: less_imp_le)
    ultimately show ?thesis using x st set by auto
  qed
  moreover have "\<exists>r ms. mget comps r = Some ms \<and> x \<in> set ms" if "x \<in> issue_id ` set issues" for x
  proof -
    have x: "x \<in> set (mkeys ?m)" using that keys by simp
    then have "f x \<in> set (mkeys comps)" using c(3) by simp
    then obtain ms where "mget comps (f x) = Some ms" by (auto simp: mkeys_ex)
    moreover from this have "ms = filter (\<lambda>k. f k = f x) (sorted_ids ?m)"
      using c(4)[of "f x"] by (simp add: mget_or_def)
    moreover from this x have "x \<in> set ms" by simp
    ultimately show ?thesis by blast
  qed
  ultimately show ?thesis using c(1) by blast
qed

lemma components_are_connectivity_witness:
  "\<exists>comps. find_connected_components (new_analyzer demo_tracker 0) = Some comps \<and>
    (\<exists>r ms. mget comps r = Some ms \<and> ''d'' \<in> set ms)"
  using components_are_connectivity[of demo_tracker 0] by (fastforce simp: demo_defs)

section \<open>Track names\<close>

text \<open>The value of a name in bijective base 26: A is 1, Z is 26, AA is 27.\<close>

definition letters_value :: "string \<Rightarrow> int" where
  "letters_value s = fold (\<lambda>c v. 26 * v + (of_char c - 64)) s 0"

lemma letters_value_snoc: "letters_value (s @ [c]) = 26 * letters_value s + (of_char c - 64)"
  by (simp add: letters_value_def)

lemma letter_char:
  assumes "0 \<le> r" "r < (26 :: int)"
  shows "of_char (char_of (65 + nat r :: nat)) = r + 65" "CHR ''A'' \<le> char_of (65 + nat r :: nat)"
    "char_of (65 + nat r :: nat) \<le> CHR ''Z''"
proof -
  have n: "of_char (char_of (65 + nat r :: nat)) = (65 + nat r :: nat)"
    using assms by (simp add: of_char_of take_bit_eq_mod)
  have "(of_char (char_of (65 + nat r :: nat)) :: int) = int (of_char (char_of (65 + nat r :: nat)))"
    by (metis of_nat_of_char)
  then show "of_char (char_of (65 + nat r :: nat)) = r + 65" using n assms by simp
  show "CHR ''A'' \<le> char_of (65 + nat r :: nat)" "char_of (65 + nat r :: nat) \<le> CHR ''Z''"
    using n assms by (simp_all add: less_eq_char_def)
qed

lemma track_letters_value:
  "-1 \<le> n \<Longrightarrow> \<exists>ls. track_letters n acc = ls @ acc \<and> letters_value ls = n + 1 \<and>
     (\<forall>c \<in> set ls. CHR ''A'' \<le> c \<and> c \<le> CHR ''Z'')"
proof (induction n acc rule: track_letters.induct)
  case (1 n acc)
  show ?case
  proof (cases "n \<ge> 0")
    case True
    define c where "c = (char_of (65 + nat (n mod 26) :: nat))"
    have c: "of_char c = n mod 26 + 65" "CHR ''A'' \<le> c" "c \<le> CHR ''Z''"
      unfolding c_def using True by (intro letter_char; simp)+
    obtain ls where ls: "track_letters (n div 26 - 1) (c # acc) = ls @ c # acc" "letters_value ls = n div 26"
      "\<forall>c \<in> set ls. CHR ''A'' \<le> c \<and> c \<le> CHR ''Z''"
      using "1.IH"[OF True] True div_int_pos_iff[of n 26] by (auto simp: c_def)
    have "track_letters n acc = (ls @ [c]) @ acc"
      using True ls(1) by (subst track_letters.simps) (simp add: c_def)
    moreover have "letters_value (ls @ [c]) = n + 1"
      by (simp add: letters_value_snoc ls(2) c(1))
    moreover have "\<forall>c \<in> set (ls @ [c]). CHR ''A'' \<le> c \<and> c \<le> CHR ''Z''" using ls(3) c by simp
    ultimately show ?thesis by blast
  next
    case False
    with 1 have "n = -1" by simp
    then show ?thesis by (subst track_letters.simps) (simp add: letters_value_def)
  qed
qed

text \<open>\<open>generateTrackID\<close> writes a positive number in bijective base 26 with the letters A to Z, for
  arbitrarily many tracks; so distinct track numbers get distinct names.\<close>

theorem track_id_roundtrip:
  assumes "0 < n"
  shows "\<exists>s. generate_track_id n = ''track-'' @ s \<and> letters_value s = n \<and>
      (\<forall>c \<in> set s. CHR ''A'' \<le> c \<and> c \<le> CHR ''Z'') \<and>
      (\<forall>k. 0 < k \<and> generate_track_id k = generate_track_id n \<longrightarrow> k = n)"
proof -
  have ex: "\<exists>s. generate_track_id n = ''track-'' @ s \<and> letters_value s = n \<and>
      (\<forall>c \<in> set s. CHR ''A'' \<le> c \<and> c \<le> CHR ''Z'')" if "0 < n" for n
    using track_letters_value[of "n - 1" "[]"] that by (auto simp: generate_track_id_def)
  have "k = n" if k: "0 < k" "generate_track_id k = generate_track_id n" for k
    using ex[OF k(1)] ex[OF assms] k(2) by auto
  with ex[OF assms] show ?thesis by blast
qed

lemma track_id_roundtrip_witness: "generate_track_id 703 = ''track-AAA'' \<and> generate_track_id 702 \<noteq> generate_track_id 703"
proof
  show "generate_track_id 703 = ''track-AAA''" by code_simp
  have "(0 :: int) < 703" "(0 :: int) < 702" "(702 :: int) \<noteq> 703" by simp_all
  then show "generate_track_id 702 \<noteq> generate_track_id 703" using track_id_roundtrip[of 703] by metis
qed

lemma inj_generate_track_id: "0 < j \<Longrightarrow> 0 < k \<Longrightarrow> generate_track_id j = generate_track_id k \<Longrightarrow> j = k"
  using track_letters_value[of "j - 1" "[]"] track_letters_value[of "k - 1" "[]"]
  by (auto simp: generate_track_id_def)

section \<open>The summary\<close>

definition impact :: "(string, string list) gomap \<Rightarrow> issue \<Rightarrow> int" where
  "impact um i = int (length (mget_or [] um (issue_id i)))"

text \<open>\<open>i\<close> is at least as good a choice as \<open>j\<close>: more unblocked issues, then priority, then id.\<close>

definition preferred :: "(string, string list) gomap \<Rightarrow> issue \<Rightarrow> issue \<Rightarrow> bool" where
  "preferred um i j \<longleftrightarrow> impact um j < impact um i \<or>
     impact um j = impact um i \<and>
       (priority i < priority j \<or> priority i = priority j \<and> issue_id i \<le> issue_id j)"

lemma better_step:
  "better um j (issue_id i, impact um i, priority i) =
     (if impact um j > impact um i \<or> (impact um j = impact um i \<and> priority j < priority i)
      then (issue_id j, impact um j, priority j) else (issue_id i, impact um i, priority i))"
  by (simp add: better_def impact_def)

lemma better_fold:
  assumes "is \<noteq> []" "sorted_wrt (\<lambda>i j. \<not> id_less j i) is"
  shows "\<exists>i \<in> set is. fold (better um) is ([], -1, 0) = (issue_id i, impact um i, priority i) \<and>
    (\<forall>j \<in> set is. preferred um i j)"
  using assms
proof (induction "is" rule: rev_induct)
  case (snoc j js)
  show ?case
  proof (cases "js = []")
    case True
    then show ?thesis by (simp add: better_def impact_def preferred_def)
  next
    case False
    then obtain i where i: "i \<in> set js" "fold (better um) js ([], -1, 0) = (issue_id i, impact um i, priority i)"
      "\<forall>k \<in> set js. preferred um i k"
      using snoc by (auto simp: sorted_wrt_append)
    have le: "issue_id i \<le> issue_id j" using snoc.prems(2) i(1) by (auto simp: sorted_wrt_append id_less_def)
    show ?thesis
    proof (cases "impact um j > impact um i \<or> (impact um j = impact um i \<and> priority j < priority i)")
      case True
      then have "preferred um j k" if "preferred um i k" for k
        using that by (auto simp: preferred_def)
      moreover have "preferred um j j" by (simp add: preferred_def)
      ultimately show ?thesis using True i by (simp add: better_step)
    next
      case no: False
      then have "preferred um i j" using le by (auto simp: preferred_def)
      then show ?thesis using no i by (intro bexI[of _ i]) (auto simp: better_step)
    qed
  qed
qed simp

text \<open>For a nonempty actionable list, the summary names the issue of that list that unblocks the
  most, among those the one with the smallest priority number, among those the smallest id; it reports
  how many issues it unblocks, in whatever order the list was given.\<close>

theorem plan_summary_best:
  assumes "act \<noteq> []"
  shows "\<exists>i \<in> set act. highest_impact (compute_plan_summary act um) = issue_id i \<and>
    summary_unblocks (compute_plan_summary act um) = impact um i \<and>
    (\<forall>j \<in> set act. preferred um i j)"
proof -
  obtain i where "i \<in> set act"
    "fold (better um) (sort_by id_less act) ([], -1, 0) = (issue_id i, impact um i, priority i)"
    "\<forall>j \<in> set act. preferred um i j"
    using better_fold[of "sort_by id_less act" um] id_order.sort_by_sorted[of act] assms by auto
  then show ?thesis using assms by (auto simp: compute_plan_summary_def)
qed

lemma plan_summary_best_witness:
  "\<exists>i \<in> set demo_tracker. highest_impact (compute_plan_summary demo_tracker [(''b'', [''p''])]) = issue_id i"
  using plan_summary_best[of demo_tracker "[(''b'', [''p''])]"] by (auto simp: demo_tracker_def)

section \<open>What one completion unblocks\<close>

lemma scope_raw [simp]:
  "an_graph (set_readiness_scope auth cand a) = an_graph a"
  "an_id_to_node (set_readiness_scope auth cand a) = an_id_to_node a"
  "an_node_to_id (set_readiness_scope auth cand a) = an_node_to_id a"
  by (auto simp: set_readiness_scope_def readiness_once_def Let_def split: option.splits)

lemma index_issues [simp]: "rx_issues (index_of_issues issues) = own_issues issues"
  by (simp add: index_of_issues_compute compute_def Let_def split: prod.splits)

lemma direct_dep_blocks:
  assumes "depends_on (issue_map_of issues) x b" "mget (issue_map_of issues) b = Some bi"
    "\<not> is_closed_like_status (status bi)" "mget (issue_map_of issues) x = Some i" "\<not> is_closed_like_status (status i)"
  shows "b \<in> set (blockers (index_of_issues issues) x)"
proof -
  obtain d where d: "Some d \<in> set (dependencies i)" "is_blocking (dep_kind d)" "dep_on d = b"
    using assms(1,4) by (auto simp: depends_on_def blocks_dep_def)
  have oi: "mget (rx_issues (index_of_issues issues)) x = Some (own_issue i)" by (simp add: own_issues_get assms(4))
  have nc: "\<not> closed_for_readiness (ri_status (own_issue i))"
    using assms(5) by (simp add: own_issue_def is_closed_like_status_def closed_for_readiness_def)
  let ?d = "\<lparr>rd_on = b, rd_kind = dep_kind d\<rparr>"
  have "?d \<in> set (ri_deps (own_issue i))"
    using d by (force simp: own_issue_def set_map_filter_eq image_iff)
  moreover have "blocks_now (index_of_issues issues) ?d"
    using d(2) assms(2,3)
    by (simp add: blocks_now_def closed_id_def own_issues_get own_issue_def is_closed_like_status_def closed_for_readiness_def)
  ultimately show ?thesis unfolding blockers_set[OF oi nc] by force
qed

text \<open>\<open>computeUnblocks\<close> lists, sorted, exactly the candidate issues with a direct blocking record on
  the given open issue that are actionable once it is completed, and none of them is actionable now:
  the completion changes all of them. For a closed or unknown issue the list is empty.\<close>

theorem compute_unblocks_correct:
  "let a = set_readiness_scope None cand (new_analyzer issues now); r = index_of_issues issues in
   sorted_wrt (<) (compute_unblocks a b) \<and>
   set (compute_unblocks a b) =
     (if \<exists>i. mget (issue_map_of issues) b = Some i \<and> \<not> is_closed_like_status (status i)
      then {x. is_candidate a x \<and> depends_on (issue_map_of issues) x b \<and> ready_after r x now [b]} else {}) \<and>
   set (compute_unblocks a b) \<inter> {x. ready r x now} = {}"
proof -
  let ?a = "set_readiness_scope None cand (new_analyzer issues now)" and ?r = "index_of_issues issues"
  let ?m = "issue_map_of issues" and ?ids = "node_ids issues"
  have main: "sorted_wrt (<) (compute_unblocks ?a b) \<and> set (compute_unblocks ?a b) =
      {x. is_candidate ?a x \<and> depends_on ?m x b \<and> ready_after ?r x now [b]} \<and>
      set (compute_unblocks ?a b) \<inter> {x. ready ?r x now} = {}"
    if bi: "mget ?m b = Some bi" "\<not> is_closed_like_status (status bi)" for bi
  proof -
    have "b \<in> set ?ids" using bi(1) by auto
    then obtain v where v: "v < length ?ids" "?ids ! v = b" unfolding in_set_conv_nth by blast
    define deps where "deps = map ((!) ?ids) (cg_in (an_graph (new_analyzer issues now)) ! v)"
    have "map (\<lambda>u. mget_or [] (index_nodes ?ids) u) (cg_in (an_graph (new_analyzer issues now)) ! v) = deps"
      using v by (auto simp: deps_def analyzer_in mget_or_def index_nodes_get)
    moreover have "mget (index_ids ?ids) b = Some v" using v by (simp add: index_ids_get)
    ultimately have cu: "compute_unblocks ?a b =
        sort (filter (\<lambda>x. is_actionable_after_completions ?a x [b]) deps)"
      using bi v by (simp add: compute_unblocks_def)
    have dset: "set deps = {x. depends_on ?m x b}"
    proof -
      have ex: "\<exists>u < length ?ids. ?ids ! u = x" if "depends_on ?m x b" for x
      proof -
        have "x \<in> set ?ids" using that by (auto simp: depends_on_def)
        then show ?thesis unfolding in_set_conv_nth .
      qed
      have "set deps = (!) ?ids ` {u. u < length ?ids \<and> depends_on ?m (?ids ! u) b}"
        using v by (auto simp: deps_def analyzer_in)
      also have "\<dots> = {x. depends_on ?m x b}" using ex by blast
      finally show ?thesis .
    qed
    have "distinct deps"
      using v by (auto simp: deps_def analyzer_in distinct_map inj_on_def nth_eq_iff_index_eq)
    then have st: "sorted_wrt (<) (compute_unblocks ?a b)" by (simp add: cu strict_sorted_iff)
    have set: "set (compute_unblocks ?a b) = {x. is_candidate ?a x \<and> depends_on ?m x b \<and> ready_after ?r x now [b]}"
      unfolding cu set_sort set_filter dset is_actionable_after_completions_def scope_simps option.case
      by (auto simp: depends_on_def)
    have "\<not> ready ?r x now" if x: "x \<in> set (compute_unblocks ?a b)" for x
    proof
      assume "ready ?r x now"
      then have "blockers ?r x = []" by (rule ready_no_blockers)
      moreover obtain i where "mget ?m x = Some i" "\<not> is_closed_like_status (status i)"
        using x ready_after_issue unfolding set by blast
      ultimately show False using direct_dep_blocks[OF _ bi, of x i] x unfolding set by simp
    qed
    with st set show ?thesis by blast
  qed
  have none: "compute_unblocks ?a b = []"
    if "\<nexists>i. mget ?m b = Some i \<and> \<not> is_closed_like_status (status i)"
    using that by (auto simp: compute_unblocks_def split: option.splits)
  show ?thesis
    using main none by (cases "\<exists>i. mget ?m b = Some i \<and> \<not> is_closed_like_status (status i)") (auto simp: Let_def)
qed

section \<open>Tracks\<close>

definition track_members :: "analyzer \<Rightarrow> (string, string list) gomap \<Rightarrow> (string, bool) gomap \<Rightarrow> string \<Rightarrow> issue list" where
  "track_members a comps act root = sort_by plan_less (actionable_members a act (mget_or [] comps root))"

definition used_roots :: "analyzer \<Rightarrow> (string, string list) gomap \<Rightarrow> (string, bool) gomap \<Rightarrow> string list \<Rightarrow> string list" where
  "used_roots a comps act roots = filter (\<lambda>r. actionable_members a act (mget_or [] comps r) \<noteq> []) roots"

lemma build_track_fold:
  "\<exists>ts. fold (build_track a comps act um) roots (tracks, n) = (tracks @ ts, n + int (length ts)) \<and>
     map track_items ts = map (\<lambda>r. map (plan_item_of um) (track_members a comps act r)) (used_roots a comps act roots) \<and>
     map track_id ts = map (\<lambda>i. generate_track_id (n + int i)) [0..<length ts]"
proof (induction roots arbitrary: tracks n)
  case Nil
  show ?case by (simp add: used_roots_def)
next
  case (Cons r roots)
  show ?case
  proof (cases "actionable_members a act (mget_or [] comps r) = []")
    case True
    then have "build_track a comps act um r (tracks, n) = (tracks, n)" by (simp add: build_track_def)
    with Cons.IH[of tracks n] True show ?thesis by (simp add: used_roots_def)
  next
    case False
    then obtain t where t: "build_track a comps act um r (tracks, n) = (tracks @ [t], n + 1)"
      "track_id t = generate_track_id n" "track_items t = map (plan_item_of um) (track_members a comps act r)"
      by (auto simp: build_track_def track_members_def Let_def)
    obtain ts where ts: "fold (build_track a comps act um) roots (tracks @ [t], n + 1) = ((tracks @ [t]) @ ts, n + 1 + int (length ts))"
      "map track_items ts = map (\<lambda>r. map (plan_item_of um) (track_members a comps act r)) (used_roots a comps act roots)"
      "map track_id ts = map (\<lambda>i. generate_track_id (n + 1 + int i)) [0..<length ts]"
      using Cons.IH by blast
    have "map (\<lambda>i. generate_track_id (n + int i)) [0..<length (t # ts)] =
        generate_track_id n # map (\<lambda>i. generate_track_id (n + 1 + int i)) [0..<length ts]"
      by (simp add: upt_conv_Cons map_Suc_upt[symmetric] del: upt_Suc) (simp add: algebra_simps comp_def)
    then show ?thesis
      using t ts False by (intro exI[of _ "t # ts"]) (simp add: used_roots_def)
  qed
qed

lemma mset_concat_classes:
  assumes "distinct roots" "\<forall>k \<in> set ks. f k \<in> set roots"
  shows "mset (concat (map (\<lambda>r. filter (\<lambda>k. f k = r) ks) roots)) = mset ks"
  using assms(2)
proof (induction ks)
  case Nil
  have "concat (map (\<lambda>r. []) roots) = []" by (induction roots) auto
  then show ?case by simp
next
  case (Cons k ks)
  then obtain as bs where r: "roots = as @ f k # bs" by (metis list.set_intros(1) split_list)
  have ne: "f k \<notin> set as" "f k \<notin> set bs" using assms(1) r by auto
  have eqs: "map (\<lambda>r. filter (\<lambda>k. f k = r) (k # ks)) as = map (\<lambda>r. filter (\<lambda>k. f k = r) ks) as"
    "map (\<lambda>r. filter (\<lambda>k. f k = r) (k # ks)) bs = map (\<lambda>r. filter (\<lambda>k. f k = r) ks) bs"
    using ne by auto
  have "mset (concat (map (\<lambda>r. filter (\<lambda>k. f k = r) (k # ks)) roots)) =
      add_mset k (mset (concat (map (\<lambda>r. filter (\<lambda>k. f k = r) ks) roots)))"
    unfolding r map_append list.map concat_append concat.simps eqs by simp
  with Cons show ?case by simp
qed

lemma mset_map_concat: "mset (map g (concat (map h rs))) = mset (concat (map (\<lambda>r. map g (h r)) rs))"
  by (simp add: map_concat comp_def)

lemma mset_concat_cong: "(\<And>r. r \<in> set rs \<Longrightarrow> mset (f r) = mset (g r)) \<Longrightarrow> mset (concat (map f rs)) = mset (concat (map g rs))"
  by (induction rs) auto

lemma concat_map_filter_nonempty: "concat (map h (filter (\<lambda>r. h r \<noteq> []) rs)) = concat (map h rs)"
  by (induction rs) auto

lemma sorted_wrt_distinct_key:
  "sorted_wrt P xs \<Longrightarrow> distinct (map g xs) \<Longrightarrow> sorted_wrt (\<lambda>x y. P x y \<and> g x \<noteq> g y) xs"
  by (induction xs) auto

definition item_before :: "plan_item \<Rightarrow> plan_item \<Rightarrow> bool" where
  "item_before x y \<longleftrightarrow> pi_priority x < pi_priority y \<or> pi_priority x = pi_priority y \<and> pi_id x < pi_id y"

lemma mset_filter_map_pairs:
  "gomap_ok m \<Longrightarrow> fold (\<lambda>(k, i) c. if P i then c + 1 else c) m (0 :: int) =
     int (card {k. \<exists>i. mget m k = Some i \<and> P i})"
proof -
  assume ok: "gomap_ok m"
  have f: "fold (\<lambda>(k, i) c. if P i then c + 1 else c) m c = c + int (length (filter (\<lambda>(k, i). P i) m))" for c
    by (induction m arbitrary: c) auto
  have d: "distinct (map fst (filter (\<lambda>(k, i). P i) m))"
    using ok by (induction m) (auto simp: gomap_ok_def mkeys_def)
  have "set (map fst (filter (\<lambda>(k, i). P i) m)) = {k. \<exists>i. mget m k = Some i \<and> P i}"
    using ok by (auto simp: gomap_ok_def mget_def mkeys_def image_iff map_of_eq_Some_iff)
  with d have "length (filter (\<lambda>(k, i). P i) m) = card {k. \<exists>i. mget m k = Some i \<and> P i}"
    by (metis distinct_card length_map)
  with f show ?thesis by simp
qed

lemma actionable_set_fold:
  "mget_or False (fold (\<lambda>i m. mput (issue_id i) True m) act m) k \<longleftrightarrow>
     k \<in> issue_id ` set act \<or> mget_or False m k"
  by (induction act arbitrary: m) auto

text \<open>The tracks of components that are described by a root function.\<close>

text \<open>The members of one component that may be started, before and after they are sorted.\<close>

lemma track_members_facts:
  assumes comps: "\<And>r. mget_or [] comps r = filter (\<lambda>k. f k = r) (sorted_ids m)"
    and m: "an_issue_map a = m" "gomap_ok m" "\<And>k i. mget m k = Some i \<Longrightarrow> issue_id i = k"
  shows "map issue_id (actionable_members a act (mget_or [] comps r)) =
      filter (\<lambda>k. f k = r) (filter (mget_or False act) (sorted_ids m))"
    and "mset (map issue_id (track_members a comps act r)) =
      mset (filter (\<lambda>k. f k = r) (filter (mget_or False act) (sorted_ids m)))"
    and "i \<in> set (track_members a comps act r) \<Longrightarrow> issue_id i \<in> set (mkeys m) \<and> f (issue_id i) = r"
    and "distinct (map issue_id (track_members a comps act r))"
proof -
  have "set (mget_or [] comps r) \<subseteq> set (mkeys m)" unfolding comps by auto
  from map_filter_ids[OF m(3) this, of "mget_or False act"]
  show ids: "map issue_id (actionable_members a act (mget_or [] comps r)) =
      filter (\<lambda>k. f k = r) (filter (mget_or False act) (sorted_ids m))"
    unfolding actionable_members_def m(1) comps filter_filter by (simp only: conj_commute)
  show ms: "mset (map issue_id (track_members a comps act r)) =
      mset (filter (\<lambda>k. f k = r) (filter (mget_or False act) (sorted_ids m)))"
    unfolding ids[symmetric] by (simp add: track_members_def)
  show "issue_id i \<in> set (mkeys m) \<and> f (issue_id i) = r" if "i \<in> set (track_members a comps act r)"
    using mset_eq_setD[OF ms] that by auto
  show "distinct (map issue_id (track_members a comps act r))"
    unfolding mset_eq_imp_distinct_iff[OF ms] using m(2) by (simp add: gomap_ok_def)
qed

lemma track_items_sorted:
  assumes "distinct (map issue_id (track_members a comps act r))"
  shows "sorted_wrt item_before (map (plan_item_of um) (track_members a comps act r))"
proof -
  have "sorted_wrt (\<lambda>x y. \<not> plan_less y x \<and> issue_id x \<noteq> issue_id y) (track_members a comps act r)"
    using assms plan_order.sort_by_sorted by (intro sorted_wrt_distinct_key) (simp_all add: track_members_def)
  then have "sorted_wrt (\<lambda>x y. item_before (plan_item_of um x) (plan_item_of um y)) (track_members a comps act r)"
    by (rule sorted_wrt_mono_rel[rotated])
      (auto simp: item_before_def plan_item_of_def plan_less_def split: if_splits)
  then show ?thesis by (simp add: sorted_wrt_map)
qed

lemma build_tracks_correct:
  fixes um :: "(string, string list) gomap"
  assumes comps: "gomap_ok comps" "set (mkeys comps) = f ` set (mkeys m)"
      "\<And>r. mget_or [] comps r = filter (\<lambda>k. f k = r) (sorted_ids m)"
    and m: "an_issue_map a = m" "gomap_ok m" "\<And>k i. mget m k = Some i \<Longrightarrow> issue_id i = k"
    and act: "\<And>k. mget_or False act k \<Longrightarrow> k \<in> set (mkeys m)"
  defines "ts \<equiv> build_tracks a comps act um"
  shows "mset (map pi_id (concat (map track_items ts))) = mset (filter (mget_or False act) (sorted_ids m))"
    and "distinct (map track_id ts)"
    and "\<And>t. t \<in> set ts \<Longrightarrow> track_items t \<noteq> [] \<and> sorted_wrt item_before (track_items t)"
    and "\<And>s t x y. s \<in> set ts \<Longrightarrow> t \<in> set ts \<Longrightarrow> x \<in> set (track_items s) \<Longrightarrow> y \<in> set (track_items t) \<Longrightarrow>
      pi_id x \<in> set (mkeys m) \<and> pi_id y \<in> set (mkeys m) \<and> (s = t \<longleftrightarrow> f (pi_id x) = f (pi_id y))"
proof -
  let ?roots = "sort (mkeys comps)" and ?tm = "track_members a comps act"
  define rs where "rs = used_roots a comps act ?roots"
  obtain ts' where ts': "fold (build_track a comps act um) ?roots ([], 1) = ([] @ ts', 1 + int (length ts'))"
    "map track_items ts' = map (\<lambda>r. map (plan_item_of um) (?tm r)) (used_roots a comps act ?roots)"
    "map track_id ts' = map (\<lambda>i. generate_track_id (1 + int i)) [0..<length ts']"
    using build_track_fold by blast
  have ts: "ts = ts'" using ts'(1) by (simp add: ts_def build_tracks_def)
  have items: "map track_items ts = map (\<lambda>r. map (plan_item_of um) (?tm r)) rs" using ts'(2) by (simp add: ts rs_def)
  have drs: "distinct rs" using comps(1) by (simp add: rs_def used_roots_def gomap_ok_def)
  note am = track_members_facts(1)[OF comps(3) m] and ms = track_members_facts(2)[OF comps(3) m]
    and member = track_members_facts(3)[OF comps(3) m] and dm = track_members_facts(4)[OF comps(3) m]
  let ?h = "\<lambda>r. filter (\<lambda>k. f k = r) (filter (mget_or False act) (sorted_ids m))"
  have "mset (map pi_id (concat (map track_items ts))) = mset (concat (map (\<lambda>r. map issue_id (?tm r)) rs))"
    unfolding items map_concat map_map comp_def by (simp add: plan_item_of_def)
  also have "\<dots> = mset (concat (map ?h rs))"
    by (rule mset_concat_cong) (rule ms)
  also have "rs = filter (\<lambda>r. ?h r \<noteq> []) ?roots"
    unfolding rs_def used_roots_def by (rule filter_cong[OF refl]) (metis am map_is_Nil_conv)
  then have "concat (map ?h rs) = concat (map ?h ?roots)" by (simp only: concat_map_filter_nonempty)
  also have "mset (concat (map ?h ?roots)) = mset (filter (mget_or False act) (sorted_ids m))"
    using comps(1,2) by (intro mset_concat_classes) (auto simp: gomap_ok_def)
  finally show "mset (map pi_id (concat (map track_items ts))) = mset (filter (mget_or False act) (sorted_ids m))" .
  show dt: "distinct (map track_id ts)"
    unfolding ts ts'(3) by (auto simp: distinct_map inj_on_def dest: inj_generate_track_id[rotated 2])
  have idx: "\<exists>i < length rs. ts ! i = t \<and> track_items t = map (plan_item_of um) (?tm (rs ! i))" if "t \<in> set ts" for t
  proof -
    from that obtain i where i: "i < length ts" "ts ! i = t" by (auto simp: in_set_conv_nth)
    have len: "length ts = length rs" using items by (metis length_map)
    have "map track_items ts ! i = map (\<lambda>r. map (plan_item_of um) (?tm r)) rs ! i" using items by simp
    with i len show ?thesis by auto
  qed
  show "track_items t \<noteq> [] \<and> sorted_wrt item_before (track_items t)" if t: "t \<in> set ts" for t
  proof -
    obtain i where i: "i < length rs" "track_items t = map (plan_item_of um) (?tm (rs ! i))" using idx[OF t] by blast
    have "rs ! i \<in> set rs" using i by simp
    then have "?tm (rs ! i) \<noteq> []" by (auto simp: rs_def used_roots_def track_members_def)
    then show ?thesis using track_items_sorted[OF dm, of um] i(2) by simp
  qed
  show "pi_id x \<in> set (mkeys m) \<and> pi_id y \<in> set (mkeys m) \<and> (s = t \<longleftrightarrow> f (pi_id x) = f (pi_id y))"
    if st: "s \<in> set ts" "t \<in> set ts" "x \<in> set (track_items s)" "y \<in> set (track_items t)" for s t x y
  proof -
    obtain i where i: "i < length rs" "ts ! i = s" "track_items s = map (plan_item_of um) (?tm (rs ! i))"
      using idx[OF st(1)] by blast
    obtain j where j: "j < length rs" "ts ! j = t" "track_items t = map (plan_item_of um) (?tm (rs ! j))"
      using idx[OF st(2)] by blast
    have x: "pi_id x \<in> set (mkeys m)" "f (pi_id x) = rs ! i"
      using st(3) i(3) member by (auto simp: plan_item_of_def)
    have y: "pi_id y \<in> set (mkeys m)" "f (pi_id y) = rs ! j"
      using st(4) j(3) member by (auto simp: plan_item_of_def)
    have "length ts = length rs" using items by (metis length_map)
    moreover have "distinct ts" using dt by (simp add: distinct_map)
    ultimately have "s = t \<longleftrightarrow> i = j" using i j by (metis nth_eq_iff_index_eq)
    also have "\<dots> \<longleftrightarrow> rs ! i = rs ! j" using drs i j by (simp add: nth_eq_iff_index_eq)
    finally show ?thesis using x y by simp
  qed
qed

text \<open>The open candidates that may not be started.\<close>

lemma withheld_count:
  assumes m: "gomap_ok m" "\<And>k i. mget m k = Some i \<Longrightarrow> issue_id i = k" and act: "distinct (map issue_id act)"
    and sub: "\<And>k. k \<in> issue_id ` set act \<Longrightarrow> \<exists>i. mget m k = Some i \<and> P k \<and> \<not> is_closed_like_status (status i)"
  shows "fold (\<lambda>(k, i) c. if P (issue_id i) \<and> \<not> is_closed_like_status (status i) then c + 1 else c) m 0 - int (length act) =
    int (card {k. \<exists>i. mget m k = Some i \<and> P k \<and> \<not> is_closed_like_status (status i) \<and> k \<notin> issue_id ` set act})"
proof -
  let ?open = "{k. \<exists>i. mget m k = Some i \<and> P k \<and> \<not> is_closed_like_status (status i)}"
  have "fold (\<lambda>(k, i) c. if P (issue_id i) \<and> \<not> is_closed_like_status (status i) then c + 1 else c) m 0 =
      int (card {k. \<exists>i. mget m k = Some i \<and> P (issue_id i) \<and> \<not> is_closed_like_status (status i)})"
    by (rule mset_filter_map_pairs[OF m(1)])
  also have "{k. \<exists>i. mget m k = Some i \<and> P (issue_id i) \<and> \<not> is_closed_like_status (status i)} = ?open"
    using m(2) by auto
  finally have cnt: "fold (\<lambda>(k, i) c. if P (issue_id i) \<and> \<not> is_closed_like_status (status i) then c + 1 else c) m 0 =
    int (card ?open)" .
  have fin: "finite ?open" by (rule finite_subset[of _ "set (mkeys m)"]) (auto simp: mkeys_ex)
  have sub: "issue_id ` set act \<subseteq> ?open" using sub by auto
  have set: "?open - issue_id ` set act =
      {k. \<exists>i. mget m k = Some i \<and> P k \<and> \<not> is_closed_like_status (status i) \<and> k \<notin> issue_id ` set act}" by blast
  have "card (?open - issue_id ` set act) = card ?open - length act" "length act \<le> card ?open"
    using distinct_card[OF act] card_mono[OF fin sub] card_Diff_subset[OF finite_imageI[OF finite_set] sub] by simp_all
  then show ?thesis unfolding cnt set by simp
qed

text \<open>C21: On a tracker whose ids are not empty, scoped to any candidates, the execution plan exists and
  its tracks partition the actionable issues: every actionable issue is an item of exactly one track,
  no other issue is an item, track names are distinct, no track is empty, the items of a track are
  ordered by priority and then id, two items are in the same track exactly when their issues are
  connected, and the totals count the actionable issues and the open candidates that are withheld.\<close>

theorem execution_plan_partition:
  assumes "[] \<notin> issue_id ` set issues"
    and "a = set_readiness_scope None cand (new_analyzer issues now)"
  shows "\<exists>plan. get_execution_plan ord a = Some plan \<and>
    mset (map pi_id (concat (map track_items (plan_tracks plan)))) = mset (map issue_id (get_actionable_issues a)) \<and>
    distinct (map track_id (plan_tracks plan)) \<and>
    (\<forall>t \<in> set (plan_tracks plan). track_items t \<noteq> [] \<and> sorted_wrt item_before (track_items t)) \<and>
    (\<forall>s \<in> set (plan_tracks plan). \<forall>t \<in> set (plan_tracks plan).
       \<forall>x \<in> set (track_items s). \<forall>y \<in> set (track_items t).
         s = t \<longleftrightarrow> (pi_id x, pi_id y) \<in> conn (joined (issue_map_of issues))) \<and>
    total_actionable plan = int (length (get_actionable_issues a)) \<and>
    total_blocked plan = int (card {k. \<exists>i. mget (issue_map_of issues) k = Some i \<and> is_candidate a k \<and>
       \<not> is_closed_like_status (status i) \<and> k \<notin> issue_id ` set (get_actionable_issues a)})"
proof -
  let ?m = "issue_map_of issues" and ?act = "get_actionable_issues a"
  have keys: "set (mkeys ?m) = issue_id ` set issues"
    by (auto simp: mkeys_ex issue_map_of_get find_None_iff simp flip: not_None_eq)
  have am: "an_issue_map a = ?m" using assms(2) by simp
  have idk: "mget ?m k = Some i \<Longrightarrow> issue_id i = k" for k i using issue_map_of_id by blast
  obtain f comps where c: "find_connected_components a = Some comps" "gomap_ok comps"
    "set (mkeys comps) = f ` set (mkeys ?m)"
    "\<And>r. mget_or [] comps r = filter (\<lambda>k. f k = r) (sorted_ids ?m)"
    "\<And>x. x \<in> set (mkeys ?m) \<Longrightarrow> f x \<in> set (mkeys ?m) \<and> f (f x) = f x \<and> f x \<le> x"
    "\<And>x y. x \<in> set (mkeys ?m) \<Longrightarrow> y \<in> set (mkeys ?m) \<Longrightarrow> f x = f y \<longleftrightarrow> (x, y) \<in> conn (joined ?m)"
    by (rule components_root_fun[of ?m a]) (use assms keys am idk in auto)
  let ?P = "\<lambda>k. is_candidate a k \<and> ready_after (readiness a) k (an_now a) []"
  have ids: "map issue_id ?act = filter ?P (sorted_ids ?m)"
    unfolding get_actionable_issues_def actionable_issues_after_def am
    by (rule map_filter_ids) (simp_all add: issue_map_of_id)
  define act_set where "act_set = fold (\<lambda>i m. mput (issue_id i) True m) ?act []"
  have mem: "mget_or False act_set k \<longleftrightarrow> k \<in> issue_id ` set ?act" for k
    by (simp add: act_set_def actionable_set_fold)
  have imgs: "issue_id ` set ?act = {k \<in> set (mkeys ?m). ?P k}"
    using arg_cong[OF ids, of set] by simp
  have filt: "filter (mget_or False act_set) (sorted_ids ?m) = map issue_id ?act"
    unfolding ids by (rule filter_cong[OF refl]) (simp add: mem imgs)
  define um where "um = fst (unblocks_map ord (new_triage_context a))"
  let ?ts = "build_tracks a comps act_set um"
  have act_keys: "mget_or False act_set k \<Longrightarrow> k \<in> set (mkeys ?m)" for k using mem imgs by auto
  note bt = build_tracks_correct[where act = act_set and um = um, OF c(2-4) am issue_map_of_ok idk act_keys]
  define plan where "plan = \<lparr>plan_tracks = ?ts, total_actionable = int (length ?act),
    total_blocked = fold (\<lambda>(k, i) c. if is_candidate a (issue_id i) \<and> \<not> is_closed_like_status (status i)
      then c + 1 else c) ?m 0 - int (length ?act), summary = compute_plan_summary ?act um\<rparr>"
  have plan: "get_execution_plan ord a = Some plan"
    unfolding get_execution_plan_def Let_def c(1) get_actionable_issues_def[symmetric] am
    by (simp add: plan_def um_def act_set_def)
  have "distinct (map issue_id ?act)"
    unfolding ids using issue_map_of_ok[of issues] by (simp add: gomap_ok_def)
  moreover have "\<exists>i. mget ?m k = Some i \<and> is_candidate a k \<and> \<not> is_closed_like_status (status i)"
    if "k \<in> issue_id ` set ?act" for k
    using that assms(2) unfolding imgs by (auto simp: ready_index_of_issues is_actionable_status_def
      is_closed_like_status_def status_defs)
  ultimately have blocked: "total_blocked plan = int (card {k. \<exists>i. mget ?m k = Some i \<and> is_candidate a k \<and>
      \<not> is_closed_like_status (status i) \<and> k \<notin> issue_id ` set ?act})"
    unfolding plan_def execution_plan.simps by (intro withheld_count[OF issue_map_of_ok idk])
  show ?thesis
  proof (intro exI conjI ballI)
    show "get_execution_plan ord a = Some plan" by (rule plan)
    show "total_actionable plan = int (length ?act)" by (simp add: plan_def)
    show "mset (map pi_id (concat (map track_items (plan_tracks plan)))) = mset (map issue_id ?act)"
      using bt(1) unfolding filt by (simp add: plan_def)
    show "distinct (map track_id (plan_tracks plan))" using bt(2) by (simp add: plan_def)
  next
    fix t assume "t \<in> set (plan_tracks plan)"
    then show "track_items t \<noteq> []" "sorted_wrt item_before (track_items t)"
      using bt(3)[where t = t] by (simp_all add: plan_def)
  next
    fix s t x y
    assume "s \<in> set (plan_tracks plan)" "t \<in> set (plan_tracks plan)" "x \<in> set (track_items s)" "y \<in> set (track_items t)"
    then show "s = t \<longleftrightarrow> (pi_id x, pi_id y) \<in> conn (joined ?m)"
      using bt(4)[where s = s and t = t and x = x and y = y] c(6) by (simp add: plan_def)
  qed (rule blocked)
qed

lemma execution_plan_partition_witness:
  "\<exists>plan. get_execution_plan [''p''] (set_readiness_scope None None (new_analyzer demo_tracker 0)) = Some plan \<and>
     total_actionable plan = 1 \<and> total_blocked plan = 3"
proof -
  let ?a = "set_readiness_scope None None (new_analyzer demo_tracker 0)"
  have ne: "[] \<notin> issue_id ` set demo_tracker" by (simp add: demo_defs)
  have "length (get_actionable_issues ?a) = 1" by code_simp
  moreover have "map_option total_blocked (get_execution_plan [''p''] ?a) = Some 3" by code_simp
  ultimately show ?thesis
    using execution_plan_partition[OF ne refl, where cand = None and now = 0 and ord = "[''p'']"] by auto
qed

end
