(* ===== verification/Bv_Metrics.thy ===== *)
theory Bv_Metrics
  imports Bv_Plan_Props
begin

text \<open>
  The discrete graph metrics of \<open>pkg/analysis/graph.go\<close>: ranks of a metric, heights (the impact
  score) and longest-path slack.

  Heights and slacks are integer-valued \<open>float64\<close> numbers bounded by the number of issues, hence
  exact: they are integers here. Ranks are defined for any linearly ordered values: integers, and
  floating-point metrics without NaN. \<open>topo.Sort\<close> is gonum's: its result is an argument, and the lemmas
  assume of it what gonum documents, that every edge goes forward.
\<close>

section \<open>Ranks\<close>

text \<open>The \<open>less\<close> of \<open>computeIntRanks\<close> and \<open>computeFloatRanks\<close>: descending value, then ascending id.\<close>

definition rank_less :: "string \<times> 'v::linorder \<Rightarrow> string \<times> 'v \<Rightarrow> bool" where
  "rank_less x y = (if snd x = snd y then fst x < fst y else snd x > snd y)"

interpretation rank_order: less_contract rank_less
proof
  fix x y z :: "string \<times> 'v::linorder"
  show "\<not> rank_less x x" by (simp add: rank_less_def)
  show "rank_less x y \<Longrightarrow> rank_less y z \<Longrightarrow> rank_less x z" by (auto simp: rank_less_def split: if_splits)
  show "rank_less x z \<Longrightarrow> rank_less x y \<or> rank_less y z" by (auto simp: rank_less_def split: if_splits)
qed

definition compute_ranks :: "(string, 'v::linorder) gomap \<Rightarrow> (string, nat) gomap" where
  "compute_ranks m = fold (\<lambda>(i, (k, v)) ranks. mput k (i + 1) ranks) (enumerate 0 (sort_by rank_less m)) []"

section \<open>Degrees\<close>

text \<open>The degree part of \<open>computePhase1\<close>.\<close>

definition in_degrees :: "analyzer \<Rightarrow> (string, int) gomap" where
  "in_degrees a = fold (\<lambda>n m. case n of None \<Rightarrow> m
     | Some n \<Rightarrow> mput (mget_or [] (an_node_to_id a) n) (int (length (cg_to (an_graph a) (int n)))) m)
     (collect_nodes (an_graph a) (-1)) []"

definition out_degrees :: "analyzer \<Rightarrow> (string, int) gomap" where
  "out_degrees a = fold (\<lambda>n m. case n of None \<Rightarrow> m
     | Some n \<Rightarrow> mput (mget_or [] (an_node_to_id a) n) (int (length (cg_from (an_graph a) (int n)))) m)
     (collect_nodes (an_graph a) (-1)) []"

definition topological_order :: "analyzer \<Rightarrow> nat list \<Rightarrow> string list" where
  "topological_order a sn = map (\<lambda>n. mget_or [] (an_node_to_id a) n) (rev sn)"

section \<open>Heights\<close>

definition max_parent_height :: "(nat, int) gomap \<Rightarrow> nat list \<Rightarrow> int" where
  "max_parent_height heights ps =
     fold (\<lambda>p mx. case mget heights p of None \<Rightarrow> mx | Some h \<Rightarrow> if h > mx then h else mx) ps 0"

definition height_step ::
  "analyzer \<Rightarrow> nat \<Rightarrow> (nat, int) gomap \<times> (string, int) gomap \<Rightarrow> (nat, int) gomap \<times> (string, int) gomap" where
  "height_step a n = (\<lambda>(heights, scores).
     (let h = 1 + max_parent_height heights (cg_to (an_graph a) (int n));
          heights = mput n h heights
      in (heights, mput (mget_or [] (an_node_to_id a) n) h scores)))"

definition compute_heights :: "analyzer \<Rightarrow> nat list \<Rightarrow> (string, int) gomap" where
  "compute_heights a sn = snd (fold (height_step a) sn ([], []))"

section \<open>Slack\<close>

text \<open>A slice access out of range panics: \<open>None\<close>.\<close>

definition relax_to :: "nat \<Rightarrow> int \<Rightarrow> int list \<Rightarrow> int list option" where
  "relax_to k d dist =
     (if k < length dist then Some (if dist ! k < d then dist[k := d] else dist) else None)"

definition forward_node :: "nat list list \<Rightarrow> nat \<Rightarrow> int list \<Rightarrow> int list option" where
  "forward_node prereqs node = run (\<lambda>dep dist. relax_to dep (dist ! node + 1) dist) (prereqs ! node)"

definition backward_node :: "nat list list \<Rightarrow> nat \<Rightarrow> int list \<Rightarrow> int list option" where
  "backward_node prereqs node = run (\<lambda>dep dist.
     if dep < length dist then relax_to node (dist ! dep + 1) dist else None) (prereqs ! node)"

definition node_order :: "analyzer \<Rightarrow> string list \<Rightarrow> nat list" where
  "node_order a order = List.map_filter (mget (an_id_to_node a)) order"

definition slack_prereqs :: "analyzer \<Rightarrow> nat \<Rightarrow> nat list \<Rightarrow> nat list list" where
  "slack_prereqs a sz ns =
     fold (\<lambda>n pr. pr[n := pr ! n @ cg_from (an_graph a) (int n)]) ns (replicate sz [])"

definition compute_slack :: "analyzer \<Rightarrow> string list \<Rightarrow> (string, int) gomap option" where
  "compute_slack a order =
     (if an_issue_map a = [] \<or> order = [] then Some []
      else
        (let ns = node_order a order
         in if ns = [] then Some []
            else
              (let sz = fold max ns 0 + 1;
                   prereqs = slack_prereqs a sz ns
               in Option.bind (run (forward_node prereqs) (rev ns) (replicate sz 0)) (\<lambda>from_start.
                  Option.bind (run (backward_node prereqs) ns (replicate sz 0)) (\<lambda>to_end.
                    (let longest = fold (\<lambda>n l. if from_start ! n + to_end ! n > l
                                               then from_start ! n + to_end ! n else l) ns 0
                     in Some (fold (\<lambda>n m. case mget (an_node_to_id a) n of None \<Rightarrow> m
                                | Some k \<Rightarrow> mput k (longest - from_start ! n - to_end ! n) m) ns [])))))))"

end
