(* ===== verification/Bv_Metrics_Props.thy ===== *)
theory Bv_Metrics_Props
  imports Bv_Metrics
begin

text \<open>
  Ranks are the positions in the order by value and id, for every order of the map, and heights and slack
  are longest-path quantities of the graph.
\<close>

section \<open>Ranks\<close>

lemma puts_other:
  "x \<notin> fst ` set xs \<Longrightarrow> mget (fold (\<lambda>(i, (k, v)) r. mput k (i + 1) r) (enumerate n xs) r0) x = mget r0 x"
  by (induction xs arbitrary: n r0) auto

lemma puts_at:
  "distinct (map fst xs) \<Longrightarrow> i < length xs \<Longrightarrow>
   mget (fold (\<lambda>(i, (k, v)) r. mput k (i + 1) r) (enumerate n xs) r0) (fst (xs ! i)) = Some (n + i + 1)"
proof (induction xs arbitrary: n r0 i)
  case (Cons y ys)
  obtain k v where y: "y = (k, v)" by force
  with Cons.prems have k: "k \<notin> fst ` set ys" by auto
  show ?case
  proof (cases i)
    case 0
    then show ?thesis using puts_other[OF k] y by simp
  next
    case (Suc j)
    then show ?thesis using Cons.IH[of j "Suc n"] Cons.prems y by simp
  qed
qed simp

lemma rank_at:
  assumes "distinct (map fst xs)" "i < length xs"
  shows "mget (fold (\<lambda>(i, (k, v)) r. mput k (i + 1) r) (enumerate 0 xs) []) (fst (xs ! i)) = Some (i + 1)"
  using puts_at[OF assms, of 0] by simp

lemma sorted_position:
  assumes "sorted_wrt lt xs" "i < length xs" "\<And>x. \<not> lt x x" "\<And>x y. lt x y \<Longrightarrow> \<not> lt y x"
  shows "card {y \<in> set xs. lt y (xs ! i)} = i"
proof -
  have iff: "lt (xs ! j) (xs ! i) \<longleftrightarrow> j < i" if "j < length xs" for j
    using assms that by (metis linorder_neqE_nat sorted_wrt_nth_less)
  have "{y \<in> set xs. lt y (xs ! i)} = set (take i xs)"
    using iff assms(2) by (auto simp: in_set_conv_nth) (metis order_less_trans nth_take length_take min_less_iff_conj)+
  moreover have "distinct xs"
    using assms(1,3) by (induction xs) auto
  ultimately show ?thesis using assms(2) by (simp add: distinct_card)
qed

lemma fst_image_Collect: "fst ` {y \<in> X. P y} = {k. \<exists>v. (k, v) \<in> X \<and> P (k, v)}"
  by force

text \<open>The rank of every id is one more than the number of entries that come before it, by larger
  value or by equal value and smaller id. So ranks are a bijection onto 1, ..., n, and neither the order
  in which Go ranges over the map nor the unstable sort can change them.\<close>

theorem ranks_are_positions:
  assumes "gomap_ok m" "mget m k = Some (v :: 'v::linorder)"
  shows "mget (compute_ranks m) k =
    Some (card {k'. \<exists>v'. mget m k' = Some v' \<and> (v' > v \<or> v' = v \<and> k' < k)} + 1)"
proof -
  let ?s = "sort_by rank_less m"
  have d: "distinct (map fst ?s)" using assms(1) by (simp add: gomap_ok_def mkeys_def distinct_map inj_on_def) 
  have st: "sorted_wrt rank_less ?s"
  proof -
    have "sorted_wrt (\<lambda>x y. \<not> rank_less y x \<and> fst x \<noteq> fst y) ?s"
      using rank_order.sort_by_sorted d by (intro sorted_wrt_distinct_key) auto
    then show ?thesis by (rule sorted_wrt_mono_rel[rotated]) (auto simp: rank_less_def split: if_splits)
  qed
  have "(k, v) \<in> set ?s" using assms by (simp add: mget_def map_of_SomeD)
  then obtain i where i: "i < length ?s" "?s ! i = (k, v)" unfolding in_set_conv_nth by blast
  have "card {y \<in> set ?s. rank_less y (?s ! i)} = i"
    by (rule sorted_position[OF st i(1) rank_order.less_irrefl rank_order.less_asym])
  moreover have bb: "bij_betw fst {y \<in> set ?s. rank_less y (?s ! i)}
      {k'. \<exists>v'. mget m k' = Some v' \<and> (v' > v \<or> v' = v \<and> k' < k)}"
    unfolding bij_betw_def
  proof
    show "inj_on fst {y \<in> set ?s. rank_less y (?s ! i)}"
      using d by (auto simp: distinct_map inj_on_def)
    have mem: "mget m k' = Some v' \<longleftrightarrow> (k', v') \<in> set ?s" for k' v'
      using assms(1) by (simp add: mget_def gomap_ok_def mkeys_def map_of_eq_Some_iff)
    have less: "rank_less (k', v') (?s ! i) \<longleftrightarrow> v' > v \<or> v' = v \<and> k' < k" for k' v'
      unfolding i(2) rank_less_def by auto
    show "fst ` {y \<in> set ?s. rank_less y (?s ! i)} = {k'. \<exists>v'. mget m k' = Some v' \<and> (v' > v \<or> v' = v \<and> k' < k)}"
      unfolding mem less[symmetric] by (rule fst_image_Collect[of "set ?s" "\<lambda>y. rank_less y (?s ! i)"])
  qed
  ultimately have "card {k'. \<exists>v'. mget m k' = Some v' \<and> (v' > v \<or> v' = v \<and> k' < k)} = i"
    using bij_betw_same_card[OF bb] by argo
  moreover have "mget (compute_ranks m) k = Some (i + 1)"
    using rank_at[OF d i(1)] i(2) by (simp add: compute_ranks_def)
  ultimately show ?thesis by simp
qed

lemma ranks_are_positions_witness:
  "mget (compute_ranks [(''a'', 1 :: int), (''b'', 3), (''c'', 1)]) ''c'' =
     Some (card {k'. \<exists>v'. mget [(''a'', 1 :: int), (''b'', 3), (''c'', 1)] k' = Some v' \<and>
       (v' > 1 \<or> v' = 1 \<and> k' < ''c'')} + 1)"
  by (rule ranks_are_positions) (simp_all add: gomap_ok_def mkeys_def mget_def)

section \<open>Longest paths\<close>

text \<open>The longest path from \<open>x\<close> has \<open>n\<close> edges.\<close>

definition longest :: "(nat \<times> nat) set \<Rightarrow> nat \<Rightarrow> nat \<Rightarrow> bool" where
  "longest R x n \<longleftrightarrow> (\<exists>y. (x, y) \<in> R ^^ n) \<and> (\<forall>y. (x, y) \<notin> R ^^ Suc n)"

lemma longest_node:
  assumes "finite S" "S = {y. (x, y) \<in> R}" "\<And>y. y \<in> S \<Longrightarrow> longest R y (d y)"
  shows "longest R x (Max (insert 0 ((\<lambda>y. Suc (d y)) ` S)))"
proof (cases "S = {}")
  case True
  then have "(x, y) \<notin> R" for y using assms(2) by auto
  with True show ?thesis by (auto simp: longest_def)
next
  case False
  let ?M = "Max ((\<lambda>y. Suc (d y)) ` S)"
  have M: "Max (insert 0 ((\<lambda>y. Suc (d y)) ` S)) = ?M" using False assms(1) by simp
  have "?M \<in> (\<lambda>y. Suc (d y)) ` S" using False assms(1) by (intro Max_in) auto
  then obtain y where y: "y \<in> S" "?M = Suc (d y)" by blast
  then obtain z where "(y, z) \<in> R ^^ d y" using assms(3)[OF y(1)] unfolding longest_def by blast
  then have "\<exists>z. (x, z) \<in> R ^^ ?M"
    using y assms(2) unfolding y(2) relpow_Suc_iff by blast
  moreover have "(x, z) \<notin> R ^^ Suc ?M" for z
  proof
    assume "(x, z) \<in> R ^^ Suc ?M"
    then obtain w where w: "w \<in> S" "(w, z) \<in> R ^^ ?M" unfolding relpow_Suc_iff assms(2) by blast
    have "Suc (d w) \<le> ?M" using assms(1) w(1) by simp
    then show False using relpow_le[OF w(2)] assms(3)[OF w(1)] unfolding longest_def by blast
  qed
  ultimately show ?thesis unfolding M longest_def by blast
qed

lemma relpow_converse: "(R\<inverse>) ^^ n = (R ^^ n)\<inverse>" for R :: "('a \<times> 'a) set"
proof (induction n)
  case (Suc n)
  have "R ^^ Suc n = R O R ^^ n" by (simp add: relpow_commute)
  with Suc show ?case by (simp add: converse_relcomp)
qed simp

lemma longest_bound: "longest R x n \<Longrightarrow> (x, y) \<in> R ^^ m \<Longrightarrow> m \<le> n"
  unfolding longest_def using relpow_le[of x y m R "Suc n"] by (meson not_less_eq_eq)

text \<open>What gonum documents of \<open>topo.Sort\<close>: all nodes, and every edge goes forward.\<close>

definition topo_order :: "compact_graph \<Rightarrow> nat list \<Rightarrow> bool" where
  "topo_order g sn \<longleftrightarrow> distinct sn \<and> set sn = {..<cg_nodes g} \<and>
     (\<forall>x < cg_nodes g. (x, x) \<notin> edges g) \<and> sorted_wrt (\<lambda>x y. (y, x) \<notin> edges g) sn"

lemma topo_pred_before:
  assumes "topo_order g (ps @ v # qs)" "graph_ok g" "(u, v) \<in> edges g"
  shows "u \<in> set ps"
proof -
  have r: "u < cg_nodes g" "v < cg_nodes g" using edges_range[OF assms(2,3)] by auto
  then have "u \<in> set (ps @ v # qs)" using assms(1) by (simp add: topo_order_def)
  moreover have "u \<noteq> v" using assms(1,3) r by (auto simp: topo_order_def)
  moreover have "u \<notin> set qs" using assms(1,3) by (auto simp: topo_order_def sorted_wrt_append)
  ultimately show ?thesis by auto
qed

lemma topo_succ_after:
  assumes "topo_order g (ps @ v # qs)" "graph_ok g" "(v, w) \<in> edges g"
  shows "w \<in> set qs"
proof -
  have r: "w < cg_nodes g" "v < cg_nodes g" using edges_range[OF assms(2,3)] by auto
  then have "w \<in> set (ps @ v # qs)" using assms(1) by (simp add: topo_order_def)
  moreover have "w \<noteq> v" using assms(1,3) r by (auto simp: topo_order_def)
  moreover have "w \<notin> set ps" using assms(1,3) by (auto simp: topo_order_def sorted_wrt_append)
  ultimately show ?thesis by auto
qed

text \<open>Functions that give the longest paths into and out of every node.\<close>

definition max_in :: "compact_graph \<Rightarrow> (nat \<Rightarrow> nat) \<Rightarrow> nat \<Rightarrow> nat" where
  "max_in g d v = Max (insert 0 ((\<lambda>p. Suc (d p)) ` {p. (p, v) \<in> edges g}))"

definition max_out :: "compact_graph \<Rightarrow> (nat \<Rightarrow> nat) \<Rightarrow> nat \<Rightarrow> nat" where
  "max_out g e v = Max (insert 0 ((\<lambda>p. Suc (e p)) ` {p. (v, p) \<in> edges g}))"

definition path_in :: "compact_graph \<Rightarrow> (nat \<Rightarrow> nat) \<Rightarrow> nat set \<Rightarrow> bool" where
  "path_in g d V \<longleftrightarrow> (\<forall>v \<in> V. longest ((edges g)\<inverse>) v (d v) \<and> d v = max_in g d v)"

definition path_out :: "compact_graph \<Rightarrow> (nat \<Rightarrow> nat) \<Rightarrow> nat set \<Rightarrow> bool" where
  "path_out g e V \<longleftrightarrow> (\<forall>v \<in> V. longest (edges g) v (e v) \<and> e v = max_out g e v)"

lemma max_in_cong: "(\<And>p. (p, v) \<in> edges g \<Longrightarrow> d p = d' p) \<Longrightarrow> max_in g d v = max_in g d' v"
  unfolding max_in_def by (intro arg_cong[of _ _ Max] arg_cong[of _ _ "insert 0"] image_cong) auto

lemma max_out_cong: "(\<And>p. (v, p) \<in> edges g \<Longrightarrow> d p = d' p) \<Longrightarrow> max_out g d v = max_out g d' v"
  unfolding max_out_def by (intro arg_cong[of _ _ Max] arg_cong[of _ _ "insert 0"] image_cong) auto

lemma finite_edges: "graph_ok g \<Longrightarrow> finite {p. (p, v) \<in> edges g}" "graph_ok g \<Longrightarrow> finite {p. (v, p) \<in> edges g}"
  by (auto intro!: finite_subset[of _ "{..<cg_nodes g}"] dest: edges_range)

lemma path_in_exists:
  assumes "topo_order g sn" "graph_ok g"
  shows "\<exists>d. path_in g d (set sn)"
proof -
  have "sn = ps @ qs \<Longrightarrow> \<exists>d. path_in g d (set ps)" for ps qs
  proof (induction ps arbitrary: qs rule: rev_induct)
    case (snoc v ps)
    then obtain d where d: "path_in g d (set ps)" by (metis append.assoc append_Cons append_Nil)
    have topo: "topo_order g (ps @ v # qs)" using assms(1) snoc.prems by simp
    have pre: "(p, v) \<in> edges g \<Longrightarrow> p \<in> set ps" for p using topo_pred_before[OF topo assms(2)] .
    have "longest ((edges g)\<inverse>) v (max_in g d v)"
      unfolding max_in_def
    proof (rule longest_node)
      show "finite {p. (p, v) \<in> edges g}" using finite_edges[OF assms(2)] by simp
      show "{p. (p, v) \<in> edges g} = {y. (v, y) \<in> (edges g)\<inverse>}" by auto
      show "longest ((edges g)\<inverse>) y (d y)" if "y \<in> {p. (p, v) \<in> edges g}" for y
        using d pre that unfolding path_in_def by blast
    qed
    moreover have v: "v \<notin> set ps" using topo by (auto simp: topo_order_def)
    have "max_in g (d(v := n)) u = max_in g d u" if "u \<in> set (ps @ [v])" for u n
      using that topo topo_succ_after[OF topo assms(2)] pre v
      by (intro max_in_cong) (auto simp: topo_order_def)
    ultimately have "path_in g (d(v := max_in g d v)) (set (ps @ [v]))"
      using d v unfolding path_in_def by auto
    then show ?case by blast
  qed (simp add: path_in_def)
  from this[of sn "[]"] show ?thesis by simp
qed

lemma path_out_exists:
  assumes "topo_order g sn" "graph_ok g"
  shows "\<exists>e. path_out g e (set sn)"
proof -
  have "sn = qs @ ps \<Longrightarrow> \<exists>d. path_out g d (set ps)" for ps qs
  proof (induction ps arbitrary: qs)
    case (Cons v ps)
    then obtain d where d: "path_out g d (set ps)" by (metis append.assoc append_Cons append_Nil)
    have topo: "topo_order g (qs @ v # ps)" using assms(1) Cons.prems by simp
    have pre: "(v, p) \<in> edges g \<Longrightarrow> p \<in> set ps" for p using topo_succ_after[OF topo assms(2)] .
    have "longest (edges g) v (max_out g d v)"
      unfolding max_out_def
    proof (rule longest_node)
      show "finite {p. (v, p) \<in> edges g}" using finite_edges[OF assms(2)] by simp
      show "longest (edges g) y (d y)" if "y \<in> {p. (v, p) \<in> edges g}" for y
        using d pre that unfolding path_out_def by blast
    qed simp
    moreover have v: "v \<notin> set ps" using topo by (auto simp: topo_order_def)
    have "max_out g (d(v := n)) u = max_out g d u" if "u \<in> set (v # ps)" for u n
      using that topo topo_pred_before[OF topo assms(2)] pre v
      by (intro max_out_cong) (auto simp: topo_order_def)
    ultimately have "path_out g (d(v := max_out g d v)) (set (v # ps))"
      using d v unfolding path_out_def by auto
    then show ?case by blast
  qed (simp add: path_out_def)
  from this[where ps = sn and qs = "[]"] show ?thesis by simp
qed

section \<open>Heights\<close>

lemma max_parent_height_fold:
  assumes "\<forall>p \<in> set ps. mget heights p = Some (int (Suc (d p)))"
  shows "max_parent_height heights ps = int (Max (insert 0 ((\<lambda>p. Suc (d p)) ` set ps)))"
proof -
  let ?f = "\<lambda>p mx. case mget heights p of None \<Rightarrow> mx | Some h \<Rightarrow> if h > mx then h else mx"
  have "fold ?f ps (int k) = int (Max (insert k ((\<lambda>p. Suc (d p)) ` set ps)))" for k
    using assms
  proof (induction ps arbitrary: k)
    case (Cons p ps)
    have "?f p (int k) = int (max (Suc (d p)) k)" using Cons.prems by simp
    then have "fold ?f (p # ps) (int k) = fold ?f ps (int (max (Suc (d p)) k))" by (simp only: fold.simps comp_apply)
    also have "\<dots> = int (Max (insert (max (Suc (d p)) k) ((\<lambda>p. Suc (d p)) ` set ps)))"
      using Cons by simp
    also have "Max (insert (max (Suc (d p)) k) ((\<lambda>p. Suc (d p)) ` set ps)) =
        Max (insert k ((\<lambda>p. Suc (d p)) ` set (p # ps)))"
      by (cases "ps = []") (simp_all add: Max_insert max.assoc max.left_commute max.commute)
    finally show ?case .
  qed simp
  from this[of 0] show ?thesis by (simp add: max_parent_height_def)
qed

lemma topo_nth_distinct: "distinct ids \<Longrightarrow> x < length ids \<Longrightarrow> y < length ids \<Longrightarrow> ids ! x = ids ! y \<longleftrightarrow> x = y"
  by (simp add: nth_eq_iff_index_eq)

lemma heights_fold:
  assumes topo: "topo_order (an_graph a) (ps @ qs)" and ok: "graph_ok (an_graph a)"
    and names: "an_node_to_id a = index_nodes ids" "distinct ids" "length ids = cg_nodes (an_graph a)"
    and d: "path_in (an_graph a) d (set (ps @ qs))"
  shows "(\<forall>v. mget (fst (fold (height_step a) ps ([], []))) v =
            (if v \<in> set ps then Some (int (Suc (d v))) else None)) \<and>
    (\<forall>v < length ids. mget (snd (fold (height_step a) ps ([], []))) (ids ! v) =
            (if v \<in> set ps then Some (int (Suc (d v))) else None))"
  using topo d
proof (induction ps arbitrary: qs rule: rev_induct)
  case (snoc v ps)
  let ?g = "an_graph a"
  obtain H S where HS: "fold (height_step a) ps ([], []) = (H, S)" by force
  have topo: "topo_order ?g (ps @ v # qs)" and d: "path_in ?g d (set (ps @ v # qs))"
    using snoc.prems by simp_all
  have IH: "\<forall>u. mget H u = (if u \<in> set ps then Some (int (Suc (d u))) else None)"
    "\<forall>u < length ids. mget S (ids ! u) = (if u \<in> set ps then Some (int (Suc (d u))) else None)"
    using snoc.IH[OF topo d] HS by simp_all
  have v: "v < cg_nodes ?g" using topo by (auto simp: topo_order_def)
  have ins: "set (cg_to ?g (int v)) = {p. (p, v) \<in> edges ?g}"
    using ok v in_iff_edges by auto
  have "max_parent_height H (cg_to ?g (int v)) = int (Max (insert 0 ((\<lambda>p. Suc (d p)) ` set (cg_to ?g (int v)))))"
    using IH topo_pred_before[OF topo ok] ins by (intro max_parent_height_fold) simp
  also have "\<dots> = int (d v)"
    using d unfolding ins max_in_def[symmetric] path_in_def by simp
  finally have step: "fold (height_step a) (ps @ [v]) ([], []) =
      (mput v (int (Suc (d v))) H, mput (ids ! v) (int (Suc (d v))) S)"
    using HS v names by (simp add: height_step_def mget_or_def index_nodes_get Let_def)
  show ?case
    unfolding step using IH v names by (simp add: nth_eq_iff_index_eq)
qed simp

text \<open>For a topological order of the blocking graph, the height (impact score) of every issue is one
  more than the length of the longest chain of issues that wait for it: there is a chain of that
  length and none longer.\<close>

theorem heights_are_longest_chains:
  assumes "topo_order (an_graph (new_analyzer issues now)) sn" "v < length (node_ids issues)"
  shows "\<exists>n. mget (compute_heights (new_analyzer issues now) sn) (node_ids issues ! v) = Some (int n + 1) \<and>
    (\<exists>u. (u, v) \<in> edges (an_graph (new_analyzer issues now)) ^^ n) \<and>
    (\<forall>u m. (u, v) \<in> edges (an_graph (new_analyzer issues now)) ^^ m \<longrightarrow> m \<le> n)"
proof -
  let ?a = "new_analyzer issues now"
  let ?g = "an_graph ?a"
  obtain d where d: "path_in ?g d (set sn)" using path_in_exists[OF assms(1)] by auto
  have "mget (compute_heights ?a sn) (node_ids issues ! v) = Some (int (Suc (d v)))"
  proof -
    have v: "v \<in> set sn" using assms by (simp add: topo_order_def)
    have "topo_order ?g (sn @ [])" "path_in ?g d (set (sn @ []))" using assms(1) d by simp_all
    from heights_fold[OF this(1) analyzer_graph_ok _ node_ids_facts(1) _ this(2)] v assms(2)
    show ?thesis by (simp add: compute_heights_def)
  qed
  moreover have "v \<in> set sn" using assms by (simp add: topo_order_def)
  then have l: "longest ((edges ?g)\<inverse>) v (d v)" using d unfolding path_in_def by blast
  then obtain u where "(v, u) \<in> (edges ?g)\<inverse> ^^ d v" unfolding longest_def by blast
  then have "(u, v) \<in> edges ?g ^^ d v" by (simp add: relpow_converse)
  moreover have "m \<le> d v" if "(u, v) \<in> edges ?g ^^ m" for u m
    using longest_bound[OF l, of u m] that by (simp add: relpow_converse)
  ultimately show ?thesis by auto
qed

lemma demo_topo: "topo_order (an_graph (new_analyzer demo_tracker 0)) [3, 2, 1, 0]"
proof -
  have n: "cg_nodes (an_graph (new_analyzer demo_tracker 0)) = 4" by code_simp
  have "edge_list (an_graph (new_analyzer demo_tracker 0)) = [(2, 1), (3, 0)]" by code_simp
  then have e: "edges (an_graph (new_analyzer demo_tracker 0)) = {(2, 1), (3, 0)}"
    by (simp flip: set_edge_list)
  have "set [3, 2, 1, 0] = {..<(4 :: nat)}" by auto
  then show ?thesis unfolding topo_order_def n e by simp
qed

lemma heights_are_longest_chains_witness:
  "\<exists>n. mget (compute_heights (new_analyzer demo_tracker 0) [3, 2, 1, 0]) ''b'' = Some (int n + 1)"
proof -
  have ids: "node_ids demo_tracker = [''b'', ''c'', ''d'', ''p'']" by code_simp
  have "(0 :: nat) < length (node_ids demo_tracker)" "node_ids demo_tracker ! 0 = ''b''"
    unfolding ids by simp_all
  then show ?thesis using heights_are_longest_chains[OF demo_topo, of 0] by metis
qed

section \<open>Slack\<close>

lemma Max_insert_Suc: "finite S \<Longrightarrow> Max (insert (a :: nat) (insert b S)) = max b (Max (insert a S))"
  by (simp add: insert_commute[of a b])

text \<open>The inner loops, on in-range nodes.\<close>

lemma forward_loop:
  assumes "set ws \<subseteq> {..<length dist}" "v \<notin> set ws"
  shows "\<exists>dist'. run (\<lambda>dep dist. relax_to dep (dist ! v + 1) dist) ws dist = Some dist' \<and> length dist' = length dist \<and>
    (\<forall>x < length dist. dist' ! x = (if x \<in> set ws then max (dist ! x) (dist ! v + 1) else dist ! x))"
  using assms
proof (induction ws arbitrary: dist)
  case (Cons w ws)
  define d1 where "d1 = (if dist ! w < dist ! v + 1 then dist[w := dist ! v + 1] else dist)"
  have w: "w < length dist" "w \<noteq> v" using Cons.prems by auto
  have d1: "length d1 = length dist" "d1 ! v = dist ! v"
    "\<And>x. x < length dist \<Longrightarrow> d1 ! x = (if x = w then max (dist ! x) (dist ! v + 1) else dist ! x)"
    using w by (auto simp: d1_def nth_list_update max_def)
  have r: "relax_to w (dist ! v + 1) dist = Some d1" using w by (simp add: relax_to_def d1_def)
  obtain d2 where d2: "run (\<lambda>dep dist. relax_to dep (dist ! v + 1) dist) ws d1 = Some d2" "length d2 = length d1"
    "\<forall>x < length d1. d2 ! x = (if x \<in> set ws then max (d1 ! x) (d1 ! v + 1) else d1 ! x)"
    using Cons.IH[of d1] Cons.prems d1(1) by auto
  have "\<forall>x < length dist. d2 ! x = (if x \<in> set (w # ws) then max (dist ! x) (dist ! v + 1) else dist ! x)"
    using d2(3) d1 by auto
  then show ?case using r d2 d1 by auto
qed simp

lemma backward_loop:
  assumes "set ws \<subseteq> {..<length dist}" "v \<notin> set ws" "v < length dist"
  shows "\<exists>dist'. run (\<lambda>dep dist. if dep < length dist then relax_to v (dist ! dep + 1) dist else None) ws dist = Some dist' \<and>
    length dist' = length dist \<and> (\<forall>x < length dist. x \<noteq> v \<longrightarrow> dist' ! x = dist ! x) \<and>
    dist' ! v = Max (insert (dist ! v) ((\<lambda>w. dist ! w + 1) ` set ws))"
  using assms
proof (induction ws arbitrary: dist)
  case (Cons w ws)
  define d1 where "d1 = (if dist ! v < dist ! w + 1 then dist[v := dist ! w + 1] else dist)"
  have w: "w < length dist" "w \<noteq> v" using Cons.prems by auto
  have d1: "length d1 = length dist" "d1 ! v = max (dist ! v) (dist ! w + 1)"
    "\<And>x. x < length dist \<Longrightarrow> x \<noteq> v \<Longrightarrow> d1 ! x = dist ! x"
    using Cons.prems by (auto simp: d1_def max_def)
  have r: "relax_to v (dist ! w + 1) dist = Some d1" using Cons.prems by (simp add: relax_to_def d1_def)
  obtain d2 where d2: "run (\<lambda>dep dist. if dep < length dist then relax_to v (dist ! dep + 1) dist else None) ws d1 = Some d2"
    "length d2 = length d1" "\<forall>x < length d1. x \<noteq> v \<longrightarrow> d2 ! x = d1 ! x"
    "d2 ! v = Max (insert (d1 ! v) ((\<lambda>w. d1 ! w + 1) ` set ws))"
    using Cons.IH[of d1] Cons.prems d1(1) by auto
  have "(\<lambda>w. d1 ! w + 1) ` set ws = (\<lambda>w. dist ! w + 1) ` set ws"
    using d1(3) Cons.prems by (intro image_cong) auto
  then have "d2 ! v = Max (insert (dist ! v) ((\<lambda>w. dist ! w + 1) ` set (w # ws)))"
    unfolding d2(4) d1(2) by (cases "ws = []") (simp_all add: Max_insert max.assoc)
  then show ?case using r d2 d1 w by auto
qed simp

lemma forward_pass:
  assumes topo: "topo_order g (ps @ qs)" and ok: "graph_ok g" and d: "path_in g d (set (ps @ qs))"
    and pr: "\<forall>v < cg_nodes g. prereqs ! v = cg_out g ! v"
  shows "\<exists>dist. run (forward_node prereqs) ps (replicate (cg_nodes g) 0) = Some dist \<and> length dist = cg_nodes g \<and>
    (\<forall>x < cg_nodes g. dist ! x = int (Max (insert 0 ((\<lambda>p. Suc (d p)) ` {p \<in> set ps. (p, x) \<in> edges g}))))"
  using topo d
proof (induction ps arbitrary: qs rule: rev_induct)
  case (snoc v ps)
  have topo: "topo_order g (ps @ v # qs)" and d: "path_in g d (set (ps @ v # qs))" using snoc.prems by simp_all
  obtain dist where dist: "run (forward_node prereqs) ps (replicate (cg_nodes g) 0) = Some dist" "length dist = cg_nodes g"
    "\<forall>x < cg_nodes g. dist ! x = int (Max (insert 0 ((\<lambda>p. Suc (d p)) ` {p \<in> set ps. (p, x) \<in> edges g})))"
    using snoc.IH[OF topo d] by blast
  have v: "v < cg_nodes g" using topo by (auto simp: topo_order_def)
  have "{p \<in> set ps. (p, v) \<in> edges g} = {p. (p, v) \<in> edges g}" using topo_pred_before[OF topo ok] by blast
  then have dv: "dist ! v = int (d v)"
    using dist(3) v d unfolding path_in_def max_in_def by (metis in_set_conv_decomp)
  have outs: "set (cg_out g ! v) = {x. (v, x) \<in> edges g}" using v by (auto simp: edges_def)
  have "v \<notin> set (cg_out g ! v)" "set (cg_out g ! v) \<subseteq> {..<length dist}"
    using topo v outs edges_range[OF ok] dist(2) by (auto simp: topo_order_def)
  then obtain dist' where d': "forward_node prereqs v dist = Some dist'" "length dist' = length dist"
    "\<forall>x < length dist. dist' ! x = (if x \<in> set (cg_out g ! v) then max (dist ! x) (dist ! v + 1) else dist ! x)"
    using forward_loop[of "cg_out g ! v" dist v] pr v by (auto simp: forward_node_def)
  have "dist' ! x = int (Max (insert 0 ((\<lambda>p. Suc (d p)) ` {p \<in> set (ps @ [v]). (p, x) \<in> edges g})))"
    if x: "x < cg_nodes g" for x
  proof (cases "(v, x) \<in> edges g")
    case True
    let ?S = "(\<lambda>p. Suc (d p)) ` {p \<in> set ps. (p, x) \<in> edges g}"
    have "(\<lambda>p. Suc (d p)) ` {p \<in> set (ps @ [v]). (p, x) \<in> edges g} = insert (Suc (d v)) ?S" using True by auto
    then have "Max (insert 0 ((\<lambda>p. Suc (d p)) ` {p \<in> set (ps @ [v]). (p, x) \<in> edges g})) = max (Suc (d v)) (Max (insert 0 ?S))"
      using Max_insert_Suc[of ?S 0 "Suc (d v)"] by simp
    moreover have "dist' ! x = max (int (Max (insert 0 ?S))) (int (d v) + 1)"
      using d'(3) dist x True outs dv by simp
    ultimately show ?thesis by simp
  next
    case False
    then have "{p \<in> set (ps @ [v]). (p, x) \<in> edges g} = {p \<in> set ps. (p, x) \<in> edges g}" by auto
    moreover have "dist' ! x = dist ! x" using d'(3) dist(2) x False outs by simp
    ultimately show ?thesis using dist(3) x by simp
  qed
  then show ?case using dist(1,2) d'(1,2) by (simp add: run_append)
qed simp

lemma backward_pass:
  assumes topo: "topo_order g (qs @ ps)" and ok: "graph_ok g" and e: "path_out g e (set (qs @ ps))"
    and pr: "\<forall>v < cg_nodes g. prereqs ! v = cg_out g ! v"
  shows "\<exists>dist. run (backward_node prereqs) (rev ps) (replicate (cg_nodes g) 0) = Some dist \<and> length dist = cg_nodes g \<and>
    (\<forall>x < cg_nodes g. dist ! x = (if x \<in> set ps then int (e x) else 0))"
  using topo e
proof (induction ps arbitrary: qs)
  case (Cons v ps)
  have topo: "topo_order g (qs @ v # ps)" "topo_order g ((qs @ [v]) @ ps)"
    and e: "path_out g e (set ((qs @ [v]) @ ps))" using Cons.prems by simp_all
  obtain dist where dist: "run (backward_node prereqs) (rev ps) (replicate (cg_nodes g) 0) = Some dist" "length dist = cg_nodes g"
    "\<forall>x < cg_nodes g. dist ! x = (if x \<in> set ps then int (e x) else 0)"
    using Cons.IH[OF topo(2) e] by blast
  have v: "v < cg_nodes g" "v \<notin> set ps" using topo by (auto simp: topo_order_def)
  have outs: "set (cg_out g ! v) = {x. (v, x) \<in> edges g}" using v by (auto simp: edges_def)
  have sub: "x \<in> set ps \<and> x < cg_nodes g" if "x \<in> set (cg_out g ! v)" for x
    using that topo_succ_after[OF topo(1) ok] edges_range[OF ok] unfolding outs by auto
  then obtain dist' where d': "backward_node prereqs v dist = Some dist'" "length dist' = length dist"
    "\<forall>x < length dist. x \<noteq> v \<longrightarrow> dist' ! x = dist ! x"
    "dist' ! v = Max (insert (dist ! v) ((\<lambda>w. dist ! w + 1) ` set (cg_out g ! v)))"
    using backward_loop[of "cg_out g ! v" dist v] pr v dist(2) by (auto simp: backward_node_def subset_iff)
  have "(\<lambda>w. dist ! w + 1) ` set (cg_out g ! v) = (\<lambda>w. int (Suc (e w))) ` {x. (v, x) \<in> edges g}"
    unfolding outs[symmetric] using sub dist(3) by (intro image_cong) auto
  then have "dist' ! v = Max (insert (int 0) (int ` (\<lambda>w. Suc (e w)) ` {x. (v, x) \<in> edges g}))"
    using d'(4) dist(3) v by (simp add: image_image)
  also have "\<dots> = int (Max (insert 0 ((\<lambda>w. Suc (e w)) ` {x. (v, x) \<in> edges g})))"
    using finite_edges(2)[OF ok, of v]
    by (subst mono_Max_commute[where f = int]) (auto simp: mono_def)
  also have "\<dots> = int (e v)" using e unfolding path_out_def max_out_def by simp
  finally have "dist' ! v = int (e v)" .
  then have "\<forall>x < cg_nodes g. dist' ! x = (if x \<in> set (v # ps) then int (e x) else 0)"
    using d'(3) dist(2,3) v by auto
  then show ?case using dist(1,2) d'(1,2) by (simp add: run_append)
qed simp

lemma node_order_topological:
  assumes "set sn \<subseteq> {..<length (node_ids issues)}"
  shows "node_order (new_analyzer issues now) (topological_order (new_analyzer issues now) sn) = rev sn"
proof -
  have "List.map_filter (mget (index_ids (node_ids issues))) (map (\<lambda>n. mget_or [] (index_nodes (node_ids issues)) n) ns) = ns"
    if "set ns \<subseteq> {..<length (node_ids issues)}" for ns
    using that
  proof (induction ns)
    case (Cons n ns)
    then have n: "n < length (node_ids issues)" by simp
    then have "mget (index_ids (node_ids issues)) (node_ids issues ! n) = Some n"
      using index_ids_get[OF node_ids_facts(1)] by simp
    with Cons n show ?case by (simp add: List.map_filter_simps mget_or_def index_nodes_get)
  qed (simp add: List.map_filter_simps)
  from this[of "rev sn"] assms show ?thesis by (simp add: node_order_def topological_order_def)
qed

lemma slack_prereqs_rows:
  assumes "distinct ns" "set ns \<subseteq> {..<sz}"
  shows "\<forall>v < sz. slack_prereqs a sz ns ! v = (if v \<in> set ns then cg_from (an_graph a) (int v) else [])"
proof -
  have "length pr = sz \<Longrightarrow> length (fold (\<lambda>n pr. pr[n := pr ! n @ cg_from (an_graph a) (int n)]) ns pr) = sz \<and>
    (\<forall>v < sz. fold (\<lambda>n pr. pr[n := pr ! n @ cg_from (an_graph a) (int n)]) ns pr ! v =
       (if v \<in> set ns then pr ! v @ cg_from (an_graph a) (int v) else pr ! v))" for pr
    using assms
  proof (induction ns arbitrary: pr)
    case (Cons n ns)
    then show ?case by (auto simp: nth_list_update)
  qed simp
  from this[of "replicate sz []"] show ?thesis by (simp add: slack_prereqs_def)
qed

lemma fold_max_all: "set ns = {..<n} \<Longrightarrow> 0 < n \<Longrightarrow> fold max ns 0 + 1 = (n :: nat)"
proof -
  assume ns: "set ns = {..<n}" "0 < n"
  have "fold max ns 0 = Max (set (0 # ns))" by (subst Max.set_eq_fold) simp
  also have "set (0 # ns) = {..<n}" unfolding list.set(2) ns(1) using ns(2) by auto
  also have "Max {..<n} = n - 1" using ns(2) by (intro Max_eqI) auto
  finally show ?thesis using ns(2) by simp
qed

lemma longest_fold:
  "fold (\<lambda>n l. if f n > l then f n else l) ns (l :: int) = Max (insert l (f ` set ns))"
proof (induction ns arbitrary: l)
  case (Cons n ns)
  have "fold (\<lambda>n l. if f n > l then f n else l) (n # ns) l = fold (\<lambda>n l. if f n > l then f n else l) ns (max l (f n))"
  proof -
    have "(if f n > l then f n else l) = max l (f n)" by (simp add: max_def)
    then show ?thesis by (simp only: fold.simps comp_apply)
  qed
  also have "\<dots> = Max (insert (max l (f n)) (f ` set ns))" by (rule Cons.IH)
  also have "\<dots> = Max (insert l (f ` set (n # ns)))"
    by (cases "ns = []") (simp_all add: Max_insert max.assoc)
  finally show ?case .
qed simp

lemma slack_fold:
  assumes "distinct ids" "set ns \<subseteq> {..<length ids}" "v < length ids"
  shows "mget (fold (\<lambda>n m. case mget (index_nodes ids) n of None \<Rightarrow> m | Some k \<Rightarrow> mput k (f n) m) ns m0) (ids ! v) =
    (if v \<in> set ns then Some (f v) else mget m0 (ids ! v))"
  using assms(2)
proof (induction ns arbitrary: m0)
  case (Cons n ns)
  then show ?case using assms by (auto simp: index_nodes_get nth_eq_iff_index_eq)
qed simp

text \<open>Paths through a node, over the longest paths into and out of every node.\<close>

lemma longest_through:
  fixes E :: "(nat \<times> nat) set"
  assumes E: "E \<subseteq> {..<n} \<times> {..<n}" and d: "\<forall>x < n. longest (E\<inverse>) x (d x)"
    and e: "\<forall>x < n. longest E x (e x)" and v: "v < n" and L: "L = Max ((\<lambda>x. d x + e x) ` {..<n})"
  shows "d v + e v \<le> L"
    "(\<exists>x. (x, v) \<in> E ^^ d v) \<and> (\<forall>x m. (x, v) \<in> E ^^ m \<longrightarrow> m \<le> d v)"
    "(\<exists>y. (v, y) \<in> E ^^ e v) \<and> (\<forall>y m. (v, y) \<in> E ^^ m \<longrightarrow> m \<le> e v)"
    "(\<exists>x y. (x, y) \<in> E ^^ L) \<and> (\<forall>x y m. (x, y) \<in> E ^^ m \<longrightarrow> m \<le> L)"
    "d v + e v = L \<longleftrightarrow> (\<exists>x y i j. (x, v) \<in> E ^^ i \<and> (v, y) \<in> E ^^ j \<and> i + j = L)"
proof -
  have ins: "(\<exists>y. (y, x) \<in> E ^^ d x) \<and> (\<forall>y m. (y, x) \<in> E ^^ m \<longrightarrow> m \<le> d x)" if "x < n" for x
    using d[rule_format, OF that] longest_bound[OF d[rule_format, OF that]] by (auto simp: longest_def relpow_converse simp del: relpow.simps)
  have outs: "(\<exists>y. (x, y) \<in> E ^^ e x) \<and> (\<forall>y m. (x, y) \<in> E ^^ m \<longrightarrow> m \<le> e x)" if "x < n" for x
    using e[rule_format, OF that] longest_bound[OF e[rule_format, OF that]] by (auto simp: longest_def simp del: relpow.simps)
  have le: "d x + e x \<le> L" if "x < n" for x unfolding L using that by (intro Max_ge) auto
  have "L \<in> (\<lambda>x. d x + e x) ` {..<n}" unfolding L using v by (intro Max_in) auto
  then obtain w where w: "w < n" "L = d w + e w" by auto
  have "\<exists>x y. (x, y) \<in> E ^^ L" using ins[OF w(1)] outs[OF w(1)] unfolding w(2) relpow_add by blast
  moreover have "m \<le> L" if p: "(x, y) \<in> E ^^ m" for x y m
  proof (cases m)
    case (Suc k)
    then have x: "x < n" using p E unfolding Suc relpow_Suc_iff by blast
    then have "m \<le> e x" using outs p by blast
    then show ?thesis using le[OF x] by simp
  qed simp
  ultimately show "(\<exists>x y. (x, y) \<in> E ^^ L) \<and> (\<forall>x y m. (x, y) \<in> E ^^ m \<longrightarrow> m \<le> L)" by blast
  show "d v + e v = L \<longleftrightarrow> (\<exists>x y i j. (x, v) \<in> E ^^ i \<and> (v, y) \<in> E ^^ j \<and> i + j = L)"
    using ins[OF v] outs[OF v] le[OF v] by (metis add_mono le_antisym)
  show "d v + e v \<le> L"
    "(\<exists>x. (x, v) \<in> E ^^ d v) \<and> (\<forall>x m. (x, v) \<in> E ^^ m \<longrightarrow> m \<le> d v)"
    "(\<exists>y. (v, y) \<in> E ^^ e v) \<and> (\<forall>y m. (v, y) \<in> E ^^ m \<longrightarrow> m \<le> e v)"
    using ins[OF v] outs[OF v] le[OF v] by blast+
qed

lemma passes_correct:
  assumes topo: "topo_order g sn" and ok: "graph_ok g" and d: "path_in g d (set sn)" and e: "path_out g e (set sn)"
    and pr: "\<forall>v < cg_nodes g. prereqs ! v = cg_out g ! v"
  shows "\<exists>F T. run (forward_node prereqs) sn (replicate (cg_nodes g) 0) = Some F \<and>
    run (backward_node prereqs) (rev sn) (replicate (cg_nodes g) 0) = Some T \<and>
    (\<forall>x < cg_nodes g. F ! x = int (d x) \<and> T ! x = int (e x))"
proof -
  have sn: "set sn = {..<cg_nodes g}" using topo by (simp add: topo_order_def)
  obtain F where F: "run (forward_node prereqs) sn (replicate (cg_nodes g) 0) = Some F"
    "\<forall>x < cg_nodes g. F ! x = int (Max (insert 0 ((\<lambda>p. Suc (d p)) ` {p \<in> set sn. (p, x) \<in> edges g})))"
    using forward_pass[of g sn "[]" d prereqs] topo d pr ok by auto
  have "F ! x = int (d x)" if "x < cg_nodes g" for x
  proof -
    have "{p \<in> set sn. (p, x) \<in> edges g} = {p. (p, x) \<in> edges g}" using edges_range[OF ok] sn by auto
    moreover have "d x = max_in g d x" using d that unfolding path_in_def sn by blast
    ultimately show ?thesis using F(2) that unfolding max_in_def by simp
  qed
  moreover obtain T where "run (backward_node prereqs) (rev sn) (replicate (cg_nodes g) 0) = Some T"
    "\<forall>x < cg_nodes g. T ! x = int (e x)"
    using backward_pass[of g "[]" sn e prereqs] topo e pr sn ok by auto
  ultimately show ?thesis using F(1) by blast
qed

lemma compute_slack_value:
  fixes issues now
  defines "a \<equiv> new_analyzer issues now" and "n \<equiv> length (node_ids issues)"
  assumes topo: "topo_order (an_graph a) sn" and v: "v < n"
    and d: "path_in (an_graph a) d (set sn)" and e: "path_out (an_graph a) e (set sn)"
    and L: "L = Max ((\<lambda>x. d x + e x) ` {..<n})"
  shows "\<exists>sl. compute_slack a (topological_order a sn) = Some sl \<and>
    mget sl (node_ids issues ! v) = Some (int L - int (d v) - int (e v))"
proof -
  have sn: "set sn = {..<n}" "distinct sn" "sn \<noteq> []"
    using topo v unfolding topo_order_def a_def n_def by (auto simp: lessThan_empty_iff)
  define pr where "pr = slack_prereqs a n (rev sn)"
  have "slack_prereqs a n (rev sn) ! u = cg_out (an_graph a) ! u" if "u < n" for u
    using slack_prereqs_rows[of "rev sn" n a] that sn unfolding a_def n_def by (simp add: subset_iff)
  then have "\<forall>v < cg_nodes (an_graph a). pr ! v = cg_out (an_graph a) ! v" unfolding pr_def a_def n_def by simp
  from passes_correct[OF topo _ d e this] obtain F T where F: "run (forward_node pr) sn (replicate n 0) = Some F"
    and T: "run (backward_node pr) (rev sn) (replicate n 0) = Some T"
    and FT: "\<forall>x < n. F ! x = int (d x) \<and> T ! x = int (e x)"
    unfolding a_def n_def by auto
  have "fold (\<lambda>n l. if F ! n + T ! n > l then F ! n + T ! n else l) (rev sn) 0
      = Max (insert (int 0) (int ` (\<lambda>x. d x + e x) ` {..<n}))"
  proof -
    have "(\<lambda>n. F ! n + T ! n) ` set (rev sn) = int ` (\<lambda>x. d x + e x) ` {..<n}" using FT sn by (auto simp: image_iff)
    then show ?thesis by (simp only: longest_fold of_nat_0)
  qed
  also have "\<dots> = int (Max (insert 0 ((\<lambda>x. d x + e x) ` {..<n})))"
    by (subst mono_Max_commute[where f = int]) (auto simp: mono_def)
  also have "Max (insert 0 ((\<lambda>x. d x + e x) ` {..<n})) = L" unfolding L using v by (subst Max_insert) auto
  finally have long: "fold (\<lambda>n l. if F ! n + T ! n > l then F ! n + T ! n else l) (rev sn) 0 = int L" .
  define sl where "sl = fold (\<lambda>n m. case mget (index_nodes (node_ids issues)) n of None \<Rightarrow> m
      | Some k \<Rightarrow> mput k (int L - F ! n - T ! n) m) (rev sn) []"
  have "issue_map_of issues \<noteq> []" using v unfolding n_def by (auto simp: node_ids_def sorted_ids_def)
  moreover have "topological_order a sn \<noteq> []" using sn by (simp add: topological_order_def)
  moreover have "node_order a (topological_order a sn) = rev sn"
    using node_order_topological sn unfolding a_def n_def by simp
  moreover have "fold max (rev sn) 0 + 1 = n" using sn v by (intro fold_max_all) auto
  ultimately have "compute_slack a (topological_order a sn) = Some sl"
    unfolding sl_def long[symmetric] using F T sn(3) unfolding a_def pr_def by (simp add: compute_slack_def Let_def)
  moreover have "mget sl (node_ids issues ! v) = Some (int L - int (d v) - int (e v))"
    unfolding sl_def using slack_fold[of "node_ids issues" "rev sn" v "\<lambda>n. int L - F ! n - T ! n" "[]"] sn v FT
    unfolding n_def by simp
  ultimately show ?thesis by blast
qed

text \<open>C24: For a topological order of the blocking graph, \<open>computeSlack\<close> accesses no slice out of range and
  returns for every issue \<open>L - D - T\<close>, where L is the length of the longest path of the whole graph, D
  that of the longest path into the issue and T that of the longest path out of it. So the slack is
  never negative, and it is 0 exactly for the issues on a critical path.\<close>

theorem slack_is_longest_path_slack:
  assumes "topo_order (an_graph (new_analyzer issues now)) sn" "v < length (node_ids issues)"
  defines "E \<equiv> edges (an_graph (new_analyzer issues now))"
  shows "\<exists>sl L D T. compute_slack (new_analyzer issues now) (topological_order (new_analyzer issues now) sn) = Some sl \<and>
    mget sl (node_ids issues ! v) = Some (int L - int D - int T) \<and> D + T \<le> L \<and>
    ((\<exists>x. (x, v) \<in> E ^^ D) \<and> (\<forall>x m. (x, v) \<in> E ^^ m \<longrightarrow> m \<le> D)) \<and>
    ((\<exists>y. (v, y) \<in> E ^^ T) \<and> (\<forall>y m. (v, y) \<in> E ^^ m \<longrightarrow> m \<le> T)) \<and>
    ((\<exists>x y. (x, y) \<in> E ^^ L) \<and> (\<forall>x y m. (x, y) \<in> E ^^ m \<longrightarrow> m \<le> L)) \<and>
    (int L - int D - int T = 0 \<longleftrightarrow> (\<exists>x y i j. (x, v) \<in> E ^^ i \<and> (v, y) \<in> E ^^ j \<and> i + j = L))"
proof -
  let ?n = "length (node_ids issues)"
  have sn: "set sn = {..<?n}" using assms(1) by (simp add: topo_order_def)
  obtain d e where d: "path_in (an_graph (new_analyzer issues now)) d (set sn)"
    and e: "path_out (an_graph (new_analyzer issues now)) e (set sn)"
    using path_in_exists[OF assms(1)] path_out_exists[OF assms(1)] by auto
  define L where "L = Max ((\<lambda>x. d x + e x) ` {..<?n})"
  have E: "E \<subseteq> {..<?n} \<times> {..<?n}" using edges_range[of "an_graph (new_analyzer issues now)"] by (auto simp: E_def)
  have long: "\<forall>x < ?n. longest (E\<inverse>) x (d x)" "\<forall>x < ?n. longest E x (e x)"
    using d e unfolding path_in_def path_out_def sn E_def by blast+
  note through = longest_through[OF E long assms(2) L_def]
  obtain sl where sl: "compute_slack (new_analyzer issues now) (topological_order (new_analyzer issues now) sn) = Some sl"
    "mget sl (node_ids issues ! v) = Some (int L - int (d v) - int (e v))"
    using compute_slack_value[OF assms(1,2) d e L_def] by blast
  have crit: "int L - int (d v) - int (e v) = 0 \<longleftrightarrow> (\<exists>x y i j. (x, v) \<in> E ^^ i \<and> (v, y) \<in> E ^^ j \<and> i + j = L)"
    using through(1) unfolding through(5)[symmetric] by linarith
  show ?thesis
    by (rule exI[of _ sl], rule exI[of _ L], rule exI[of _ "d v"], rule exI[of _ "e v"])
      (intro conjI[OF sl(1)] conjI[OF sl(2)] conjI[OF through(1)] conjI[OF through(2)] conjI[OF through(3)] conjI[OF through(4)] crit)
qed

lemma slack_is_longest_path_slack_witness:
  "\<exists>sl L D T. compute_slack (new_analyzer demo_tracker 0) (topological_order (new_analyzer demo_tracker 0) [3, 2, 1, 0]) = Some sl \<and>
    mget sl ''b'' = Some (int L - int D - int T) \<and> D + T \<le> L"
proof -
  have ids: "node_ids demo_tracker = [''b'', ''c'', ''d'', ''p'']" by code_simp
  have "(0 :: nat) < length (node_ids demo_tracker)" "node_ids demo_tracker ! 0 = ''b''"
    unfolding ids by simp_all
  then show ?thesis using slack_is_longest_path_slack[OF demo_topo, of 0] by metis
qed

end
