(* ===== verification/Bv_Cycles.thy ===== *)
theory Bv_Cycles
  imports Bv_Metrics_Props
begin

text \<open>
  Cycle reports of \<open>pkg/analysis/graph_cycles.go\<close>: one representative cycle for every cyclic strongly
  connected component, found by an iterative depth-first search, then sorted and cut at a limit.
  The components come from gonum's \<open>topo.TarjanSCC\<close>, which is a parameter \<open>sccs\<close> of the model; what
  the code relies on is \<open>sccs_of\<close>: the lists are the classes of mutual reachability, in any order
  and each in any order.

  The state of the search is a record, one iteration of its loop is \<open>dfs_step\<close>, and the loop itself is
  a \<open>partial_function\<close>; the lemmas show that it ends with a cycle on every component of two nodes
  or more.
\<close>

section \<open>Ordering of cycles\<close>

fun ids_less :: "nat list \<Rightarrow> nat list \<Rightarrow> bool" where
  "ids_less (x # xs) (y # ys) = (if x \<noteq> y then x < y else ids_less xs ys)"
| "ids_less _ _ = False"

definition cycle_less :: "nat list \<Rightarrow> nat list \<Rightarrow> bool" where
  "cycle_less c d = (if length c \<noteq> length d then length c < length d else ids_less c d)"

lemma ids_less_irrefl [simp]: "\<not> ids_less c c"
  by (induction c) auto

lemma ids_less_trans: "ids_less c d \<Longrightarrow> ids_less d e \<Longrightarrow> ids_less c e"
proof (induction c d arbitrary: e rule: ids_less.induct)
  case (1 x xs y ys)
  then show ?case by (cases e) (auto split: if_splits)
qed auto

lemma ids_less_total: "length c = length d \<Longrightarrow> c \<noteq> d \<Longrightarrow> ids_less c d \<or> ids_less d c"
  by (induction c d rule: list_induct2) auto

interpretation cycle_order: less_contract cycle_less
proof
  fix x y z
  show "\<not> cycle_less x x" by (simp add: cycle_less_def)
  show "cycle_less x y \<Longrightarrow> cycle_less y z \<Longrightarrow> cycle_less x z"
    by (auto simp: cycle_less_def intro: ids_less_trans split: if_splits)
  show "cycle_less x z \<Longrightarrow> cycle_less x y \<or> cycle_less y z"
    using ids_less_total[of x y] by (auto simp: cycle_less_def intro: ids_less_trans split: if_splits)
qed

lemma cycle_less_total: "\<not> cycle_less c d \<Longrightarrow> \<not> cycle_less d c \<Longrightarrow> c = d"
  using ids_less_total[of c d] by (auto simp: cycle_less_def split: if_splits)

section \<open>One cycle in a component\<close>

record dfs_state =
  ds_visited :: "(nat, bool) gomap"
  ds_on_stack :: "(nat, bool) gomap"
  ds_pos :: "(nat, nat) gomap"
  ds_stack :: "nat list"
  ds_index :: "(nat, nat) gomap"

definition scc_adjacency :: "compact_graph \<Rightarrow> nat list \<Rightarrow> (nat, nat list) gomap" where
  "scc_adjacency g scc =
     fold (\<lambda>u adj. mput u (sort (filter (\<lambda>n. n \<in> set scc) (cg_from g (int u)))) adj) scc []"

definition dfs_push :: "nat \<Rightarrow> dfs_state \<Rightarrow> dfs_state" where
  "dfs_push v st =
     (if \<not> mget_or False (ds_visited st) v
      then st\<lparr>ds_pos := mput v (length (ds_stack st)) (ds_pos st), ds_stack := ds_stack st @ [v]\<rparr>
      else st)"

text \<open>One iteration, on a stack that is not empty: the next state, or the cycle that is returned.\<close>

definition dfs_step :: "(nat, nat list) gomap \<Rightarrow> dfs_state \<Rightarrow> dfs_state + nat list" where
  "dfs_step adj st =
     (let u = last (ds_stack st);
          st = (if \<not> mget_or False (ds_visited st) u
                then st\<lparr>ds_visited := mput u True (ds_visited st), ds_on_stack := mput u True (ds_on_stack st)\<rparr>
                else st);
          neighbors = mget_or [] adj u;
          idx = mget_or 0 (ds_index st) u
      in if idx < length neighbors then
           (let v = neighbors ! idx;
                st = st\<lparr>ds_index := mput u (idx + 1) (ds_index st)\<rparr>
            in if mget_or False (ds_on_stack st) v then
                 (case mget (ds_pos st) v of
                    Some i \<Rightarrow> Inr (drop i (ds_stack st) @ [v])
                  | None \<Rightarrow> Inl (dfs_push v st))
               else Inl (dfs_push v st))
         else
           Inl (st\<lparr>ds_on_stack := mput u False (ds_on_stack st), ds_pos := AList.delete u (ds_pos st),
                   ds_stack := butlast (ds_stack st), ds_index := AList.delete u (ds_index st)\<rparr>))"

partial_function (option) dfs_loop :: "(nat, nat list) gomap \<Rightarrow> dfs_state \<Rightarrow> nat list option" where
  "dfs_loop adj st =
     (if ds_stack st = [] then Some []
      else (case dfs_step adj st of Inl st' \<Rightarrow> dfs_loop adj st' | Inr c \<Rightarrow> Some c))"

declare dfs_loop.simps [code]

definition dfs_start :: "nat list \<Rightarrow> dfs_state" where
  "dfs_start scc =
     (let st = \<lparr>ds_visited = [], ds_on_stack = [], ds_pos = [], ds_stack = [], ds_index = []\<rparr>
      in if length scc > 0 then st\<lparr>ds_pos := [(scc ! 0, 0)], ds_stack := [scc ! 0]\<rparr> else st)"

definition find_one_cycle :: "compact_graph \<Rightarrow> nat list \<Rightarrow> nat list option" where
  "find_one_cycle g scc =
     (let scc = sort scc in dfs_loop (scc_adjacency g scc) (dfs_start scc))"

section \<open>All components\<close>

record cycle_result =
  cr_cycles :: "nat list list"
  cr_total :: nat
  cr_truncated :: bool

definition scc_cycle :: "compact_graph \<Rightarrow> nat list \<Rightarrow> nat list list \<Rightarrow> nat list list option" where
  "scc_cycle g scc cycles =
     (if length scc = 1 then
        (let n = scc ! 0 in Some (if has_edge_from_to g (int n) (int n) then cycles @ [[n, n]] else cycles))
      else map_option (\<lambda>c. if length c > 0 then cycles @ [c] else cycles) (find_one_cycle g scc))"

definition find_cycles :: "compact_graph \<Rightarrow> nat list list \<Rightarrow> int \<Rightarrow> cycle_result option" where
  "find_cycles g sccs limit =
     (if limit \<le> 0 then Some \<lparr>cr_cycles = [], cr_total = 0, cr_truncated = False\<rparr>
      else Option.bind (run (scc_cycle g) sccs []) (\<lambda>cycles.
        let cycles = sort_by cycle_less cycles
        in Some (if int (length cycles) > limit
                 then \<lparr>cr_cycles = take (nat limit) cycles, cr_total = length cycles, cr_truncated = True\<rparr>
                 else \<lparr>cr_cycles = cycles, cr_total = length cycles, cr_truncated = False\<rparr>)))"

section \<open>Specification\<close>

text \<open>A simple cycle: consecutive nodes are joined by edges, it is closed, and repeats no other node.\<close>

definition is_cycle :: "(nat \<times> nat) set \<Rightarrow> nat list \<Rightarrow> bool" where
  "is_cycle E c \<longleftrightarrow>
     2 \<le> length c \<and> hd c = last c \<and> distinct (tl c) \<and> successively (\<lambda>x y. (x, y) \<in> E) c"

definition mutual :: "(nat \<times> nat) set \<Rightarrow> nat \<Rightarrow> nat \<Rightarrow> bool" where
  "mutual E u v \<longleftrightarrow> (u, v) \<in> E\<^sup>* \<and> (v, u) \<in> E\<^sup>*"

definition sccs_of :: "compact_graph \<Rightarrow> nat list list \<Rightarrow> bool" where
  "sccs_of g sccs \<longleftrightarrow>
     [] \<notin> set sccs \<and> distinct (concat sccs) \<and> set (concat sccs) = {..<cg_nodes g} \<and>
     (\<forall>scc \<in> set sccs. \<forall>u \<in> set scc. \<forall>v < cg_nodes g. v \<in> set scc \<longleftrightarrow> mutual (edges g) u v)"

text \<open>The classes of mutual reachability that hold a cycle.\<close>

definition cyclic_classes :: "compact_graph \<Rightarrow> nat set set" where
  "cyclic_classes g = (\<lambda>v. {u. mutual (edges g) v u}) ` {v. (v, v) \<in> (edges g)\<^sup>+}"

section \<open>The search finds a cycle\<close>

lemma mget_scc_adjacency:
  assumes "u \<in> set scc"
  shows "mget (scc_adjacency g scc) u = Some (sort (filter (\<lambda>n. n \<in> set scc) (cg_from g (int u))))"
proof -
  have "mget (fold (\<lambda>u adj. mput u (F u) adj) us adj) u = (if u \<in> set us then Some (F u) else mget adj u)"
    for us adj and F :: "nat \<Rightarrow> nat list"
    by (induction us arbitrary: adj) auto
  with assms show ?thesis by (simp add: scc_adjacency_def)
qed

text \<open>
  While no node is finished, the search follows the first neighbour of each node: the stack is a path
  of \<open>f\<close>, all its nodes but the last are visited and on the stack, and their positions are right.
\<close>

definition following :: "nat set \<Rightarrow> (nat \<Rightarrow> nat) \<Rightarrow> dfs_state \<Rightarrow> bool" where
  "following S f st \<longleftrightarrow>
     ds_stack st \<noteq> [] \<and> distinct (ds_stack st) \<and> set (ds_stack st) \<subseteq> S \<and>
     successively (\<lambda>x y. y = f x) (ds_stack st) \<and>
     (\<forall>v. mget_or False (ds_visited st) v \<longleftrightarrow> v \<in> set (butlast (ds_stack st))) \<and>
     (\<forall>v. mget_or False (ds_on_stack st) v \<longleftrightarrow> v \<in> set (butlast (ds_stack st))) \<and>
     (\<forall>i < length (ds_stack st). mget (ds_pos st) (ds_stack st ! i) = Some i) \<and>
     (\<forall>v. v \<notin> set (butlast (ds_stack st)) \<longrightarrow> mget_or 0 (ds_index st) v = 0)"

definition follows :: "nat set \<Rightarrow> (nat \<Rightarrow> nat) \<Rightarrow> nat list \<Rightarrow> bool" where
  "follows S f c \<longleftrightarrow> 2 \<le> length c \<and> hd c = last c \<and> distinct (tl c) \<and> set c \<subseteq> S \<and>
     successively (\<lambda>x y. y = f x) c"

lemma follows_from_stack:
  assumes "i < length stk" "distinct stk" "set stk \<subseteq> S" "successively (\<lambda>x y. y = f x) stk"
    and "f (last stk) = stk ! i"
  shows "follows S f (drop i stk @ [stk ! i])"
proof -
  have ne: "drop i stk \<noteq> []" using assms(1) by simp
  have "drop i stk = stk ! i # drop (Suc i) stk" using assms(1) by (simp add: Cons_nth_drop_Suc)
  then have "stk ! i \<notin> set (drop (Suc i) stk)" "distinct (drop (Suc i) stk)"
    using assms(2) by (metis distinct.simps(2) distinct_drop)+
  moreover have "tl (drop i stk @ [stk ! i]) = drop (Suc i) stk @ [stk ! i]"
    using ne by (simp add: drop_Suc tl_drop)
  moreover have "successively (\<lambda>x y. y = f x) (drop i stk)"
    using assms(4) by (metis append_take_drop_id successively_append_iff)
  moreover have "hd (drop i stk) = stk ! i" "last (drop i stk) = last stk"
    using assms(1) by (simp_all add: hd_drop_conv_nth)
  ultimately show ?thesis
    using assms ne set_drop_subset[of i stk] nth_mem[OF assms(1)]
    by (auto simp: follows_def successively_append_iff)
qed

lemma dfs_step_following:
  assumes inv: "following S f st" and adj: "mget_or [] adj (last (ds_stack st)) = f (last (ds_stack st)) # rest"
    and closed: "f (last (ds_stack st)) \<in> S"
  shows "(\<exists>c. dfs_step adj st = Inr c \<and> follows S f c) \<or>
    (\<exists>st'. dfs_step adj st = Inl st' \<and> following S f st' \<and> length (ds_stack st') = Suc (length (ds_stack st)))"
proof -
  let ?stk = "ds_stack st" and ?u = "last (ds_stack st)"
  let ?v = "f ?u"
  let ?st = "st\<lparr>ds_visited := mput ?u True (ds_visited st), ds_on_stack := mput ?u True (ds_on_stack st),
    ds_index := mput ?u 1 (ds_index st)\<rparr>"
  have ne: "?stk \<noteq> []" and d: "distinct ?stk" using inv by (simp_all add: following_def)
  have split: "?stk = butlast ?stk @ [?u]" using ne by simp
  have "distinct (butlast ?stk @ [?u])" using d split by simp
  then have nin: "?u \<notin> set (butlast ?stk)" by simp
  have all: "set ?stk = insert ?u (set (butlast ?stk))" by (subst split) simp
  have nv: "\<not> mget_or False (ds_visited st) ?u" and idx: "mget_or 0 (ds_index st) ?u = 0"
    using inv nin by (simp_all add: following_def)
  have on: "mget_or False (ds_on_stack ?st) v \<longleftrightarrow> v \<in> set ?stk"
    and vis: "mget_or False (ds_visited ?st) v \<longleftrightarrow> v \<in> set ?stk" for v
    using inv by (auto simp: following_def all)
  have step: "dfs_step adj st = (if ?v \<in> set ?stk then
      (case mget (ds_pos st) ?v of Some i \<Rightarrow> Inr (drop i ?stk @ [?v]) | None \<Rightarrow> Inl (dfs_push ?v ?st))
      else Inl (dfs_push ?v ?st))"
    using nv idx adj on[of ?v] by (simp add: dfs_step_def Let_def cong: option.case_cong if_cong)
  show ?thesis
  proof (cases "?v \<in> set ?stk")
    case True
    then obtain i where i: "i < length ?stk" "?v = ?stk ! i" by (metis in_set_conv_nth)
    then have "dfs_step adj st = Inr (drop i ?stk @ [?stk ! i])"
      using step True inv by (simp add: following_def)
    moreover have "follows S f (drop i ?stk @ [?stk ! i])"
      using inv i by (intro follows_from_stack) (auto simp: following_def)
    ultimately show ?thesis by blast
  next
    case False
    let ?st' = "?st\<lparr>ds_pos := mput ?v (length ?stk) (ds_pos st), ds_stack := ?stk @ [?v]\<rparr>"
    have "dfs_step adj st = Inl ?st'"
      using step False vis[of ?v] by (simp add: dfs_push_def)
    moreover have "mget (ds_pos ?st') (ds_stack ?st' ! i) = Some i" if "i < length (ds_stack ?st')" for i
      using that inv False by (auto simp: following_def nth_append less_Suc_eq) (metis nth_mem)
    then have "following S f ?st'"
      using inv False closed on vis idx nin
      by (auto simp: following_def successively_append_iff all)
    ultimately show ?thesis by auto
  qed
qed

lemma dfs_loop_following:
  assumes "finite S" "\<And>u. u \<in> S \<Longrightarrow> f u \<in> S \<and> (\<exists>rest. mget_or [] adj u = f u # rest)" "following S f st"
  shows "\<exists>c. dfs_loop adj st = Some c \<and> follows S f c"
  using assms(3)
proof (induction "card S - length (ds_stack st)" arbitrary: st rule: less_induct)
  case less
  let ?u = "last (ds_stack st)"
  have ne: "ds_stack st \<noteq> []" and sub: "set (ds_stack st) \<subseteq> S" and d: "distinct (ds_stack st)"
    using less.prems by (simp_all add: following_def)
  then have u: "?u \<in> S" using last_in_set by blast
  then obtain rest where rest: "mget_or [] adj ?u = f ?u # rest" "f ?u \<in> S" using assms(2) by blast
  note unf = dfs_loop.simps[of adj st]
  consider (found) c where "dfs_step adj st = Inr c" "follows S f c"
    | (more) st' where "dfs_step adj st = Inl st'" "following S f st'"
      "length (ds_stack st') = Suc (length (ds_stack st))"
    using dfs_step_following[OF less.prems rest] by blast
  then show ?case
  proof cases
    case found
    then show ?thesis using ne by (simp add: unf)
  next
    case more
    have "length (ds_stack st') \<le> card S"
      using more(2) assms(1) unfolding following_def by (metis card_mono distinct_card)
    then have "card S - length (ds_stack st') < card S - length (ds_stack st)" using more(3) by simp
    from less.hyps[OF this more(2)] show ?thesis using ne more(1) by (simp add: unf)
  qed
qed

section \<open>Components\<close>

abbreviation cyclic :: "compact_graph \<Rightarrow> nat list \<Rightarrow> bool" where
  "cyclic g scc \<equiv> (\<exists>v \<in> set scc. (v, v) \<in> (edges g)\<^sup>+)"

lemma scc_range: "sccs_of g sccs \<Longrightarrow> scc \<in> set sccs \<Longrightarrow> u \<in> set scc \<Longrightarrow> u < cg_nodes g"
  unfolding sccs_of_def by auto

lemma scc_step:
  assumes "sccs_of g sccs" "scc \<in> set sccs" "u \<in> set scc" "(u, w) \<in> edges g" "(w, v) \<in> (edges g)\<^sup>*" "v \<in> set scc"
    and ok: "graph_ok g"
  shows "w \<in> set scc"
proof -
  have "mutual (edges g) u v" using assms(1-3,6) scc_range[OF assms(1,2,6)] by (auto simp: sccs_of_def)
  then have "mutual (edges g) u w" using assms(4,5) by (auto simp: mutual_def intro: rtrancl_trans)
  moreover have "w < cg_nodes g" using edges_range[OF ok, of u w] assms(4) by simp
  ultimately show ?thesis using assms(1-3) by (auto simp: sccs_of_def)
qed

lemma scc_neighbor:
  assumes "sccs_of g sccs" "scc \<in> set sccs" "graph_ok g" "length scc \<noteq> 1" "u \<in> set scc"
  shows "\<exists>w \<in> set scc. (u, w) \<in> edges g"
proof -
  have "\<exists>v \<in> set scc. v \<noteq> u"
  proof (rule ccontr)
    assume "\<not> (\<exists>v \<in> set scc. v \<noteq> u)"
    then have "set scc = {u}" using assms(5) by blast
    moreover have "distinct scc" using assms(1,2) by (auto simp: sccs_of_def distinct_concat_iff)
    ultimately have "length scc = 1" using distinct_card[of scc] by simp
    with assms(4) show False by simp
  qed
  then obtain v where v: "v \<in> set scc" "v \<noteq> u" by blast
  then have "mutual (edges g) u v" using assms scc_range[OF assms(1,2) v(1)] by (auto simp: sccs_of_def)
  then obtain w where "(u, w) \<in> edges g" "(w, v) \<in> (edges g)\<^sup>*"
    using v(2) by (auto simp: mutual_def elim: converse_rtranclE)
  with scc_step[OF assms(1,2,5) this v(1) assms(3)] show ?thesis by blast
qed

lemma follows_is_cycle:
  assumes "follows S f c" "\<And>u. u \<in> S \<Longrightarrow> (u, f u) \<in> E"
  shows "is_cycle E c"
proof -
  have "successively (\<lambda>x y. (x, y) \<in> E) c"
  proof (rule successively_mono)
    show "successively (\<lambda>x y. y = f x) c" using assms(1) by (simp add: follows_def)
    show "(x, y) \<in> E" if "x \<in> set c" "y = f x" for x y
      using that assms by (auto simp: follows_def)
  qed
  then show ?thesis using assms(1) by (simp add: follows_def is_cycle_def)
qed

lemma path_trancl:
  "successively (\<lambda>x y. (x, y) \<in> E) (x # y # zs) \<Longrightarrow> (x, last (y # zs)) \<in> E\<^sup>+"
proof (induction zs arbitrary: x y)
  case (Cons a zs)
  have "(y, last (a # zs)) \<in> E\<^sup>+" using Cons.IH[of y a] Cons.prems by simp
  then show ?case using Cons.prems by (auto intro: trancl_into_trancl2)
qed simp

lemma is_cycle_trancl: "is_cycle E c \<Longrightarrow> (hd c, hd c) \<in> E\<^sup>+"
proof -
  assume c: "is_cycle E c"
  then obtain x y zs where z: "c = x # y # zs"
    by (cases c; cases "tl c") (auto simp: is_cycle_def)
  have path: "successively (\<lambda>x y. (x, y) \<in> E) (x # y # zs)" using c unfolding z is_cycle_def by blast
  have eq: "x = last (y # zs)" using c unfolding z is_cycle_def by simp
  show ?thesis using path_trancl[OF path] unfolding z eq[symmetric] by simp
qed

lemma find_one_cycle_in_component:
  assumes "sccs_of g sccs" "scc \<in> set sccs" "graph_ok g" "length scc \<noteq> 1"
  shows "\<exists>c. find_one_cycle g scc = Some c \<and> is_cycle (edges g) c \<and> set c \<subseteq> set scc"
proof -
  let ?s = "sort scc" and ?nb = "\<lambda>u. sort (filter (\<lambda>n. n \<in> set scc) (cg_from g (int u)))"
  let ?f = "\<lambda>u. hd (?nb u)" and ?adj = "scc_adjacency g (sort scc)"
  have nb: "set (?nb u) = {w \<in> set scc. (u, w) \<in> edges g}" if "u \<in> set scc" for u
    using scc_range[OF assms(1,2) that] assms(3) by (auto simp: cg_from_def edges_def graph_ok_def)
  have ne: "?nb u \<noteq> []" if "u \<in> set scc" for u
    using scc_neighbor[OF assms that] nb[OF that] by (metis (mono_tags, lifting) empty_iff mem_Collect_eq set_empty)
  have f: "?f u \<in> set scc" "(u, ?f u) \<in> edges g" if "u \<in> set scc" for u
    using hd_in_set[OF ne[OF that]] nb[OF that] by auto
  have adj: "\<exists>rest. mget_or [] ?adj u = ?f u # rest" if "u \<in> set scc" for u
    using that ne[OF that] by (simp add: mget_or_def mget_scc_adjacency) (metis list.collapse)
  have "scc \<noteq> []" using assms(1,2) by (auto simp: sccs_of_def)
  then have "?s \<noteq> []" by (metis length_0_conv length_sort)
  then obtain x xs where s: "?s = x # xs" by (cases ?s) auto
  then have x: "x \<in> set scc" by (metis list.set_intros(1) set_sort)
  have "following (set scc) ?f (dfs_start ?s)"
    using x by (simp add: s following_def dfs_start_def mget_def)
  then obtain c where c: "dfs_loop ?adj (dfs_start ?s) = Some c" "follows (set scc) ?f c"
    using dfs_loop_following[of "set scc" ?f ?adj] f adj by blast
  have "is_cycle (edges g) c" using follows_is_cycle[OF c(2)] f by blast
  then show ?thesis using c by (auto simp: find_one_cycle_def Let_def follows_def)
qed

lemma scc_cycle_correct:
  assumes "sccs_of g sccs" "scc \<in> set sccs" "graph_ok g"
  shows "if cyclic g scc
    then \<exists>c. (\<forall>cs. scc_cycle g scc cs = Some (cs @ [c])) \<and> is_cycle (edges g) c \<and> set c \<subseteq> set scc
    else (\<forall>cs. scc_cycle g scc cs = Some cs)"
proof (cases "length scc = 1")
  case True
  then obtain n where n: "scc = [n]" by (auto simp: length_Suc_conv)
  have rng: "n < cg_nodes g" using scc_range[OF assms(1,2)] n by simp
  have "(n, n) \<in> edges g" if "(n, n) \<in> (edges g)\<^sup>+"
  proof -
    from that obtain w where w: "(n, w) \<in> edges g" "(w, n) \<in> (edges g)\<^sup>*" by (blast dest: tranclD)
    with scc_step[OF assms(1,2) _ w _ assms(3)] n have "w = n" by simp
    with w show ?thesis by simp
  qed
  then have "cyclic g scc \<longleftrightarrow> (n, n) \<in> edges g" using n by auto
  moreover have "has_edge_from_to g (int n) (int n) \<longleftrightarrow> (n, n) \<in> edges g"
    using rng assms(3) by (auto simp: has_edge_from_to_def edges_def graph_ok_def)
  ultimately show ?thesis using n by (auto simp: scc_cycle_def is_cycle_def)
next
  case False
  obtain c where c: "find_one_cycle g scc = Some c" "is_cycle (edges g) c" "set c \<subseteq> set scc"
    using find_one_cycle_in_component[OF assms False] by blast
  have "c \<noteq> []" using c(2) by (auto simp: is_cycle_def)
  then have "cyclic g scc" using is_cycle_trancl[OF c(2)] c(3) hd_in_set by blast
  then show ?thesis using c False by (auto simp: scc_cycle_def is_cycle_def)
qed

lemma sccs_apart:
  assumes "sccs_of g sccs"
  shows "distinct sccs" and "a \<in> set sccs \<Longrightarrow> b \<in> set sccs \<Longrightarrow> a \<noteq> b \<Longrightarrow> set a \<inter> set b = {}"
    and "inj_on set (set sccs)"
proof -
  have d: "distinct (concat sccs)" "[] \<notin> set sccs" using assms by (auto simp: sccs_of_def)
  have "removeAll [] sccs = sccs" using d(2) by (rule removeAll_id)
  moreover have "distinct (removeAll [] sccs)" using d(1) unfolding distinct_concat_iff by blast
  ultimately show "distinct sccs" by (simp only:)
  show dis: "set a \<inter> set b = {}" if "a \<in> set sccs" "b \<in> set sccs" "a \<noteq> b" for a b
    using d(1) that unfolding distinct_concat_iff by blast
  show "inj_on set (set sccs)"
  proof (rule inj_onI, rule ccontr)
    fix a b assume ab: "a \<in> set sccs" "b \<in> set sccs" "set a = set b" "a \<noteq> b"
    from dis[OF ab(1,2,4)] ab(3) have "set a = {}" by simp
    with ab d(2) show False by simp
  qed
qed

lemma run_sccs:
  assumes "sccs_of g sccs" "graph_ok g" "set ss \<subseteq> set sccs"
  shows "\<exists>h. run (scc_cycle g) ss cs = Some (cs @ map h (filter (cyclic g) ss)) \<and>
    (\<forall>scc \<in> set (filter (cyclic g) ss). is_cycle (edges g) (h scc) \<and> set (h scc) \<subseteq> set scc) \<and>
    (\<forall>scc \<in> set (filter (cyclic g) ss). scc_cycle g scc [] = Some [h scc])"
proof -
  have "\<forall>scc \<in> set sccs. \<exists>c. cyclic g scc \<longrightarrow>
      (\<forall>cs. scc_cycle g scc cs = Some (cs @ [c])) \<and> is_cycle (edges g) c \<and> set c \<subseteq> set scc"
    using scc_cycle_correct[OF assms(1) _ assms(2)] by meson
  then obtain h where h: "\<And>scc. scc \<in> set sccs \<Longrightarrow> cyclic g scc \<Longrightarrow>
      (\<forall>cs. scc_cycle g scc cs = Some (cs @ [h scc])) \<and> is_cycle (edges g) (h scc) \<and> set (h scc) \<subseteq> set scc"
    by metis
  have none: "scc_cycle g scc cs = Some cs" if "scc \<in> set sccs" "\<not> cyclic g scc" for scc cs
    using scc_cycle_correct[OF assms(1) that(1) assms(2)] that(2) by presburger
  have "run (scc_cycle g) ss cs = Some (cs @ map h (filter (cyclic g) ss))"
    using assms(3)
  proof (induction ss arbitrary: cs)
    case (Cons a ss)
    then show ?case using h[of a] none[of a cs] by (cases "cyclic g a") simp_all
  qed simp
  moreover have "scc_cycle g scc [] = Some [h scc] \<and> is_cycle (edges g) (h scc) \<and> set (h scc) \<subseteq> set scc"
    if "scc \<in> set (filter (cyclic g) ss)" for scc
    using h[of scc] that assms(3) by (simp add: subset_iff)
  ultimately show ?thesis by blast
qed

lemma cyclic_classes_sccs:
  assumes "sccs_of g sccs" "graph_ok g"
  shows "cyclic_classes g = set ` set (filter (cyclic g) sccs)"
    and "card (cyclic_classes g) = length (filter (cyclic g) sccs)"
proof -
  have cls: "{u. mutual (edges g) v u} = set scc" if "scc \<in> set sccs" "v \<in> set scc" for scc v
  proof -
    have "u < cg_nodes g" if "mutual (edges g) v u" for u
    proof -
      have "v < cg_nodes g" by (rule scc_range[OF assms(1) \<open>scc \<in> set sccs\<close> \<open>v \<in> set scc\<close>])
      moreover from that have "(v, u) \<in> (edges g)\<^sup>*" by (simp add: mutual_def)
      ultimately show ?thesis using edges_range[OF assms(2)] by (metis rtranclE)
    qed
    moreover have "u \<in> set scc \<longleftrightarrow> mutual (edges g) v u" if "u < cg_nodes g" for u
      using that \<open>scc \<in> set sccs\<close> \<open>v \<in> set scc\<close> assms(1) by (simp add: sccs_of_def)
    ultimately show ?thesis using scc_range[OF assms(1) that(1)] by blast
  qed
  have ex: "\<exists>scc \<in> set sccs. v \<in> set scc" if "(v, v) \<in> (edges g)\<^sup>+" for v
  proof -
    have "v < cg_nodes g" using that edges_range[OF assms(2)] by (auto dest: tranclD)
    then show ?thesis using assms(1) by (auto simp: sccs_of_def)
  qed
  show eq: "cyclic_classes g = set ` set (filter (cyclic g) sccs)"
  proof
    show "cyclic_classes g \<subseteq> set ` set (filter (cyclic g) sccs)"
      unfolding cyclic_classes_def using ex cls by fastforce
    show "set ` set (filter (cyclic g) sccs) \<subseteq> cyclic_classes g"
      unfolding cyclic_classes_def using cls by fastforce
  qed
  have "distinct (map set (filter (cyclic g) sccs))"
    unfolding distinct_map by (intro conjI distinct_filter sccs_apart(1)[OF assms(1)]
      inj_on_subset[OF sccs_apart(3)[OF assms(1)] filter_is_subset])
  then show "card (cyclic_classes g) = length (filter (cyclic g) sccs)"
    unfolding eq using distinct_card by fastforce
qed

text \<open>Two cycles of different components share no node, so the reports are pairwise different.\<close>

lemma component_cycles_distinct:
  assumes "sccs_of g sccs" "graph_ok g"
    and "\<forall>scc \<in> set (filter (cyclic g) sccs). is_cycle (edges g) (h scc) \<and> set (h scc) \<subseteq> set scc"
  shows "distinct (map h (filter (cyclic g) sccs))"
    and "c \<in> h ` set (filter (cyclic g) sccs) \<Longrightarrow> d \<in> h ` set (filter (cyclic g) sccs) \<Longrightarrow> c \<noteq> d \<Longrightarrow>
      \<not> mutual (edges g) (hd c) (hd d)"
proof -
  note dist = sccs_apart(1)[OF assms(1)] and dis = sccs_apart(2)[OF assms(1)]
  have hd: "hd (h a) \<in> set a" if "a \<in> set sccs" "cyclic g a" for a
  proof -
    have "is_cycle (edges g) (h a)" "set (h a) \<subseteq> set a" using assms(3) that by simp_all
    moreover from this(1) have "h a \<noteq> []" by (auto simp: is_cycle_def)
    ultimately show ?thesis using hd_in_set by blast
  qed
  have "inj_on h (set (filter (cyclic g) sccs))"
  proof (rule inj_onI)
    fix a b assume "a \<in> set (filter (cyclic g) sccs)" "b \<in> set (filter (cyclic g) sccs)" "h a = h b"
    then show "a = b" using hd[of a] hd[of b] dis[of a b] by auto
  qed
  with dist show "distinct (map h (filter (cyclic g) sccs))" by (simp add: distinct_map)
  assume "c \<in> h ` set (filter (cyclic g) sccs)" "d \<in> h ` set (filter (cyclic g) sccs)" "c \<noteq> d"
  then obtain a b where ab: "a \<in> set sccs" "cyclic g a" "c = h a" "b \<in> set sccs" "cyclic g b" "d = h b" "a \<noteq> b"
    by auto
  then have "hd d \<notin> set a" using hd[of b] dis[of a b] by auto
  moreover have "hd d < cg_nodes g" using hd[of b] ab scc_range[OF assms(1)] by blast
  ultimately show "\<not> mutual (edges g) (hd c) (hd d)"
    using hd[of a] ab assms(1) by (auto simp: sccs_of_def)
qed

text \<open>Which cycle is reported for a component depends on its nodes only.\<close>

definition class_cycle :: "compact_graph \<Rightarrow> nat set \<Rightarrow> nat list" where
  "class_cycle g S = hd (the (scc_cycle g (sorted_list_of_set S) []))"

lemma class_cycle_eq:
  assumes "distinct scc" "scc_cycle g scc [] = Some [c]"
  shows "c = class_cycle g (set scc)"
proof -
  have s: "sorted_list_of_set (set scc) = sort scc" using assms(1) by (simp add: sorted_list_of_set_sort_remdups distinct_remdups_id)
  have "scc_cycle g (sort scc) [] = scc_cycle g scc []"
  proof (cases "length scc = 1")
    case True
    then obtain n where "scc = [n]" by (auto simp: length_Suc_conv)
    then show ?thesis by simp
  qed (simp add: scc_cycle_def find_one_cycle_def sorted_sort_id)
  with s assms(2) show ?thesis by (simp add: class_cycle_def)
qed

lemma component_cycles_mset:
  assumes "sccs_of g sccs" "graph_ok g"
    and "\<forall>scc \<in> set (filter (cyclic g) sccs). scc_cycle g scc [] = Some [h scc]"
  shows "mset (map h (filter (cyclic g) sccs)) = image_mset (class_cycle g) (mset_set (cyclic_classes g))"
proof -
  let ?ss = "filter (cyclic g) sccs"
  have d: "distinct (concat sccs)" using assms(1) by (simp add: sccs_of_def)
  have "map h ?ss = map (class_cycle g) (map set ?ss)"
    unfolding map_map comp_def
  proof (rule map_cong[OF refl])
    fix scc assume scc: "scc \<in> set ?ss"
    then have "distinct scc" using d by (simp add: distinct_concat_iff)
    then show "h scc = class_cycle g (set scc)" using class_cycle_eq assms(3) scc by blast
  qed
  moreover have "distinct (map set ?ss)"
    unfolding distinct_map by (intro conjI distinct_filter sccs_apart(1)[OF assms(1)]
      inj_on_subset[OF sccs_apart(3)[OF assms(1)] filter_is_subset])
  then have "mset (map set ?ss) = mset_set (cyclic_classes g)"
    using cyclic_classes_sccs(1)[OF assms(1,2)] mset_set_set by fastforce
  ultimately show ?thesis by (simp only: mset_map)
qed

text \<open>The reported list, before the cut.\<close>

lemma reported_cycles:
  assumes "graph_ok g" "sccs_of g sccs"
  shows "\<exists>cs. run (scc_cycle g) sccs [] = Some cs \<and>
    mset cs = image_mset (class_cycle g) (mset_set (cyclic_classes g)) \<and> distinct cs \<and>
    (\<forall>c \<in> set cs. is_cycle (edges g) c) \<and>
    (\<forall>c \<in> set cs. \<forall>d \<in> set cs. c \<noteq> d \<longrightarrow> \<not> mutual (edges g) (hd c) (hd d))"
proof -
  obtain h where h: "run (scc_cycle g) sccs [] = Some (map h (filter (cyclic g) sccs))"
      "\<forall>scc \<in> set (filter (cyclic g) sccs). is_cycle (edges g) (h scc) \<and> set (h scc) \<subseteq> set scc"
      "\<forall>scc \<in> set (filter (cyclic g) sccs). scc_cycle g scc [] = Some [h scc]"
    using run_sccs[OF assms(2,1) order_refl, of "[]"] by auto
  have "\<forall>c \<in> set (map h (filter (cyclic g) sccs)). \<forall>d \<in> set (map h (filter (cyclic g) sccs)).
      c \<noteq> d \<longrightarrow> \<not> mutual (edges g) (hd c) (hd d)"
    using component_cycles_distinct(2)[OF assms(2,1) h(2)] by (simp only: set_map) blast
  with h(1,2) show ?thesis
    using component_cycles_distinct(1)[OF assms(2,1) h(2)] component_cycles_mset[OF assms(2,1) h(3)]
    by (intro exI[of _ "map h (filter (cyclic g) sccs)"]) simp
qed

lemma cyclic_classes_empty: "cyclic_classes g = {} \<longleftrightarrow> acyclic (edges g)"
  by (auto simp: cyclic_classes_def acyclic_def)

lemma finite_cyclic_classes: "graph_ok g \<Longrightarrow> finite (cyclic_classes g)"
proof -
  assume ok: "graph_ok g"
  have "{v. (v, v) \<in> (edges g)\<^sup>+} \<subseteq> {..<cg_nodes g}"
    using edges_range[OF ok] by (auto dest: tranclD)
  then show ?thesis unfolding cyclic_classes_def using finite_subset by blast
qed

text \<open>C25: For any positive limit, and whatever order Tarjan's algorithm lists components and nodes in,
  \<open>findCyclesSafe\<close> ends and reports at most \<open>limit\<close> simple cycles of the graph, each in a component
  of its own, in strictly increasing order (shorter first, then by node numbers). The total is the
  number of cyclic components, the result says truncated exactly when the total exceeds the limit,
  and it is empty exactly when the graph is acyclic. A limit that is not positive gives no report.\<close>

theorem find_cycles_correct:
  assumes "graph_ok g" "sccs_of g sccs"
  shows "\<exists>r. find_cycles g sccs limit = Some r \<and>
    (\<forall>c \<in> set (cr_cycles r). is_cycle (edges g) c) \<and>
    (\<forall>c \<in> set (cr_cycles r). \<forall>d \<in> set (cr_cycles r). c \<noteq> d \<longrightarrow> \<not> mutual (edges g) (hd c) (hd d)) \<and>
    sorted_wrt cycle_less (cr_cycles r) \<and>
    cr_total r = (if limit \<le> 0 then 0 else card (cyclic_classes g)) \<and>
    length (cr_cycles r) = min (nat limit) (cr_total r) \<and>
    (cr_truncated r \<longleftrightarrow> limit > 0 \<and> limit < int (cr_total r)) \<and>
    (limit > 0 \<longrightarrow> cr_cycles r = [] \<longleftrightarrow> acyclic (edges g)) \<and>
    (\<forall>sccs'. sccs_of g sccs' \<longrightarrow> find_cycles g sccs' limit = Some r)"
proof (cases "limit \<le> 0")
  case True
  then show ?thesis by (simp add: find_cycles_def)
next
  case False
  obtain cs where cs: "run (scc_cycle g) sccs [] = Some cs"
      "mset cs = image_mset (class_cycle g) (mset_set (cyclic_classes g))" "distinct cs"
      "\<forall>c \<in> set cs. is_cycle (edges g) c"
      "\<forall>c \<in> set cs. \<forall>d \<in> set cs. c \<noteq> d \<longrightarrow> \<not> mutual (edges g) (hd c) (hd d)"
    using reported_cycles[OF assms] by blast
  let ?s = "sort_by cycle_less cs"
  let ?r = "\<lparr>cr_cycles = take (nat limit) ?s, cr_total = length cs, cr_truncated = int (length cs) > limit\<rparr>"
  have eq: "find_cycles g ss limit = Some ?r" if ss: "sccs_of g ss" for ss
  proof -
    obtain ds where ds: "run (scc_cycle g) ss [] = Some ds"
        "mset ds = image_mset (class_cycle g) (mset_set (cyclic_classes g))"
      using reported_cycles[OF assms(1) ss] by blast
    then have m: "mset ds = mset cs" using cs(2) by simp
    have "sort_by cycle_less ds = ?s"
      by (rule cycle_order.sort_by_perm[OF m]) (auto intro: cycle_less_total)
    moreover have "length ds = length cs" using m by (metis size_mset)
    ultimately show ?thesis using False ds(1) by (simp add: find_cycles_def Let_def)
  qed
  have len: "length cs = card (cyclic_classes g)"
    using cs(2) by (metis size_image_mset size_mset size_mset_set)
  have "sorted_wrt cycle_less ?s"
  proof -
    have "sorted_wrt (\<lambda>x y. \<not> cycle_less y x \<and> x \<noteq> y) ?s"
      using cycle_order.sort_by_sorted[of cs] cs(3) distinct_sort_by[of cycle_less cs]
      by (simp add: sorted_wrt_iff_nth_less distinct_conv_nth)
    then show ?thesis by (rule sorted_wrt_mono_rel[rotated]) (use cycle_less_total in blast)
  qed
  then have srt: "sorted_wrt cycle_less (take (nat limit) ?s)" by (rule sorted_wrt_take)
  have sub: "set (take (nat limit) ?s) \<subseteq> set cs" by (metis set_sort_by set_take_subset)
  have emp: "take (nat limit) ?s = [] \<longleftrightarrow> acyclic (edges g)"
    using False len finite_cyclic_classes[OF assms(1)] cyclic_classes_empty[of g] by auto
  show ?thesis
    using False eq[OF assms(2)] eq sub cs(4,5) srt emp len
    by (intro exI[of _ ?r]) (auto simp: min_def subset_iff)
qed

definition demo_graph :: compact_graph where
  "demo_graph = fold (\<lambda>(u, v). add_edge u v) [(0, 1), (1, 0), (1, 2), (3, 3)] (new_compact_graph 4)"

lemma demo_graph_sccs: "graph_ok demo_graph" "sccs_of demo_graph [[1, 0], [2], [3]]"
proof -
  show "graph_ok demo_graph" unfolding demo_graph_def by code_simp
  have e: "edges demo_graph = {(0, 1), (1, 0), (1, 2), (3, 3)}"
    unfolding set_edge_list[symmetric] by code_simp
  define E where "E = edges demo_graph"
  have cl: "E\<^sup>* `` {2} = {2}" "E\<^sup>* `` {3} = {3}" "E\<^sup>* `` {0, 1, 2} = {0, 1, 2}"
    unfolding E_def e by ((rule Image_closed_trancl, fastforce)+)
  then have no: "(2, v) \<in> E\<^sup>* \<longleftrightarrow> v = 2" "(3, v) \<in> E\<^sup>* \<longleftrightarrow> v = 3"
    "(0, v) \<in> E\<^sup>* \<Longrightarrow> v \<in> {0, 1, 2}" "(1, v) \<in> E\<^sup>* \<Longrightarrow> v \<in> {0, 1, 2}" for v
    by blast+
  have yes: "(0, 1) \<in> E\<^sup>*" "(1, 0) \<in> E\<^sup>*" unfolding E_def e by auto
  have n: "v < cg_nodes demo_graph \<longleftrightarrow> v \<in> {0, 1, 2, 3}" for v
    by (auto simp: demo_graph_def new_compact_graph_def)
  show "sccs_of demo_graph [[1, 0], [2], [3]]"
    unfolding sccs_of_def E_def[symmetric] mutual_def n using no yes n by auto
qed

lemma find_cycles_correct_witness:
  "\<exists>r. find_cycles demo_graph [[1, 0], [2], [3]] 1 = Some r \<and> length (cr_cycles r) = min 1 (cr_total r) \<and>
    cr_cycles r \<noteq> []"
proof -
  have "edges demo_graph = {(0, 1), (1, 0), (1, 2), (3, 3)}" unfolding set_edge_list[symmetric] by code_simp
  then have "\<not> acyclic (edges demo_graph)" by (auto simp: acyclic_def)
  then show ?thesis using find_cycles_correct[OF demo_graph_sccs, of 1] by auto
qed

end
