(* ===== verification/Bv_Version.thy ===== *)
theory Bv_Version
  imports Go_Base "HOL-Library.Product_Lexorder"
begin

text \<open>
  Version handling of \<open>pkg/updater/updater.go\<close>: the parser of release tags, the textual comparison of
  parsed versions, the markers of development builds and the decision whether a candidate is newer.

  Errors are values of \<open>version_error\<close>; their texts are the constructors' arguments. \<open>strings.Split\<close>
  is \<open>split_on\<close>, \<open>strings.Compare\<close> is \<open>three_way\<close> on strings.
\<close>

section \<open>Parsing\<close>

datatype ident_error = IdentEmpty | IdentInvalid string | IdentLeadingZero string

datatype version_error =
    VersionTooLong
  | VersionEmpty
  | MultipleBuildSeparators string
  | InvalidBuild string ident_error
  | InvalidPrerelease string ident_error
  | WrongComponentCount string
  | NonNumericComponent string string
  | LeadingZeroComponent string string

record parsed_version =
  pv_core :: "string list"
  pv_components :: nat
  pv_prerelease :: "string list"

definition is_digit :: "char \<Rightarrow> bool" where
  "is_digit c \<longleftrightarrow> CHR ''0'' \<le> c \<and> c \<le> CHR ''9''"

definition is_numeric_identifier :: "string \<Rightarrow> bool" where
  "is_numeric_identifier value = (if value = [] then False else list_all is_digit value)"

definition ident_char :: "char \<Rightarrow> bool" where
  "ident_char c \<longleftrightarrow> is_digit c \<or> CHR ''A'' \<le> c \<and> c \<le> CHR ''Z'' \<or> CHR ''a'' \<le> c \<and> c \<le> CHR ''z'' \<or> c = CHR ''-''"

fun validate_identifiers :: "string list \<Rightarrow> bool \<Rightarrow> ident_error option" where
  "validate_identifiers [] reject = None"
| "validate_identifiers (w # ws) reject =
     (if w = [] then Some IdentEmpty
      else if \<not> list_all ident_char w then Some (IdentInvalid w)
      else if reject \<and> length w > 1 \<and> w ! 0 = CHR ''0'' \<and> is_numeric_identifier w then Some (IdentLeadingZero w)
      else validate_identifiers ws reject)"

definition validate_version_identifiers :: "string \<Rightarrow> bool \<Rightarrow> ident_error option" where
  "validate_version_identifiers value reject = validate_identifiers (split_on (CHR ''.'') value) reject"

text \<open>\<open>strings.SplitN(s, c, 2)\<close>: the part before the first \<open>c\<close>, and the part after it if there is one.\<close>

fun split_first :: "char \<Rightarrow> string \<Rightarrow> string \<times> string option" where
  "split_first c [] = ([], None)"
| "split_first c (x # xs) =
     (if x = c then ([], Some xs) else (case split_first c xs of (u, v) \<Rightarrow> (x # u, v)))"

fun check_core :: "string \<Rightarrow> string list \<Rightarrow> version_error option" where
  "check_core raw [] = None"
| "check_core raw (w # ws) =
     (if \<not> is_numeric_identifier w then Some (NonNumericComponent raw w)
      else if length w > 1 \<and> w ! 0 = CHR ''0'' then Some (LeadingZeroComponent raw w)
      else check_core raw ws)"

definition parse_version :: "string \<Rightarrow> version_error + parsed_version" where
  "parse_version s =
     (let raw = trim_space s in
      if length raw > 128 then Inl VersionTooLong
      else let raw = trim_prefix raw ''v'' in
      if raw = [] then Inl VersionEmpty
      else let parts = split_on (CHR ''+'') raw in
      if length parts > 2 then Inl (MultipleBuildSeparators raw)
      else case (if length parts = 2 then validate_version_identifiers (parts ! 1) False else None) of
        Some e \<Rightarrow> Inl (InvalidBuild raw e)
      | None \<Rightarrow>
        let raw = parts ! 0;
            (front, pre) = split_first (CHR ''-'') raw
        in case (case pre of None \<Rightarrow> None | Some p \<Rightarrow> validate_version_identifiers p True) of
             Some e \<Rightarrow> Inl (InvalidPrerelease raw e)
           | None \<Rightarrow>
             let prerelease = (case pre of None \<Rightarrow> [] | Some p \<Rightarrow> split_on (CHR ''.'') p);
                 core = split_on (CHR ''.'') front
             in if length core = 0 \<or> length core > 3 then Inl (WrongComponentCount raw)
                else case check_core raw core of
                  Some e \<Rightarrow> Inl e
                | None \<Rightarrow> Inr \<lparr>pv_core = core @ replicate (3 - length core) ''0'',
                    pv_components = length core, pv_prerelease = prerelease\<rparr>)"

section \<open>Comparison\<close>

definition three_way :: "'a::linorder \<Rightarrow> 'a \<Rightarrow> int" where
  "three_way x y = (if x < y then -1 else if x = y then 0 else 1)"

definition compare_numeric_identifiers :: "string \<Rightarrow> string \<Rightarrow> int" where
  "compare_numeric_identifiers v1 v2 =
     (if length v1 \<noteq> length v2 then (if length v1 > length v2 then 1 else -1) else three_way v1 v2)"

fun compare_cores :: "string list \<Rightarrow> string list \<Rightarrow> int" where
  "compare_cores (a # xs) (b # ys) =
     (let result = compare_numeric_identifiers a b in if result \<noteq> 0 then result else compare_cores xs ys)"
| "compare_cores _ _ = 0"

definition compare_version_core :: "parsed_version \<Rightarrow> parsed_version \<Rightarrow> int" where
  "compare_version_core p q = compare_cores (pv_core p) (pv_core q)"

text \<open>The loop over the common prerelease identifiers, then the comparison of their numbers.\<close>

fun compare_prereleases :: "string list \<Rightarrow> string list \<Rightarrow> int" where
  "compare_prereleases [] [] = 0"
| "compare_prereleases (a # xs) [] = 1"
| "compare_prereleases [] (b # ys) = -1"
| "compare_prereleases (a # xs) (b # ys) =
     (if is_numeric_identifier a \<and> is_numeric_identifier b then
        (let result = compare_numeric_identifiers a b in if result \<noteq> 0 then result else compare_prereleases xs ys)
      else if is_numeric_identifier a then -1
      else if is_numeric_identifier b then 1
      else (let result = three_way a b in if result \<noteq> 0 then result else compare_prereleases xs ys))"

definition compare_parsed_versions :: "parsed_version \<Rightarrow> parsed_version \<Rightarrow> int" where
  "compare_parsed_versions p q =
     (let result = compare_version_core p q in
      if result \<noteq> 0 then result
      else if length (pv_prerelease p) = 0 \<and> length (pv_prerelease q) = 0 then 0
      else if length (pv_prerelease p) = 0 then 1
      else if length (pv_prerelease q) = 0 then -1
      else compare_prereleases (pv_prerelease p) (pv_prerelease q))"

section \<open>Development builds\<close>

definition development_markers :: "string list" where
  "development_markers = [''dev'', ''dirty'', ''nightly'', ''local'', ''snapshot'', ''git'']"

definition has_development_marker :: "string \<Rightarrow> string \<Rightarrow> bool" where
  "has_development_marker value marker =
     (if value = marker \<or> has_prefix value (marker @ ''-'') then True
      else if length value \<le> length marker \<or> \<not> has_prefix value marker then False
      else is_digit (value ! length marker))"

definition is_development_version :: "string \<Rightarrow> bool" where
  "is_development_version s =
     (let raw = trim_space s;
          raw = (if length raw > 0 \<and> (raw ! 0 = CHR ''v'' \<or> raw ! 0 = CHR ''V'') then drop 1 raw else raw);
          raw = to_lower (trim_space raw)
      in list_ex (has_development_marker raw) development_markers)"

definition is_development_prerelease :: "parsed_version \<Rightarrow> bool" where
  "is_development_prerelease p \<longleftrightarrow>
     list_ex (\<lambda>w. list_ex (has_development_marker (to_lower w)) development_markers) (pv_prerelease p)"

section \<open>The decision\<close>

datatype newer_error = InvalidCandidate string version_error | InvalidCurrent string version_error

definition is_newer_version :: "string \<Rightarrow> string \<Rightarrow> newer_error + bool" where
  "is_newer_version candidate current =
     (case parse_version candidate of
        Inl e \<Rightarrow> Inl (InvalidCandidate candidate e)
      | Inr pc \<Rightarrow>
        (case parse_version current of
           Inl e \<Rightarrow> if is_development_version current then Inr False else Inl (InvalidCurrent current e)
         | Inr pv \<Rightarrow>
           if is_development_prerelease pv \<and> compare_version_core pc pv \<le> 0 then Inr False
           else Inr (compare_parsed_versions pc pv > 0)))"

definition compare_versions :: "string \<Rightarrow> string \<Rightarrow> int" where
  "compare_versions v1 v2 =
     (case (parse_version v1, parse_version v2) of
        (_, Inl e) \<Rightarrow> if is_development_version v2 then -1 else 0
      | (Inl e, Inr q) \<Rightarrow> 0
      | (Inr p, Inr q) \<Rightarrow>
        if is_development_prerelease q \<and> compare_version_core p q \<le> 0 then -1
        else compare_parsed_versions p q)"

section \<open>Release assets\<close>

definition platform_archive_extension :: "string \<Rightarrow> string" where
  "platform_archive_extension goos = (if goos = ''windows'' then ''.zip'' else ''.tar.gz'')"

definition stable_asset_name :: "string \<Rightarrow> string \<Rightarrow> string" where
  "stable_asset_name goos goarch = ''bv_'' @ goos @ ''_'' @ goarch @ platform_archive_extension goos"

definition get_asset_name :: "string \<Rightarrow> string \<Rightarrow> string \<Rightarrow> string" where
  "get_asset_name goos goarch version =
     ''bv_'' @ trim_prefix version ''v'' @ ''_'' @ goos @ ''_'' @ goarch @ platform_archive_extension goos"

definition platform_asset_names :: "string \<Rightarrow> string \<Rightarrow> string \<Rightarrow> string list" where
  "platform_asset_names goos goarch version =
     (let ver = trim_prefix version ''v'';
          names = (if ver \<noteq> [] then [get_asset_name goos goarch version] else []);
          names = names @ [stable_asset_name goos goarch]
      in if ver \<noteq> [] \<and> goos = ''windows''
         then names @ [''bv_'' @ ver @ ''_'' @ goos @ ''_'' @ goarch @ ''.tar.gz''] else names)"

record asset =
  asset_name :: string
  browser_download_url :: string
  asset_size :: int
  asset_digest :: string
  asset_state :: string

fun find_asset :: "string list \<Rightarrow> asset list \<Rightarrow> asset option" where
  "find_asset [] as = None"
| "find_asset (n # ns) as =
     (case List.find (\<lambda>x. asset_name x = n) as of Some x \<Rightarrow> Some x | None \<Rightarrow> find_asset ns as)"

definition find_platform_asset :: "string \<Rightarrow> string \<Rightarrow> string \<Rightarrow> asset list \<Rightarrow> asset option" where
  "find_platform_asset goos goarch tag as = find_asset (platform_asset_names goos goarch tag) as"

fun find_asset_with_checksum :: "(string, string) gomap \<Rightarrow> string list \<Rightarrow> asset list \<Rightarrow> asset option" where
  "find_asset_with_checksum sums [] as = None"
| "find_asset_with_checksum sums (n # ns) as =
     (if mget sums n = None then find_asset_with_checksum sums ns as
      else (case List.find (\<lambda>x. asset_name x = n) as of
              Some x \<Rightarrow> Some x | None \<Rightarrow> find_asset_with_checksum sums ns as))"

definition find_platform_asset_with_checksum ::
  "string \<Rightarrow> string \<Rightarrow> string \<Rightarrow> (string, string) gomap \<Rightarrow> asset list \<Rightarrow> asset option" where
  "find_platform_asset_with_checksum goos goarch tag sums as =
     find_asset_with_checksum sums (platform_asset_names goos goarch tag) as"

definition find_checksum_asset :: "asset list \<Rightarrow> asset option" where
  "find_checksum_asset as = List.find (\<lambda>x. asset_name x = ''checksums.txt'') as"

end
