(* ===== verification/Bv_Version_Props.thy ===== *)
theory Bv_Version_Props
  imports Bv_Version
begin

text \<open>
  The textual comparison of versions refines the numeric precedence of Semantic Versioning: parsed
  versions are mapped to keys (three numbers, then the prerelease identifiers as numbers or words)
  that carry a linear order, and every comparison of texts is the comparison of the keys. On top of
  it, the update decision fails closed.
\<close>

section \<open>Precedence of prerelease identifiers\<close>

datatype pre_ident = Numeric nat | Alpha string

instantiation pre_ident :: linorder
begin

fun less_pre_ident :: "pre_ident \<Rightarrow> pre_ident \<Rightarrow> bool" where
  "less_pre_ident (Numeric m) (Numeric n) = (m < n)"
| "less_pre_ident (Numeric m) (Alpha b) = True"
| "less_pre_ident (Alpha a) (Numeric n) = False"
| "less_pre_ident (Alpha a) (Alpha b) = (a < b)"

definition less_eq_pre_ident :: "pre_ident \<Rightarrow> pre_ident \<Rightarrow> bool" where
  "less_eq_pre_ident x y \<longleftrightarrow> x < y \<or> x = y"

instance
proof
  fix x y z :: pre_ident
  show "x < y \<longleftrightarrow> x \<le> y \<and> \<not> y \<le> x" by (cases x; cases y) (auto simp: less_eq_pre_ident_def)
  show "x \<le> x" by (simp add: less_eq_pre_ident_def)
  show "x \<le> y \<Longrightarrow> y \<le> z \<Longrightarrow> x \<le> z" by (cases x; cases y; cases z) (auto simp: less_eq_pre_ident_def)
  show "x \<le> y \<Longrightarrow> y \<le> x \<Longrightarrow> x = y" by (cases x; cases y) (auto simp: less_eq_pre_ident_def)
  show "x \<le> y \<or> y \<le> x" by (cases x; cases y) (auto simp: less_eq_pre_ident_def)
qed

end

primrec decimal :: "string \<Rightarrow> nat" where
  "decimal [] = 0"
| "decimal (c # s) = (of_char c - 48) * 10 ^ length s + decimal s"

definition ident_of :: "string \<Rightarrow> pre_ident" where
  "ident_of w = (if is_numeric_identifier w then Numeric (decimal w) else Alpha w)"

text \<open>A version without prerelease comes after all its prereleases.\<close>

definition version_key :: "parsed_version \<Rightarrow> nat list \<times> nat \<times> pre_ident list" where
  "version_key p = (map decimal (pv_core p), if pv_prerelease p = [] then 1 else 0, map ident_of (pv_prerelease p))"

section \<open>Well-formed versions\<close>

definition plain_number :: "string \<Rightarrow> bool" where
  "plain_number w \<longleftrightarrow> is_numeric_identifier w \<and> \<not> (length w > 1 \<and> w ! 0 = CHR ''0'')"

definition pre_ok :: "string \<Rightarrow> bool" where
  "pre_ok w \<longleftrightarrow> w \<noteq> [] \<and> list_all ident_char w \<and> (is_numeric_identifier w \<longrightarrow> plain_number w)"

definition version_ok :: "parsed_version \<Rightarrow> bool" where
  "version_ok p \<longleftrightarrow> length (pv_core p) = 3 \<and> list_all plain_number (pv_core p) \<and>
     0 < pv_components p \<and> pv_components p \<le> 3 \<and>
     drop (pv_components p) (pv_core p) = replicate (3 - pv_components p) ''0'' \<and>
     list_all pre_ok (pv_prerelease p)"

lemma validate_identifiers_None:
  "validate_identifiers ws True = None \<longleftrightarrow> list_all pre_ok ws"
  "validate_identifiers ws False = None \<longleftrightarrow> list_all (\<lambda>w. w \<noteq> [] \<and> list_all ident_char w) ws"
  by (induction ws) (auto simp: pre_ok_def plain_number_def)

lemma check_core_None: "check_core raw ws = None \<longleftrightarrow> list_all plain_number ws"
  by (induction ws) (auto simp: plain_number_def)

lemma plain_zero: "plain_number ''0''"
  by (simp add: plain_number_def is_numeric_identifier_def is_digit_def)

lemma parse_version_ok:
  assumes "parse_version s = Inr p"
  shows "version_ok p"
proof -
  obtain ws where ws: "list_all plain_number ws" "ws \<noteq> []" "length ws \<le> 3"
      "pv_core p = ws @ replicate (3 - length ws) ''0''" "pv_components p = length ws"
      "list_all pre_ok (pv_prerelease p)"
    using assms
    by (fastforce simp: parse_version_def Let_def validate_version_identifiers_def validate_identifiers_None
        check_core_None split: if_splits option.splits prod.splits)
  then show ?thesis by (auto simp: version_ok_def list_all_iff plain_zero)
qed

section \<open>Textual comparison is numeric comparison\<close>

lemma is_digit_code: "is_digit c \<longleftrightarrow> 48 \<le> (of_char c :: nat) \<and> of_char c \<le> (57 :: nat)"
  by (simp add: is_digit_def less_eq_char_def)

lemma code_zero: "(of_char c :: nat) = 48 \<longleftrightarrow> c = CHR ''0''"
  using of_char_eq_iff[of c "CHR ''0''", where 'a = nat] by simp

lemma decimal_less: "list_all is_digit s \<Longrightarrow> decimal s < 10 ^ length s"
proof (induction s)
  case (Cons c s)
  have "of_char c - 48 \<le> (9::nat)" using Cons.prems by (auto simp: is_digit_code)
  then have "(of_char c - 48 :: nat) * 10 ^ length s \<le> 9 * 10 ^ length s" by (rule mult_le_mono1)
  moreover have "decimal s < 10 ^ length s" using Cons by simp
  ultimately show ?case unfolding decimal.simps length_Cons power_Suc by linarith
qed simp

lemma decimal_ge: "plain_number s \<Longrightarrow> length s > 1 \<Longrightarrow> 10 ^ (length s - 1) \<le> decimal s"
proof -
  assume s: "plain_number s" "length s > 1"
  then obtain c t where ct: "s = c # t" by (cases s) auto
  then have "is_digit c" "c \<noteq> CHR ''0''"
    using s by (auto simp: plain_number_def is_numeric_identifier_def)
  then have "48 < (of_char c :: nat)" using code_zero[of c] by (simp add: is_digit_code)
  then have "1 * 10 ^ length t \<le> (of_char c - 48 :: nat) * 10 ^ length t" by (intro mult_le_mono1) simp
  then have "10 ^ length t \<le> decimal s" unfolding ct decimal.simps mult_1 by (rule trans_le_add1)
  then show ?thesis by (simp add: ct)
qed

lemma three_way_simps:
  "three_way x y = 0 \<longleftrightarrow> x = y" "three_way x y = -1 \<longleftrightarrow> x < y" "three_way x y = 1 \<longleftrightarrow> y < x"
  "three_way x y > 0 \<longleftrightarrow> y < x" "three_way x y \<le> 0 \<longleftrightarrow> x \<le> y"
  by (auto simp: three_way_def)

lemma three_way_digits:
  "length v = length w \<Longrightarrow> list_all is_digit v \<Longrightarrow> list_all is_digit w \<Longrightarrow>
     three_way v w = three_way (decimal v) (decimal w)"
proof (induction v w rule: list_induct2)
  case (Cons c v d w)
  let ?k = "10 ^ length v :: nat"
  let ?x = "of_char c - 48 :: nat" and ?y = "of_char d - 48 :: nat"
  have bounds: "decimal v < ?k" "decimal w < ?k" using Cons decimal_less[of v] decimal_less[of w] by simp_all
  have dig: "48 \<le> (of_char c :: nat)" "48 \<le> (of_char d :: nat)" using Cons.prems by (simp_all add: is_digit_code)
  then have "?x = ?y \<longleftrightarrow> (of_char c :: nat) = of_char d" by linarith
  with dig have xy: "?x < ?y \<longleftrightarrow> c < d" "?x = ?y \<longleftrightarrow> c = d" by (simp_all add: less_char_def) linarith
  show ?case
  proof (cases "c = d")
    case True
    then show ?thesis using Cons by (auto simp: three_way_def split: if_splits)
  next
    case False
    have less: "a * ?k + p < b * ?k + q" if "a < b" "p < ?k" for a b p q :: nat
    proof -
      have "Suc a * ?k \<le> b * ?k" using that(1) by (intro mult_le_mono1) simp
      then show ?thesis using that(2) by simp
    qed
    have lt: "decimal (c # v) < decimal (d # w)" if "c < d"
      using less[of ?x ?y "decimal v" "decimal w"] that xy bounds Cons.hyps by simp
    have gt: "decimal (d # w) < decimal (c # v)" if "d < c"
    proof -
      have "\<not> ?x < ?y" "?x \<noteq> ?y" using that xy False by (simp_all only: order_less_asym not_False_eq_True)
      then have "?y < ?x" by linarith
      then show ?thesis using less[of ?y ?x "decimal w" "decimal v"] bounds Cons.hyps by simp
    qed
    show ?thesis
    proof (cases "c < d")
      case True
      then show ?thesis using lt by (simp add: three_way_def del: decimal.simps)
    next
      case nlt: False
      then have "d < c" using False by simp
      then show ?thesis using gt False by (simp add: three_way_def del: decimal.simps)
    qed
  qed
qed (simp add: three_way_def)

lemma compare_numeric_decimal:
  assumes "plain_number v" "plain_number w"
  shows "compare_numeric_identifiers v w = three_way (decimal v) (decimal w)"
proof -
  have d: "list_all is_digit v" "list_all is_digit w" "v \<noteq> []" "w \<noteq> []"
    using assms by (auto simp: plain_number_def is_numeric_identifier_def split: if_splits)
  have shorter: "decimal v < decimal w"
    if "length v < length w" "plain_number w" "list_all is_digit v" "v \<noteq> []" for v w
  proof -
    have "decimal v < 10 ^ length v" using that decimal_less by blast
    also have "(10::nat) ^ length v \<le> 10 ^ (length w - 1)" using that(1) by (intro power_increasing) auto
    also have "\<dots> \<le> decimal w"
    proof (rule decimal_ge[OF that(2)])
      have "0 < length v" using that(4) by simp
      then show "1 < length w" using that(1) by linarith
    qed
    finally show ?thesis .
  qed
  show ?thesis
    using three_way_digits[OF _ d(1,2)] shorter[of v w] shorter[of w v] assms d
    by (auto simp: compare_numeric_identifiers_def three_way_def split: if_splits)
qed

lemma compare_cores_decimal:
  "length xs = length ys \<Longrightarrow> list_all plain_number xs \<Longrightarrow> list_all plain_number ys \<Longrightarrow>
     compare_cores xs ys = three_way (map decimal xs) (map decimal ys)"
  by (induction xs ys rule: list_induct2) (auto simp: compare_numeric_decimal three_way_def Let_def)

lemma compare_prereleases_idents:
  "list_all pre_ok xs \<Longrightarrow> list_all pre_ok ys \<Longrightarrow>
     compare_prereleases xs ys = three_way (map ident_of xs) (map ident_of ys)"
proof (induction xs ys rule: compare_prereleases.induct)
  case (4 a xs b ys)
  then show ?case
    by (auto simp: ident_of_def pre_ok_def compare_numeric_decimal three_way_def Let_def split: if_splits)
qed (auto simp: three_way_def)

lemma map_eq_three_way: "three_way (x # xs) (y # ys) = (if x = y then three_way xs ys else three_way x y)"
  by (auto simp: three_way_def)

lemma compare_core_key:
  "version_ok p \<Longrightarrow> version_ok q \<Longrightarrow>
     compare_version_core p q = three_way (fst (version_key p)) (fst (version_key q))"
  by (simp add: compare_version_core_def version_key_def version_ok_def compare_cores_decimal)

lemma compare_parsed_key:
  assumes "version_ok p" "version_ok q"
  shows "compare_parsed_versions p q = three_way (version_key p) (version_key q)"
proof -
  have "compare_prereleases (pv_prerelease p) (pv_prerelease q) =
      three_way (map ident_of (pv_prerelease p)) (map ident_of (pv_prerelease q))"
    using assms by (intro compare_prereleases_idents) (simp_all add: version_ok_def)
  then show ?thesis
    using compare_core_key[OF assms]
    by (auto simp: compare_parsed_versions_def version_key_def three_way_def Let_def less_prod_def' split: if_splits)
qed

text \<open>C27: On the versions that the parser accepts, the textual comparison is the numeric precedence of
  Semantic Versioning: it returns the three-way comparison of the linearly ordered keys (numbers of
  the core, a version above its prereleases, identifiers compared as numbers or as words). The core
  comparison does the same for the core alone. Build metadata never matters.\<close>

theorem compare_refines_precedence:
  assumes "parse_version v = Inr p" "parse_version w = Inr q"
  shows "compare_parsed_versions p q = three_way (version_key p) (version_key q) \<and>
    compare_version_core p q = three_way (map decimal (pv_core p)) (map decimal (pv_core q))"
  using compare_parsed_key compare_core_key parse_version_ok assms by (simp add: version_key_def)

lemma compare_refines_precedence_witness:
  "\<exists>p q. parse_version ''v1.10.0-rc.2+b7'' = Inr p \<and> parse_version ''1.9'' = Inr q \<and>
     compare_parsed_versions p q = 1"
proof -
  let ?p = "\<lparr>pv_core = [''1'', ''10'', ''0''], pv_components = 3, pv_prerelease = [''rc'', ''2'']\<rparr>"
  let ?q = "\<lparr>pv_core = [''1'', ''9'', ''0''], pv_components = 2, pv_prerelease = []\<rparr>"
  have pq: "parse_version ''v1.10.0-rc.2+b7'' = Inr ?p" "parse_version ''1.9'' = Inr ?q" by code_simp+
  then have "compare_parsed_versions ?p ?q = three_way (version_key ?p) (version_key ?q)"
    using compare_refines_precedence by blast
  also have "\<dots> = 1" by code_simp
  finally show ?thesis using pq by blast
qed

text \<open>The update decision fails closed. A candidate is announced exactly when both versions parse,
  its precedence is above the current one, and above the current core where the current version is a
  development prerelease; in particular a malformed candidate, a malformed current version and a
  local development build never announce an update. \<open>compareVersions\<close> is positive in exactly the
  same cases.\<close>

theorem newer_version_fails_closed:
  "(is_newer_version c v = Inr True \<longleftrightarrow>
     (\<exists>p q. parse_version c = Inr p \<and> parse_version v = Inr q \<and> version_key q < version_key p \<and>
        \<not> (is_development_prerelease q \<and> map decimal (pv_core p) \<le> map decimal (pv_core q)))) \<and>
   (compare_versions c v > 0 \<longleftrightarrow> is_newer_version c v = Inr True)"
proof -
  have key: "compare_parsed_versions p q = three_way (version_key p) (version_key q)"
      "compare_version_core p q = three_way (map decimal (pv_core p)) (map decimal (pv_core q))"
    if "parse_version c = Inr p" "parse_version v = Inr q" for p q
    using compare_parsed_key compare_core_key parse_version_ok that by (simp_all add: version_key_def)
  show ?thesis
    by (cases "parse_version c"; cases "parse_version v")
      (auto simp: is_newer_version_def compare_versions_def key three_way_simps not_le)
qed

section \<open>Printing and parsing\<close>

text \<open>A version as the release tags write it.\<close>

definition render_version :: "parsed_version \<Rightarrow> string" where
  "render_version p =
     join ''.'' (take (pv_components p) (pv_core p)) @
     (if pv_prerelease p = [] then [] else ''-'' @ join ''.'' (pv_prerelease p))"

lemma split_on_none: "c \<notin> set s \<Longrightarrow> split_on c s = [s]"
  by (induction s) auto

lemma split_on_append: "c \<notin> set s \<Longrightarrow> split_on c (s @ c # t) = s # split_on c t"
  by (induction s) auto

lemma split_join:
  "ws \<noteq> [] \<Longrightarrow> list_all (\<lambda>w. c \<notin> set w) ws \<Longrightarrow> split_on c (join [c] ws) = ws"
proof (induction "[c]" ws rule: join.induct)
  case (3 x y xs)
  then show ?case using split_on_append[of c x] by simp
qed (auto simp: split_on_none)

lemma split_first_none: "c \<notin> set s \<Longrightarrow> split_first c s = (s, None)"
  by (induction s) auto

lemma split_first_append: "c \<notin> set s \<Longrightarrow> split_first c (s @ c # t) = (s, Some t)"
  by (induction s) auto

lemma set_join: "set (join sep ws) \<subseteq> set sep \<union> \<Union> (set ` set ws)"
  by (induction sep ws rule: join.induct) auto

lemma ident_char_facts:
  "ident_char c \<Longrightarrow> plain_char c \<and> c \<noteq> CHR ''+'' \<and> c \<noteq> CHR ''.''"
  "is_digit c \<Longrightarrow> ident_char c \<and> c \<noteq> CHR ''-'' \<and> c \<noteq> CHR ''v''"
  by (auto simp: ident_char_def is_digit_code less_eq_char_def is_space_def plain_char_def)

lemma join_chars:
  assumes "list_all (list_all P) ws" "P (CHR ''.'')"
  shows "list_all P (join ''.'' ws)"
  using set_join[of "''.''" ws] assms by (auto simp: list_all_iff)

lemma join_Nil_iff: "list_all (\<lambda>w. w \<noteq> []) ws \<Longrightarrow> join sep ws = [] \<longleftrightarrow> ws = []"
  by (cases "(sep, ws)" rule: join.cases) auto

lemma hd_join: "ws \<noteq> [] \<Longrightarrow> hd ws \<noteq> [] \<Longrightarrow> join sep ws \<noteq> [] \<and> hd (join sep ws) = hd (hd ws)"
  by (cases "(sep, ws)" rule: join.cases) auto

text \<open>The parts of the text of a well-formed version.\<close>

lemma render_parts:
  assumes "version_ok p"
  defines "core \<equiv> take (pv_components p) (pv_core p)"
  shows "core \<noteq> []" "length core = pv_components p" "list_all plain_number core"
    "core @ replicate (3 - pv_components p) ''0'' = pv_core p"
    "list_all is_digit (concat core)" "hd core \<noteq> []"
proof -
  show ne: "core \<noteq> []" and len: "length core = pv_components p"
    using assms(1) by (auto simp: version_ok_def core_def)
  show pl: "list_all plain_number core"
    using assms(1) by (auto simp: version_ok_def core_def list_all_iff dest: in_set_takeD)
  show "core @ replicate (3 - pv_components p) ''0'' = pv_core p"
    using assms(1) unfolding version_ok_def core_def by (metis append_take_drop_id)
  show "list_all is_digit (concat core)"
    using pl by (auto simp: list_all_iff plain_number_def is_numeric_identifier_def split: if_splits)
  show "hd core \<noteq> []"
    using pl ne by (cases core) (auto simp: plain_number_def is_numeric_identifier_def)
qed

definition text_char :: "char \<Rightarrow> bool" where
  "text_char c \<longleftrightarrow> ident_char c \<or> c = CHR ''.''"

lemma text_char_facts: "text_char c \<Longrightarrow> plain_char c \<and> c \<noteq> CHR ''+''" "text_char (CHR ''-'')"
  using ident_char_facts(1)[of c] by (auto simp: text_char_def is_space_def ident_char_def plain_char_def)

lemma validated_text:
  assumes "validate_version_identifiers b False = None"
  shows "list_all text_char b"
proof -
  have "list_all (list_all text_char) (split_on (CHR ''.'') b)"
    using assms by (auto simp: validate_version_identifiers_def validate_identifiers_None list_all_iff text_char_def)
  then have "list_all text_char (join ''.'' (split_on (CHR ''.'') b))"
    by (intro join_chars) (simp_all add: text_char_def)
  then show ?thesis by (simp add: join_split_on)
qed

lemma render_text:
  assumes "version_ok p"
  shows "list_all text_char (render_version p)" "CHR ''-'' \<notin> set (join ''.'' (take (pv_components p) (pv_core p)))"
    "\<exists>c t. render_version p = c # t \<and> is_digit c"
proof -
  let ?core = "take (pv_components p) (pv_core p)"
  note core = render_parts[OF assms]
  have cd: "list_all (list_all is_digit) ?core" using core(5) by (auto simp: list_all_iff)
  have fd: "list_all (\<lambda>c. is_digit c \<or> c = CHR ''.'') (join ''.'' ?core)"
    using cd by (intro join_chars) (auto simp: list_all_iff)
  then show "CHR ''-'' \<notin> set (join ''.'' ?core)"
    using ident_char_facts(2)[of "CHR ''-''"] by (auto simp: list_all_iff)
  have "list_all text_char (join ''.'' (pv_prerelease p))"
    using assms by (intro join_chars) (auto simp: list_all_iff pre_ok_def version_ok_def text_char_def)
  moreover have "list_all text_char (join ''.'' ?core)"
    using fd ident_char_facts(2) by (auto simp: list_all_iff text_char_def)
  ultimately show "list_all text_char (render_version p)" using text_char_facts(2) by (simp add: render_version_def)
  have "join ''.'' ?core \<noteq> []" "hd (join ''.'' ?core) = hd (hd ?core)"
    using hd_join[OF core(1,6)] by blast+
  moreover have "is_digit (hd (hd ?core))" using cd core(1,6) unfolding list_all_iff by (meson hd_in_set)
  ultimately show "\<exists>c t. render_version p = c # t \<and> is_digit c"
    by (cases "join ''.'' ?core") (auto simp: render_version_def)
qed

text \<open>Printing and parsing round trip: the text of any well-formed version, with or without a leading
  \<open>v\<close> and with or without build metadata, parses back to that version, as long as it is at most 128
  bytes long.\<close>

theorem version_roundtrip:
  assumes "version_ok p" and "lead = [] \<or> lead = ''v''"
    and "build = [] \<or> (\<exists>b. build = ''+'' @ b \<and> validate_version_identifiers b False = None)"
    and "length (lead @ render_version p @ build) \<le> 128"
  shows "parse_version (lead @ render_version p @ build) = Inr p"
proof -
  let ?R = "render_version p" and ?core = "take (pv_components p) (pv_core p)" and ?pre = "pv_prerelease p"
  note core = render_parts[OF assms(1)] and rtext = render_text[OF assms(1)]
  obtain c t where ct: "?R = c # t" "is_digit c" using rtext(3) by blast
  have btext: "list_all plain_char build"
  proof -
    have "plain_char (CHR ''+'')" by (simp add: is_space_def plain_char_def)
    then show ?thesis using assms(3) validated_text text_char_facts(1) unfolding list_all_iff by auto
  qed
  have Rtext: "list_all plain_char ?R" "CHR ''+'' \<notin> set ?R"
    using rtext(1) text_char_facts(1) by (auto simp: list_all_iff)
  have "list_all plain_char lead" using assms(2) by (auto simp: is_space_def plain_char_def)
  then have trim: "trim_space (lead @ ?R @ build) = lead @ ?R @ build"
    using btext Rtext(1) by (intro trim_space_plain) simp
  have lead: "trim_prefix (lead @ ?R @ build) ''v'' = ?R @ build"
    using assms(2) ct ident_char_facts(2)[OF ct(2)] by (auto simp: trim_prefix_def)
  have parts: "split_on (CHR ''+'') (?R @ build) = (if build = [] then [?R] else [?R, tl build])"
  proof -
    have "split_on (CHR ''+'') b = [b]" if "validate_version_identifiers b False = None" for b
      using validated_text[OF that] text_char_facts(1) unfolding list_all_iff by (intro split_on_none) blast
    then show ?thesis using assms(3) Rtext(2) by (auto simp: split_on_none split_on_append)
  qed
  have bval: "build \<noteq> [] \<Longrightarrow> validate_version_identifiers (tl build) False = None" using assms(3) by auto
  have pre: "list_all pre_ok ?pre" using assms(1) by (simp add: version_ok_def)
  have nodot: "list_all (\<lambda>w. CHR ''.'' \<notin> set w) ?pre" "list_all (\<lambda>w. CHR ''.'' \<notin> set w) ?core"
  proof -
    have dot: "\<not> ident_char (CHR ''.'')" "\<not> is_digit (CHR ''.'')" using ident_char_facts by blast+
    show "list_all (\<lambda>w. CHR ''.'' \<notin> set w) ?pre" "list_all (\<lambda>w. CHR ''.'' \<notin> set w) ?core"
      using pre core(5) dot unfolding list_all_iff pre_ok_def set_concat by blast+
  qed
  have first: "split_first (CHR ''-'') ?R =
      (join ''.'' ?core, if ?pre = [] then None else Some (join ''.'' ?pre))"
    using rtext(2) by (simp add: render_version_def split_first_none split_first_append)
  have pval: "?pre \<noteq> [] \<Longrightarrow> validate_version_identifiers (join ''.'' ?pre) True = None"
    using pre nodot(1) by (simp add: validate_version_identifiers_def split_join validate_identifiers_None)
  have cval: "check_core ?R ?core = None" using core(3) by (simp add: check_core_None)
  have n: "pv_components p \<le> 3" using assms(1) by (simp add: version_ok_def)
  show ?thesis
    using assms(4) trim lead parts bval first pval cval core(1,2,4) n ct(1) nodot
    by (simp add: parse_version_def Let_def split_join)
qed

lemma version_roundtrip_witness:
  "parse_version (''v'' @ render_version
      \<lparr>pv_core = [''2'', ''0'', ''0''], pv_components = 2, pv_prerelease = [''beta'', ''11'']\<rparr> @ ''+x.7'') =
    Inr \<lparr>pv_core = [''2'', ''0'', ''0''], pv_components = 2, pv_prerelease = [''beta'', ''11'']\<rparr>"
proof (rule version_roundtrip)
  show "version_ok \<lparr>pv_core = [''2'', ''0'', ''0''], pv_components = 2, pv_prerelease = [''beta'', ''11'']\<rparr>"
    by code_simp
  have "validate_version_identifiers ''x.7'' False = None" by code_simp
  then show "''+x.7'' = [] \<or> (\<exists>b. ''+x.7'' = ''+'' @ b \<and> validate_version_identifiers b False = None)" by simp
  show "length (''v'' @ render_version
      \<lparr>pv_core = [''2'', ''0'', ''0''], pv_components = 2, pv_prerelease = [''beta'', ''11'']\<rparr> @ ''+x.7'') \<le> 128"
    by code_simp
qed simp

end
