(* ===== verification/Bv_Release.thy ===== *)
theory Bv_Release
  imports Bv_Version_Props
begin

text \<open>
  The gates of the self-updater in \<open>pkg/updater/updater.go\<close>: which release may be installed, which of
  its assets, and the checksum manifest that the download is compared with.

  \<open>net/url.Parse\<close> is the parameter \<open>url_parse\<close> of the model: it returns the components that the code
  reads, or fails; nothing is assumed of it. A nil pointer to a release or an asset is \<open>None\<close>. Errors
  are values of \<open>update_error\<close>, one constructor for every message. \<open>filepath.Base\<close> is the one of
  systems that separate paths with slashes.
\<close>

section \<open>Releases and URLs\<close>

record release =
  tag_name :: string
  html_url :: string
  is_draft :: bool
  is_prerelease :: bool
  release_assets :: "asset list"

record parsed_url =
  url_scheme :: string
  url_hostname :: string
  url_port :: string
  url_user :: bool
  url_raw_query :: string
  url_fragment :: string
  url_path :: string

datatype update_error =
    InvalidURL string
  | NotGitHubHTTPS string
  | URLWithExtras string
  | ReleaseNil
  | TagWhitespace string
  | ReleaseDraft string
  | ReleasePrerelease string
  | InvalidTag string version_error
  | TagSemverPrerelease string
  | TagNotThreeParts string
  | ReleasePathMismatch string string
  | AssetMissing string
  | UnsafeAssetName string string
  | AssetNotUploaded string string string
  | AssetSizeInvalid string string int
  | MaxSizeInvalid string int
  | AssetTooLarge string string int
  | AssetPathMismatch string string string
  | AssetNil
  | DigestPrefix string
  | DigestLength string nat
  | DigestNotHex string
  | AssetDigest string update_error
  | NoBinaryAvailable
  | ChecksumAssetMissing
  | NoChecksumEntry
  | NoChecksumFound string
  | ChecksumDisagrees string
  | ManifestTooLarge
  | DuplicateChecksum string

definition repo_owner :: string where
  "repo_owner = ''stevelr''"

definition repo_name :: string where
  "repo_name = ''beads-viewer-edit''"

definition max_checksum_manifest_bytes :: int where
  "max_checksum_manifest_bytes = 2 ^ 20"

definition max_download_bytes :: int where
  "max_download_bytes = 512 * 2 ^ 20"

definition parse_github_https_url ::
  "(string \<Rightarrow> parsed_url option) \<Rightarrow> string \<Rightarrow> string \<Rightarrow> update_error + parsed_url" where
  "parse_github_https_url url_parse raw field =
     (case url_parse raw of
        None \<Rightarrow> Inl (InvalidURL field)
      | Some u \<Rightarrow>
        if url_scheme u \<noteq> ''https'' \<or> to_lower (url_hostname u) \<noteq> ''github.com'' \<or> url_port u \<noteq> []
        then Inl (NotGitHubHTTPS field)
        else if url_user u \<or> url_raw_query u \<noteq> [] \<or> url_fragment u \<noteq> []
        then Inl (URLWithExtras field)
        else Inr u)"

definition validate_release_identity ::
  "(string \<Rightarrow> parsed_url option) \<Rightarrow> release option \<Rightarrow> update_error option" where
  "validate_release_identity url_parse release =
     (case release of None \<Rightarrow> Some ReleaseNil | Some r \<Rightarrow>
      if tag_name r \<noteq> trim_space (tag_name r) then Some (TagWhitespace (tag_name r))
      else if is_draft r then Some (ReleaseDraft (tag_name r))
      else if is_prerelease r then Some (ReleasePrerelease (tag_name r))
      else case parse_version (tag_name r) of
        Inl e \<Rightarrow> Some (InvalidTag (tag_name r) e)
      | Inr p \<Rightarrow>
        if length (pv_prerelease p) \<noteq> 0 then Some (TagSemverPrerelease (tag_name r))
        else if pv_components p \<noteq> 3 then Some (TagNotThreeParts (tag_name r))
        else case parse_github_https_url url_parse (html_url r) ''release page'' of
          Inl e \<Rightarrow> Some e
        | Inr u \<Rightarrow>
          let expected = ''/'' @ repo_owner @ ''/'' @ repo_name @ ''/releases/tag/'' @ tag_name r
          in if url_path u \<noteq> expected then Some (ReleasePathMismatch (url_path u) expected) else None)"

section \<open>Assets\<close>

definition safe_asset_name :: "string \<Rightarrow> string option" where
  "safe_asset_name name =
     (if name = [] \<or> name = ''.'' \<or> name = ''..'' \<or> base_name name \<noteq> name then None else Some name)"

definition is_hex :: "char \<Rightarrow> bool" where
  "is_hex c \<longleftrightarrow> is_digit c \<or> CHR ''a'' \<le> c \<and> c \<le> CHR ''f'' \<or> CHR ''A'' \<le> c \<and> c \<le> CHR ''F''"

text \<open>\<open>hex.DecodeString\<close> succeeds on an even number of hexadecimal digits.\<close>

definition hex_decodes :: "string \<Rightarrow> bool" where
  "hex_decodes s \<longleftrightarrow> even (length s) \<and> list_all is_hex s"

definition asset_sha256_digest :: "asset option \<Rightarrow> update_error + string" where
  "asset_sha256_digest a =
     (case a of None \<Rightarrow> Inl AssetNil | Some x \<Rightarrow>
      if \<not> has_prefix (asset_digest x) ''sha256:'' then Inl (DigestPrefix (asset_name x))
      else let digest = to_lower (trim_space (trim_prefix (asset_digest x) ''sha256:'')) in
      if length digest \<noteq> 64 then Inl (DigestLength (asset_name x) (length digest))
      else if \<not> hex_decodes digest then Inl (DigestNotHex (asset_name x))
      else Inr digest)"

definition validate_release_asset ::
  "(string \<Rightarrow> parsed_url option) \<Rightarrow> release option \<Rightarrow> asset option \<Rightarrow> string \<Rightarrow> int \<Rightarrow> update_error option" where
  "validate_release_asset url_parse release a description max_size =
     (case release of None \<Rightarrow> Some ReleaseNil | Some r \<Rightarrow>
      case a of None \<Rightarrow> Some (AssetMissing description) | Some x \<Rightarrow>
      case safe_asset_name (asset_name x) of None \<Rightarrow> Some (UnsafeAssetName description (asset_name x)) | Some n \<Rightarrow>
      if asset_state x \<noteq> ''uploaded'' then Some (AssetNotUploaded description (asset_name x) (asset_state x))
      else if asset_size x \<le> 0 then Some (AssetSizeInvalid description (asset_name x) (asset_size x))
      else if max_size \<le> 0 then Some (MaxSizeInvalid description max_size)
      else if asset_size x > max_size then Some (AssetTooLarge description (asset_name x) max_size)
      else case parse_github_https_url url_parse (browser_download_url x) description of
        Inl e \<Rightarrow> Some e
      | Inr u \<Rightarrow>
        let expected = ''/'' @ repo_owner @ ''/'' @ repo_name @ ''/releases/download/'' @ tag_name r @ ''/'' @ n in
        if url_path u \<noteq> expected then Some (AssetPathMismatch description (url_path u) expected)
        else case asset_sha256_digest a of Inl e \<Rightarrow> Some (AssetDigest description e) | Inr d \<Rightarrow> None)"

text \<open>\<open>FindPlatformAsset\<close>, \<open>findPlatformAssetWithChecksum\<close> and \<open>FindChecksumAsset\<close> are called on the
  release that has been checked not to be nil.\<close>

definition release_assets_for_update ::
  "(string \<Rightarrow> parsed_url option) \<Rightarrow> string \<Rightarrow> string \<Rightarrow> release option \<Rightarrow> update_error + asset \<times> asset" where
  "release_assets_for_update url_parse goos goarch release =
     (case validate_release_identity url_parse release of Some e \<Rightarrow> Inl e | None \<Rightarrow>
      case release of None \<Rightarrow> Inl NoBinaryAvailable | Some r \<Rightarrow>
      case find_platform_asset goos goarch (tag_name r) (release_assets r) of
        None \<Rightarrow> Inl NoBinaryAvailable
      | Some x \<Rightarrow>
        case validate_release_asset url_parse release (Some x) ''platform asset'' max_download_bytes of
          Some e \<Rightarrow> Inl e
        | None \<Rightarrow>
          case find_checksum_asset (release_assets r) of
            None \<Rightarrow> Inl ChecksumAssetMissing
          | Some c \<Rightarrow>
            case validate_release_asset url_parse release (Some c) ''checksum asset'' max_checksum_manifest_bytes of
              Some e \<Rightarrow> Inl e
            | None \<Rightarrow> Inr (x, c))"

definition checked_platform_asset ::
  "(string \<Rightarrow> parsed_url option) \<Rightarrow> string \<Rightarrow> string \<Rightarrow> release option \<Rightarrow> (string, string) gomap \<Rightarrow>
     update_error + asset \<times> string" where
  "checked_platform_asset url_parse goos goarch release sums =
     (case release of None \<Rightarrow> Inl NoChecksumEntry | Some r \<Rightarrow>
      case find_platform_asset_with_checksum goos goarch (tag_name r) sums (release_assets r) of
        None \<Rightarrow> Inl NoChecksumEntry
      | Some x \<Rightarrow>
        case validate_release_asset url_parse release (Some x) ''checksummed platform asset'' max_download_bytes of
          Some e \<Rightarrow> Inl e
        | None \<Rightarrow>
          case mget sums (asset_name x) of
            None \<Rightarrow> Inl (NoChecksumFound (asset_name x))
          | Some expected \<Rightarrow>
            case asset_sha256_digest (Some x) of
              Inl e \<Rightarrow> Inl e
            | Inr digest \<Rightarrow>
              if expected \<noteq> digest then Inl (ChecksumDisagrees (asset_name x)) else Inr (x, digest))"

section \<open>Checksum manifests\<close>

text \<open>\<open>strings.Fields\<close>: the words between runs of white space.\<close>

fun fields_loop :: "string \<Rightarrow> string \<Rightarrow> string list" where
  "fields_loop cur [] = (if cur = [] then [] else [cur])"
| "fields_loop cur (c # s) =
     (case find (has_prefix (c # s)) space_runes of
        Some r \<Rightarrow> (if cur = [] then [] else [cur]) @ fields_loop [] (drop (length r - 1) s)
      | None \<Rightarrow> fields_loop (cur @ [c]) s)"

definition fields :: "string \<Rightarrow> string list" where
  "fields s = fields_loop [] s"

text \<open>One line of the manifest: it is skipped, or enters the map, or is a duplicate.\<close>

definition checksum_entry :: "string \<Rightarrow> (string \<times> string) option" where
  "checksum_entry raw =
     (let line = trim_space raw in
      if line = [] then None
      else let parts = fields line in
      if length parts < 2 then None
      else let raw_hash = parts ! 0; hash = to_lower raw_hash in
      if length hash \<noteq> 64 then None
      else if \<not> hex_decodes hash then None
      else if length line < length raw_hash \<or> \<not> has_prefix line raw_hash then None
      else let filename = trim_space (drop (length raw_hash) line) in
      if filename = [] then None else Some (filename, hash))"

fun checksum_lines :: "string list \<Rightarrow> (string, string) gomap \<Rightarrow> update_error + (string, string) gomap" where
  "checksum_lines [] sums = Inr sums"
| "checksum_lines (l # ls) sums =
     (case checksum_entry l of
        None \<Rightarrow> checksum_lines ls sums
      | Some (filename, hash) \<Rightarrow>
        if mget sums filename \<noteq> None then Inl (DuplicateChecksum filename)
        else checksum_lines ls (mput filename hash sums))"

definition parse_checksum_data :: "string \<Rightarrow> update_error + (string, string) gomap" where
  "parse_checksum_data data =
     (if int (length data) > max_checksum_manifest_bytes then Inl ManifestTooLarge
      else checksum_lines (split_on (CHR ''\<newline>'') data) [])"

end
