(* ===== verification/Bv_Release_Props.thy ===== *)
theory Bv_Release_Props
  imports Bv_Release
begin

text \<open>
  What an accepted release guarantees, whatever the URL parser does, and what the checksum manifest
  of a release maps to.
\<close>

section \<open>The installation gate\<close>

text \<open>A URL that stays on GitHub over HTTPS and names the path \<open>path\<close> only.\<close>

definition github_url :: "(string \<Rightarrow> parsed_url option) \<Rightarrow> string \<Rightarrow> string \<Rightarrow> bool" where
  "github_url url_parse raw path \<longleftrightarrow>
     (\<exists>u. url_parse raw = Some u \<and> url_scheme u = ''https'' \<and> to_lower (url_hostname u) = ''github.com'' \<and>
        url_port u = [] \<and> \<not> url_user u \<and> url_raw_query u = [] \<and> url_fragment u = [] \<and> url_path u = path)"

definition asset_valid :: "(string \<Rightarrow> parsed_url option) \<Rightarrow> release \<Rightarrow> asset \<Rightarrow> int \<Rightarrow> string \<Rightarrow> bool" where
  "asset_valid url_parse r x max_size digest \<longleftrightarrow>
     base_name (asset_name x) = asset_name x \<and> asset_name x \<notin> {'''', ''.'', ''..''} \<and>
     asset_state x = ''uploaded'' \<and> 0 < asset_size x \<and> asset_size x \<le> max_size \<and>
     github_url url_parse (browser_download_url x)
       (''/'' @ repo_owner @ ''/'' @ repo_name @ ''/releases/download/'' @ tag_name r @ ''/'' @ asset_name x) \<and>
     asset_sha256_digest (Some x) = Inr digest \<and> length digest = 64 \<and> list_all is_hex digest"

lemma github_https_url_ok:
  "parse_github_https_url url_parse raw field = Inr u \<Longrightarrow> github_url url_parse raw (url_path u)"
  by (auto simp: parse_github_https_url_def github_url_def split: option.splits if_splits)

lemma digest_ok: "asset_sha256_digest a = Inr d \<Longrightarrow> length d = 64 \<and> list_all is_hex d"
  by (auto simp: asset_sha256_digest_def hex_decodes_def Let_def split: option.splits if_splits)

lemma validate_release_asset_ok:
  assumes "validate_release_asset url_parse (Some r) (Some x) description m = None"
  shows "\<exists>d. asset_valid url_parse r x m d"
proof -
  have name: "base_name (asset_name x) = asset_name x" "asset_name x \<notin> {'''', ''.'', ''..''}"
      "safe_asset_name (asset_name x) = Some (asset_name x)"
    using assms by (auto simp: validate_release_asset_def safe_asset_name_def split: if_splits option.splits)
  have size: "asset_state x = ''uploaded''" "0 < asset_size x" "asset_size x \<le> m"
    using assms name(3) by (auto simp: validate_release_asset_def split: if_splits)
  obtain u d where "parse_github_https_url url_parse (browser_download_url x) description = Inr u"
      "url_path u = ''/'' @ repo_owner @ ''/'' @ repo_name @ ''/releases/download/'' @ tag_name r @ ''/'' @ asset_name x"
      "asset_sha256_digest (Some x) = Inr d"
    using assms name(3) by (auto simp: validate_release_asset_def Let_def split: if_splits sum.splits)
  then show ?thesis
    using name size github_https_url_ok[of url_parse "browser_download_url x" description u] digest_ok[of "Some x" d]
    unfolding asset_valid_def by auto
qed

lemma validate_release_identity_ok:
  assumes "validate_release_identity url_parse (Some r) = None"
  shows "\<not> is_draft r \<and> \<not> is_prerelease r \<and>
    (\<exists>p. parse_version (tag_name r) = Inr p \<and> pv_prerelease p = [] \<and> pv_components p = 3) \<and>
    github_url url_parse (html_url r) (''/'' @ repo_owner @ ''/'' @ repo_name @ ''/releases/tag/'' @ tag_name r)"
proof -
  obtain p u where "parse_version (tag_name r) = Inr p" "pv_prerelease p = []" "pv_components p = 3"
      "\<not> is_draft r" "\<not> is_prerelease r"
      "parse_github_https_url url_parse (html_url r) ''release page'' = Inr u"
      "url_path u = ''/'' @ repo_owner @ ''/'' @ repo_name @ ''/releases/tag/'' @ tag_name r"
    using assms by (auto simp: validate_release_identity_def Let_def split: if_splits sum.splits)
  then show ?thesis using github_https_url_ok[of url_parse "html_url r" "''release page''" u] by auto
qed

text \<open>Both searches return an asset of the release with the first name that qualifies.\<close>

lemma find_asset_first:
  "find_asset ns as = Some x \<Longrightarrow> x \<in> set as \<and>
     (\<exists>i < length ns. ns ! i = asset_name x \<and> (\<forall>j < i. \<forall>y \<in> set as. asset_name y \<noteq> ns ! j))"
proof (induction ns)
  case (Cons n ns)
  show ?case
  proof (cases "List.find (\<lambda>x. asset_name x = n) as")
    case None
    then have no: "\<forall>y \<in> set as. asset_name y \<noteq> n" by (auto simp: find_None_iff)
    from None Cons obtain i where "x \<in> set as" "i < length ns" "ns ! i = asset_name x"
        "\<forall>j < i. \<forall>y \<in> set as. asset_name y \<noteq> ns ! j" by auto
    then show ?thesis using no by (intro conjI exI[of _ "Suc i"]) (auto simp: less_Suc_eq_0_disj)
  next
    case (Some y)
    then have "y \<in> set as \<and> asset_name y = n" by (auto simp: find_Some_iff)
    with Some Cons.prems show ?thesis by (intro conjI exI[of _ 0]) auto
  qed
qed simp

lemma find_asset_with_checksum_filter:
  "find_asset_with_checksum sums ns as = find_asset ns (filter (\<lambda>x. mget sums (asset_name x) \<noteq> None) as)"
proof (induction ns)
  case (Cons n ns)
  have "find (\<lambda>x. asset_name x = n) (filter (\<lambda>x. mget sums (asset_name x) \<noteq> None) as) =
      (if mget sums n = None then None else find (\<lambda>x. asset_name x = n) as)"
    by (induction as) auto
  then show ?case using Cons by (auto split: option.split)
qed simp

text \<open>The first platform name that some asset of a list has.\<close>

definition most_specific :: "string \<Rightarrow> string \<Rightarrow> string \<Rightarrow> asset list \<Rightarrow> asset \<Rightarrow> bool" where
  "most_specific goos goarch tag as x \<longleftrightarrow> x \<in> set as \<and>
     (\<exists>i < length (platform_asset_names goos goarch tag). platform_asset_names goos goarch tag ! i = asset_name x \<and>
       (\<forall>j < i. \<forall>z \<in> set as. asset_name z \<noteq> platform_asset_names goos goarch tag ! j))"

text \<open>C30: Nothing is installed but what the release vouches for. If \<open>releaseAssetsForUpdate\<close> accepts a
  release then it is neither a draft nor a prerelease, its tag is a stable major.minor.patch version,
  its page and its assets are at their exact paths of this repository on GitHub over HTTPS, there is a binary
  for the platform, the one with the most specific name being valid, and the manifest and this binary are
  uploaded, non-empty, of bounded size and carry a SHA-256 digest. If \<open>checkedPlatformAsset\<close> then accepts
  the contents of the manifest, the asset to install has the most specific platform name among the assets
  that the manifest lists, is valid itself, and the manifest's entry for it is the digest of the release
  metadata.\<close>

theorem install_gate:
  assumes "release_assets_for_update url_parse goos goarch (Some r) = Inr (x, c)"
    and "checked_platform_asset url_parse goos goarch (Some r) sums = Inr (y, digest)"
  shows "\<not> is_draft r \<and> \<not> is_prerelease r \<and>
    (\<exists>p. parse_version (tag_name r) = Inr p \<and> pv_prerelease p = [] \<and> pv_components p = 3) \<and>
    github_url url_parse (html_url r) (''/'' @ repo_owner @ ''/'' @ repo_name @ ''/releases/tag/'' @ tag_name r) \<and>
    c \<in> set (release_assets r) \<and> asset_name c = ''checksums.txt'' \<and>
    most_specific goos goarch (tag_name r) (release_assets r) x \<and>
    most_specific goos goarch (tag_name r) (filter (\<lambda>z. mget sums (asset_name z) \<noteq> None) (release_assets r)) y \<and>
    (\<exists>d. asset_valid url_parse r x max_download_bytes d) \<and>
    (\<exists>d. asset_valid url_parse r c max_checksum_manifest_bytes d) \<and>
    asset_valid url_parse r y max_download_bytes digest \<and> mget sums (asset_name y) = Some digest"
proof -
  have id: "validate_release_identity url_parse (Some r) = None"
    and x: "find_platform_asset goos goarch (tag_name r) (release_assets r) = Some x"
      "validate_release_asset url_parse (Some r) (Some x) ''platform asset'' max_download_bytes = None"
    and c: "find_checksum_asset (release_assets r) = Some c"
      "validate_release_asset url_parse (Some r) (Some c) ''checksum asset'' max_checksum_manifest_bytes = None"
    using assms(1) by (auto simp: release_assets_for_update_def split: option.splits)
  have y: "find_platform_asset_with_checksum goos goarch (tag_name r) sums (release_assets r) = Some y"
      "validate_release_asset url_parse (Some r) (Some y) ''checksummed platform asset'' max_download_bytes = None"
      "mget sums (asset_name y) = Some digest" "asset_sha256_digest (Some y) = Inr digest"
    using assms(2) by (auto simp: checked_platform_asset_def split: option.splits sum.splits if_splits)
  obtain d where d: "asset_valid url_parse r y max_download_bytes d" using validate_release_asset_ok[OF y(2)] by blast
  then have "d = digest" using y(4) by (simp add: asset_valid_def)
  moreover have "c \<in> set (release_assets r)" "asset_name c = ''checksums.txt''"
    using c(1) by (auto simp: find_checksum_asset_def find_Some_iff)
  ultimately show ?thesis
    using validate_release_identity_ok[OF id] validate_release_asset_ok[OF x(2)] validate_release_asset_ok[OF c(2)]
      find_asset_first[OF x(1)[unfolded find_platform_asset_def]]
      find_asset_first[OF y(1)[unfolded find_platform_asset_with_checksum_def find_asset_with_checksum_filter]] y(3) d
    unfolding most_specific_def by blast
qed

definition demo_url_parse :: "string \<Rightarrow> parsed_url option" where
  "demo_url_parse s = (if has_prefix s ''https://github.com/'' then
     Some \<lparr>url_scheme = ''https'', url_hostname = ''github.com'', url_port = [], url_user = False,
       url_raw_query = [], url_fragment = [], url_path = drop 18 s\<rparr> else None)"

definition demo_asset :: "string \<Rightarrow> char \<Rightarrow> asset" where
  "demo_asset n h = \<lparr>asset_name = n,
     browser_download_url = ''https://github.com/stevelr/beads-viewer-edit/releases/download/v1.2.3/'' @ n,
     asset_size = 1000, asset_digest = ''sha256:'' @ replicate 64 h, asset_state = ''uploaded''\<rparr>"

definition demo_release :: release where
  "demo_release = \<lparr>tag_name = ''v1.2.3'',
     html_url = ''https://github.com/stevelr/beads-viewer-edit/releases/tag/v1.2.3'', is_draft = False,
     is_prerelease = False, release_assets = [demo_asset ''bv_linux_amd64.tar.gz'' (CHR ''1''),
       demo_asset ''bv_1.2.3_linux_amd64.tar.gz'' (CHR ''a''), demo_asset ''checksums.txt'' (CHR ''b'')]\<rparr>"

lemma install_gate_witness:
  "mget [(''bv_1.2.3_linux_amd64.tar.gz'', replicate 64 (CHR ''a''))] ''bv_1.2.3_linux_amd64.tar.gz'' =
     Some (replicate 64 (CHR ''a'')) \<and> \<not> is_draft demo_release"
proof -
  let ?x = "demo_asset ''bv_1.2.3_linux_amd64.tar.gz'' (CHR ''a'')"
  have a: "release_assets_for_update demo_url_parse ''linux'' ''amd64'' (Some demo_release) =
      Inr (?x, demo_asset ''checksums.txt'' (CHR ''b''))" by code_simp
  have b: "checked_platform_asset demo_url_parse ''linux'' ''amd64'' (Some demo_release)
      [(''bv_1.2.3_linux_amd64.tar.gz'', replicate 64 (CHR ''a''))] = Inr (?x, replicate 64 (CHR ''a''))"
    by code_simp
  have "mget [(''bv_1.2.3_linux_amd64.tar.gz'', replicate 64 (CHR ''a''))] (asset_name ?x) =
      Some (replicate 64 (CHR ''a'')) \<and> \<not> is_draft demo_release"
    using install_gate[OF a b] by blast
  then show ?thesis by (simp add: demo_asset_def)
qed

section \<open>Checksum manifests\<close>

definition manifest_line :: "string \<times> string \<Rightarrow> string" where
  "manifest_line = (\<lambda>(n, h). h @ ''  '' @ n)"

definition entry_ok :: "string \<times> string \<Rightarrow> bool" where
  "entry_ok = (\<lambda>(n, h). n \<noteq> [] \<and> trim_space n = n \<and> CHR ''\<newline>'' \<notin> set n \<and>
     length h = 64 \<and> list_all is_hex h \<and> to_lower h = h)"

lemma is_hex_plain: "is_hex c \<Longrightarrow> plain_char c"
  by (auto simp: is_hex_def is_space_def is_digit_code less_eq_char_def plain_char_def)

lemma strip_behind_space:
  assumes "strip (map rev space_runes) a = a" "a \<noteq> []"
  shows "strip (map rev space_runes) (a @ CHR '' '' # b) = a @ CHR '' '' # b"
proof (rule strip_id, clarify)
  fix r assume r: "r \<in> set (map rev space_runes)" "has_prefix (a @ CHR '' '' # b) r"
  then obtain q where q: "q \<in> set space_runes" "r = rev q" by auto
  have "\<not> has_prefix a r" using strip_fixed[OF assms(1) r(1)] space_runes_plain[OF q(1)] q(2) by simp
  then have "CHR '' '' \<in> set q" "length a < length q" using has_prefix_append_cases[OF r(2)] q(2) by simp_all
  then show False using space_runes_long[OF q(1)] assms(2) by (cases a) simp_all
qed

lemma find_space: "find (has_prefix (CHR '' '' # s)) space_runes = Some '' ''"
  by (simp add: space_runes_def)

lemma find_plain: "plain_char c \<Longrightarrow> find (has_prefix (c # s)) space_runes = None"
proof -
  assume c: "plain_char c"
  have "\<not> has_prefix (c # s) r" if "r \<in> set space_runes" for r
    using space_runes_plain[OF that] c by (cases r) auto
  then show ?thesis by (simp add: find_None_iff)
qed

lemma fields_loop_ne: "cur \<noteq> [] \<Longrightarrow> fields_loop cur s \<noteq> []"
  by (induction cur s rule: fields_loop.induct) (auto split: option.splits)

lemma fields_loop_word: "list_all plain_char w \<Longrightarrow> fields_loop cur (w @ s) = fields_loop (cur @ w) s"
  by (induction w arbitrary: cur) (simp_all add: find_plain)

lemma checksum_entry_line:
  assumes "entry_ok (n, h)"
  shows "checksum_entry (manifest_line (n, h)) = Some (n, h)"
proof -
  have e: "n \<noteq> []" "length h = 64" "list_all is_hex h" "to_lower h = h" "trim_space n = n"
    using assms by (auto simp: entry_ok_def)
  note n = trim_space_fixed[OF e(5)]
  have h: "h \<noteq> []" "list_all plain_char h" using e is_hex_plain by (auto simp: list_all_iff)
  let ?l = "h @ ''  '' @ n"
  have "strip space_runes ?l = ?l" using h by (intro strip_plain) (auto simp: list_all_iff)
  moreover have "strip (map rev space_runes) (rev ?l) = rev ?l"
    using strip_behind_space[OF n(2), of "'' '' @ rev h"] e(1) by simp
  ultimately have "trim_space ?l = ?l" by (simp add: trim_space_def)
  moreover have "fields ?l = h # fields_loop [] n"
    using fields_loop_word[OF h(2), of "[]"] h(1) by (simp add: fields_def find_space)
  moreover have "fields_loop [] n \<noteq> []"
  proof (cases n)
    case (Cons c m)
    have "find (has_prefix (c # m)) space_runes = None"
      using strip_fixed[OF n(1)] space_runes_plain by (auto simp: find_None_iff Cons)
    then show ?thesis using fields_loop_ne by (simp add: Cons)
  qed (use e(1) in simp)
  moreover have "trim_space (''  '' @ n) = n" using n by (simp add: trim_space_def find_space)
  ultimately show ?thesis
    using e h by (auto simp: checksum_entry_def manifest_line_def Let_def hex_decodes_def Suc_le_eq)
qed

lemma split_lines:
  "list_all (\<lambda>l. c \<notin> set l) ls \<Longrightarrow> split_on c (concat (map (\<lambda>l. l @ [c]) ls)) = ls @ [[]]"
  by (induction ls) (simp_all add: split_on_append)

lemma checksum_lines_entries:
  assumes "list_all entry_ok es" "distinct (map fst es)" "\<forall>n \<in> fst ` set es. mget sums n = None"
  shows "\<exists>m. checksum_lines (map manifest_line es @ [[]]) sums = Inr m \<and>
    (\<forall>n. mget m n = (case map_of es n of None \<Rightarrow> mget sums n | Some h \<Rightarrow> Some h))"
  using assms
proof (induction es arbitrary: sums)
  case Nil
  then show ?case by (simp add: checksum_entry_def trim_space_def trim_left_def trim_right_def)
next
  case (Cons e es)
  obtain n h where e: "e = (n, h)" by force
  have "\<forall>k \<in> fst ` set es. mget (mput n h sums) k = None" using Cons.prems(2,3) by (auto simp: e)
  then obtain m where m: "checksum_lines (map manifest_line es @ [[]]) (mput n h sums) = Inr m"
      "\<forall>k. mget m k = (case map_of es k of None \<Rightarrow> mget (mput n h sums) k | Some h \<Rightarrow> Some h)"
    using Cons.IH[of "mput n h sums"] Cons.prems(1,2) by auto
  have n: "map_of es n = None" using Cons.prems(2) by (simp add: e map_of_eq_None_iff)
  then have "mget m k = (case map_of (e # es) k of None \<Rightarrow> mget sums k | Some h \<Rightarrow> Some h)" for k
    using m(2) by (auto simp: e split: option.splits)
  moreover have "checksum_lines (map manifest_line (e # es) @ [[]]) sums = Inr m"
    using Cons.prems(1,3) m(1) checksum_entry_line[of n h] by (simp add: e)
  ultimately show ?case by blast
qed

lemma checksum_lines_duplicate:
  assumes "list_all entry_ok es" "\<not> distinct (map fst es) \<or> (\<exists>n \<in> fst ` set es. mget sums n \<noteq> None)"
  shows "\<exists>n. checksum_lines (map manifest_line es @ [[]]) sums = Inl (DuplicateChecksum n)"
  using assms
proof (induction es arbitrary: sums)
  case (Cons e es)
  obtain n h where e: "e = (n, h)" by force
  then have line: "checksum_entry (manifest_line e) = Some (n, h)"
    using Cons.prems(1) checksum_entry_line[of n h] by simp
  show ?case
  proof (cases "mget sums n")
    case None
    then have "\<not> distinct (map fst es) \<or> (\<exists>k \<in> fst ` set es. mget (mput n h sums) k \<noteq> None)"
      using Cons.prems(2) by (auto simp: e image_iff)
    then show ?thesis using Cons.IH[of "mput n h sums"] Cons.prems(1) line None by simp
  qed (use line in auto)
qed simp

lemma manifest_line_newline: "entry_ok e \<Longrightarrow> CHR ''\<newline>'' \<notin> set (manifest_line e)"
proof -
  assume e: "entry_ok e"
  have "\<not> is_hex (CHR ''\<newline>'')" using is_hex_plain[of "CHR ''\<newline>''"] by (auto simp: is_space_def plain_char_def)
  with e show ?thesis by (auto simp: entry_ok_def manifest_line_def list_all_iff split: prod.splits)
qed

text \<open>A checksum manifest in the format of \<open>sha256sum\<close> parses to exactly its entries: for any list of
  distinct, trimmed file names without line breaks and lower-case SHA-256 digests, the parser maps
  every name to its digest and nothing else, whatever spaces the names contain; and a manifest that
  names a file twice is an error, never a silent choice.\<close>

theorem checksum_manifest_roundtrip:
  assumes "list_all entry_ok es"
    and "int (length (concat (map (\<lambda>e. manifest_line e @ ''\<newline>'') es))) \<le> max_checksum_manifest_bytes"
  shows "if distinct (map fst es)
    then \<exists>m. parse_checksum_data (concat (map (\<lambda>e. manifest_line e @ ''\<newline>'') es)) = Inr m \<and> (\<forall>n. mget m n = map_of es n)
    else \<exists>n. parse_checksum_data (concat (map (\<lambda>e. manifest_line e @ ''\<newline>'') es)) = Inl (DuplicateChecksum n)"
proof -
  let ?data = "concat (map (\<lambda>e. manifest_line e @ ''\<newline>'') es)"
  have "split_on (CHR ''\<newline>'') (concat (map (\<lambda>l. l @ ''\<newline>'') (map manifest_line es))) =
      map manifest_line es @ [[]]"
    using assms(1) manifest_line_newline by (intro split_lines) (auto simp: list_all_iff)
  then have "split_on (CHR ''\<newline>'') ?data = map manifest_line es @ [[]]" by (simp add: comp_def)
  then have data: "parse_checksum_data ?data = checksum_lines (map manifest_line es @ [[]]) []"
    using assms(2) by (simp add: parse_checksum_data_def)
  show ?thesis
  proof (cases "distinct (map fst es)")
    case True
    then obtain m where m: "checksum_lines (map manifest_line es @ [[]]) [] = Inr m"
        "\<forall>n. mget m n = (case map_of es n of None \<Rightarrow> mget [] n | Some h \<Rightarrow> Some h)"
      using checksum_lines_entries[OF assms(1), of "[]"] by auto
    then have "mget m n = map_of es n" for n by (simp split: option.splits)
    with True m(1) data show ?thesis by simp
  next
    case False
    then show ?thesis using checksum_lines_duplicate[OF assms(1), of "[]"] data by simp
  qed
qed

lemma checksum_manifest_roundtrip_witness:
  "\<exists>m. parse_checksum_data (concat (map (\<lambda>e. manifest_line e @ ''\<newline>'')
      [(''bv 1.tar.gz'', replicate 64 (CHR ''a'')), (''x'', replicate 64 (CHR ''0''))])) = Inr m \<and>
     mget m ''x'' = Some (replicate 64 (CHR ''0''))"
proof -
  let ?es = "[(''bv 1.tar.gz'', replicate 64 (CHR ''a'')), (''x'', replicate 64 (CHR ''0''))]"
  have ok: "list_all entry_ok ?es" by code_simp
  have len: "int (length (concat (map (\<lambda>e. manifest_line e @ ''\<newline>'') ?es))) \<le> max_checksum_manifest_bytes"
    by code_simp
  show ?thesis using checksum_manifest_roundtrip[OF ok len] by auto
qed

end
