(* ===== verification/Bv_Workspace.thy ===== *)
theory Bv_Workspace
  imports Bv_Model
begin

text \<open>
  Workspaces of several trackers: the configuration of \<open>pkg/workspace/types.go\<close> with its validation,
  the qualification of issue ids by repository prefixes and their resolution, and from
  \<open>pkg/workspace/loader.go\<close> the selection of repositories, the namespacing of what they hold and the
  merge of the results.

  Reading a repository (\<open>pkg/loader\<close>: files, processes, and the origins it attaches to the issues)
  is the parameter \<open>read\<close>; the normalised
  absolute path of a repository, which depends on the working directory, is the parameter
  \<open>path_key\<close>; discovered repositories are a parameter list, since they come from the file system.
  The goroutines of \<open>loadReposParallel\<close> write to slots of their own, so their results are a list in
  the order of the repositories; cancellation of the load is not modelled.
\<close>

section \<open>Configuration\<close>

record repo_config =
  rc_name :: string
  rc_path :: string
  rc_prefix :: string
  rc_beads_path :: string
  rc_enabled :: "bool option"

record discovery_config =
  dc_enabled :: bool
  dc_patterns :: "string list"
  dc_exclude :: "string list"
  dc_max_depth :: int

record workspace_config =
  wc_name :: string
  wc_repos :: "repo_config list"
  wc_discovery :: discovery_config
  wc_default_beads_path :: string

definition default_discovery_patterns :: "string list" where
  "default_discovery_patterns = [''*'', ''packages/*'', ''apps/*'', ''services/*'', ''libs/*'', ''modules/*'']"

definition default_exclude_patterns :: "string list" where
  "default_exclude_patterns = [''node_modules'', ''vendor'', ''.git'', ''dist'', ''build'', ''target'']"

definition get_prefix :: "repo_config \<Rightarrow> string" where
  "get_prefix r =
     (if rc_prefix r \<noteq> [] then rc_prefix r
      else let name = rc_name r; name = (if name = [] then base_name (rc_path r) else name)
           in to_lower name @ ''-'')"

definition get_name :: "repo_config \<Rightarrow> string" where
  "get_name r = (if rc_name r \<noteq> [] then rc_name r else base_name (rc_path r))"

definition get_beads_path :: "repo_config \<Rightarrow> string" where
  "get_beads_path r = (if rc_beads_path r \<noteq> [] then rc_beads_path r else ''.beads'')"

definition is_enabled :: "repo_config \<Rightarrow> bool" where
  "is_enabled r = (case rc_enabled r of None \<Rightarrow> True | Some b \<Rightarrow> b)"

definition source_repo_key :: "string \<Rightarrow> string" where
  "source_repo_key prefix =
     to_lower (trim_right (\<lambda>c. c \<in> {CHR ''-'', CHR '':'', CHR ''_''}) (trim_space prefix))"

datatype workspace_error =
    NoRepos
  | PathRequired nat
  | DuplicatePrefix nat string
  | NoSourceKey nat string
  | DuplicateSourceKey nat string string

fun validate_repos ::
  "nat \<Rightarrow> repo_config list \<Rightarrow> (string, bool) gomap \<Rightarrow> (string, bool) gomap \<Rightarrow> workspace_error option" where
  "validate_repos i [] seen seen_source = None"
| "validate_repos i (r # rs) seen seen_source =
     (if rc_path r = [] then Some (PathRequired i)
      else let prefix = to_lower (get_prefix r) in
      if mget_or False seen prefix then Some (DuplicatePrefix i prefix)
      else let seen = mput prefix True seen; source = source_repo_key prefix in
      if source = [] then Some (NoSourceKey i prefix)
      else if mget_or False seen_source source then Some (DuplicateSourceKey i prefix source)
      else validate_repos (i + 1) rs seen (mput source True seen_source))"

definition validate_config :: "workspace_config \<Rightarrow> workspace_error option" where
  "validate_config c =
     (if length (wc_repos c) = 0 \<and> \<not> dc_enabled (wc_discovery c) then Some NoRepos
      else validate_repos 0 (wc_repos c) [] [])"

text \<open>\<open>LoadConfig\<close> after the YAML has been decoded.\<close>

definition apply_discovery_defaults :: "workspace_config \<Rightarrow> workspace_config" where
  "apply_discovery_defaults c =
     (let d = wc_discovery c in
      if dc_enabled d then
        c\<lparr>wc_discovery := d
          \<lparr>dc_patterns := (if length (dc_patterns d) = 0 then default_discovery_patterns else dc_patterns d),
           dc_exclude := (if length (dc_exclude d) = 0 then default_exclude_patterns else dc_exclude d),
           dc_max_depth := (if dc_max_depth d = 0 then 2 else dc_max_depth d)\<rparr>\<rparr>
      else c)"

definition load_config :: "workspace_config \<Rightarrow> workspace_error + workspace_config" where
  "load_config c =
     (let c = apply_discovery_defaults c in
      case validate_config c of Some e \<Rightarrow> Inl e | None \<Rightarrow> Inr c)"

section \<open>Qualified ids\<close>

record namespaced_id =
  ns_namespace :: string
  ns_local_id :: string

definition namespaced_string :: "namespaced_id \<Rightarrow> string" where
  "namespaced_string n = ns_namespace n @ ns_local_id n"

fun parse_namespaced_id :: "string \<Rightarrow> string list \<Rightarrow> namespaced_id" where
  "parse_namespaced_id iid [] = \<lparr>ns_namespace = [], ns_local_id = iid\<rparr>"
| "parse_namespaced_id iid (p # ps) =
     (if has_prefix iid p then \<lparr>ns_namespace = p, ns_local_id = trim_prefix iid p\<rparr>
      else parse_namespaced_id iid ps)"

definition qualify_id :: "string \<Rightarrow> string \<Rightarrow> string" where
  "qualify_id local prefix =
     (if local = [] \<or> prefix = [] then local
      else if has_prefix local prefix then local
      else prefix @ local)"

definition unqualify_id :: "string \<Rightarrow> string \<Rightarrow> string" where
  "unqualify_id namespaced prefix = trim_prefix namespaced prefix"

record id_resolver =
  ir_prefixes :: "string list"
  ir_prefix_to_repo :: "(string, string) gomap"
  ir_current_prefix :: string

definition resolver_add :: "string \<Rightarrow> repo_config \<Rightarrow> id_resolver \<Rightarrow> id_resolver" where
  "resolver_add current r res =
     (if \<not> is_enabled r then res
      else let prefix = get_prefix r;
               res = res\<lparr>ir_prefixes := ir_prefixes res @ [prefix],
                         ir_prefix_to_repo := mput prefix (get_name r) (ir_prefix_to_repo res)\<rparr>
           in if get_name r = current \<or> rc_path r = current then res\<lparr>ir_current_prefix := prefix\<rparr> else res)"

definition new_id_resolver :: "workspace_config \<Rightarrow> string \<Rightarrow> id_resolver" where
  "new_id_resolver c current =
     fold (resolver_add current) (wc_repos c)
       \<lparr>ir_prefixes = [], ir_prefix_to_repo = [], ir_current_prefix = []\<rparr>"

definition resolve :: "id_resolver \<Rightarrow> string \<Rightarrow> namespaced_id" where
  "resolve res iid = parse_namespaced_id iid (ir_prefixes res)"

definition qualify :: "id_resolver \<Rightarrow> string \<Rightarrow> string" where
  "qualify res local = qualify_id local (ir_current_prefix res)"

definition repo_for_prefix :: "id_resolver \<Rightarrow> string \<Rightarrow> string" where
  "repo_for_prefix res prefix = mget_or [] (ir_prefix_to_repo res) prefix"

definition is_cross_repo :: "id_resolver \<Rightarrow> string \<Rightarrow> bool" where
  "is_cross_repo res iid =
     (let n = resolve res iid in ns_namespace n \<noteq> [] \<and> ns_namespace n \<noteq> ir_current_prefix res)"

definition display_id :: "id_resolver \<Rightarrow> string \<Rightarrow> string" where
  "display_id res iid =
     (let n = resolve res iid in
      if ns_namespace n = [] \<or> ns_namespace n = ir_current_prefix res then ns_local_id n
      else namespaced_string n)"

section \<open>Selecting repositories\<close>

record repo_selection =
  rs_repos :: "repo_config list"
  rs_paths :: "(string, bool) gomap"
  rs_prefixes :: "(string, bool) gomap"
  rs_source_repos :: "(string, bool) gomap"

datatype select_error = SelectDuplicatePrefix string | SelectNoSourceKey string | SelectDuplicateSourceKey string string

definition apply_defaults :: "workspace_config \<Rightarrow> repo_config \<Rightarrow> repo_config" where
  "apply_defaults c r =
     (if rc_beads_path r = [] \<and> wc_default_beads_path c \<noteq> []
      then r\<lparr>rc_beads_path := wc_default_beads_path c\<rparr> else r)"

definition add_repo ::
  "workspace_config \<Rightarrow> (repo_config \<Rightarrow> string) \<Rightarrow> repo_config \<Rightarrow> repo_selection \<Rightarrow> select_error + repo_selection" where
  "add_repo c path_key repo s =
     (let r = apply_defaults c repo; key = path_key r in
      if mget_or False (rs_paths s) key then Inr s
      else let s = s\<lparr>rs_paths := mput key True (rs_paths s)\<rparr> in
      if \<not> is_enabled r then Inr (s\<lparr>rs_repos := rs_repos s @ [r]\<rparr>)
      else let prefix = to_lower (get_prefix r) in
      if mget_or False (rs_prefixes s) prefix then Inl (SelectDuplicatePrefix (get_prefix r))
      else let source = source_repo_key prefix in
      if source = [] then Inl (SelectNoSourceKey (get_prefix r))
      else if mget_or False (rs_source_repos s) source then Inl (SelectDuplicateSourceKey (get_prefix r) source)
      else Inr (s\<lparr>rs_prefixes := mput prefix True (rs_prefixes s),
                  rs_source_repos := mput source True (rs_source_repos s),
                  rs_repos := rs_repos s @ [r]\<rparr>))"

fun add_repos ::
  "workspace_config \<Rightarrow> (repo_config \<Rightarrow> string) \<Rightarrow> repo_config list \<Rightarrow> repo_selection \<Rightarrow> select_error + repo_selection" where
  "add_repos c path_key [] s = Inr s"
| "add_repos c path_key (r # rs) s =
     (case add_repo c path_key r s of Inl e \<Rightarrow> Inl e | Inr s \<Rightarrow> add_repos c path_key rs s)"

definition get_repos ::
  "workspace_config \<Rightarrow> (repo_config \<Rightarrow> string) \<Rightarrow> repo_config list \<Rightarrow> select_error + repo_config list" where
  "get_repos c path_key discovered =
     (let s = \<lparr>rs_repos = [], rs_paths = [], rs_prefixes = [], rs_source_repos = []\<rparr> in
      case add_repos c path_key (wc_repos c) s of
        Inl e \<Rightarrow> Inl e
      | Inr s \<Rightarrow>
        if dc_enabled (wc_discovery c) then
          (case add_repos c path_key discovered s of Inl e \<Rightarrow> Inl e | Inr s \<Rightarrow> Inr (rs_repos s))
        else Inr (rs_repos s))"

definition discovery_depth :: "string \<Rightarrow> nat" where
  "discovery_depth rel = (if rel = [] \<or> rel = ''.'' then 0 else length (split_on (CHR ''/'') rel))"

section \<open>Namespacing\<close>

definition known_repo_prefixes :: "repo_config list \<Rightarrow> (string, bool) gomap" where
  "known_repo_prefixes rs =
     fold (\<lambda>r m. let prefix = get_prefix r in if prefix \<noteq> [] then mput prefix True m else m) rs []"

definition has_known_prefix :: "string \<Rightarrow> (string, bool) gomap \<Rightarrow> bool" where
  "has_known_prefix iid known \<longleftrightarrow>
     list_ex (\<lambda>prefix. length iid > length prefix \<and> take (length prefix) iid = prefix) (mkeys known)"

definition namespace_dep ::
  "string \<Rightarrow> (string, bool) gomap \<Rightarrow> (string, bool) gomap \<Rightarrow> dependency \<Rightarrow> dependency" where
  "namespace_dep prefix local_ids known d =
     (let d = d\<lparr>dep_issue_id := qualify_id (dep_issue_id d) prefix\<rparr> in
      if mget_or False local_ids (dep_on d) then d\<lparr>dep_on := qualify_id (dep_on d) prefix\<rparr>
      else if has_known_prefix (dep_on d) known then d
      else d\<lparr>dep_on := qualify_id (dep_on d) prefix\<rparr>)"

definition namespace_issue ::
  "string \<Rightarrow> (string, bool) gomap \<Rightarrow> (string, bool) gomap \<Rightarrow> issue \<Rightarrow> issue" where
  "namespace_issue prefix local_ids known i =
     i\<lparr>issue_id := qualify_id (issue_id i) prefix,
       source_repo := source_repo_key prefix,
       dependencies := map (map_option (namespace_dep prefix local_ids known)) (dependencies i),
       comments := map (map_option (\<lambda>c. c\<lparr>com_issue_id := qualify_id (com_issue_id c) prefix\<rparr>)) (comments i)\<rparr>"

definition namespace_issues ::
  "issue list \<Rightarrow> string \<Rightarrow> (string, bool) gomap \<Rightarrow> (string, bool) gomap \<Rightarrow> issue list" where
  "namespace_issues is prefix local_ids known = map (namespace_issue prefix local_ids known) is"

section \<open>Loading and merging\<close>

record load_result =
  lr_repo_name :: string
  lr_prefix :: string
  lr_repo_path :: string
  lr_disabled :: bool
  lr_issues :: "issue list"
  lr_tombstone_ids :: "string list"
  lr_error :: "string option"

definition load_single_repo ::
  "workspace_config \<Rightarrow> (repo_config \<Rightarrow> string + issue list) \<Rightarrow> repo_config \<Rightarrow> (string, bool) gomap \<Rightarrow> load_result" where
  "load_single_repo c read repo known =
     (let r = apply_defaults c repo;
          result = \<lparr>lr_repo_name = get_name r, lr_prefix = get_prefix r, lr_repo_path = rc_path r,
                    lr_disabled = False, lr_issues = [], lr_tombstone_ids = [], lr_error = None\<rparr>
      in case read r of
           Inl e \<Rightarrow> result\<lparr>lr_error := Some e\<rparr>
         | Inr issues \<Rightarrow>
           let local_ids = fold (\<lambda>i m. mput (issue_id i) True m) issues [];
               prefix = get_prefix r;
               tombstones = map (\<lambda>i. qualify_id (issue_id i) prefix) (filter (\<lambda>i. status_is_tombstone (status i)) issues);
               visible = filter (\<lambda>i. \<not> status_is_tombstone (status i)) issues
           in result\<lparr>lr_issues := namespace_issues visible prefix local_ids known, lr_tombstone_ids := tombstones\<rparr>)"

definition load_repos ::
  "workspace_config \<Rightarrow> (repo_config \<Rightarrow> string + issue list) \<Rightarrow> repo_config list \<Rightarrow> load_result list" where
  "load_repos c read repos =
     (let known = known_repo_prefixes repos in
      map (\<lambda>r. if \<not> is_enabled r
               then \<lparr>lr_repo_name = get_name r, lr_prefix = get_prefix r, lr_repo_path = rc_path r,
                     lr_disabled = True, lr_issues = [], lr_tombstone_ids = [], lr_error = None\<rparr>
               else load_single_repo c read r known) repos)"

text \<open>
  How a repository is named in a report of duplicates: its name, and its path if it has one. The
  report sorts the quoted texts of these names; here they are in the order in which they were met.
\<close>

type_synonym load_identity = "string \<times> string option"

definition load_result_identity :: "load_result \<Rightarrow> load_identity" where
  "load_result_identity r =
     (if trim_space (lr_repo_path r) \<noteq> [] then (lr_repo_name r, Some (lr_repo_path r)) else (lr_repo_name r, None))"

record merge_state =
  ms_all :: "issue list"
  ms_failed :: "string list"
  ms_first_error :: "string option"
  ms_enabled :: nat
  ms_source :: "(string, load_identity) gomap"
  ms_collisions :: "(string, (load_identity, bool) gomap) gomap"

definition record_issue_source :: "load_identity \<Rightarrow> string \<Rightarrow> merge_state \<Rightarrow> merge_state" where
  "record_issue_source identity iid s =
     (case mget (ms_source s) iid of
        Some previous \<Rightarrow>
          (let sources = (case mget (ms_collisions s) iid of None \<Rightarrow> mput previous True [] | Some m \<Rightarrow> m)
           in s\<lparr>ms_collisions := mput iid (mput identity True sources) (ms_collisions s)\<rparr>)
      | None \<Rightarrow> s\<lparr>ms_source := mput iid identity (ms_source s)\<rparr>)"

definition merge_result :: "load_result \<Rightarrow> merge_state \<Rightarrow> merge_state" where
  "merge_result r s =
     (if lr_disabled r then s
      else let s = s\<lparr>ms_enabled := ms_enabled s + 1\<rparr> in
      case lr_error r of
        Some e \<Rightarrow> s\<lparr>ms_failed := ms_failed s @ [lr_repo_name r],
                    ms_first_error := (if ms_first_error s = None then Some e else ms_first_error s)\<rparr>
      | None \<Rightarrow>
        let identity = load_result_identity r;
            s = fold (record_issue_source identity) (map issue_id (lr_issues r)) s;
            s = fold (record_issue_source identity) (lr_tombstone_ids r) s
        in s\<lparr>ms_all := ms_all s @ lr_issues r\<rparr>)"

datatype load_error =
    NoEnabledRepos
  | AllReposFailed nat "string list" "string option"
  | DuplicateIssueIDs "(string \<times> load_identity list) list"

definition merge_results :: "load_result list \<Rightarrow> load_error + issue list" where
  "merge_results results =
     (let s = fold merge_result results
           \<lparr>ms_all = [], ms_failed = [], ms_first_error = None, ms_enabled = 0, ms_source = [], ms_collisions = []\<rparr>
      in if ms_enabled s = 0 then Inl NoEnabledRepos
         else if length (ms_failed s) = ms_enabled s
           then Inl (AllReposFailed (ms_enabled s) (ms_failed s) (ms_first_error s))
         else if length (ms_collisions s) > 0
           then Inl (DuplicateIssueIDs
             (map (\<lambda>iid. (iid, mkeys (mget_or [] (ms_collisions s) iid))) (sort (mkeys (ms_collisions s)))))
         else Inr (ms_all s))"

datatype load_all_error = SelectError select_error | LoadError load_error

definition load_all ::
  "workspace_config \<Rightarrow> (repo_config \<Rightarrow> string) \<Rightarrow> (repo_config \<Rightarrow> string + issue list) \<Rightarrow> repo_config list \<Rightarrow>
     load_all_error + issue list" where
  "load_all c path_key read discovered =
     (case get_repos c path_key discovered of
        Inl e \<Rightarrow> Inl (SelectError e)
      | Inr repos \<Rightarrow>
        (case merge_results (load_repos c read repos) of Inl e \<Rightarrow> Inl (LoadError e) | Inr is \<Rightarrow> Inr is))"

section \<open>Summaries\<close>

record load_summary =
  su_total :: nat
  su_successful :: nat
  su_failed :: nat
  su_disabled :: nat
  su_issues :: nat
  su_failed_names :: "string list"
  su_prefixes :: "string list"

definition summarize_result :: "load_result \<Rightarrow> load_summary \<Rightarrow> load_summary" where
  "summarize_result r s =
     (if lr_disabled r then s\<lparr>su_disabled := su_disabled s + 1\<rparr>
      else if lr_error r \<noteq> None
        then s\<lparr>su_failed := su_failed s + 1, su_failed_names := su_failed_names s @ [lr_repo_name r]\<rparr>
      else (let s = s\<lparr>su_successful := su_successful s + 1, su_issues := su_issues s + length (lr_issues r)\<rparr>
            in if lr_prefix r \<noteq> [] then s\<lparr>su_prefixes := su_prefixes s @ [lr_prefix r]\<rparr> else s))"

definition summarize :: "load_result list \<Rightarrow> load_summary" where
  "summarize results =
     fold summarize_result results
       \<lparr>su_total = length results, su_successful = 0, su_failed = 0, su_disabled = 0, su_issues = 0,
        su_failed_names = [], su_prefixes = []\<rparr>"

end
