(* ===== verification/Bv_Workspace_Props.thy ===== *)
theory Bv_Workspace_Props
  imports Bv_Workspace "HOL-Library.Sublist"
begin

text \<open>
  Properties of workspaces: qualified ids resolve to the repository they were qualified for, the
  selected repositories have distinct paths and namespaces, the merge reports exactly the failures
  and the duplicates that there are, and namespacing keeps the references between issues.
\<close>

section \<open>Resolution\<close>

definition enabled_prefixes :: "workspace_config \<Rightarrow> string list" where
  "enabled_prefixes c = map get_prefix (filter is_enabled (wc_repos c))"

text \<open>No prefix begins another one.\<close>

definition prefix_free :: "string list \<Rightarrow> bool" where
  "prefix_free ps \<longleftrightarrow> (\<forall>p \<in> set ps. \<forall>q \<in> set ps. has_prefix p q \<longrightarrow> p = q)"

lemma resolver_prefixes: "ir_prefixes (new_id_resolver c current) = enabled_prefixes c"
proof -
  have "ir_prefixes (fold (resolver_add current) rs res) = ir_prefixes res @ map get_prefix (filter is_enabled rs)"
    for rs res
    by (induction rs arbitrary: res) (simp_all add: resolver_add_def Let_def)
  then show ?thesis by (simp add: new_id_resolver_def enabled_prefixes_def)
qed

lemma parse_namespaced_string: "namespaced_string (parse_namespaced_id iid ps) = iid"
  by (induction iid ps rule: parse_namespaced_id.induct)
    (auto simp: namespaced_string_def has_prefix_iff trim_prefix_def)

lemma parse_namespaced_qualified:
  assumes "p \<in> set ps" "prefix_free ps" "local \<noteq> []"
  shows "parse_namespaced_id (p @ local) ps = \<lparr>ns_namespace = p, ns_local_id = local\<rparr>"
  using assms(1,2)
proof (induction ps)
  case (Cons q ps)
  show ?case
  proof (cases "has_prefix (p @ local) q")
    case True
    then obtain t where "p @ local = q @ t" by (auto simp: has_prefix_iff)
    then have "has_prefix p q \<or> has_prefix q p" by (auto simp: has_prefix_iff append_eq_append_conv2)
    moreover have "p \<in> set (q # ps)" "q \<in> set (q # ps)" using Cons.prems(1) by simp_all
    ultimately have "p = q" using Cons.prems(2) unfolding prefix_free_def by metis
    then show ?thesis by simp
  next
    case False
    then have "p \<noteq> q" by auto
    then show ?thesis using False Cons by (simp add: prefix_free_def)
  qed
qed simp

text \<open>C32: Resolution never loses text: the namespace and the local id that an id is split into always make
  up the id again. And where no configured prefix begins another one, an id that was qualified for
  an enabled repository resolves to that repository's prefix and to the local id, counts as foreign
  exactly outside that repository, and is displayed locally there and in full elsewhere.\<close>

theorem qualified_ids_resolve:
  fixes current :: string
  assumes "r \<in> set (wc_repos c)" "is_enabled r" "prefix_free (enabled_prefixes c)"
    and "local \<noteq> []" "\<not> has_prefix local (get_prefix r)"
  defines "res \<equiv> new_id_resolver c current" and "iid \<equiv> qualify_id local (get_prefix r)"
  shows "resolve res iid = \<lparr>ns_namespace = get_prefix r, ns_local_id = local\<rparr> \<and>
    namespaced_string (resolve res iid) = iid \<and> unqualify_id iid (get_prefix r) = local \<and>
    (is_cross_repo res iid \<longleftrightarrow> get_prefix r \<noteq> ir_current_prefix res) \<and>
    display_id res iid = (if get_prefix r = ir_current_prefix res then local else iid) \<and>
    (\<forall>any. namespaced_string (resolve res any) = any)"
proof -
  have ne: "get_prefix r \<noteq> []" by (simp add: get_prefix_def Let_def)
  then have iid: "iid = get_prefix r @ local" using assms(4,5) by (simp add: iid_def qualify_id_def)
  have "get_prefix r \<in> set (enabled_prefixes c)" using assms(1,2) by (auto simp: enabled_prefixes_def)
  then have "resolve res iid = \<lparr>ns_namespace = get_prefix r, ns_local_id = local\<rparr>"
    using parse_namespaced_qualified[OF _ assms(3,4)] by (simp add: resolve_def res_def resolver_prefixes iid)
  then show ?thesis
    using ne parse_namespaced_string[unfolded namespaced_string_def]
    by (simp add: is_cross_repo_def display_id_def resolve_def iid unqualify_id_def
        namespaced_string_def)
qed

definition demo_repo :: "string \<Rightarrow> repo_config" where
  "demo_repo n = \<lparr>rc_name = n, rc_path = ''services/'' @ n, rc_prefix = [], rc_beads_path = [], rc_enabled = None\<rparr>"

definition demo_workspace :: workspace_config where
  "demo_workspace = \<lparr>wc_name = [], wc_repos = [demo_repo ''api'', demo_repo ''web''],
     wc_discovery = \<lparr>dc_enabled = False, dc_patterns = [], dc_exclude = [], dc_max_depth = 0\<rparr>,
     wc_default_beads_path = []\<rparr>"

lemma qualified_ids_resolve_witness:
  "resolve (new_id_resolver demo_workspace ''api'') ''web-7'' = \<lparr>ns_namespace = ''web-'', ns_local_id = ''7''\<rparr>"
proof -
  have "demo_repo ''web'' \<in> set (wc_repos demo_workspace)" "is_enabled (demo_repo ''web'')"
      "prefix_free (enabled_prefixes demo_workspace)" "(''7'' :: string) \<noteq> []"
      "\<not> has_prefix ''7'' (get_prefix (demo_repo ''web''))"
    unfolding prefix_free_def by code_simp+
  from qualified_ids_resolve[OF this, of "''api''"]
  have "resolve (new_id_resolver demo_workspace ''api'') (qualify_id ''7'' (get_prefix (demo_repo ''web''))) =
      \<lparr>ns_namespace = get_prefix (demo_repo ''web''), ns_local_id = ''7''\<rparr>" by blast
  moreover have "get_prefix (demo_repo ''web'') = ''web-''" "qualify_id ''7'' ''web-'' = ''web-7''" by code_simp+
  ultimately show ?thesis by simp
qed

text \<open>Validation does not rule out prefixes that begin one another: then the first one wins.\<close>

lemma overlapping_prefixes_misresolve:
  "validate_repos 0 [demo_repo ''lib'', demo_repo ''lib-core''] [] [] = None \<and>
   parse_namespaced_id (qualify_id ''1'' ''lib-core-'') [''lib-'', ''lib-core-''] =
     \<lparr>ns_namespace = ''lib-'', ns_local_id = ''core-1''\<rparr>"
  by code_simp

section \<open>Selection\<close>

abbreviation repo_key :: "repo_config \<Rightarrow> string" where
  "repo_key r \<equiv> to_lower (get_prefix r)"

definition selection_inv :: "(repo_config \<Rightarrow> string) \<Rightarrow> repo_selection \<Rightarrow> bool" where
  "selection_inv path_key s \<longleftrightarrow>
     distinct (map path_key (rs_repos s)) \<and> (\<forall>k. mget_or False (rs_paths s) k \<longleftrightarrow> k \<in> path_key ` set (rs_repos s)) \<and>
     distinct (map repo_key (filter is_enabled (rs_repos s))) \<and>
     (\<forall>k. mget_or False (rs_prefixes s) k \<longleftrightarrow> k \<in> repo_key ` set (filter is_enabled (rs_repos s))) \<and>
     distinct (map (source_repo_key \<circ> repo_key) (filter is_enabled (rs_repos s))) \<and>
     [] \<notin> (source_repo_key \<circ> repo_key) ` set (filter is_enabled (rs_repos s)) \<and>
     (\<forall>k. mget_or False (rs_source_repos s) k \<longleftrightarrow> k \<in> (source_repo_key \<circ> repo_key) ` set (filter is_enabled (rs_repos s)))"

lemma add_repo_inv:
  assumes "selection_inv path_key s" "add_repo c path_key r s = Inr s'"
  shows "selection_inv path_key s' \<and> path_key (apply_defaults c r) \<in> path_key ` set (rs_repos s') \<and>
    set (rs_repos s) \<subseteq> set (rs_repos s') \<and> set (rs_repos s') \<subseteq> insert (apply_defaults c r) (set (rs_repos s))"
  using assms by (auto simp: add_repo_def Let_def selection_inv_def split: if_splits)

lemma add_repos_inv:
  "selection_inv path_key s \<Longrightarrow> add_repos c path_key rs s = Inr s' \<Longrightarrow>
     selection_inv path_key s' \<and> path_key ` apply_defaults c ` set rs \<subseteq> path_key ` set (rs_repos s') \<and>
     set (rs_repos s) \<subseteq> set (rs_repos s') \<and> set (rs_repos s') \<subseteq> apply_defaults c ` set rs \<union> set (rs_repos s)"
proof (induction rs arbitrary: s)
  case (Cons r rs)
  then obtain s1 where s1: "add_repo c path_key r s = Inr s1" "add_repos c path_key rs s1 = Inr s'"
    by (auto split: sum.splits)
  note a = add_repo_inv[OF Cons.prems(1) s1(1)]
  then show ?case using Cons.IH[OF _ s1(2)] by (auto 0 3)
qed auto

text \<open>The selected repositories are pairwise different places with pairwise different namespaces: their
  path keys are distinct, and the lower-case prefixes and the non-empty source keys of the enabled
  ones are distinct. Every configured repository, and every discovered one if discovery is on, is
  represented by its place; nothing else is selected.\<close>

theorem selected_repos_unique:
  assumes "get_repos c path_key discovered = Inr rs"
  defines "sources \<equiv> wc_repos c @ (if dc_enabled (wc_discovery c) then discovered else [])"
  shows "distinct (map path_key rs) \<and> distinct (map repo_key (filter is_enabled rs)) \<and>
    distinct (map (source_repo_key \<circ> repo_key) (filter is_enabled rs)) \<and>
    [] \<notin> (source_repo_key \<circ> repo_key) ` set (filter is_enabled rs) \<and>
    path_key ` set rs = path_key ` apply_defaults c ` set sources \<and> set rs \<subseteq> apply_defaults c ` set sources"
proof -
  let ?s = "\<lparr>rs_repos = [], rs_paths = [], rs_prefixes = [], rs_source_repos = []\<rparr>"
  have inv: "selection_inv path_key ?s" by (simp add: selection_inv_def)
  have split: "add_repos c path_key (xs @ ys) s =
      (case add_repos c path_key xs s of Inl e \<Rightarrow> Inl e | Inr s' \<Rightarrow> add_repos c path_key ys s')" for xs ys s
    by (induction xs arbitrary: s) (auto split: sum.splits)
  obtain s where s: "add_repos c path_key sources ?s = Inr s" "rs = rs_repos s"
    using assms(1) unfolding get_repos_def sources_def by (auto simp: split Let_def split: sum.splits if_splits)
  note a = add_repos_inv[OF inv s(1)]
  then have "path_key ` set rs = path_key ` apply_defaults c ` set sources" using s(2) by auto
  then show ?thesis using a s(2) by (auto simp: selection_inv_def)
qed

lemma selected_repos_unique_witness:
  "distinct (map rc_path [demo_repo ''api'', demo_repo ''web''])"
proof -
  have "get_repos demo_workspace rc_path [] = Inr [demo_repo ''api'', demo_repo ''web'']" by code_simp
  from selected_repos_unique[OF this] show ?thesis by blast
qed

section \<open>Merging\<close>

abbreviation enabled_results :: "load_result list \<Rightarrow> load_result list" where
  "enabled_results rs \<equiv> filter (\<lambda>r. \<not> lr_disabled r) rs"

abbreviation loaded_results :: "load_result list \<Rightarrow> load_result list" where
  "loaded_results rs \<equiv> filter (\<lambda>r. \<not> lr_disabled r \<and> lr_error r = None) rs"

abbreviation failed_results :: "load_result list \<Rightarrow> load_result list" where
  "failed_results rs \<equiv> filter (\<lambda>r. \<not> lr_disabled r \<and> lr_error r \<noteq> None) rs"

text \<open>All the ids that the loaded repositories claim, the deleted ones included, in order.\<close>

definition result_ids :: "load_result \<Rightarrow> string list" where
  "result_ids r = map issue_id (lr_issues r) @ lr_tombstone_ids r"

definition claimed_ids :: "load_result list \<Rightarrow> string list" where
  "claimed_ids rs = concat (map result_ids (loaded_results rs))"

definition sources_inv :: "string list \<Rightarrow> merge_state \<Rightarrow> bool" where
  "sources_inv ids s \<longleftrightarrow>
     (\<forall>k. mget (ms_source s) k \<noteq> None \<longleftrightarrow> k \<in> set ids) \<and>
     (\<forall>k. mget (ms_collisions s) k \<noteq> None \<longleftrightarrow> 2 \<le> count_list ids k) \<and> gomap_ok (ms_collisions s)"

lemma record_issue_source_fields [simp]:
  "ms_all (record_issue_source t k s) = ms_all s" "ms_failed (record_issue_source t k s) = ms_failed s"
  "ms_first_error (record_issue_source t k s) = ms_first_error s" "ms_enabled (record_issue_source t k s) = ms_enabled s"
  by (auto simp: record_issue_source_def Let_def split: option.splits)

lemma fold_record_fields [simp]:
  "ms_all (fold (record_issue_source t) ks s) = ms_all s" "ms_failed (fold (record_issue_source t) ks s) = ms_failed s"
  "ms_first_error (fold (record_issue_source t) ks s) = ms_first_error s"
  "ms_enabled (fold (record_issue_source t) ks s) = ms_enabled s"
  by (induction ks arbitrary: s) simp_all

lemma record_issue_source_inv: "sources_inv ids s \<Longrightarrow> sources_inv (ids @ [k]) (record_issue_source t k s)"
proof -
  assume inv: "sources_inv ids s"
  have c: "count_list ids k = 0 \<longleftrightarrow> k \<notin> set ids" by (simp add: count_list_0_iff)
  show ?thesis
  proof (cases "mget (ms_source s) k")
    case None
    then have "k \<notin> set ids" using inv unfolding sources_inv_def by blast
    then show ?thesis using None inv c by (auto simp: sources_inv_def record_issue_source_def count_list_append)
  next
    case (Some t')
    then have "k \<in> set ids" using inv unfolding sources_inv_def by (metis option.distinct(1))
    then have one: "1 \<le> count_list ids k" using c by linarith
    let ?s = "record_issue_source t k s"
    have src: "ms_source ?s = ms_source s" using Some by (simp add: record_issue_source_def Let_def)
    have col: "mget (ms_collisions ?s) j \<noteq> None \<longleftrightarrow> j = k \<or> mget (ms_collisions s) j \<noteq> None"
        "gomap_ok (ms_collisions ?s)" for j
      using Some inv by (auto simp: record_issue_source_def Let_def sources_inv_def)
    show ?thesis
      unfolding sources_inv_def src
    proof (intro conjI allI)
      fix j
      show "mget (ms_source s) j \<noteq> None \<longleftrightarrow> j \<in> set (ids @ [k])"
        using inv \<open>k \<in> set ids\<close> unfolding sources_inv_def by auto
      have "mget (ms_collisions s) j \<noteq> None \<longleftrightarrow> 2 \<le> count_list ids j" using inv unfolding sources_inv_def by blast
      then show "mget (ms_collisions ?s) j \<noteq> None \<longleftrightarrow> 2 \<le> count_list (ids @ [k]) j"
        using one unfolding col(1) by (cases "j = k") (simp_all add: count_list_append)
    qed (rule col)
  qed
qed

lemma fold_record_inv: "sources_inv ids s \<Longrightarrow> sources_inv (ids @ ks) (fold (record_issue_source t) ks s)"
proof (induction ks arbitrary: ids s)
  case (Cons k ks)
  then show ?case using Cons.IH[OF record_issue_source_inv[OF Cons.prems, of k t]] by simp
qed simp

definition merge_inv :: "load_result list \<Rightarrow> merge_state \<Rightarrow> bool" where
  "merge_inv rs s \<longleftrightarrow>
     ms_enabled s = length (enabled_results rs) \<and> ms_failed s = map lr_repo_name (failed_results rs) \<and>
     ms_first_error s = (case failed_results rs of [] \<Rightarrow> None | r # _ \<Rightarrow> lr_error r) \<and>
     ms_all s = concat (map lr_issues (loaded_results rs)) \<and> sources_inv (claimed_ids rs) s"

lemma merge_result_inv: "merge_inv rs s \<Longrightarrow> merge_inv (rs @ [r]) (merge_result r s)"
proof -
  assume inv: "merge_inv rs s"
  consider "lr_disabled r" | e where "\<not> lr_disabled r" "lr_error r = Some e" | "\<not> lr_disabled r" "lr_error r = None"
    by (cases "lr_error r") auto
  then show ?thesis
  proof cases
    case 2
    have first: "failed_results rs = [] \<longleftrightarrow> ms_first_error s = None"
    proof (cases "failed_results rs")
      case (Cons q qs)
      then have "q \<in> set (failed_results rs)" by simp
      then show ?thesis using inv Cons by (auto simp: merge_inv_def)
    qed (use inv in \<open>simp add: merge_inv_def\<close>)
    have src: "sources_inv (claimed_ids rs) (merge_result r s)"
      using inv 2 by (simp add: merge_inv_def sources_inv_def merge_result_def Let_def)
    show ?thesis
    proof (cases "failed_results rs")
      case Nil
      then show ?thesis using inv 2 src first by (simp add: merge_inv_def merge_result_def Let_def claimed_ids_def)
    next
      case (Cons q qs)
      then show ?thesis using inv 2 src first by (simp add: merge_inv_def merge_result_def Let_def claimed_ids_def)
    qed
  next
    case 3
    let ?t = "load_result_identity r" and ?s = "s\<lparr>ms_enabled := ms_enabled s + 1\<rparr>"
    have "sources_inv (claimed_ids rs) ?s" using inv by (simp add: merge_inv_def sources_inv_def)
    then have "sources_inv ((claimed_ids rs @ map issue_id (lr_issues r)) @ lr_tombstone_ids r)
        (fold (record_issue_source ?t) (lr_tombstone_ids r) (fold (record_issue_source ?t) (map issue_id (lr_issues r)) ?s))"
      by (intro fold_record_inv)
    then have "sources_inv (claimed_ids (rs @ [r])) (merge_result r s)"
      using 3 by (simp add: merge_result_def Let_def claimed_ids_def result_ids_def sources_inv_def)
    then show ?thesis using inv 3 by (simp add: merge_inv_def merge_result_def Let_def)
  qed (use inv in \<open>simp add: merge_inv_def merge_result_def claimed_ids_def\<close>)
qed

lemma merge_fold_inv: "merge_inv rs s \<Longrightarrow> merge_inv (rs @ qs) (fold merge_result qs s)"
proof (induction qs arbitrary: rs s)
  case (Cons q qs)
  then show ?case using Cons.IH[OF merge_result_inv[OF Cons.prems, of q]] by simp
qed simp

lemma distinct_count: "distinct xs \<longleftrightarrow> (\<forall>k. count_list xs k < 2)"
proof
  have "count_list xs k < 2" if "distinct xs" for k
    using that by (induction xs) (auto simp: count_list_0_iff)
  then show "distinct xs \<Longrightarrow> \<forall>k. count_list xs k < 2" by blast
next
  assume "\<forall>k. count_list xs k < 2"
  then show "distinct xs"
  proof (induction xs)
    case (Cons x xs)
    have "count_list xs k < 2" for k using Cons.prems[rule_format, of k] by (simp split: if_splits)
    moreover have "count_list xs x = 0" using Cons.prems[rule_format, of x] by simp
    ultimately show ?case using Cons.IH by (simp add: count_list_0_iff)
  qed simp
qed

lemma merge_results_state:
  obtains s where "merge_inv rs s" "merge_results rs =
     (if ms_enabled s = 0 then Inl NoEnabledRepos
      else if length (ms_failed s) = ms_enabled s
        then Inl (AllReposFailed (ms_enabled s) (ms_failed s) (ms_first_error s))
      else if length (ms_collisions s) > 0
        then Inl (DuplicateIssueIDs
          (map (\<lambda>iid. (iid, mkeys (mget_or [] (ms_collisions s) iid))) (sort (mkeys (ms_collisions s)))))
      else Inr (ms_all s))"
proof -
  let ?s = "\<lparr>ms_all = [], ms_failed = [], ms_first_error = None, ms_enabled = 0, ms_source = [], ms_collisions = []\<rparr>"
  have "merge_inv [] ?s" by (simp add: merge_inv_def sources_inv_def claimed_ids_def)
  then have "merge_inv rs (fold merge_result rs ?s)" using merge_fold_inv[of "[]" ?s rs] by simp
  then show thesis using that[of "fold merge_result rs ?s"] by (simp add: merge_results_def Let_def)
qed

lemma results_partition:
  "length (enabled_results rs) = length (loaded_results rs) + length (failed_results rs)"
  "loaded_results rs = [] \<Longrightarrow> failed_results rs = enabled_results rs"
proof -
  show "length (enabled_results rs) = length (loaded_results rs) + length (failed_results rs)"
    by (induction rs) auto
  show "loaded_results rs = [] \<Longrightarrow> failed_results rs = enabled_results rs"
    by (induction rs) (auto split: if_splits)
qed

lemma claimed_distinct_issues:
  "distinct (claimed_ids rs) \<Longrightarrow> distinct (map issue_id (concat (map lr_issues (loaded_results rs))))"
proof -
  have "distinct (concat (map result_ids qs)) \<Longrightarrow> distinct (map issue_id (concat (map lr_issues qs)))" for qs
  proof (induction qs)
    case (Cons q qs)
    have "set (map issue_id (concat (map lr_issues qs))) \<subseteq> set (concat (map result_ids qs))"
      by (auto simp: result_ids_def)
    moreover have "set (map issue_id (lr_issues q)) \<inter> set (concat (map result_ids qs)) = {}"
        "distinct (concat (map result_ids qs))" "distinct (map issue_id (lr_issues q))"
      using Cons.prems unfolding list.map concat.simps distinct_append result_ids_def[of q] by auto
    ultimately show ?case
      using Cons.IH unfolding list.map concat.simps map_append distinct_append by blast
  qed simp
  then show "distinct (claimed_ids rs) \<Longrightarrow> distinct (map issue_id (concat (map lr_issues (loaded_results rs))))"
    by (simp only: claimed_ids_def)
qed

text \<open>C34: Loading a workspace fails exactly when it must. It reports that no repository is enabled, that all
  enabled ones failed (with their names and the first failure), or the ids that are claimed twice, by
  visible or deleted issues, of one or several repositories (exactly those ids, sorted). Otherwise the
  result is the issues of the repositories that loaded, in order, with pairwise different ids.\<close>

theorem merge_results_correct:
  "case merge_results rs of
     Inr is \<Rightarrow> loaded_results rs \<noteq> [] \<and> distinct (claimed_ids rs) \<and>
       is = concat (map lr_issues (loaded_results rs)) \<and> distinct (map issue_id is)
   | Inl NoEnabledRepos \<Rightarrow> enabled_results rs = []
   | Inl (AllReposFailed n names e) \<Rightarrow> enabled_results rs \<noteq> [] \<and> loaded_results rs = [] \<and>
       n = length (enabled_results rs) \<and> names = map lr_repo_name (enabled_results rs) \<and>
       e = lr_error (hd (enabled_results rs))
   | Inl (DuplicateIssueIDs xs) \<Rightarrow> loaded_results rs \<noteq> [] \<and> \<not> distinct (claimed_ids rs) \<and>
       sorted (map fst xs) \<and> distinct (map fst xs) \<and> set (map fst xs) = {k. 2 \<le> count_list (claimed_ids rs) k}"
proof -
  obtain s where inv: "merge_inv rs s" and eq: "merge_results rs =
     (if ms_enabled s = 0 then Inl NoEnabledRepos
      else if length (ms_failed s) = ms_enabled s
        then Inl (AllReposFailed (ms_enabled s) (ms_failed s) (ms_first_error s))
      else if length (ms_collisions s) > 0
        then Inl (DuplicateIssueIDs
          (map (\<lambda>iid. (iid, mkeys (mget_or [] (ms_collisions s) iid))) (sort (mkeys (ms_collisions s)))))
      else Inr (ms_all s))"
    by (rule merge_results_state)
  note parts = results_partition[of rs]
  have flds: "ms_enabled s = length (enabled_results rs)" "ms_failed s = map lr_repo_name (failed_results rs)"
      "ms_all s = concat (map lr_issues (loaded_results rs))"
    using inv by (simp_all only: merge_inv_def)
  have keys: "set (mkeys (ms_collisions s)) = {k. 2 \<le> count_list (claimed_ids rs) k}"
      "distinct (mkeys (ms_collisions s))"
    using inv by (auto simp: merge_inv_def sources_inv_def mkeys_ex gomap_ok_def)
  have none: "ms_collisions s = [] \<longleftrightarrow> distinct (claimed_ids rs)"
  proof -
    have "ms_collisions s = [] \<longleftrightarrow> set (mkeys (ms_collisions s)) = {}" by (simp add: mkeys_def)
    then show ?thesis unfolding keys(1) distinct_count by (simp add: not_le)
  qed
  show ?thesis
  proof (cases "enabled_results rs = []")
    case True
    then show ?thesis using eq flds(1) by simp
  next
    case en: False
    show ?thesis
    proof (cases "loaded_results rs = []")
      case True
      obtain q qs where q: "enabled_results rs = q # qs" using en by (cases "enabled_results rs") auto
      then have "ms_first_error s = lr_error q" using inv parts(2)[OF True] by (simp add: merge_inv_def)
      then show ?thesis using eq flds(1,2) parts(2)[OF True] q True by simp
    next
      case ld: False
      then have "length (ms_failed s) \<noteq> ms_enabled s" "ms_enabled s \<noteq> 0"
        using flds(1,2) parts(1) en by simp_all
      moreover have "map fst (map (\<lambda>iid. (iid, mkeys (mget_or [] (ms_collisions s) iid))) (sort (mkeys (ms_collisions s)))) =
          sort (mkeys (ms_collisions s))" by (simp add: comp_def)
      ultimately show ?thesis
        using eq ld none keys flds(3) claimed_distinct_issues[of rs] by (cases "ms_collisions s = []") simp_all
    qed
  qed
qed

section \<open>References\<close>

definition references :: "issue list \<Rightarrow> (string \<times> string) set" where
  "references is = {(issue_id i, dep_on d) | i d. i \<in> set is \<and> Some d \<in> set (dependencies i)}"

lemma qualify_has_prefix: "local \<noteq> [] \<Longrightarrow> has_prefix (qualify_id local p) p"
  by (auto simp: qualify_id_def has_prefix_iff)

lemma Some_map_option: "Some d \<in> map_option f ` X \<longleftrightarrow> (\<exists>d0. Some d0 \<in> X \<and> d = f d0)"
proof
  assume "Some d \<in> map_option f ` X"
  then obtain x where x: "x \<in> X" "Some d = map_option f x" by auto
  then show "\<exists>d0. Some d0 \<in> X \<and> d = f d0" by (cases x) auto
qed (force simp: image_iff)

text \<open>C35: Namespacing keeps the references. When a repository is read, every one of its issues, visible or
  deleted, claims exactly its qualified id, and every claimed id carries the repository's prefix. The
  references of the visible issues are the qualified references of the file: a target of the same
  repository, deleted ones included, becomes its qualified id, even where it looks like another
  repository's id; any other target is kept if it has a known prefix and is taken as local if not.\<close>

theorem namespacing_keeps_references:
  fixes known :: "(string, bool) gomap"
  assumes "read (apply_defaults c r) = Inr raw"
  defines "res \<equiv> load_single_repo c read r known" and "p \<equiv> get_prefix (apply_defaults c r)"
  shows "lr_error res = None \<and> mset (result_ids res) = mset (map (\<lambda>j. qualify_id (issue_id j) p) raw) \<and>
    (\<forall>j \<in> set raw. issue_id j \<noteq> [] \<longrightarrow> has_prefix (qualify_id (issue_id j) p) p) \<and>
    references (lr_issues res) =
      (\<lambda>(x, y). (qualify_id x p, if y \<in> issue_id ` set raw \<or> \<not> has_known_prefix y known then qualify_id y p else y)) `
        references (filter (\<lambda>j. \<not> status_is_tombstone (status j)) raw) \<and>
    (\<forall>(x, y) \<in> references (filter (\<lambda>j. \<not> status_is_tombstone (status j)) raw).
       y \<in> issue_id ` set raw \<longrightarrow> (qualify_id x p, qualify_id y p) \<in> references (lr_issues res) \<and>
         qualify_id y p \<in> set (result_ids res))"
proof -
  let ?vis = "filter (\<lambda>j. \<not> status_is_tombstone (status j)) raw"
  let ?q = "\<lambda>j. qualify_id (issue_id j) p"
  let ?loc = "fold (\<lambda>i m. mput (issue_id i) True m) raw []"
  have loc: "mget_or False ?loc y \<longleftrightarrow> y \<in> issue_id ` set raw" for y
  proof -
    have "mget_or False (fold (\<lambda>i m. mput (issue_id i) True m) is m) y \<longleftrightarrow> y \<in> issue_id ` set is \<or> mget_or False m y"
      for "is" :: "issue list" and m by (induction "is" arbitrary: m) auto
    then show ?thesis by simp
  qed
  have res: "lr_error res = None" "lr_issues res = map (namespace_issue p ?loc known) ?vis"
    "lr_tombstone_ids res = map ?q (filter (\<lambda>j. status_is_tombstone (status j)) raw)"
    using assms(1) by (simp_all add: res_def p_def load_single_repo_def Let_def namespace_issues_def)
  have "mset (map ?q ?vis) + mset (map ?q (filter (\<lambda>j. status_is_tombstone (status j)) raw)) = mset (map ?q raw)"
    by (induction raw) auto
  then have ids: "mset (result_ids res) = mset (map ?q raw)"
    unfolding result_ids_def res by (simp add: comp_def namespace_issue_def)
  let ?t = "\<lambda>y. if y \<in> issue_id ` set raw \<or> \<not> has_known_prefix y known then qualify_id y p else y"
  have dep: "dep_on (namespace_dep p ?loc known d) = ?t (dep_on d)" for d
    by (simp add: namespace_dep_def Let_def loc)
  have refs: "references (lr_issues res) = (\<lambda>(x, y). (qualify_id x p, ?t y)) ` references ?vis"
  proof (intro set_eqI iffI)
    fix e assume "e \<in> references (lr_issues res)"
    then obtain j d where "j \<in> set ?vis" "Some d \<in> set (dependencies j)"
        "e = (?q j, dep_on (namespace_dep p ?loc known d))"
      unfolding references_def res by (auto simp: namespace_issue_def Some_map_option)
    then show "e \<in> (\<lambda>(x, y). (qualify_id x p, ?t y)) ` references ?vis"
      unfolding dep references_def by (intro image_eqI[of _ _ "(issue_id j, dep_on d)"]) auto
  next
    fix e assume "e \<in> (\<lambda>(x, y). (qualify_id x p, ?t y)) ` references ?vis"
    then obtain j d where j: "j \<in> set ?vis" "Some d \<in> set (dependencies j)" "e = (?q j, ?t (dep_on d))"
      unfolding references_def by auto
    then have "Some (namespace_dep p ?loc known d) \<in> set (dependencies (namespace_issue p ?loc known j))"
      by (auto simp: namespace_issue_def Some_map_option)
    moreover have "e = (issue_id (namespace_issue p ?loc known j), dep_on (namespace_dep p ?loc known d))"
      using j(3) unfolding dep by (simp add: namespace_issue_def)
    moreover have "namespace_issue p ?loc known j \<in> set (lr_issues res)" using j(1) unfolding res(2) set_map by blast
    ultimately show "e \<in> references (lr_issues res)" unfolding references_def by blast
  qed
  have target: "qualify_id y p \<in> set (result_ids res)" if "y \<in> issue_id ` set raw" for y
  proof -
    have "set (result_ids res) = set (map ?q raw)" using ids by (metis set_mset_mset)
    then show ?thesis using that by auto
  qed
  have inside: "(qualify_id x p, qualify_id y p) \<in> references (lr_issues res)"
    if "(x, y) \<in> references ?vis" "y \<in> issue_id ` set raw" for x y
    unfolding refs using that by (intro image_eqI[of _ _ "(x, y)"]) simp_all
  show ?thesis
    using res(1) ids refs target qualify_has_prefix inside by blast
qed

definition demo_raw :: "issue list" where
  "demo_raw = [zero_issue\<lparr>issue_id := ''1'', status := StatusOpen, kind := ''task'',
       dependencies := [Some \<lparr>dep_issue_id = ''1'', dep_on = ''web-2'', dep_kind = DepBlocks, dep_created_at = 0, dep_created_by = []\<rparr>]\<rparr>,
     zero_issue\<lparr>issue_id := ''web-2'', status := StatusTombstone, kind := ''task''\<rparr>]"

lemma namespacing_keeps_references_witness:
  "''api-web-2'' \<in> set (result_ids (load_single_repo demo_workspace (\<lambda>r. Inr demo_raw) (demo_repo ''api'')
     (known_repo_prefixes (wc_repos demo_workspace))))"
proof -
  have "(''1'', ''web-2'') \<in> references (filter (\<lambda>j. \<not> status_is_tombstone (status j)) demo_raw)"
    unfolding references_def demo_raw_def by (simp add: status_is_tombstone_def StatusOpen_def StatusTombstone_def)
  moreover have "''web-2'' \<in> issue_id ` set demo_raw" by (simp add: demo_raw_def)
  ultimately have "qualify_id ''web-2'' (get_prefix (apply_defaults demo_workspace (demo_repo ''api''))) \<in>
      set (result_ids (load_single_repo demo_workspace (\<lambda>r. Inr demo_raw) (demo_repo ''api'')
        (known_repo_prefixes (wc_repos demo_workspace))))"
    using namespacing_keeps_references[of "\<lambda>r. Inr demo_raw" demo_workspace "demo_repo ''api''" demo_raw
        "known_repo_prefixes (wc_repos demo_workspace)"] by blast
  moreover have "qualify_id ''web-2'' (get_prefix (apply_defaults demo_workspace (demo_repo ''api''))) = ''api-web-2''"
    by code_simp
  ultimately show ?thesis by simp
qed

end
