(* ===== verification/Bv_Topk.thy ===== *)
theory Bv_Topk
  imports Go_Base
begin

text \<open>
  The top-k collector of \<open>pkg/util/topk/topk.go\<close> on the binary heap of Go's \<open>container/heap\<close>, whose
  \<open>up\<close> and \<open>down\<close> loops are modelled on lists indexed like the slice. Scores are any linear order: the
  code compares \<open>float64\<close> values, which is a linear order as long as no score is NaN. The optional
  tie-break is \<open>less\<close>; it may be nil (\<open>None\<close>).

  The locale \<open>heap_contract\<close> is what the heap needs of its \<open>Less\<close> method. The method of the code is
  not irreflexive where a tie-break is given (it negates it), so the contract asks for a preorder
  \<open>le\<close> that \<open>lt\<close> decides up to ties, and not for a strict order.
\<close>

section \<open>The heap of the standard library\<close>

definition swap :: "'a list \<Rightarrow> nat \<Rightarrow> nat \<Rightarrow> 'a list" where
  "swap h i j = h[i := h ! j, j := h ! i]"

function heap_up :: "('a \<Rightarrow> 'a \<Rightarrow> bool) \<Rightarrow> 'a list \<Rightarrow> nat \<Rightarrow> 'a list" where
  "heap_up lt h j =
     (let i = (j - 1) div 2 in if i = j \<or> \<not> lt (h ! j) (h ! i) then h else heap_up lt (swap h i j) i)"
  by pat_completeness auto
termination
  by (relation "measure (\<lambda>(lt, h, j). j)") auto

function heap_down :: "('a \<Rightarrow> 'a \<Rightarrow> bool) \<Rightarrow> 'a list \<Rightarrow> nat \<Rightarrow> nat \<Rightarrow> 'a list" where
  "heap_down lt h i n =
     (let j1 = 2 * i + 1 in
      if j1 \<ge> n then h
      else let j2 = j1 + 1; j = (if j2 < n \<and> lt (h ! j2) (h ! j1) then j2 else j1)
           in if \<not> lt (h ! j) (h ! i) then h else heap_down lt (swap h i j) j n)"
  by pat_completeness auto
termination
  by (relation "measure (\<lambda>(lt, h, i, n). n - i)") (auto split: if_splits)

declare heap_up.simps [simp del] heap_down.simps [simp del]

definition heap_push :: "('a \<Rightarrow> 'a \<Rightarrow> bool) \<Rightarrow> 'a \<Rightarrow> 'a list \<Rightarrow> 'a list" where
  "heap_push lt x h = heap_up lt (h @ [x]) (length h)"

definition heap_pop :: "('a \<Rightarrow> 'a \<Rightarrow> bool) \<Rightarrow> 'a list \<Rightarrow> 'a \<times> 'a list" where
  "heap_pop lt h =
     (let n = length h - 1; h = heap_down lt (swap h 0 n) 0 n in (last h, butlast h))"

lemma length_swap [simp]: "length (swap h i j) = length h"
  by (simp add: swap_def)

lemma nth_swap:
  "m < length h \<Longrightarrow> i < length h \<Longrightarrow> j < length h \<Longrightarrow>
     swap h i j ! m = (if m = j then h ! i else if m = i then h ! j else h ! m)"
  by (auto simp: swap_def nth_list_update)

lemma mset_swap_eq [simp]: "i < length h \<Longrightarrow> j < length h \<Longrightarrow> mset (swap h i j) = mset h"
  unfolding swap_def by (simp add: mset_swap)

abbreviation par :: "nat \<Rightarrow> nat" where
  "par i \<equiv> (i - 1) div 2"

lemma par_less: "0 < m \<Longrightarrow> par m < m"
  by auto

lemma par_iff: "0 < m \<Longrightarrow> par m = i \<longleftrightarrow> m = 2 * i + 1 \<or> m = 2 * i + 2"
  by auto

section \<open>Contract and correctness of the heap\<close>

locale heap_contract =
  fixes lt :: "'a \<Rightarrow> 'a \<Rightarrow> bool" and le :: "'a \<Rightarrow> 'a \<Rightarrow> bool"
  assumes lt_le: "lt x y \<Longrightarrow> le x y"
    and not_lt_le: "\<not> lt x y \<Longrightarrow> le y x"
    and le_trans: "le x y \<Longrightarrow> le y z \<Longrightarrow> le x z"
begin

lemma le_refl: "le x x"
  using lt_le not_lt_le by blast

definition heap_on :: "nat \<Rightarrow> 'a list \<Rightarrow> bool" where
  "heap_on n h \<longleftrightarrow> (\<forall>m < n. 0 < m \<longrightarrow> le (h ! par m) (h ! m))"

definition up_inv :: "'a list \<Rightarrow> nat \<Rightarrow> bool" where
  "up_inv h j \<longleftrightarrow> j < length h \<and>
     (\<forall>m < length h. 0 < m \<longrightarrow> m \<noteq> j \<longrightarrow> le (h ! par m) (h ! m)) \<and>
     (0 < j \<longrightarrow> (\<forall>c < length h. 0 < c \<longrightarrow> par c = j \<longrightarrow> le (h ! par j) (h ! c)))"

lemma up_inv_swap:
  assumes inv: "up_inv h j" and j: "0 < j" and less: "lt (h ! j) (h ! par j)"
  shows "up_inv (swap h (par j) j) (par j)"
proof -
  let ?i = "par j" and ?h = "swap h (par j) j"
  have jl: "j < length h" and il: "?i < length h" and ij: "?i < j" using inv j by (auto simp: up_inv_def)
  have first: "\<And>m. m < length h \<Longrightarrow> 0 < m \<Longrightarrow> m \<noteq> j \<Longrightarrow> le (h ! par m) (h ! m)"
    and second: "\<And>c. c < length h \<Longrightarrow> 0 < c \<Longrightarrow> par c = j \<Longrightarrow> le (h ! ?i) (h ! c)"
    using inv j by (auto simp: up_inv_def)
  note nth = nth_swap[OF _ il jl]
  have "le (?h ! par m) (?h ! m)" if m: "m < length h" "0 < m" "m \<noteq> ?i" for m
  proof -
    have pm: "par m < m" "par m < length h" using m by auto
    consider "m = j" | "m \<noteq> j" "par m = j" | "m \<noteq> j" "par m = ?i" | "m \<noteq> j" "par m \<noteq> j" "par m \<noteq> ?i" by blast
    then show ?thesis
    proof cases
      case 1
      then show ?thesis using lt_le[OF less] ij nth_swap[OF il il jl] nth_swap[OF jl il jl] by simp
    next
      case 2
      then show ?thesis using second[OF m(1,2)] m pm ij nth_swap[OF m(1) il jl] nth_swap[OF jl il jl] by simp
    next
      case 3
      then have "le (h ! j) (h ! m)" using first[OF m(1,2)] lt_le[OF less] le_trans by metis
      then show ?thesis using 3 m ij nth_swap[OF m(1) il jl] nth_swap[OF il il jl] by simp
    next
      case 4
      then show ?thesis using first[OF m(1,2)] m pm nth_swap[OF m(1) il jl] nth_swap[OF pm(2) il jl] by simp
    qed
  qed
  moreover have "le (?h ! par ?i) (?h ! c)" if c: "0 < ?i" "c < length h" "0 < c" "par c = ?i" for c
  proof -
    have pi: "par ?i < ?i" by (rule par_less[OF c(1)])
    then have pl: "par ?i < length h" using il by simp
    note at = nth_swap[OF pl il jl] nth_swap[OF c(2) il jl]
    have top: "le (h ! par ?i) (h ! ?i)" using first[of ?i] il c(1) ij by simp
    show ?thesis
    proof (cases "c = j")
      case True
      then show ?thesis using top pi ij at by simp
    next
      case False
      then have "le (h ! ?i) (h ! c)" using first[OF c(2,3)] c(4) by simp
      then have "le (h ! par ?i) (h ! c)" using top le_trans by blast
      moreover have "c \<noteq> ?i" using c by auto
      ultimately show ?thesis using False pi ij c(4) at by simp
    qed
  qed
  ultimately show ?thesis using il by (auto simp: up_inv_def)
qed

lemma heap_up_correct:
  "up_inv h j \<Longrightarrow> heap_on (length h) (heap_up lt h j) \<and> mset (heap_up lt h j) = mset h"
proof (induction j arbitrary: h rule: less_induct)
  case (less j)
  show ?case
  proof (cases "par j = j \<or> \<not> lt (h ! j) (h ! par j)")
    case True
    have "le (h ! par m) (h ! m)" if "m < length h" "0 < m" for m
      using less.prems True that not_lt_le by (cases "m = j") (auto simp: up_inv_def)
    then show ?thesis using True by (simp add: heap_up.simps[of lt h j] heap_on_def Let_def)
  next
    case False
    then have j: "0 < j" "par j < j" by auto
    have lens: "par j < length h" "j < length h" using less.prems j by (auto simp: up_inv_def)
    have "heap_up lt h j = heap_up lt (swap h (par j) j) (par j)"
      using False by (simp add: heap_up.simps[of lt h j] Let_def)
    then show ?thesis
      using less.IH[OF j(2) up_inv_swap[OF less.prems j(1)]] False lens by simp
  qed
qed

lemma heap_push_correct:
  assumes "heap_on (length h) h"
  shows "heap_on (length (heap_push lt x h)) (heap_push lt x h) \<and> mset (heap_push lt x h) = add_mset x (mset h)"
proof -
  have "up_inv (h @ [x]) (length h)"
    using assms by (auto simp: up_inv_def heap_on_def nth_append)
  from heap_up_correct[OF this]
  have "heap_on (length (h @ [x])) (heap_push lt x h)" "mset (heap_push lt x h) = mset (h @ [x])"
    by (simp_all add: heap_push_def)
  then show ?thesis by (metis (no_types, lifting) mset.simps(2) mset_append size_mset union_mset_add_mset_right
      mset.simps(1) add.right_neutral)
qed

lemma heap_root_least:
  "heap_on n h \<Longrightarrow> m < n \<Longrightarrow> le (h ! 0) (h ! m)"
proof (induction m rule: less_induct)
  case (less m)
  show ?case
  proof (cases "m = 0")
    case False
    then have "par m < m" by auto
    then have "le (h ! 0) (h ! par m)" using less by simp
    moreover have "le (h ! par m) (h ! m)" using less.prems False by (simp add: heap_on_def)
    ultimately show ?thesis by (rule le_trans)
  qed (simp add: le_refl)
qed

definition down_inv :: "nat \<Rightarrow> 'a list \<Rightarrow> nat \<Rightarrow> bool" where
  "down_inv n h i \<longleftrightarrow> n \<le> length h \<and>
     (\<forall>m < n. 0 < m \<longrightarrow> par m \<noteq> i \<longrightarrow> le (h ! par m) (h ! m)) \<and>
     (0 < i \<longrightarrow> i < n \<longrightarrow> (\<forall>c < n. 0 < c \<longrightarrow> par c = i \<longrightarrow> le (h ! par i) (h ! c)))"

lemma down_inv_swap:
  assumes inv: "down_inv n h i" and j: "j < n" "0 < j" "par j = i" and less: "lt (h ! j) (h ! i)"
    and least: "\<And>c. c < n \<Longrightarrow> 0 < c \<Longrightarrow> par c = i \<Longrightarrow> le (h ! j) (h ! c)"
  shows "down_inv n (swap h i j) j"
proof -
  let ?h = "swap h i j"
  have nl: "n \<le> length h" using inv by (simp add: down_inv_def)
  have ij: "i < j" using j by auto
  have il: "i < length h" and jl: "j < length h" using ij j(1) nl by auto
  have first: "\<And>m. m < n \<Longrightarrow> 0 < m \<Longrightarrow> par m \<noteq> i \<Longrightarrow> le (h ! par m) (h ! m)"
    and second: "\<And>c. 0 < i \<Longrightarrow> c < n \<Longrightarrow> 0 < c \<Longrightarrow> par c = i \<Longrightarrow> le (h ! par i) (h ! c)"
    using inv ij j(1) by (auto simp: down_inv_def)
  note nth = nth_swap[OF _ il jl]
  have "le (?h ! par m) (?h ! m)" if m: "m < n" "0 < m" "par m \<noteq> j" for m
  proof -
    have pm: "par m < m" "par m < length h" "m < length h" using m nl by auto
    consider "m = j" | "m \<noteq> j" "par m = i" | "m = i" | "m \<noteq> j" "m \<noteq> i" "par m \<noteq> i" by blast
    then show ?thesis
    proof cases
      case 1
      then show ?thesis using lt_le[OF less] j ij pm by (simp add: nth)
    next
      case 2
      then have "m \<noteq> i" using pm by auto
      then show ?thesis using 2 least[OF m(1,2)] pm ij by (simp add: nth)
    next
      case 3
      then have "le (h ! par i) (h ! j)" using second m j by simp
      moreover have "par i \<noteq> i" "par i \<noteq> j" using 3 m ij by auto
      ultimately show ?thesis using 3 pm ij by (simp add: nth)
    next
      case 4
      then show ?thesis using first[OF m(1,2)] m pm by (simp add: nth)
    qed
  qed
  moreover have "le (?h ! par j) (?h ! c)" if c: "c < n" "0 < c" "par c = j" for c
  proof -
    have "le (h ! j) (h ! c)" using first[OF c(1,2)] c(3) ij by simp
    moreover have "c \<noteq> j" "c \<noteq> i" using c ij by auto
    ultimately show ?thesis using c nl j(3) ij by (simp add: nth)
  qed
  ultimately show ?thesis using nl by (auto simp: down_inv_def)
qed

lemma heap_down_correct:
  "down_inv n h i \<Longrightarrow>
     heap_on n (heap_down lt h i n) \<and> mset (heap_down lt h i n) = mset h \<and>
     (\<forall>m < length h. n \<le> m \<longrightarrow> heap_down lt h i n ! m = h ! m)"
proof (induction "n - i" arbitrary: h i rule: less_induct)
  case less
  let ?j1 = "2 * i + 1" and ?j2 = "2 * i + 2"
  define j where "j = (if ?j2 < n \<and> lt (h ! ?j2) (h ! ?j1) then ?j2 else ?j1)"
  have nl: "n \<le> length h" using less.prems by (simp add: down_inv_def)
  have step: "heap_down lt h i n =
      (if ?j1 \<ge> n then h else if \<not> lt (h ! j) (h ! i) then h else heap_down lt (swap h i j) j n)"
    by (simp add: heap_down.simps[of lt h i n] Let_def j_def)
  show ?case
  proof (cases "?j1 \<ge> n")
    case True
    have "par m \<noteq> i" if "m < n" "0 < m" for m using that True par_iff[of m i] by auto
    then show ?thesis using less.prems True step by (auto simp: down_inv_def heap_on_def)
  next
    case False
    have j: "j < n" "0 < j" "par j = i" "i < j" using False by (auto simp: j_def)
    have least: "le (h ! j) (h ! c)" if "c < n" "0 < c" "par c = i" for c
    proof -
      have "c = ?j1 \<or> c = ?j2" using that par_iff[of c i] by auto
      then show ?thesis using that lt_le not_lt_le le_refl by (auto simp: j_def)
    qed
    show ?thesis
    proof (cases "lt (h ! j) (h ! i)")
      case True
      note inv = down_inv_swap[OF less.prems j(1-3) True least]
      have "n - j < n - i" using j by auto
      from less.hyps[OF this inv] have ih: "heap_on n (heap_down lt (swap h i j) j n)"
        "mset (heap_down lt (swap h i j) j n) = mset (swap h i j)"
        "\<forall>m < length h. n \<le> m \<longrightarrow> heap_down lt (swap h i j) j n ! m = swap h i j ! m" by auto
      have "swap h i j ! m = h ! m" if "n \<le> m" "m < length h" for m
        using that j nl by (simp add: nth_swap)
      then show ?thesis using ih True False step j nl by auto
    next
      case nlt: False
      have "le (h ! par m) (h ! m)" if "m < n" "0 < m" for m
        using less.prems that least not_lt_le[OF nlt] le_trans
        by (cases "par m = i") (auto simp: down_inv_def)
      then show ?thesis using nlt False step by (auto simp: heap_on_def)
    qed
  qed
qed

lemma heap_pop_correct:
  assumes "heap_on (length h) h" "h \<noteq> []"
  shows "fst (heap_pop lt h) = h ! 0 \<and> heap_on (length (snd (heap_pop lt h))) (snd (heap_pop lt h)) \<and>
    add_mset (h ! 0) (mset (snd (heap_pop lt h))) = mset h"
proof -
  let ?n = "length h - 1"
  let ?s = "swap h 0 ?n"
  let ?d = "heap_down lt ?s 0 ?n"
  have n: "?n < length h" "0 < length h" using assms(2) by simp_all
  have "down_inv ?n ?s 0"
    using assms(1) n by (auto simp: down_inv_def heap_on_def nth_swap)
  note d = heap_down_correct[OF this]
  have len: "length ?d = length h" using d n by (metis length_swap size_mset)
  have "?d ! ?n = h ! 0" using d n by (simp add: nth_swap)
  moreover have ne: "?d \<noteq> []" using len n by auto
  ultimately have last: "last ?d = h ! 0" "?d \<noteq> []" using len by (simp_all add: last_conv_nth)
  have "heap_on ?n (butlast ?d)"
    using d len unfolding heap_on_def by (simp add: nth_butlast)
  moreover have "mset h = mset ?d" using d n by simp
  then have "mset h = add_mset (h ! 0) (mset (butlast ?d))"
    using last by (metis append_butlast_last_id mset_append mset.simps union_mset_add_mset_right add.right_neutral)
  ultimately show ?thesis using last len by (simp add: heap_pop_def Let_def)
qed

end

section \<open>The collector\<close>

record ('a, 's) scored =
  item :: 'a
  score :: 's

record ('a, 's) collector =
  tk_k :: int
  tk_items :: "('a, 's) scored list"
  tk_less :: "('a \<Rightarrow> 'a \<Rightarrow> bool) option"

definition heap_less :: "('a \<Rightarrow> 'a \<Rightarrow> bool) option \<Rightarrow> ('a, 's::linorder) scored \<Rightarrow> ('a, 's) scored \<Rightarrow> bool" where
  "heap_less tie a b =
     (if score a \<noteq> score b then score a < score b
      else case tie of Some l \<Rightarrow> \<not> l (item a) (item b) | None \<Rightarrow> False)"

definition result_less :: "('a \<Rightarrow> 'a \<Rightarrow> bool) option \<Rightarrow> ('a, 's::linorder) scored \<Rightarrow> ('a, 's) scored \<Rightarrow> bool" where
  "result_less tie a b =
     (if score a \<noteq> score b then score a > score b
      else case tie of Some l \<Rightarrow> l (item a) (item b) | None \<Rightarrow> False)"

definition new_collector :: "int \<Rightarrow> ('a \<Rightarrow> 'a \<Rightarrow> bool) option \<Rightarrow> ('a, 's) collector" where
  "new_collector k tie = \<lparr>tk_k = (if k < 0 then 0 else k), tk_items = [], tk_less = tie\<rparr>"

definition collector_add :: "'a \<Rightarrow> 's::linorder \<Rightarrow> ('a, 's) collector \<Rightarrow> bool \<times> ('a, 's) collector" where
  "collector_add x s c =
     (let entry = \<lparr>item = x, score = s\<rparr>; h = tk_items c; lt = heap_less (tk_less c);
          replace = c\<lparr>tk_items := heap_push lt entry (snd (heap_pop lt h))\<rparr>
      in if tk_k c \<le> 0 then (False, c)
         else if int (length h) < tk_k c then (True, c\<lparr>tk_items := heap_push lt entry h\<rparr>)
         else if s > score (h ! 0) then (True, replace)
         else if s = score (h ! 0) \<and> (case tk_less c of Some l \<Rightarrow> l x (item (h ! 0)) | None \<Rightarrow> False)
         then (True, replace)
         else (False, c))"

definition results_with_scores :: "('a, 's::linorder) collector \<Rightarrow> ('a, 's) scored list" where
  "results_with_scores c =
     (if length (tk_items c) = 0 then [] else sort_by (result_less (tk_less c)) (tk_items c))"

definition collector_results :: "('a, 's::linorder) collector \<Rightarrow> 'a list" where
  "collector_results c = map item (results_with_scores c)"

definition collector_reset :: "('a, 's) collector \<Rightarrow> ('a, 's) collector" where
  "collector_reset c = c\<lparr>tk_items := []\<rparr>"

definition collect :: "('a, 's::linorder) scored list \<Rightarrow> ('a, 's) collector \<Rightarrow> ('a, 's) collector" where
  "collect xs c = fold (\<lambda>e c. snd (collector_add (item e) (score e) c)) xs c"

section \<open>The two orders of the collector\<close>

definition tie_ok :: "('a \<Rightarrow> 'a \<Rightarrow> bool) option \<Rightarrow> bool" where
  "tie_ok tie \<longleftrightarrow> (case tie of Some l \<Rightarrow> less_contract l | None \<Rightarrow> True)"

abbreviation worse :: "('a \<Rightarrow> 'a \<Rightarrow> bool) option \<Rightarrow> ('a, 's::linorder) scored \<Rightarrow> ('a, 's) scored \<Rightarrow> bool" where
  "worse tie a b \<equiv> \<not> result_less tie a b"

lemma tie_laws:
  assumes "tie_ok (Some l)"
  shows "\<not> l x x" "l x y \<Longrightarrow> \<not> l y x" "l x y \<Longrightarrow> l y z \<Longrightarrow> l x z" "l x z \<Longrightarrow> l x y \<or> l y z"
proof -
  have l: "less_contract l" using assms by (simp add: tie_ok_def)
  show "\<not> l x x" "l x y \<Longrightarrow> \<not> l y x" "l x y \<Longrightarrow> l y z \<Longrightarrow> l x z" "l x z \<Longrightarrow> l x y \<or> l y z"
    using less_contract.less_irrefl[OF l] less_contract.less_asym[OF l] less_contract.less_trans[OF l]
      less_contract.less_cotrans[OF l] by blast+
qed

lemma result_contract:
  assumes ok: "tie_ok tie"
  shows "less_contract (result_less tie)"
proof (cases tie)
  case None
  then show ?thesis by unfold_locales (auto simp: result_less_def split: if_splits)
next
  case (Some l)
  note laws = tie_laws[OF ok[unfolded Some]]
  show ?thesis
  proof (unfold_locales, goal_cases)
    case (1 x)
    then show ?case using laws(1) Some by (simp add: result_less_def)
  next
    case (2 x y z)
    then show ?case
      unfolding result_less_def Some option.case
      by (cases "score x = score y"; cases "score y = score z") (auto intro: laws(3)[of "item x" "item y" "item z"])
  next
    case (3 x z y)
    then show ?case
      using laws(4)[of "item x" "item z" "item y"] unfolding result_less_def Some option.case
      by (cases "score x = score y"; cases "score y = score z"; cases "score x = score z") auto
  qed
qed

lemma heap_contract_holds:
  assumes ok: "tie_ok tie"
  shows "heap_contract (heap_less tie) (worse tie)"
proof -
  note laws = result_contract[OF ok, THEN less_contract.less_asym] result_contract[OF ok, THEN less_contract.less_cotrans]
  have sub: "worse tie x y" if "heap_less tie x y" for x y
    using that by (auto simp: heap_less_def result_less_def split: if_splits option.splits)
  have tot: "worse tie y x" if "\<not> heap_less tie x y" for x y
    using that laws(1) by (fastforce simp: heap_less_def result_less_def split: if_splits option.splits)
  show ?thesis by unfold_locales (use sub tot laws(2) in blast)+
qed

text \<open>The two uses: without a tie-break, and with the order of issue ids that the search index passes.\<close>

interpretation plain_heap: heap_contract "heap_less None" "worse None"
  by (rule heap_contract_holds) (simp add: tie_ok_def)

lemma id_tie_ok: "tie_ok (Some ((<) :: string \<Rightarrow> string \<Rightarrow> bool))"
  unfolding tie_ok_def option.case by unfold_locales auto

interpretation id_heap: heap_contract "heap_less (Some ((<) :: string \<Rightarrow> string \<Rightarrow> bool))" "worse (Some (<))"
  by (rule heap_contract_holds[OF id_tie_ok])

section \<open>What the collector keeps\<close>

text \<open>
  After adding the entries \<open>xs\<close> the collector holds a heap of \<open>min k n\<close> of them, and no entry that it
  left out comes before one that it kept.
\<close>

definition collected :: "('a, 's::linorder) scored list \<Rightarrow> ('a, 's) collector \<Rightarrow> bool" where
  "collected xs c \<longleftrightarrow>
     int (length (tk_items c)) = min (tk_k c) (int (length xs)) \<and> 0 \<le> tk_k c \<and>
     heap_contract.heap_on (worse (tk_less c)) (length (tk_items c)) (tk_items c) \<and>
     (\<exists>rs. mset xs = mset (tk_items c) + mset rs \<and>
        (\<forall>r \<in> set rs. \<forall>x \<in> set (tk_items c). worse (tk_less c) r x))"

lemma collected_new: "tie_ok tie \<Longrightarrow> collected [] (new_collector k tie)"
  by (simp add: collected_def new_collector_def heap_contract.heap_on_def[OF heap_contract_holds])

lemma collected_add:
  assumes ok: "tie_ok (tk_less c)" and inv: "collected xs c"
  shows "collected (xs @ [e]) (snd (collector_add (item e) (score e) c))"
proof -
  let ?lt = "heap_less (tk_less c)" and ?w = "worse (tk_less c)" and ?h = "tk_items c" and ?k = "tk_k c"
  note hc = heap_contract_holds[OF ok] and rc = result_contract[OF ok]
  obtain rs where rs: "mset xs = mset ?h + mset rs" "\<forall>r \<in> set rs. \<forall>x \<in> set ?h. ?w r x"
    using inv by (auto simp: collected_def)
  have len: "int (length ?h) = min ?k (int (length xs))" and k: "0 \<le> ?k"
    and heap: "heap_contract.heap_on ?w (length ?h) ?h"
    using inv by (auto simp: collected_def)
  have e: "\<lparr>item = item e, score = score e\<rparr> = e" by simp
  have size: "length xs = length ?h + length rs" using arg_cong[OF rs(1), of size] by simp
  have trans: "?w x y \<Longrightarrow> ?w y z \<Longrightarrow> ?w x z" for x y z using less_contract.less_cotrans[OF rc] by blast
  have keep: "collected (xs @ [e]) c" if "int (length ?h) = ?k" "\<forall>x \<in> set ?h. ?w e x"
    using that rs len k heap unfolding collected_def
    by (intro conjI exI[of _ "e # rs"]) auto
  show ?thesis
  proof (cases "?k \<le> 0 \<or> int (length ?h) < ?k")
    case True
    show ?thesis
    proof (cases "?k \<le> 0")
      case True
      then have "?h = []" "int (length ?h) = ?k" using len k by auto
      then show ?thesis using keep True by (simp add: collector_add_def Let_def)
    next
      case False
      with \<open>?k \<le> 0 \<or> int (length ?h) < ?k\<close> have room: "int (length ?h) < ?k" by simp
      then have "length rs = 0" using len[unfolded min_def] size by presburger
      then have "rs = []" by simp
      note push = heap_contract.heap_push_correct[OF hc heap, of e]
      have "length (heap_push ?lt e ?h) = Suc (length ?h)"
        using push by (metis size_add_mset size_mset)
      moreover have "snd (collector_add (item e) (score e) c) = c\<lparr>tk_items := heap_push ?lt e ?h\<rparr>"
        using room False by (simp add: collector_add_def Let_def e)
      ultimately show ?thesis
        using push room k size rs(1) \<open>rs = []\<close> unfolding collected_def
        by (intro conjI exI[of _ "[]"]) simp_all
    qed
  next
    case False
    then have full: "\<not> ?k \<le> 0" "int (length ?h) = ?k" using len[unfolded min_def] by presburger+
    then have ne: "?h \<noteq> []" by auto
    let ?r = "?h ! 0" and ?q = "snd (heap_pop ?lt ?h)"
    note pop = heap_contract.heap_pop_correct[OF hc heap ne]
    have root: "\<forall>x \<in> set ?h. ?w ?r x"
      using heap_contract.heap_root_least[OF hc heap] by (auto simp: in_set_conv_nth)
    show ?thesis
    proof (cases "result_less (tk_less c) e ?r")
      case True
      have "score e > score ?r \<or> score e = score ?r \<and>
          (case tk_less c of Some l \<Rightarrow> l (item e) (item ?r) | None \<Rightarrow> False)"
        using True by (auto simp: result_less_def split: if_splits)
      then have step: "snd (collector_add (item e) (score e) c) = c\<lparr>tk_items := heap_push ?lt e ?q\<rparr>"
        using full by (auto simp: collector_add_def Let_def e)
      note push = heap_contract.heap_push_correct[OF hc, of ?q e]
      have q: "add_mset ?r (mset ?q) = mset ?h" using pop by simp
      have p: "mset (heap_push ?lt e ?q) = add_mset e (mset ?q)" using push pop by simp
      have lens: "length (heap_push ?lt e ?q) = length ?h"
        using arg_cong[OF p, of size] arg_cong[OF q, of size] by simp
      have sets: "set ?q \<subseteq> set ?h" "set (heap_push ?lt e ?q) = insert e (set ?q)"
        using q p by (metis insert_subset order_refl set_mset_add_mset_insert set_mset_mset)
          (metis p set_mset_add_mset_insert set_mset_mset)
      have re: "?w ?r e" using True less_contract.less_asym[OF rc] by blast
      have "mset (xs @ [e]) = mset (heap_push ?lt e ?q) + mset (?r # rs)"
        using rs(1) p by (simp flip: q)
      moreover have "?w r x" if "r \<in> set (?r # rs)" "x \<in> set (heap_push ?lt e ?q)" for r x
      proof -
        have "?w r ?r" using that(1) rs(2) root nth_mem[of 0 ?h] ne by auto
        moreover have "?w ?r x" using that(2) sets root re by auto
        ultimately show ?thesis by (rule trans)
      qed
      moreover have "?k = min ?k (1 + int (length xs))" using full(2) size by simp
      ultimately show ?thesis
        unfolding step collected_def using push pop lens full by (auto simp del: mset_append mset.simps)
    next
      case False
      then have "\<forall>x \<in> set ?h. ?w e x" using root trans by blast
      moreover have "snd (collector_add (item e) (score e) c) = c"
        using False full by (auto simp: collector_add_def Let_def e result_less_def split: if_splits)
      ultimately show ?thesis using keep full by simp
    qed
  qed
qed

lemma tk_k_add [simp]: "tk_k (snd (collector_add x s c)) = tk_k c" "tk_less (snd (collector_add x s c)) = tk_less c"
  by (simp_all add: collector_add_def Let_def)

lemma collected_all:
  "tie_ok (tk_less c) \<Longrightarrow> collected ys c \<Longrightarrow>
     collected (ys @ xs) (collect xs c) \<and> tk_k (collect xs c) = tk_k c \<and> tk_less (collect xs c) = tk_less c"
proof (induction xs arbitrary: ys c)
  case (Cons e xs)
  from Cons.IH[OF _ collected_add[OF Cons.prems]] Cons.prems(1)
  show ?case by (simp add: collect_def)
qed (simp add: collect_def)

lemma results_eq: "results_with_scores c = sort_by (result_less (tk_less c)) (tk_items c)"
  by (simp add: results_with_scores_def)

lemma collect_new:
  assumes "tie_ok tie"
  shows "collected xs (collect xs (new_collector k tie))"
    and "tk_less (collect xs (new_collector k tie)) = tie"
    and "tk_k (collect xs (new_collector k tie)) = (if k < 0 then 0 else k)"
proof -
  let ?c = "new_collector k tie"
  have new: "tk_less ?c = tie" "tk_k ?c = (if k < 0 then 0 else k)" by (simp_all add: new_collector_def)
  have "tie_ok (tk_less ?c)" unfolding new(1) by (rule assms)
  from collected_all[OF this collected_new[OF assms], of xs]
  show "collected xs (collect xs ?c)" "tk_less (collect xs ?c) = tie" "tk_k (collect xs ?c) = (if k < 0 then 0 else k)"
    unfolding new by simp_all
qed

lemma collect_reset:
  assumes "tie_ok tie"
  shows "collect ys (collector_reset (collect xs (new_collector k tie))) = collect ys (new_collector k tie)"
proof -
  let ?c = "new_collector k tie"
  have "collector_reset (collect xs ?c) = ?c"
    using collect_new[OF assms, of xs k] by (simp add: collector_reset_def new_collector_def[of k tie])
  then show ?thesis by simp
qed

lemma results_are_best:
  fixes xs :: "('a, 's::linorder) scored list" and k :: int
  assumes ok: "tie_ok tie"
  defines "c \<equiv> collect xs (new_collector k tie)"
  shows "length (results_with_scores c) = min (nat k) (length xs)"
    and "sorted_wrt (\<lambda>a b. worse tie b a) (results_with_scores c)"
    and "\<exists>rs. mset xs = mset (results_with_scores c @ rs) \<and> (\<forall>r \<in> set rs. \<forall>x \<in> set (results_with_scores c). worse tie r x)"
proof -
  have c: "collected xs c" "tk_less c = tie" "tk_k c = (if k < 0 then 0 else k)"
    unfolding c_def by (rule collect_new[OF ok])+
  show "length (results_with_scores c) = min (nat k) (length xs)"
    using c unfolding results_eq collected_def by (simp add: min_def split: if_splits) linarith+
  show "sorted_wrt (\<lambda>a b. worse tie b a) (results_with_scores c)"
    unfolding results_eq c(2) by (rule less_contract.sort_by_sorted[OF result_contract[OF ok]])
  show "\<exists>rs. mset xs = mset (results_with_scores c @ rs) \<and> (\<forall>r \<in> set rs. \<forall>x \<in> set (results_with_scores c). worse tie r x)"
    using c(1,2) unfolding results_eq collected_def by auto
qed

lemma take_best:
  assumes lt: "less_contract lt" and m: "mset xs = mset (bs @ rs)" and n: "length bs = min k (length xs)"
    and sorted: "sorted_wrt (\<lambda>a b. \<not> lt b a) bs" and rest: "\<forall>r \<in> set rs. \<forall>x \<in> set bs. \<not> lt r x"
    and tot: "\<And>x y. x \<in> set xs \<Longrightarrow> y \<in> set xs \<Longrightarrow> \<not> lt x y \<Longrightarrow> \<not> lt y x \<Longrightarrow> x = y"
  shows "bs = take k (sort_by lt xs)"
proof -
  have "sort_by lt xs = bs @ sort_by lt rs"
    using m sorted rest tot less_contract.sort_by_sorted[OF lt]
    by (intro less_contract.sort_by_unique[OF lt]) (auto simp: sorted_wrt_append)
  moreover have "length xs = length bs + length rs" using arg_cong[OF m, of size] by simp
  ultimately show ?thesis using n by (cases "k \<le> length xs") auto
qed

section \<open>Property\<close>

text \<open>C36: Whatever entries are added in whatever order, the collector returns the top k of them: as many
  as \<open>min k n\<close> (none for a negative k), best first, and none that was left out comes before one that
  was returned. Where the order separates the entries this is exactly the first k elements of the
  sorted input, so it does not depend on the order of the additions. A collector that was reset behaves
  like a new one.
\<close>
theorem collector_returns_top_k:
  fixes xs :: "('a, 's::linorder) scored list" and k :: int
  assumes "tie_ok tie"
  defines "c \<equiv> collect xs (new_collector k tie)"
  shows "length (results_with_scores c) = min (nat k) (length xs) \<and>
    sorted_wrt (\<lambda>a b. \<not> result_less tie b a) (results_with_scores c) \<and>
    (\<exists>rs. mset xs = mset (results_with_scores c @ rs) \<and>
       (\<forall>r \<in> set rs. \<forall>x \<in> set (results_with_scores c). \<not> result_less tie r x)) \<and>
    ((\<forall>x \<in> set xs. \<forall>y \<in> set xs. x \<noteq> y \<longrightarrow> result_less tie x y \<or> result_less tie y x) \<longrightarrow>
       results_with_scores c = take (nat k) (sort_by (result_less tie) xs)) \<and>
    collector_results c = map item (results_with_scores c) \<and>
    (\<forall>ys. results_with_scores (collect ys (collector_reset c)) =
       results_with_scores (collect ys (new_collector k tie)))"
proof -
  note best = results_are_best[OF assms(1), of xs k, folded c_def]
  obtain rs where rs: "mset xs = mset (results_with_scores c @ rs)"
    "\<forall>r \<in> set rs. \<forall>x \<in> set (results_with_scores c). worse tie r x" using best(3) by blast
  have "results_with_scores c = take (nat k) (sort_by (result_less tie) xs)"
    if "\<forall>x \<in> set xs. \<forall>y \<in> set xs. x \<noteq> y \<longrightarrow> result_less tie x y \<or> result_less tie y x"
    by (rule take_best[OF result_contract[OF assms(1)] rs(1) best(1,2) rs(2)]) (use that in blast)
  then show ?thesis
    using best unfolding c_def by (simp add: collect_reset[OF assms(1)] collector_results_def)
qed

lemma collector_returns_top_k_witness:
  "results_with_scores (collect [\<lparr>item = ''c'', score = 1\<rparr>, \<lparr>item = ''b'', score = 2\<rparr>, \<lparr>item = ''a'', score = (2::int)\<rparr>]
       (new_collector 2 (Some (<)))) = [\<lparr>item = ''a'', score = 2\<rparr>, \<lparr>item = ''b'', score = 2\<rparr>]"
proof -
  let ?xs = "[\<lparr>item = ''c'', score = 1\<rparr>, \<lparr>item = ''b'', score = 2\<rparr>, \<lparr>item = ''a'', score = (2::int)\<rparr>]"
  have "\<forall>x \<in> set ?xs. \<forall>y \<in> set ?xs. x \<noteq> y \<longrightarrow> result_less (Some (<)) x y \<or> result_less (Some (<)) y x"
    by (simp add: result_less_def)
  then have "results_with_scores (collect ?xs (new_collector 2 (Some (<)))) =
      take (nat 2) (sort_by (result_less (Some (<))) ?xs)"
    using collector_returns_top_k[OF id_tie_ok, of ?xs 2] by blast
  also have "\<dots> = [\<lparr>item = ''a'', score = 2\<rparr>, \<lparr>item = ''b'', score = 2\<rparr>]"
    by (simp add: result_less_def)
  finally show ?thesis .
qed

end
