(* ===== verification/Bv_Diff.thy ===== *)
theory Bv_Diff
  imports Bv_Plan
begin

text \<open>
  Snapshot comparison, \<open>pkg/analysis/diff.go\<close>. A snapshot holds its issues, its counts and, of the graph
  statistics, the list of reported cycles (\<open>None\<close> for nil statistics); the averages of the floating-point
  metrics are left out of the deltas. The four \<open>range\<close> loops of the comparison visit their maps in the
  orders that the arguments \<open>o_to\<close>, \<open>o_from\<close>, \<open>c_to\<close> and \<open>c_from\<close> give.
\<close>

section \<open>Snapshots\<close>

record snapshot =
  snap_timestamp :: time
  snap_revision :: string
  snap_issues :: "issue list"
  snap_cycles :: "string list list option"
  total_count :: int
  open_count :: int
  closed_count :: int
  blocked_count :: int

definition count_status :: "issue \<Rightarrow> snapshot \<Rightarrow> snapshot" where
  "count_status i s =
     (if status i = StatusClosed \<or> status i = StatusTombstone then s\<lparr>closed_count := closed_count s + 1\<rparr>
      else if status i = StatusBlocked
      then s\<lparr>blocked_count := blocked_count s + 1, open_count := open_count s + 1\<rparr>
      else s\<lparr>open_count := open_count s + 1\<rparr>)"

definition compute_counts :: "snapshot \<Rightarrow> snapshot" where
  "compute_counts s = fold count_status (snap_issues s) (s\<lparr>total_count := int (length (snap_issues s))\<rparr>)"

definition new_snapshot_at :: "issue list \<Rightarrow> string list list option \<Rightarrow> time \<Rightarrow> string \<Rightarrow> snapshot" where
  "new_snapshot_at issues stats timestamp revision =
     compute_counts \<lparr>snap_timestamp = timestamp, snap_revision = revision, snap_issues = issues,
       snap_cycles = stats, total_count = 0, open_count = 0, closed_count = 0, blocked_count = 0\<rparr>"

section \<open>Changed fields\<close>

record field_change =
  fc_field :: string
  fc_old :: string
  fc_new :: string

definition priority_string :: "int \<Rightarrow> string" where
  "priority_string p =
     (if 0 \<le> p \<and> p \<le> 9 then ''P'' @ [char_of (48 + nat p)] else ''P'' @ show_int p)"

definition add_dep :: "dependency option \<Rightarrow> (string, bool) gomap \<Rightarrow> (string, bool) gomap" where
  "add_dep d s =
     (case d of None \<Rightarrow> s
      | Some d \<Rightarrow> if dep_on d = [] then s else mput (dep_on d @ '':'' @ dep_kind d) True s)"

definition dependency_set :: "dependency option list \<Rightarrow> (string, bool) gomap" where
  "dependency_set deps = fold add_dep deps []"

definition string_set :: "string list \<Rightarrow> (string, bool) gomap" where
  "string_set strs = fold (\<lambda>s m. mput s True m) strs []"

definition equal_string_set :: "(string, bool) gomap \<Rightarrow> (string, bool) gomap \<Rightarrow> bool" where
  "equal_string_set a b \<longleftrightarrow> length a = length b \<and> list_all (\<lambda>k. mget_or False b k) (mkeys a)"

definition format_deps :: "(string, bool) gomap \<Rightarrow> string" where
  "format_deps deps = (if length deps = 0 then ''(none)'' else join '', '' (sort (mkeys deps)))"

definition format_labels :: "string list \<Rightarrow> string" where
  "format_labels ls = (if length ls = 0 then ''(none)'' else join '', '' (sort ls))"

definition change_if :: "bool \<Rightarrow> string \<Rightarrow> string \<Rightarrow> string \<Rightarrow> field_change list" where
  "change_if differs field old new =
     (if differs then [\<lparr>fc_field = field, fc_old = old, fc_new = new\<rparr>] else [])"

definition detect_changes :: "issue \<Rightarrow> issue \<Rightarrow> field_change list" where
  "detect_changes f t =
     (let fd = dependency_set (dependencies f); td = dependency_set (dependencies t);
          fl = string_set (labels f); tl = string_set (labels t) in
      change_if (title f \<noteq> title t) ''title'' (title f) (title t) @
      change_if (status f \<noteq> status t) ''status'' (status f) (status t) @
      change_if (priority f \<noteq> priority t) ''priority'' (priority_string (priority f)) (priority_string (priority t)) @
      change_if (assignee f \<noteq> assignee t) ''assignee'' (assignee f) (assignee t) @
      change_if (kind f \<noteq> kind t) ''type'' (kind f) (kind t) @
      change_if (description f \<noteq> description t) ''description'' ''(modified)'' ''(modified)'' @
      change_if (design f \<noteq> design t) ''design'' ''(modified)'' ''(modified)'' @
      change_if (acceptance_criteria f \<noteq> acceptance_criteria t) ''acceptance_criteria'' ''(modified)'' ''(modified)'' @
      change_if (issue_notes f \<noteq> issue_notes t) ''notes'' ''(modified)'' ''(modified)'' @
      change_if (\<not> equal_string_set fd td) ''dependencies'' (format_deps fd) (format_deps td) @
      change_if (\<not> equal_string_set fl tl) ''labels'' (format_labels (labels f)) (format_labels (labels t)))"

section \<open>Cycles\<close>

definition min_index :: "string list \<Rightarrow> nat" where
  "min_index cycle =
     fold (\<lambda>(i, x) m. if x < cycle ! m then i else m) (enumerate 0 cycle) 0"

definition normalize_cycle :: "string list \<Rightarrow> string" where
  "normalize_cycle cycle =
     (if length cycle = 0 then []
      else let m = min_index cycle;
               rotated = map (\<lambda>i. cycle ! ((m + i) mod length cycle)) [0..<length cycle]
           in join ''->'' rotated)"

definition cycle_key_less :: "string list \<Rightarrow> string list \<Rightarrow> bool" where
  "cycle_key_less a b \<longleftrightarrow> normalize_cycle a < normalize_cycle b"

definition cycle_set :: "string list list option \<Rightarrow> (string, string list) gomap" where
  "cycle_set cs =
     (case cs of None \<Rightarrow> [] | Some cs \<Rightarrow> fold (\<lambda>c m. mput (normalize_cycle c) c m) cs [])"

definition cycles_missing ::
  "(string, string list) gomap \<Rightarrow> (string, string list) gomap \<Rightarrow> string list \<Rightarrow> string list list" where
  "cycles_missing m other ks =
     fold (\<lambda>k acc. case mget m k of Some c \<Rightarrow> if mget other k = None then acc @ [c] else acc | None \<Rightarrow> acc) ks []"

definition compare_cycles ::
  "string list list option \<Rightarrow> string list list option \<Rightarrow> string list \<Rightarrow> string list \<Rightarrow>
     string list list \<times> string list list" where
  "compare_cycles f t c_to c_from =
     (let fs = cycle_set f; ts = cycle_set t
      in (sort_by cycle_key_less (cycles_missing ts fs c_to), sort_by cycle_key_less (cycles_missing fs ts c_from)))"

section \<open>The comparison\<close>

record modified_issue =
  mi_id :: string
  mi_title :: string
  mi_changes :: "field_change list"
  mi_old :: issue
  mi_new :: issue

record metric_deltas =
  d_total :: int
  d_open :: int
  d_closed :: int
  d_blocked :: int
  d_edges :: int
  d_cycles :: int
  d_components :: int

record diff_summary =
  total_changes :: int
  issues_added :: int
  issues_closed :: int
  issues_removed :: int
  issues_reopened :: int
  issues_modified :: int
  cycles_introduced :: int
  cycles_resolved :: int
  net_issue_change :: int
  health_trend :: string

record snapshot_diff =
  df_from_timestamp :: time
  df_to_timestamp :: time
  df_from_revision :: string
  df_to_revision :: string
  df_new :: "issue list"
  df_closed :: "issue list"
  df_removed :: "issue list"
  df_reopened :: "issue list"
  df_modified :: "modified_issue list"
  df_new_cycles :: "string list list"
  df_resolved_cycles :: "string list list"
  df_deltas :: metric_deltas
  df_summary :: diff_summary

definition zero_deltas :: metric_deltas where
  "zero_deltas = \<lparr>d_total = 0, d_open = 0, d_closed = 0, d_blocked = 0, d_edges = 0, d_cycles = 0, d_components = 0\<rparr>"

definition zero_summary :: diff_summary where
  "zero_summary = \<lparr>total_changes = 0, issues_added = 0, issues_closed = 0, issues_removed = 0, issues_reopened = 0,
     issues_modified = 0, cycles_introduced = 0, cycles_resolved = 0, net_issue_change = 0, health_trend = []\<rparr>"

definition calculate_metric_deltas :: "snapshot \<Rightarrow> snapshot \<Rightarrow> metric_deltas" where
  "calculate_metric_deltas f t =
     zero_deltas\<lparr>d_total := total_count t - total_count f, d_open := open_count t - open_count f,
       d_closed := closed_count t - closed_count f, d_blocked := blocked_count t - blocked_count f,
       d_cycles := (case (snap_cycles f, snap_cycles t) of
           (Some fc, Some tc) \<Rightarrow> int (length tc) - int (length fc) | _ \<Rightarrow> 0)\<rparr>"

definition trend :: "int \<Rightarrow> string" where
  "trend score = (if score > 1 then ''improving'' else if score < -1 then ''degrading'' else ''stable'')"

definition calculate_summary :: "snapshot_diff \<Rightarrow> diff_summary" where
  "calculate_summary d =
     (let added = int (length (df_new d)); closed = int (length (df_closed d)); removed = int (length (df_removed d));
          reopened = int (length (df_reopened d)); modified = int (length (df_modified d));
          introduced = int (length (df_new_cycles d)); resolved = int (length (df_resolved_cycles d));
          score = resolved * 2 - introduced * 3 + closed - reopened;
          score = (if d_blocked (df_deltas d) < 0 then score + 2
                   else if d_blocked (df_deltas d) > 0 then score - 1 else score)
      in \<lparr>total_changes = added + closed + removed + reopened + modified, issues_added = added,
          issues_closed = closed, issues_removed = removed, issues_reopened = reopened, issues_modified = modified,
          cycles_introduced = introduced, cycles_resolved = resolved, net_issue_change = added - removed,
          health_trend = trend score\<rparr>)"

definition modified_less :: "modified_issue \<Rightarrow> modified_issue \<Rightarrow> bool" where
  "modified_less a b \<longleftrightarrow> mi_id a < mi_id b"

definition record_modified ::
  "string \<Rightarrow> issue \<Rightarrow> issue \<Rightarrow> field_change list \<Rightarrow> snapshot_diff \<Rightarrow> snapshot_diff" where
  "record_modified k f t changes d =
     (if length changes > 0
      then d\<lparr>df_modified := df_modified d @
               [\<lparr>mi_id = k, mi_title = title t, mi_changes = changes, mi_old = f, mi_new = t\<rparr>]\<rparr>
      else d)"

definition compare_issue :: "(string, issue) gomap \<Rightarrow> (string, issue) gomap \<Rightarrow> string \<Rightarrow> snapshot_diff \<Rightarrow> snapshot_diff" where
  "compare_issue fm tm k d =
     (case mget tm k of None \<Rightarrow> d | Some t \<Rightarrow>
      case mget fm k of None \<Rightarrow> d\<lparr>df_new := df_new d @ [t]\<rparr> | Some f \<Rightarrow>
      let changes = detect_changes f t;
          others = filter (\<lambda>c. fc_field c \<noteq> ''status'') changes in
      if \<not> is_closed_like_status (status f) \<and> is_closed_like_status (status t)
      then record_modified k f t others (d\<lparr>df_closed := df_closed d @ [t]\<rparr>)
      else if is_closed_like_status (status f) \<and> \<not> is_closed_like_status (status t)
      then record_modified k f t others (d\<lparr>df_reopened := df_reopened d @ [t]\<rparr>)
      else record_modified k f t changes d)"

definition removed_issue :: "(string, issue) gomap \<Rightarrow> (string, issue) gomap \<Rightarrow> string \<Rightarrow> snapshot_diff \<Rightarrow> snapshot_diff" where
  "removed_issue fm tm k d =
     (case mget fm k of None \<Rightarrow> d
      | Some f \<Rightarrow> if mget tm k = None then d\<lparr>df_removed := df_removed d @ [f]\<rparr> else d)"

definition start_diff :: "snapshot \<Rightarrow> snapshot \<Rightarrow> snapshot_diff" where
  "start_diff f t =
     \<lparr>df_from_timestamp = snap_timestamp f, df_to_timestamp = snap_timestamp t,
      df_from_revision = snap_revision f, df_to_revision = snap_revision t, df_new = [], df_closed = [],
      df_removed = [], df_reopened = [], df_modified = [], df_new_cycles = [], df_resolved_cycles = [],
      df_deltas = zero_deltas, df_summary = zero_summary\<rparr>"

definition compare_snapshots ::
  "string list \<Rightarrow> string list \<Rightarrow> string list \<Rightarrow> string list \<Rightarrow> snapshot \<Rightarrow> snapshot \<Rightarrow> snapshot_diff" where
  "compare_snapshots o_to o_from c_to c_from f t =
     (let fm = issue_map_of (snap_issues f); tm = issue_map_of (snap_issues t);
          d = fold (compare_issue fm tm) o_to (start_diff f t);
          d = fold (removed_issue fm tm) o_from d;
          (new, resolved) = compare_cycles (snap_cycles f) (snap_cycles t) c_to c_from;
          d = d\<lparr>df_new_cycles := new, df_resolved_cycles := resolved\<rparr>;
          d = d\<lparr>df_deltas := calculate_metric_deltas f t\<rparr>;
          d = d\<lparr>df_summary := calculate_summary d\<rparr>
      in d\<lparr>df_new := sort_by id_less (df_new d), df_closed := sort_by id_less (df_closed d),
           df_removed := sort_by id_less (df_removed d), df_reopened := sort_by id_less (df_reopened d),
           df_modified := sort_by modified_less (df_modified d)\<rparr>)"

definition diff_is_empty :: "snapshot_diff \<Rightarrow> bool" where
  "diff_is_empty d \<longleftrightarrow> total_changes (df_summary d) = 0 \<and> cycles_introduced (df_summary d) = 0 \<and>
     cycles_resolved (df_summary d) = 0"

definition has_significant_changes :: "snapshot_diff \<Rightarrow> bool" where
  "has_significant_changes d \<longleftrightarrow> length (df_new d) > 0 \<or> length (df_closed d) > 0 \<or> length (df_reopened d) > 0 \<or>
     length (df_new_cycles d) > 0 \<or> length (df_resolved_cycles d) > 0 \<or> health_trend (df_summary d) = ''degrading''"

end
