(* ===== verification/Bv_Diff_Props.thy ===== *)
theory Bv_Diff_Props
  imports Bv_Diff
begin

text \<open>
  What the comparison of snapshots reports. Every list of the result is the list of one partial function
  over the ids, sorted (\<open>sort_by_key\<close>), so the order in which Go visits the maps does not show. The
  changed fields are specified by name, and the cycle keys by rotation.
\<close>

section \<open>Lists sorted by their key\<close>

lemma key_contract: "less_contract (\<lambda>x y. key x < (key y :: 'k::linorder))"
  by unfold_locales auto

lemma sort_by_key:
  fixes key :: "'v \<Rightarrow> 'k::linorder"
  assumes key: "\<And>k v. f k = Some v \<Longrightarrow> key v = k" and ks: "distinct ks"
  shows "sort_by (\<lambda>a b. key a < key b) (List.map_filter f ks) =
    map (the \<circ> f) (sorted_list_of_set {k \<in> set ks. f k \<noteq> None})"
proof (rule less_contract.sort_by_unique[OF key_contract])
  let ?L = "sorted_list_of_set {k \<in> set ks. f k \<noteq> None}"
  have "mset ?L = mset (filter (\<lambda>k. f k \<noteq> None) ks)"
    using ks by (intro iffD1[OF set_eq_iff_mset_eq_distinct]) auto
  then show "mset (map (the \<circ> f) ?L) = mset (List.map_filter f ks)"
    by (simp add: List.map_filter_def)
  have "sorted_wrt (<) ?L" by simp
  then show "sorted_wrt (\<lambda>x y. \<not> key y < key x) (map (the \<circ> f) ?L)"
    unfolding sorted_wrt_map by (rule sorted_wrt_mono_rel[rotated]) (use key in fastforce)
  fix x y
  assume "x \<in> set (List.map_filter f ks)" "y \<in> set (List.map_filter f ks)"
  then obtain j k where jk: "f j = Some x" "f k = Some y" by (auto simp: set_map_filter_eq)
  assume "\<not> key x < key y" "\<not> key y < key x"
  then have "j = k" using key[OF jk(1)] key[OF jk(2)] by simp
  then show "x = y" using jk by simp
qed

section \<open>Changed fields\<close>

definition dep_keys :: "issue \<Rightarrow> string set" where
  "dep_keys i = {dep_on d @ '':'' @ dep_kind d | d. Some d \<in> set (dependencies i) \<and> dep_on d \<noteq> []}"

definition changed_fields :: "issue \<Rightarrow> issue \<Rightarrow> string list" where
  "changed_fields x y = map fst (filter snd
     [(''title'', title x \<noteq> title y), (''status'', status x \<noteq> status y), (''priority'', priority x \<noteq> priority y),
      (''assignee'', assignee x \<noteq> assignee y), (''type'', kind x \<noteq> kind y),
      (''description'', description x \<noteq> description y), (''design'', design x \<noteq> design y),
      (''acceptance_criteria'', acceptance_criteria x \<noteq> acceptance_criteria y),
      (''notes'', issue_notes x \<noteq> issue_notes y), (''dependencies'', dep_keys x \<noteq> dep_keys y),
      (''labels'', set (labels x) \<noteq> set (labels y))])"

definition true_set :: "(string, bool) gomap \<Rightarrow> bool" where
  "true_set m \<longleftrightarrow> gomap_ok m \<and> (\<forall>k b. mget m k = Some b \<longrightarrow> b)"

lemma true_set_Nil [simp]: "true_set []"
  by (simp add: true_set_def)

lemma true_set_mput: "true_set m \<Longrightarrow> true_set (mput k True m)"
  by (auto simp: true_set_def split: if_splits)

lemma string_set_keys: "true_set (string_set xs) \<and> set (mkeys (string_set xs)) = set xs"
proof -
  have "true_set m \<Longrightarrow> true_set (fold (\<lambda>s m. mput s True m) xs m) \<and>
      set (mkeys (fold (\<lambda>s m. mput s True m) xs m)) = set (mkeys m) \<union> set xs" for m
    by (induction xs arbitrary: m) (auto simp: true_set_mput)
  from this[of "[]"] show ?thesis by (simp add: string_set_def)
qed

lemma dependency_set_keys:
  "true_set (dependency_set (dependencies i)) \<and> set (mkeys (dependency_set (dependencies i))) = dep_keys i"
proof -
  have "true_set m \<Longrightarrow> true_set (fold add_dep xs m) \<and> set (mkeys (fold add_dep xs m)) =
      set (mkeys m) \<union> {dep_on d @ '':'' @ dep_kind d | d. Some d \<in> set xs \<and> dep_on d \<noteq> []}" for m xs
  proof (induction xs arbitrary: m)
    case (Cons x xs)
    then show ?case by (cases x) (auto simp: add_dep_def true_set_mput)
  qed simp
  from this[of "[]" "dependencies i"] show ?thesis by (simp add: dependency_set_def dep_keys_def)
qed

lemma equal_string_set_iff:
  assumes "true_set a" "true_set b"
  shows "equal_string_set a b \<longleftrightarrow> set (mkeys a) = set (mkeys b)"
proof -
  have len: "length m = card (set (mkeys m))" if "true_set m" for m
    using that by (simp add: true_set_def gomap_ok_def distinct_card) (simp add: mkeys_def)
  have mem: "mget_or False b k \<longleftrightarrow> k \<in> set (mkeys b)" for k
    using assms(2) by (auto simp: true_set_def mget_or_def mkeys_ex split: option.splits)
  have "equal_string_set a b \<longleftrightarrow> card (set (mkeys a)) = card (set (mkeys b)) \<and> set (mkeys a) \<subseteq> set (mkeys b)"
    by (auto simp: equal_string_set_def len[OF assms(1)] len[OF assms(2)] list_all_iff mem)
  then show ?thesis using card_subset_eq[of "set (mkeys b)" "set (mkeys a)"] by auto
qed

lemma detect_changes_fields: "map fc_field (detect_changes x y) = changed_fields x y"
proof -
  have f: "map fc_field (change_if b n p q) = map fst (filter snd [(n, b)])" for b n p q
    by (simp add: change_if_def)
  have s: "equal_string_set (string_set (labels x)) (string_set (labels y)) \<longleftrightarrow> set (labels x) = set (labels y)"
    by (simp add: equal_string_set_iff string_set_keys)
  have d: "equal_string_set (dependency_set (dependencies x)) (dependency_set (dependencies y)) \<longleftrightarrow>
      dep_keys x = dep_keys y"
    by (simp add: equal_string_set_iff dependency_set_keys)
  show ?thesis
    unfolding detect_changes_def Let_def map_append f s d changed_fields_def
    by (simp del: filter.simps add: filter_append[symmetric] map_append[symmetric])
qed

section \<open>The loops\<close>

definition reported :: "issue \<Rightarrow> issue \<Rightarrow> field_change list" where
  "reported x y =
     (if is_closed_like_status (status x) = is_closed_like_status (status y) then detect_changes x y
      else filter (\<lambda>c. fc_field c \<noteq> ''status'') (detect_changes x y))"

definition added_of :: "(string, issue) gomap \<Rightarrow> (string, issue) gomap \<Rightarrow> string \<Rightarrow> issue option" where
  "added_of fm tm k = (if mget fm k = None then mget tm k else None)"

definition flipped_of ::
  "bool \<Rightarrow> (string, issue) gomap \<Rightarrow> (string, issue) gomap \<Rightarrow> string \<Rightarrow> issue option" where
  "flipped_of b fm tm k = Option.bind (mget fm k) (\<lambda>x. Option.bind (mget tm k) (\<lambda>y.
     if is_closed_like_status (status x) \<noteq> b \<and> is_closed_like_status (status y) = b then Some y else None))"

definition modified_of :: "(string, issue) gomap \<Rightarrow> (string, issue) gomap \<Rightarrow> string \<Rightarrow> modified_issue option" where
  "modified_of fm tm k = Option.bind (mget fm k) (\<lambda>x. Option.bind (mget tm k) (\<lambda>y.
     if reported x y = [] then None
     else Some \<lparr>mi_id = k, mi_title = title y, mi_changes = reported x y, mi_old = x, mi_new = y\<rparr>))"

lemmas of_defs = added_of_def flipped_of_def modified_of_def

lemma map_filter_Cons: "List.map_filter f (x # xs) = (case f x of None \<Rightarrow> [] | Some y \<Rightarrow> [y]) @ List.map_filter f xs"
  by (simp add: List.map_filter_def split: option.splits)

lemma compare_issue_eq:
  "compare_issue fm tm k d = d\<lparr>
     df_new := df_new d @ List.map_filter (added_of fm tm) [k],
     df_closed := df_closed d @ List.map_filter (flipped_of True fm tm) [k],
     df_reopened := df_reopened d @ List.map_filter (flipped_of False fm tm) [k],
     df_modified := df_modified d @ List.map_filter (modified_of fm tm) [k]\<rparr>"
  by (auto simp: compare_issue_def map_filter_Cons List.map_filter_def of_defs record_modified_def reported_def
      Let_def split: option.splits)

lemma compare_loop:
  "fold (compare_issue fm tm) ks d = d\<lparr>
     df_new := df_new d @ List.map_filter (added_of fm tm) ks,
     df_closed := df_closed d @ List.map_filter (flipped_of True fm tm) ks,
     df_reopened := df_reopened d @ List.map_filter (flipped_of False fm tm) ks,
     df_modified := df_modified d @ List.map_filter (modified_of fm tm) ks\<rparr>"
proof (induction ks arbitrary: d)
  case (Cons k ks)
  then show ?case by (simp add: compare_issue_eq map_filter_Cons List.map_filter_def)
qed (simp add: List.map_filter_def)

lemma removed_loop:
  "fold (removed_issue fm tm) ks d = d\<lparr>df_removed := df_removed d @ List.map_filter (added_of tm fm) ks\<rparr>"
proof (induction ks arbitrary: d)
  case (Cons k ks)
  then show ?case
    by (cases "mget fm k"; cases "mget tm k") (simp_all add: removed_issue_def added_of_def map_filter_Cons)
qed (simp add: List.map_filter_def)

lemma cycles_loop:
  "cycles_missing m other ks = List.map_filter (\<lambda>k. if mget other k = None then mget m k else None) ks"
proof -
  have "fold (\<lambda>k acc. case mget m k of Some c \<Rightarrow> if mget other k = None then acc @ [c] else acc | None \<Rightarrow> acc) ks acc =
      acc @ List.map_filter (\<lambda>k. if mget other k = None then mget m k else None) ks" for acc
    by (induction ks arbitrary: acc) (auto simp: map_filter_Cons List.map_filter_def split: option.splits)
  then show ?thesis by (simp add: cycles_missing_def)
qed

section \<open>The result, independent of the visiting orders\<close>

abbreviation snap_map :: "snapshot \<Rightarrow> string \<Rightarrow> issue option" where
  "snap_map s \<equiv> mget (issue_map_of (snap_issues s))"

abbreviation cycle_map :: "snapshot \<Rightarrow> string \<Rightarrow> string list option" where
  "cycle_map s \<equiv> mget (cycle_set (snap_cycles s))"

definition by_key :: "('k::linorder \<Rightarrow> 'v option) \<Rightarrow> 'v list" where
  "by_key f = map (the \<circ> f) (sorted_list_of_set {k. f k \<noteq> None})"

definition diff_lists :: "snapshot \<Rightarrow> snapshot \<Rightarrow> snapshot_diff" where
  "diff_lists f t =
     (let fm = issue_map_of (snap_issues f); tm = issue_map_of (snap_issues t) in
      (start_diff f t)\<lparr>df_new := by_key (added_of fm tm), df_closed := by_key (flipped_of True fm tm),
        df_removed := by_key (added_of tm fm), df_reopened := by_key (flipped_of False fm tm),
        df_modified := by_key (modified_of fm tm),
        df_new_cycles := by_key (\<lambda>k. if cycle_map f k = None then cycle_map t k else None),
        df_resolved_cycles := by_key (\<lambda>k. if cycle_map t k = None then cycle_map f k else None),
        df_deltas := calculate_metric_deltas f t\<rparr>)"

lemma by_key_sort:
  fixes key :: "'v \<Rightarrow> 'k::linorder"
  assumes "\<And>k v. f k = Some v \<Longrightarrow> key v = k" "distinct ks" "{k. f k \<noteq> None} \<subseteq> set ks"
  shows "sort_by (\<lambda>a b. key a < key b) (List.map_filter f ks) = by_key f"
proof -
  have "{k \<in> set ks. f k \<noteq> None} = {k. f k \<noteq> None}" using assms(3) by blast
  then show ?thesis using sort_by_key[of f key ks] assms(1,2) unfolding by_key_def by simp
qed

lemma cycle_set_get: "cycle_map s k = Some c \<Longrightarrow> normalize_cycle c = k"
proof -
  have "(\<forall>k c. mget m k = Some c \<longrightarrow> normalize_cycle c = k) \<Longrightarrow>
      mget (fold (\<lambda>c m. mput (normalize_cycle c) c m) cs m) k = Some c \<Longrightarrow> normalize_cycle c = k" for cs m
  proof (induction cs arbitrary: m)
    case (Cons a cs)
    show ?case
    proof (rule Cons.IH)
      show "\<forall>k c. mget (mput (normalize_cycle a) a m) k = Some c \<longrightarrow> normalize_cycle c = k"
        using Cons.prems(1) unfolding mget_mput by (metis option.inject)
    qed (use Cons.prems(2) in \<open>simp only: fold_simps comp_apply\<close>)
  next
    case Nil
    then show ?case unfolding fold_simps by blast
  qed
  from this[of "[]"] show "cycle_map s k = Some c \<Longrightarrow> normalize_cycle c = k"
    by (cases "snap_cycles s") (simp_all add: cycle_set_def)
qed

lemma cycle_set_keys: "cycle_map s k \<noteq> None \<longleftrightarrow> (\<exists>c \<in> set (case snap_cycles s of Some cs \<Rightarrow> cs | None \<Rightarrow> []). normalize_cycle c = k)"
proof -
  have "set (mkeys (fold (\<lambda>c m. mput (normalize_cycle c) c m) cs m)) = set (mkeys m) \<union> normalize_cycle ` set cs" for cs m
    by (induction cs arbitrary: m) auto
  then show ?thesis by (auto simp: cycle_set_def mget_None_iff split: option.splits)
qed

lemma less_as_key:
  "id_less = (\<lambda>a b. issue_id a < issue_id b)" "modified_less = (\<lambda>a b. mi_id a < mi_id b)"
  "cycle_key_less = (\<lambda>a b. normalize_cycle a < normalize_cycle b)"
  by (auto simp: fun_eq_iff id_less_def modified_less_def cycle_key_less_def)

lemma compare_snapshots_eq:
  assumes "range_order (issue_map_of (snap_issues t)) o_to" "range_order (issue_map_of (snap_issues f)) o_from"
    and "range_order (cycle_set (snap_cycles t)) c_to" "range_order (cycle_set (snap_cycles f)) c_from"
  shows "compare_snapshots o_to o_from c_to c_from f t =
    (diff_lists f t)\<lparr>df_summary := calculate_summary (diff_lists f t)\<rparr>"
proof -
  let ?fm = "issue_map_of (snap_issues f)" and ?tm = "issue_map_of (snap_issues t)"
  have d: "distinct o_to" "distinct o_from" "distinct c_to" "distinct c_from"
    using assms by (simp_all add: range_order_def)
  note in_range = range_order_set[OF assms(1)] range_order_set[OF assms(2)]
    range_order_set[OF assms(3)] range_order_set[OF assms(4)]
  note ids = issue_map_of_id[THEN conjunct1]
  have n: "sort_by id_less (List.map_filter (added_of ?fm ?tm) o_to) = by_key (added_of ?fm ?tm)"
    unfolding less_as_key by (rule by_key_sort[OF _ d(1)]) (auto simp: added_of_def in_range ids split: if_splits)
  have c: "sort_by id_less (List.map_filter (flipped_of b ?fm ?tm) o_to) = by_key (flipped_of b ?fm ?tm)" for b
    unfolding less_as_key
    by (rule by_key_sort[OF _ d(1)]) (auto simp: flipped_of_def in_range ids bind_eq_Some_conv split: if_splits)
  have m: "sort_by modified_less (List.map_filter (modified_of ?fm ?tm) o_to) = by_key (modified_of ?fm ?tm)"
    unfolding less_as_key
    by (rule by_key_sort[OF _ d(1)]) (auto simp: modified_of_def in_range ids bind_eq_Some_conv split: if_splits)
  have r: "sort_by id_less (List.map_filter (added_of ?tm ?fm) o_from) = by_key (added_of ?tm ?fm)"
    unfolding less_as_key by (rule by_key_sort[OF _ d(2)]) (auto simp: added_of_def in_range ids split: if_splits)
  have y: "compare_cycles (snap_cycles f) (snap_cycles t) c_to c_from =
      (by_key (\<lambda>k. if cycle_map f k = None then cycle_map t k else None),
       by_key (\<lambda>k. if cycle_map t k = None then cycle_map f k else None))"
    unfolding compare_cycles_def Let_def cycles_loop less_as_key
    by (rule arg_cong2[of _ _ _ _ Pair]; rule by_key_sort)
      (use d in \<open>auto simp: in_range cycle_set_get split: if_splits\<close>)
  have len: "length (List.map_filter (added_of ?fm ?tm) o_to) = length (by_key (added_of ?fm ?tm))"
    "length (List.map_filter (flipped_of b ?fm ?tm) o_to) = length (by_key (flipped_of b ?fm ?tm))"
    "length (List.map_filter (modified_of ?fm ?tm) o_to) = length (by_key (modified_of ?fm ?tm))"
    "length (List.map_filter (added_of ?tm ?fm) o_from) = length (by_key (added_of ?tm ?fm))" for b
    unfolding n[symmetric] c[symmetric] m[symmetric] r[symmetric] by simp_all
  show ?thesis
    unfolding compare_snapshots_def Let_def compare_loop removed_loop y prod.case
    by (simp add: start_diff_def diff_lists_def Let_def n c m r calculate_summary_def len)
qed

definition shown_fields :: "issue \<Rightarrow> issue \<Rightarrow> string list" where
  "shown_fields x y =
     (if is_closed_like_status (status x) = is_closed_like_status (status y) then changed_fields x y
      else filter (\<lambda>c. c \<noteq> ''status'') (changed_fields x y))"

definition cycle_keys :: "snapshot \<Rightarrow> string set" where
  "cycle_keys s = normalize_cycle ` set (case snap_cycles s of Some cs \<Rightarrow> cs | None \<Rightarrow> [])"

lemma reported_fields: "map fc_field (reported x y) = shown_fields x y"
  by (simp add: reported_def shown_fields_def detect_changes_fields[symmetric] filter_map comp_def)

lemma reported_none: "reported x y = [] \<longleftrightarrow> shown_fields x y = []"
  by (metis reported_fields map_is_Nil_conv)

lemma shown_none:
  "shown_fields x y = [] \<Longrightarrow> is_closed_like_status (status x) = is_closed_like_status (status y) \<Longrightarrow>
     changed_fields x y = []"
  by (simp add: shown_fields_def)

lemma changed_none_status: "changed_fields x y = [] \<Longrightarrow> status x = status y"
  by (auto simp: changed_fields_def split: if_splits)

lemma cycle_map_None: "cycle_map s k = None \<longleftrightarrow> k \<notin> cycle_keys s"
  using cycle_set_keys[of s k] by (auto simp: cycle_keys_def)

lemma finite_keys: "finite {k. mget m k \<noteq> None}"
proof -
  have "{k. mget m k \<noteq> None} = set (mkeys m)" by (auto simp: mget_None_iff)
  then show ?thesis by simp
qed

lemma in_sorted_list_of_set: "k \<in> set (sorted_list_of_set S) \<Longrightarrow> k \<in> S"
  by (cases "finite S") auto

lemma by_key_eq:
  assumes "\<And>k. f k \<noteq> None \<longleftrightarrow> P k" "\<And>k. P k \<Longrightarrow> f k = g k"
  shows "by_key f = map (the \<circ> g) (sorted_list_of_set {k. P k})"
  unfolding by_key_def assms(1) by (rule map_cong[OF refl]) (auto dest: in_sorted_list_of_set simp: assms(2))

lemma by_key_keys:
  assumes "\<And>k. f k \<noteq> None \<longleftrightarrow> P k" "\<And>k v. f k = Some v \<Longrightarrow> key v = k"
  shows "map key (by_key f) = sorted_list_of_set {k. P k}"
proof -
  have "map key (by_key f) = map id (sorted_list_of_set {k. P k})"
    unfolding by_key_def assms(1) map_map
  proof (rule map_cong[OF refl])
    fix k assume "k \<in> set (sorted_list_of_set {k. P k})"
    then have "P k" by (auto dest: in_sorted_list_of_set)
    then obtain v where "f k = Some v" using assms(1) by blast
    then show "(key \<circ> (the \<circ> f)) k = id k" using assms(2) by simp
  qed
  then show ?thesis by simp
qed

lemma set_by_key: "finite {k. f k \<noteq> None} \<Longrightarrow> v \<in> set (by_key f) \<Longrightarrow> \<exists>k. f k = Some v"
  by (auto simp: by_key_def)

lemma by_key_none: "finite {k. f k \<noteq> None} \<Longrightarrow> length (by_key f) = 0 \<longleftrightarrow> (\<forall>k. f k = None)"
  by (auto simp: by_key_def)

lemma cycle_set_ok: "gomap_ok (cycle_set cs)"
proof -
  have "gomap_ok m \<Longrightarrow> gomap_ok (fold (\<lambda>c m. mput (normalize_cycle c) c m) cs m)" for cs m
    by (induction cs arbitrary: m) auto
  then show ?thesis by (cases cs) (auto simp: cycle_set_def)
qed

lemma cycle_list_keys:
  "map normalize_cycle (by_key (\<lambda>k. if cycle_map a k = None then cycle_map b k else None)) =
     sorted_list_of_set (cycle_keys b - cycle_keys a)"
proof -
  have "(if cycle_map a k = None then cycle_map b k else None) \<noteq> None \<longleftrightarrow> k \<in> cycle_keys b \<and> k \<notin> cycle_keys a" for k
    unfolding cycle_map_None using cycle_map_None[of b k] by argo
  then show ?thesis unfolding set_diff_eq
    by (rule by_key_keys) (auto simp: cycle_set_get split: if_splits)
qed

lemma finite_of:
  "finite {k. added_of fm tm k \<noteq> None}" "finite {k. flipped_of b fm tm k \<noteq> None}" "finite {k. modified_of fm tm k \<noteq> None}"
  by (rule finite_subset[OF _ finite_keys[of tm]]; auto simp: of_defs bind_eq_Some_conv split: if_splits)+

lemma finite_cycle_keys: "finite {k. (if cycle_map f k = None then cycle_map t k else None) \<noteq> None}"
  by (rule finite_subset[OF _ finite_keys[of "cycle_set (snap_cycles t)"]]) (auto split: if_splits)

lemma diff_empty_iff:
  assumes "d = (diff_lists f t)\<lparr>df_summary := calculate_summary (diff_lists f t)\<rparr>"
  shows "diff_is_empty d \<longleftrightarrow>
    (\<forall>k. (snap_map f k = None \<longleftrightarrow> snap_map t k = None) \<and>
       (\<forall>x y. snap_map f k = Some x \<longrightarrow> snap_map t k = Some y \<longrightarrow> changed_fields x y = [])) \<and>
    cycle_keys f = cycle_keys t"
proof -
  let ?fm = "issue_map_of (snap_issues f)" and ?tm = "issue_map_of (snap_issues t)"
  have "diff_is_empty d \<longleftrightarrow>
      (\<forall>k. added_of ?fm ?tm k = None \<and> added_of ?tm ?fm k = None \<and> flipped_of True ?fm ?tm k = None \<and>
         flipped_of False ?fm ?tm k = None \<and> modified_of ?fm ?tm k = None) \<and>
      (\<forall>k. (if cycle_map f k = None then cycle_map t k else None) = None) \<and>
      (\<forall>k. (if cycle_map t k = None then cycle_map f k else None) = None)"
    using by_key_none[OF finite_of(1)] by_key_none[OF finite_of(2)] by_key_none[OF finite_of(3)]
      by_key_none[OF finite_cycle_keys]
    unfolding assms diff_is_empty_def calculate_summary_def Let_def diff_lists_def
    by (simp add: add_nonneg_eq_0_iff) blast
  moreover have "(\<forall>k. (if cycle_map f k = None then cycle_map t k else None) = None) \<and>
      (\<forall>k. (if cycle_map t k = None then cycle_map f k else None) = None) \<longleftrightarrow> cycle_keys f = cycle_keys t"
    by (auto simp: cycle_map_None split: if_splits)
  moreover have "added_of ?fm ?tm k = None \<and> added_of ?tm ?fm k = None \<and> flipped_of True ?fm ?tm k = None \<and>
         flipped_of False ?fm ?tm k = None \<and> modified_of ?fm ?tm k = None \<longleftrightarrow>
      (snap_map f k = None \<longleftrightarrow> snap_map t k = None) \<and>
       (\<forall>x y. snap_map f k = Some x \<longrightarrow> snap_map t k = Some y \<longrightarrow> changed_fields x y = [])" for k
  proof (cases "snap_map f k"; cases "snap_map t k")
    fix x y assume "snap_map f k = Some x" "snap_map t k = Some y"
    then show ?thesis
      using shown_none[of x y] changed_none_status[of x y]
      by (auto simp: of_defs reported_none shown_fields_def)
  qed (auto simp: of_defs)
  ultimately show ?thesis by simp
qed

lemma length_by_key: "length (by_key f) = card {k. f k \<noteq> None}"
  by (simp add: by_key_def)

lemma net_change:
  "int (length (by_key (added_of fm tm))) - int (length (by_key (added_of tm fm))) =
     int (card (set (mkeys tm))) - int (card (set (mkeys fm)))"
proof -
  let ?F = "set (mkeys fm)" and ?T = "set (mkeys tm)"
  have "{k. added_of fm tm k \<noteq> None} = ?T - ?F" "{k. added_of tm fm k \<noteq> None} = ?F - ?T"
    unfolding mkeys_ex set_eq_iff by (simp_all add: added_of_def mkeys_ex)
  moreover have "card ?T = card (?T - ?F) + card (?T \<inter> ?F)" "card ?F = card (?F - ?T) + card (?T \<inter> ?F)"
    by (simp_all add: card_Diff_subset_Int Int_commute card_mono)
  ultimately show ?thesis by (simp add: length_by_key)
qed

section \<open>Properties\<close>

text \<open>C37: The comparison of two snapshots lists exactly the issues that are new, removed, closed, reopened
  or modified, each list without repetition and sorted by id, an issue of the later snapshot standing for
  itself (a removed one is that of the earlier snapshot; of duplicate ids the last issue counts). A
  modified issue names exactly the fields that differ, its status only when it was neither closed nor
  reopened. The result is empty exactly when the same ids are there with no differing field and the same
  cycle keys, the net change is the difference of the numbers of ids, and nothing depends on the order
  in which Go visits its maps.\<close>

theorem snapshot_diff_correct:
  fixes f t :: snapshot and o_to o_from c_to c_from :: "string list"
  assumes "range_order (issue_map_of (snap_issues t)) o_to" "range_order (issue_map_of (snap_issues f)) o_from"
    and "range_order (cycle_set (snap_cycles t)) c_to" "range_order (cycle_set (snap_cycles f)) c_from"
  defines "d \<equiv> compare_snapshots o_to o_from c_to c_from f t" and "old \<equiv> snap_map f" and "new \<equiv> snap_map t"
    and "closed \<equiv> \<lambda>i. is_closed_like_status (status i)"
  shows "df_new d = map (the \<circ> new) (sorted_list_of_set {k. old k = None \<and> new k \<noteq> None}) \<and>
    df_removed d = map (the \<circ> old) (sorted_list_of_set {k. old k \<noteq> None \<and> new k = None}) \<and>
    df_closed d = map (the \<circ> new) (sorted_list_of_set
      {k. \<exists>x y. old k = Some x \<and> new k = Some y \<and> \<not> closed x \<and> closed y}) \<and>
    df_reopened d = map (the \<circ> new) (sorted_list_of_set
      {k. \<exists>x y. old k = Some x \<and> new k = Some y \<and> closed x \<and> \<not> closed y}) \<and>
    map mi_id (df_modified d) = sorted_list_of_set
      {k. \<exists>x y. old k = Some x \<and> new k = Some y \<and> shown_fields x y \<noteq> []} \<and>
    (\<forall>m \<in> set (df_modified d). old (mi_id m) = Some (mi_old m) \<and> new (mi_id m) = Some (mi_new m) \<and>
       map fc_field (mi_changes m) = shown_fields (mi_old m) (mi_new m)) \<and>
    map normalize_cycle (df_new_cycles d) = sorted_list_of_set (cycle_keys t - cycle_keys f) \<and>
    map normalize_cycle (df_resolved_cycles d) = sorted_list_of_set (cycle_keys f - cycle_keys t) \<and>
    (diff_is_empty d \<longleftrightarrow> (\<forall>k. (old k = None \<longleftrightarrow> new k = None) \<and>
       (\<forall>x y. old k = Some x \<longrightarrow> new k = Some y \<longrightarrow> changed_fields x y = [])) \<and> cycle_keys f = cycle_keys t) \<and>
    net_issue_change (df_summary d) = int (card {k. new k \<noteq> None}) - int (card {k. old k \<noteq> None}) \<and>
    d = compare_snapshots (mkeys (issue_map_of (snap_issues t))) (mkeys (issue_map_of (snap_issues f)))
          (mkeys (cycle_set (snap_cycles t))) (mkeys (cycle_set (snap_cycles f))) f t"
proof -
  let ?fm = "issue_map_of (snap_issues f)" and ?tm = "issue_map_of (snap_issues t)"
  have d: "d = (diff_lists f t)\<lparr>df_summary := calculate_summary (diff_lists f t)\<rparr>"
    unfolding d_def by (rule compare_snapshots_eq[OF assms(1-4)])
  note lists = d diff_lists_def Let_def
  have fields: "df_new d = by_key (added_of ?fm ?tm)" "df_removed d = by_key (added_of ?tm ?fm)"
    "df_closed d = by_key (flipped_of True ?fm ?tm)" "df_reopened d = by_key (flipped_of False ?fm ?tm)"
    "df_modified d = by_key (modified_of ?fm ?tm)"
    "df_new_cycles d = by_key (\<lambda>k. if cycle_map f k = None then cycle_map t k else None)"
    "df_resolved_cycles d = by_key (\<lambda>k. if cycle_map t k = None then cycle_map f k else None)"
    by (simp_all add: lists)
  have new: "df_new d = map (the \<circ> new) (sorted_list_of_set {k. old k = None \<and> new k \<noteq> None})"
    unfolding old_def new_def fields by (rule by_key_eq; simp add: added_of_def)
  have removed: "df_removed d = map (the \<circ> old) (sorted_list_of_set {k. old k \<noteq> None \<and> new k = None})"
    unfolding old_def new_def fields by (rule by_key_eq; auto simp: added_of_def)
  have closed: "df_closed d = map (the \<circ> new) (sorted_list_of_set
      {k. \<exists>x y. old k = Some x \<and> new k = Some y \<and> \<not> closed x \<and> closed y})"
    unfolding old_def new_def closed_def fields by (rule by_key_eq; auto simp: flipped_of_def bind_eq_Some_conv)
  have reopened: "df_reopened d = map (the \<circ> new) (sorted_list_of_set
      {k. \<exists>x y. old k = Some x \<and> new k = Some y \<and> closed x \<and> \<not> closed y})"
    unfolding old_def new_def closed_def fields by (rule by_key_eq; auto simp: flipped_of_def bind_eq_Some_conv)
  have modified: "map mi_id (df_modified d) = sorted_list_of_set
      {k. \<exists>x y. old k = Some x \<and> new k = Some y \<and> shown_fields x y \<noteq> []}"
    unfolding old_def new_def fields
    by (rule by_key_keys; auto simp: modified_of_def bind_eq_Some_conv reported_none split: if_splits)
  have entries: "\<forall>m \<in> set (df_modified d). old (mi_id m) = Some (mi_old m) \<and> new (mi_id m) = Some (mi_new m) \<and>
       map fc_field (mi_changes m) = shown_fields (mi_old m) (mi_new m)"
  proof
    fix m assume "m \<in> set (df_modified d)"
    from set_by_key[OF finite_of(3) this[unfolded fields]] obtain k where "modified_of ?fm ?tm k = Some m" by blast
    then show "old (mi_id m) = Some (mi_old m) \<and> new (mi_id m) = Some (mi_new m) \<and>
       map fc_field (mi_changes m) = shown_fields (mi_old m) (mi_new m)"
      by (auto simp: modified_of_def bind_eq_Some_conv old_def new_def reported_fields split: if_splits)
  qed
  have "set (mkeys m) = {k. mget m k \<noteq> None}" for m :: "(string, issue) gomap" by (auto simp: mkeys_ex)
  then have net: "net_issue_change (df_summary d) = int (card {k. new k \<noteq> None}) - int (card {k. old k \<noteq> None})"
    using net_change[of ?fm ?tm] by (simp add: lists calculate_summary_def old_def new_def)
  have "d = compare_snapshots (mkeys ?tm) (mkeys ?fm) (mkeys (cycle_set (snap_cycles t)))
      (mkeys (cycle_set (snap_cycles f))) f t"
    unfolding d by (rule compare_snapshots_eq[symmetric]) (simp_all add: range_order_mkeys cycle_set_ok)
  then show ?thesis
    using new removed closed reopened modified entries net diff_empty_iff[OF d]
    unfolding old_def new_def fields(6,7) cycle_list_keys by blast
qed

definition diff_before :: snapshot where
  "diff_before = new_snapshot_at
     [zero_issue\<lparr>issue_id := ''a'', status := StatusOpen\<rparr>, zero_issue\<lparr>issue_id := ''b'', status := StatusOpen\<rparr>]
     None 1 ''v1''"

definition diff_after :: snapshot where
  "diff_after = new_snapshot_at
     [zero_issue\<lparr>issue_id := ''c'', status := StatusOpen\<rparr>, zero_issue\<lparr>issue_id := ''b'', status := StatusClosed, title := ''t''\<rparr>]
     (Some [[''c'', ''c'']]) 2 ''v2''"

lemma snapshot_diff_correct_witness:
  "map issue_id (df_closed (compare_snapshots [''b'', ''c''] [''b'', ''a''] [''c->c''] [] diff_before diff_after)) = [''b'']"
proof -
  have m: "issue_map_of (snap_issues diff_after) =
      [(''c'', zero_issue\<lparr>issue_id := ''c'', status := StatusOpen\<rparr>),
       (''b'', zero_issue\<lparr>issue_id := ''b'', status := StatusClosed, title := ''t''\<rparr>)]"
    "issue_map_of (snap_issues diff_before) =
      [(''a'', zero_issue\<lparr>issue_id := ''a'', status := StatusOpen\<rparr>),
       (''b'', zero_issue\<lparr>issue_id := ''b'', status := StatusOpen\<rparr>)]"
    "cycle_set (snap_cycles diff_after) = [(''c->c'', [''c'', ''c''])]" "cycle_set (snap_cycles diff_before) = []"
    by code_simp+
  have o: "range_order (issue_map_of (snap_issues diff_after)) [''b'', ''c'']"
    "range_order (issue_map_of (snap_issues diff_before)) [''b'', ''a'']"
    "range_order (cycle_set (snap_cycles diff_after)) [''c->c'']" "range_order (cycle_set (snap_cycles diff_before)) []"
    unfolding m by (auto simp: range_order_def mkeys_def)
  let ?d = "compare_snapshots [''b'', ''c''] [''b'', ''a''] [''c->c''] [] diff_before diff_after"
  have "df_closed ?d = map (the \<circ> snap_map diff_after) (sorted_list_of_set
      {k. \<exists>x y. snap_map diff_before k = Some x \<and> snap_map diff_after k = Some y \<and>
        \<not> is_closed_like_status (status x) \<and> is_closed_like_status (status y)})"
    using snapshot_diff_correct[OF o] by blast
  moreover have "{k. \<exists>x y. snap_map diff_before k = Some x \<and> snap_map diff_after k = Some y \<and>
      \<not> is_closed_like_status (status x) \<and> is_closed_like_status (status y)} = {''b''}"
    unfolding m by (auto simp: mget_def is_closed_like_status_def StatusClosed_def StatusOpen_def StatusTombstone_def
        split: if_splits)
  ultimately show ?thesis by (simp add: m mget_def)
qed

end
