(* ===== verification/Bv_Cycle_Keys.thy ===== *)
theory Bv_Cycle_Keys
  imports Bv_Diff Bv_Cycles
begin

text \<open>
  The keys by which \<open>pkg/analysis/diff.go\<close> compares the cycles of two snapshots (\<open>normalizeCycle\<close>). For a
  cycle whose nodes are listed once the key identifies the cycle up to rotation. The cycles that
  \<open>findCyclesSafe\<close> reports repeat their first node at the end, and for those the key depends on the
  node the list starts with.
\<close>

definition plain_ids :: "string list \<Rightarrow> bool" where
  "plain_ids xs \<longleftrightarrow> xs \<noteq> [] \<and> distinct xs \<and> (\<forall>x \<in> set xs. CHR ''>'' \<notin> set x)"

lemma split_at_first: "z \<notin> set a \<Longrightarrow> z \<notin> set b \<Longrightarrow> a @ z # c = b @ z # d \<Longrightarrow> a = b \<and> c = d"
proof (induction a arbitrary: b)
  case (Cons x a)
  then show ?case by (cases b) auto
next
  case Nil
  then show ?case by (cases b) auto
qed

lemma join_arrow_inj:
  assumes "xs \<noteq> []" "ys \<noteq> []" "\<forall>x \<in> set xs. CHR ''>'' \<notin> set x" "\<forall>y \<in> set ys. CHR ''>'' \<notin> set y"
    and "join ''->'' xs = join ''->'' ys"
  shows "xs = ys"
  using assms
proof (induction xs arbitrary: ys)
  case (Cons x xs)
  obtain u us where ys: "ys = u # us" using Cons.prems(2) by (cases ys) auto
  have split: "join ''->'' (a # b # zs) = (a @ ''-'') @ CHR ''>'' # join ''->'' (b # zs)" for a b zs by simp
  show ?case
  proof (cases xs; cases us)
    fix y zs v vs assume more: "xs = y # zs" "us = v # vs"
    have "(x @ ''-'') @ CHR ''>'' # join ''->'' xs = (u @ ''-'') @ CHR ''>'' # join ''->'' us"
      using Cons.prems(5) unfolding ys more split by simp
    then have "x @ ''-'' = u @ ''-'' \<and> join ''->'' xs = join ''->'' us"
      using Cons.prems(3,4) ys by (intro split_at_first) auto
    then show ?thesis using Cons.IH[of us] Cons.prems(3,4) ys more by auto
  next
    fix y zs assume one: "xs = y # zs" "us = []"
    have "u = (x @ ''-'') @ CHR ''>'' # join ''->'' (y # zs)" using Cons.prems(5) unfolding ys one split by simp
    then show ?thesis using Cons.prems(4) ys by auto
  next
    fix v vs assume one: "xs = []" "us = v # vs"
    have "x = (u @ ''-'') @ CHR ''>'' # join ''->'' (v # vs)" using Cons.prems(5) unfolding ys one split by simp
    then show ?thesis using Cons.prems(3) by auto
  qed (use Cons.prems ys in auto)
qed simp

lemma min_index_fold:
  assumes "c = ps @ ys" "(ps = [] \<and> m = 0) \<or> (m < length ps \<and> (\<forall>j < length ps. c ! m \<le> c ! j) \<and> (\<forall>j < m. c ! m < c ! j))"
    and "c \<noteq> []" and "r = fold (\<lambda>(i, x) m. if x < c ! m then i else m) (enumerate (length ps) ys) m"
  shows "r < length c \<and> (\<forall>j < length c. c ! r \<le> c ! j) \<and> (\<forall>j < r. c ! r < (c ! j :: string))"
  using assms
proof (induction ys arbitrary: ps m)
  case Nil
  then show ?case by auto
next
  case (Cons y ys)
  have y: "c ! length ps = y" using Cons.prems(1) by simp
  let ?m = "if y < c ! m then length ps else m"
  have "?m < length (ps @ [y]) \<and> (\<forall>j < length (ps @ [y]). c ! ?m \<le> c ! j) \<and> (\<forall>j < ?m. c ! ?m < c ! j)"
    using Cons.prems(2) y by (fastforce simp: less_Suc_eq)
  then show ?case using Cons.IH[of "ps @ [y]" ?m] Cons.prems(1,3,4) by simp
qed

lemma min_index_least:
  assumes "c \<noteq> []"
  shows "min_index c < length c" "j < length c \<Longrightarrow> c ! min_index c \<le> c ! j" "j < min_index c \<Longrightarrow> c ! min_index c < c ! j"
proof -
  have "min_index c < length c \<and> (\<forall>j < length c. c ! min_index c \<le> c ! j) \<and> (\<forall>j < min_index c. c ! min_index c < c ! j)"
    by (rule min_index_fold[of c "[]" c 0]) (simp_all add: assms min_index_def)
  then show "min_index c < length c" "j < length c \<Longrightarrow> c ! min_index c \<le> c ! j"
    "j < min_index c \<Longrightarrow> c ! min_index c < c ! j" by blast+
qed

lemma normalize_rotates: "c \<noteq> [] \<Longrightarrow> normalize_cycle c = join ''->'' (rotate (min_index c) c)"
proof -
  assume "c \<noteq> []"
  moreover have "map (\<lambda>i. c ! ((m + i) mod length c)) [0..<length c] = rotate m c" for m
    by (rule nth_equalityI) (simp_all add: nth_rotate)
  ultimately show ?thesis by (simp add: normalize_cycle_def Let_def)
qed

lemma plain_join:
  assumes "xs \<noteq> []" "ys \<noteq> []" "\<forall>x \<in> set xs. CHR ''>'' \<notin> set x" "\<forall>y \<in> set ys. CHR ''>'' \<notin> set y"
  shows "normalize_cycle xs = normalize_cycle ys \<longleftrightarrow> rotate (min_index xs) xs = rotate (min_index ys) ys"
  using join_arrow_inj[of "rotate (min_index xs) xs" "rotate (min_index ys) ys"] assms
  by (auto simp: normalize_rotates)

lemma rotate_back: "\<exists>n. rotate n (rotate m xs) = xs"
proof (cases "xs = []")
  case False
  have "rotate (length xs - m mod length xs) (rotate (m mod length xs) xs) = xs"
    using False by (simp add: rotate_rotate mod_less_divisor less_imp_le)
  then show ?thesis by (metis rotate_conv_mod)
qed simp

text \<open>The rotation to the least id is the same for all rotations of a list that repeats no id.\<close>

lemma hd_rotate_min:
  assumes "c \<noteq> []"
  shows "hd (rotate (min_index c) c) = Min (set c)"
proof -
  have "hd (rotate (min_index c) c) = c ! min_index c"
    using min_index_least(1)[OF assms] assms by (simp add: hd_rotate_conv_nth)
  also have "\<dots> = Min (set c)"
    using min_index_least(1,2)[OF assms] by (intro Min_eqI[symmetric]) (auto simp: in_set_conv_nth)
  finally show ?thesis .
qed

lemma distinct_rotations:
  assumes "distinct xs" "xs \<noteq> []" "hd (rotate m xs) = hd (rotate n xs)"
  shows "rotate m xs = rotate n xs"
proof -
  have "xs ! (m mod length xs) = xs ! (n mod length xs)" using assms by (simp add: hd_rotate_conv_nth)
  then have "m mod length xs = n mod length xs" using assms by (simp add: nth_eq_iff_index_eq)
  then show ?thesis by (metis rotate_conv_mod)
qed

lemma normalize_open:
  assumes "plain_ids xs" "plain_ids ys"
  shows "normalize_cycle xs = normalize_cycle ys \<longleftrightarrow> (\<exists>n. ys = rotate n xs)"
proof -
  have ne: "xs \<noteq> []" "ys \<noteq> []" using assms by (simp_all add: plain_ids_def)
  have "rotate (min_index xs) xs = rotate (min_index ys) ys \<longleftrightarrow> (\<exists>n. ys = rotate n xs)"
  proof
    assume e: "rotate (min_index xs) xs = rotate (min_index ys) ys"
    obtain n where "rotate n (rotate (min_index ys) ys) = ys" using rotate_back by blast
    then show "\<exists>n. ys = rotate n xs" unfolding e[symmetric] by (metis rotate_rotate)
  next
    assume "\<exists>n. ys = rotate n xs"
    then obtain n where n: "ys = rotate n xs" by blast
    have "hd (rotate (min_index ys + n) xs) = hd (rotate (min_index xs) xs)"
      using hd_rotate_min[OF ne(1)] hd_rotate_min[OF ne(2)] n by (simp add: rotate_rotate)
    then show "rotate (min_index xs) xs = rotate (min_index ys) ys"
      using distinct_rotations[of xs] assms ne n by (simp add: plain_ids_def rotate_rotate)
  qed
  then show ?thesis using plain_join assms by (simp add: plain_ids_def)
qed

text \<open>In the closed form the repeated id stays where the list was opened, so it marks the start.\<close>

lemma adjacent_repeat:
  "distinct (a @ h # b) \<Longrightarrow> distinct (c @ k # d) \<Longrightarrow> a @ h # h # b = c @ k # k # d \<Longrightarrow> a = c \<and> h = k \<and> b = d"
proof (induction a arbitrary: c)
  case Nil
  show ?case
  proof (cases c)
    case (Cons y c')
    then have "h # b = c' @ k # k # d" using Nil.prems(3) by (metis append_Cons append_Nil list.inject)
    then have "\<not> distinct (h # b)" by simp
    then show ?thesis using Nil.prems(1) by simp
  qed (use Nil.prems in simp)
next
  case (Cons x a)
  show ?case
  proof (cases c)
    case Nil
    then have "x = k" "k # d = a @ h # h # b" using Cons.prems(3) by simp_all
    then have "x \<in> set (a @ h # h # b)" by (metis list.set_intros(1))
    then show ?thesis using Cons.prems(1) by simp
  next
    case (Cons y c')
    then show ?thesis using Cons.IH[of c'] Cons.prems by simp
  qed
qed

lemma min_index_close:
  assumes "xs \<noteq> []"
  shows "min_index (xs @ [hd xs]) = min_index xs"
proof (rule ccontr)
  let ?c = "xs @ [hd xs]" and ?m = "min_index (xs @ [hd xs])" and ?i = "min_index xs"
  have c: "?c \<noteq> []" by simp
  note x = min_index_least[OF assms] and cc = min_index_least[OF c]
  have nth: "j < length xs \<Longrightarrow> ?c ! j = xs ! j" for j by (simp add: nth_append)
  have last: "?c ! length xs = xs ! 0" using assms by (simp add: hd_conv_nth)
  have le: "?c ! ?m \<le> xs ! ?i" using cc(2)[of ?i] x(1) nth by simp
  assume "?m \<noteq> ?i"
  then consider "?m < ?i" | "?i < ?m" by linarith
  then show False
  proof cases
    case 1
    then show False using x(3)[of ?m] le x(1) nth by (simp add: not_le[symmetric])
  next
    case 2
    then have "?c ! ?m < xs ! ?i" using cc(3)[of ?i] x(1) nth by simp
    moreover have "xs ! ?i \<le> ?c ! ?m"
      using cc(1) x(2)[of ?m] x(2)[of 0] nth last assms by (cases "?m < length xs") (simp_all add: less_Suc_eq)
    ultimately show False by simp
  qed
qed

lemma normalize_closed:
  assumes "plain_ids xs" "plain_ids ys"
  shows "normalize_cycle (xs @ [hd xs]) = normalize_cycle (ys @ [hd ys]) \<longleftrightarrow> xs = ys"
proof
  assume e: "normalize_cycle (xs @ [hd xs]) = normalize_cycle (ys @ [hd ys])"
  have ne: "xs \<noteq> []" "ys \<noteq> []" and d: "distinct xs" "distinct ys" using assms by (simp_all add: plain_ids_def)
  let ?i = "min_index xs" and ?j = "min_index ys"
  have i: "?i < length xs" "?j < length ys" using min_index_least(1) ne by auto
  have rot: "rotate k (zs @ [hd zs]) = drop k zs @ hd zs # take k zs" if "k < length zs" for k and zs :: "string list"
    using that by (simp add: rotate_drop_take)
  have eq: "drop ?i xs @ hd xs # take ?i xs = drop ?j ys @ hd ys # take ?j ys"
    using e plain_join[of "xs @ [hd xs]" "ys @ [hd ys]"] assms ne i
    by (simp add: plain_ids_def min_index_close rot)
  have shape: "take k zs = hd zs # tl (take k zs) \<and> distinct (drop k zs @ hd zs # tl (take k zs))"
    if "0 < k" "distinct zs" "zs \<noteq> []" for k and zs :: "string list"
  proof -
    have t: "take k zs = hd zs # tl (take k zs)" using that by (cases zs; cases k) auto
    have "distinct (take k zs @ drop k zs)" using that(2) by simp
    then have "distinct (drop k zs @ take k zs)" unfolding distinct_append by blast
    then show ?thesis using t by metis
  qed
  have ends: "hd (drop k zs @ hd zs # take k zs) = last (drop k zs @ hd zs # take k zs) \<longleftrightarrow> k = 0"
    if "k < length zs" "distinct zs" for k and zs :: "string list"
  proof (cases "k = 0")
    case False
    then have "take k zs \<noteq> []" using that by auto
    then have "last (drop k zs @ hd zs # take k zs) = zs ! (k - 1)"
      using that False by (simp add: last_conv_nth[of "take k zs"])
    moreover have "hd (drop k zs @ hd zs # take k zs) = zs ! k"
      using that by (simp add: hd_drop_conv_nth hd_append)
    ultimately have "hd (drop k zs @ hd zs # take k zs) = zs ! k" "last (drop k zs @ hd zs # take k zs) = zs ! (k - 1)"
      by blast+
    then show ?thesis using False that nth_eq_iff_index_eq[OF that(2), of k "k - 1"] by simp
  qed (use that in auto)
  have zero: "?i = 0 \<longleftrightarrow> ?j = 0" using ends[OF i(1) d(1)] ends[OF i(2) d(2)] eq by metis
  show "xs = ys"
  proof (cases "?i = 0")
    case True
    then show ?thesis using eq zero by simp
  next
    case False
    have pos: "0 < ?i" "0 < ?j" using False zero by simp_all
    have sx: "take ?i xs = hd xs # tl (take ?i xs)" "distinct (drop ?i xs @ hd xs # tl (take ?i xs))"
      and sy: "take ?j ys = hd ys # tl (take ?j ys)" "distinct (drop ?j ys @ hd ys # tl (take ?j ys))"
      using shape[OF pos(1) d(1) ne(1)] shape[OF pos(2) d(2) ne(2)] by blast+
    have "drop ?i xs @ hd xs # hd xs # tl (take ?i xs) = drop ?j ys @ hd ys # hd ys # tl (take ?j ys)"
      using eq by (simp flip: sx(1) sy(1))
    from adjacent_repeat[OF sx(2) sy(2) this]
    have "drop ?i xs = drop ?j ys" "take ?i xs = take ?j ys" using sx(1) sy(1) by (blast, metis)
    then show ?thesis by (metis append_take_drop_id)
  qed
qed simp

lemma compare_single_cycles:
  "normalize_cycle c \<noteq> normalize_cycle d \<Longrightarrow>
     compare_cycles (Some [c]) (Some [d]) [normalize_cycle d] [normalize_cycle c] = ([d], [c])"
  by (simp add: compare_cycles_def cycle_set_def cycles_missing_def)

section \<open>Property\<close>

text \<open>C38: For ids without a greater sign, two cycles whose nodes are listed once have the same key exactly when
  one list is a rotation of the other. Of two closed lists, as the cycle detection reports them, the keys
  are the same only when the lists are: a cycle that is reported from another node in the later snapshot
  appears both among the new and among the resolved cycles.\<close>

theorem cycle_key_identifies:
  assumes "plain_ids xs" "plain_ids ys"
  shows "(normalize_cycle xs = normalize_cycle ys \<longleftrightarrow> (\<exists>n. ys = rotate n xs)) \<and>
    (normalize_cycle (xs @ [hd xs]) = normalize_cycle (ys @ [hd ys]) \<longleftrightarrow> xs = ys) \<and>
    (xs \<noteq> ys \<longrightarrow> compare_cycles (Some [xs @ [hd xs]]) (Some [ys @ [hd ys]])
       [normalize_cycle (ys @ [hd ys])] [normalize_cycle (xs @ [hd xs])] = ([ys @ [hd ys]], [xs @ [hd xs]]))"
proof (intro conjI impI)
  show "normalize_cycle xs = normalize_cycle ys \<longleftrightarrow> (\<exists>n. ys = rotate n xs)"
    by (rule normalize_open[OF assms])
  show closed: "normalize_cycle (xs @ [hd xs]) = normalize_cycle (ys @ [hd ys]) \<longleftrightarrow> xs = ys"
    by (rule normalize_closed[OF assms])
  assume "xs \<noteq> ys"
  then have "normalize_cycle (xs @ [hd xs]) \<noteq> normalize_cycle (ys @ [hd ys])" unfolding closed .
  then show "compare_cycles (Some [xs @ [hd xs]]) (Some [ys @ [hd ys]])
       [normalize_cycle (ys @ [hd ys])] [normalize_cycle (xs @ [hd xs])] = ([ys @ [hd ys]], [xs @ [hd xs]])"
    by (rule compare_single_cycles)
qed

lemma cycle_key_identifies_witness:
  "normalize_cycle [''b'', ''c''] = normalize_cycle [''c'', ''b''] \<and>
   normalize_cycle [''b'', ''c'', ''b''] \<noteq> normalize_cycle [''c'', ''b'', ''c'']"
proof -
  have p: "plain_ids [''b'', ''c'']" "plain_ids [''c'', ''b'']" by (simp_all add: plain_ids_def)
  note k = cycle_key_identifies[OF p]
  have "\<exists>n. [''c'', ''b''] = rotate n [''b'', ''c'']" by (rule exI[of _ 1]) simp
  then have "normalize_cycle [''b'', ''c''] = normalize_cycle [''c'', ''b'']"
    by (rule iffD2[OF k[THEN conjunct1]])
  moreover have "normalize_cycle ([''b'', ''c''] @ [hd [''b'', ''c'']]) \<noteq> normalize_cycle ([''c'', ''b''] @ [hd [''c'', ''b'']])"
    unfolding k[THEN conjunct2, THEN conjunct1] by simp
  ultimately show ?thesis unfolding append.simps list.sel by (rule conjI)
qed

text \<open>Two graphs with the same cycle between the nodes 1 and 2, reported from different ends of it.\<close>

definition first_tracker :: compact_graph where
  "first_tracker = fold (\<lambda>(u, v). add_edge u v) [(0, 1), (1, 2), (2, 1), (2, 3), (3, 0)] (new_compact_graph 4)"

definition second_tracker :: compact_graph where
  "second_tracker = fold (\<lambda>(u, v). add_edge u v) [(0, 2), (1, 2), (2, 1), (1, 3), (3, 0)] (new_compact_graph 4)"

lemma same_cycle_two_starts:
  "find_one_cycle first_tracker [0, 1, 2, 3] = Some [1, 2, 1]"
  "find_one_cycle second_tracker [0, 1, 2, 3] = Some [2, 1, 2]"
proof -
  have adj: "scc_adjacency first_tracker [0, 1, 2, 3] = [(0, [1]), (1, [2]), (2, [1, 3]), (3, [0])]"
    "scc_adjacency second_tracker [0, 1, 2, 3] = [(0, [2]), (1, [2, 3]), (2, [1]), (3, [0])]"
    by code_simp+
  have s: "sort [0, 1, 2, 3 :: nat] = [0, 1, 2, 3]" by simp
  show "find_one_cycle first_tracker [0, 1, 2, 3] = Some [1, 2, 1]"
    "find_one_cycle second_tracker [0, 1, 2, 3] = Some [2, 1, 2]"
    unfolding find_one_cycle_def Let_def s adj
    by (simp_all add: dfs_start_def dfs_loop.simps dfs_step_def dfs_push_def Let_def mget_def mget_or_def mput_def)
qed

end
