(* ===== verification/Bv_Instance_Lock.thy ===== *)
theory Bv_Instance_Lock
  imports Go_Base
begin

text \<open>
  The instance lock of \<open>pkg/instance/lock.go\<close> as a transition system. Several processes share one lock
  path; an action of a process is one system call on the path together with the code up to the next one,
  so every interleaving of the real calls is a run. \<open>act a p s\<close> is the state after process \<open>p\<close> performs
  action \<open>a\<close>, or \<open>None\<close> where the code cannot do so.

  The path names a file (\<open>lp_path\<close>), files hold a record of their writer or nothing yet (\<open>lp_data\<close>); a
  write goes to the file that was opened, a rename or removal to the path. The owner ids are random
  128-bit numbers in the code and fresh numbers here. Failures of the file system and of the random
  source, the age of an unreadable file and crashes are actions of the environment. The host name and
  the start time in the record are never read back and are left out.
\<close>

section \<open>State\<close>

type_synonym pid = nat

datatype file_data = Unreadable | LockInfo (info_pid: pid) (info_owner: nat)

datatype location =
    Start | Created nat | Existing | Stale_check | Stat_file | Take_over | Verify nat | Ready | Removing | Gone

record lock =
  lk_first :: bool
  lk_pid :: pid
  lk_owner :: nat

record lock_state =
  lp_path :: "nat option"
  lp_data :: "nat \<Rightarrow> file_data"
  lp_fresh :: nat
  lp_alive :: "pid \<Rightarrow> bool"
  lp_at :: "pid \<Rightarrow> location"
  lp_lock :: "pid \<Rightarrow> lock"

datatype action =
    Open_file | Open_fails | Write_info | Write_fails bool | Read_file | Check_stale | Check_age bool
  | Rename_file | Rename_fails | Verify_file | Release_lock | Remove_file | Remove_fails | Crash

definition zero_lock :: lock where
  "zero_lock = \<lparr>lk_first = False, lk_pid = 0, lk_owner = 0\<rparr>"

definition start_state :: lock_state where
  "start_state = \<lparr>lp_path = None, lp_data = (\<lambda>_. Unreadable), lp_fresh = 1, lp_alive = (\<lambda>_. True),
     lp_at = (\<lambda>_. Start), lp_lock = (\<lambda>_. zero_lock)\<rparr>"

text \<open>\<open>readLockFile\<close>: \<open>None\<close> for a missing or unreadable file.\<close>

definition read_lock_file :: "lock_state \<Rightarrow> (pid \<times> nat) option" where
  "read_lock_file s =
     (case lp_path s of None \<Rightarrow> None
      | Some i \<Rightarrow> (case lp_data s i of Unreadable \<Rightarrow> None | LockInfo q ow \<Rightarrow> Some (q, ow)))"

lemma read_lock_file_local [simp]:
  "read_lock_file (s\<lparr>lp_at := f\<rparr>) = read_lock_file s" "read_lock_file (s\<lparr>lp_lock := g\<rparr>) = read_lock_file s"
  by (simp_all add: read_lock_file_def cong: option.case_cong)

abbreviation goto :: "pid \<Rightarrow> location \<Rightarrow> lock_state \<Rightarrow> lock_state" where
  "goto p l s \<equiv> s\<lparr>lp_at := (lp_at s)(p := l)\<rparr>"

abbreviation set_lock :: "pid \<Rightarrow> lock \<Rightarrow> lock_state \<Rightarrow> lock_state" where
  "set_lock p l s \<equiv> s\<lparr>lp_lock := (lp_lock s)(p := l)\<rparr>"

section \<open>NewLock\<close>

text \<open>The exclusive creation of the lock file.\<close>

definition open_file :: "pid \<Rightarrow> lock_state \<Rightarrow> lock_state" where
  "open_file p s =
     (case lp_path s of
        None \<Rightarrow> (let i = lp_fresh s in
          goto p (Created i) (s\<lparr>lp_path := Some i, lp_data := (lp_data s)(i := Unreadable), lp_fresh := i + 1\<rparr>))
      | Some i \<Rightarrow> goto p Existing s)"

text \<open>The creator writes its record into the file it opened.\<close>

definition write_lock_info :: "pid \<Rightarrow> nat \<Rightarrow> lock_state \<Rightarrow> lock_state" where
  "write_lock_info p i s =
     (let ow = lp_fresh s in
      goto p Ready (set_lock p \<lparr>lk_first = True, lk_pid = p, lk_owner = ow\<rparr>
        (s\<lparr>lp_data := (lp_data s)(i := LockInfo p ow), lp_fresh := ow + 1\<rparr>)))"

text \<open>If the owner id or the write fails, the path is removed again; if that fails, too, the unreadable file stays.\<close>

definition write_fails :: "pid \<Rightarrow> bool \<Rightarrow> lock_state \<Rightarrow> lock_state" where
  "write_fails p removed s = goto p Gone (if removed then s\<lparr>lp_path := None\<rparr> else s)"

text \<open>The file exists: its holder is noted, if it can be read, before the check for a stale lock.\<close>

definition read_existing :: "pid \<Rightarrow> lock_state \<Rightarrow> lock_state" where
  "read_existing p s =
     goto p Stale_check (set_lock p
       (case read_lock_file s of None \<Rightarrow> zero_lock | Some (q, ow) \<Rightarrow> zero_lock\<lparr>lk_pid := q\<rparr>) s)"

section \<open>Stale locks\<close>

definition check_stale :: "pid \<Rightarrow> lock_state \<Rightarrow> lock_state" where
  "check_stale p s =
     (case read_lock_file s of
        None \<Rightarrow> goto p Stat_file s
      | Some (q, ow) \<Rightarrow>
        if lp_alive s q then goto p Ready (set_lock p ((lp_lock s p)\<lparr>lk_pid := q\<rparr>) s) else goto p Take_over s)"

text \<open>\<open>shouldTakeOverUnreadableLock\<close>: a file that is missing is never taken over, any other only if it
  is old, which the environment decides.\<close>

definition check_age :: "pid \<Rightarrow> bool \<Rightarrow> lock_state \<Rightarrow> lock_state" where
  "check_age p old s = (if lp_path s = None \<or> \<not> old then goto p Ready s else goto p Take_over s)"

text \<open>A complete file of the process replaces the lock file in one step.\<close>

definition rename_file :: "pid \<Rightarrow> lock_state \<Rightarrow> lock_state" where
  "rename_file p s =
     (let i = lp_fresh s; ow = i + 1 in
      goto p (Verify ow) (s\<lparr>lp_path := Some i, lp_data := (lp_data s)(i := LockInfo p ow), lp_fresh := i + 2\<rparr>))"

definition verify_file :: "pid \<Rightarrow> nat \<Rightarrow> lock_state \<Rightarrow> lock_state" where
  "verify_file p ow s =
     (if read_lock_file s = Some (p, ow)
      then goto p Ready (set_lock p \<lparr>lk_first = True, lk_pid = p, lk_owner = ow\<rparr> s)
      else goto p Ready s)"

section \<open>Release\<close>

definition owns_current_lock_file :: "pid \<Rightarrow> lock_state \<Rightarrow> bool" where
  "owns_current_lock_file p s \<longleftrightarrow>
     (case read_lock_file s of None \<Rightarrow> False
      | Some (q, ow) \<Rightarrow> q = lk_pid (lp_lock s p) \<and> ow = lk_owner (lp_lock s p))"

definition release_lock :: "pid \<Rightarrow> lock_state \<Rightarrow> lock_state" where
  "release_lock p s =
     (if lk_first (lp_lock s p) \<and> owns_current_lock_file p s then goto p Removing s
      else goto p Gone (set_lock p ((lp_lock s p)\<lparr>lk_first := False\<rparr>) s))"

definition remove_file :: "pid \<Rightarrow> lock_state \<Rightarrow> lock_state" where
  "remove_file p s = goto p Gone (set_lock p ((lp_lock s p)\<lparr>lk_first := False\<rparr>) (s\<lparr>lp_path := None\<rparr>))"

section \<open>Runs\<close>

definition act :: "action \<Rightarrow> pid \<Rightarrow> lock_state \<Rightarrow> lock_state option" where
  "act a p s =
     (if \<not> lp_alive s p then None
      else case (a, lp_at s p) of
        (Open_file, Start) \<Rightarrow> Some (open_file p s)
      | (Open_fails, Start) \<Rightarrow> Some (goto p Gone s)
      | (Write_info, Created i) \<Rightarrow> Some (write_lock_info p i s)
      | (Write_fails removed, Created i) \<Rightarrow> Some (write_fails p removed s)
      | (Read_file, Existing) \<Rightarrow> Some (read_existing p s)
      | (Check_stale, Stale_check) \<Rightarrow> Some (check_stale p s)
      | (Check_age old, Stat_file) \<Rightarrow> Some (check_age p old s)
      | (Rename_file, Take_over) \<Rightarrow> Some (rename_file p s)
      | (Rename_fails, Take_over) \<Rightarrow> Some (goto p Ready s)
      | (Verify_file, Verify ow) \<Rightarrow> Some (verify_file p ow s)
      | (Release_lock, Ready) \<Rightarrow> Some (release_lock p s)
      | (Remove_file, Removing) \<Rightarrow> Some (remove_file p s)
      | (Remove_fails, Removing) \<Rightarrow> Some (goto p Gone (set_lock p ((lp_lock s p)\<lparr>lk_first := False\<rparr>) s))
      | (Crash, _) \<Rightarrow> Some (s\<lparr>lp_alive := (lp_alive s)(p := False)\<rparr>)
      | _ \<Rightarrow> None)"

fun run_actions :: "(action \<times> pid) list \<Rightarrow> lock_state \<Rightarrow> lock_state option" where
  "run_actions [] s = Some s"
| "run_actions ((a, p) # as) s = (case act a p s of None \<Rightarrow> None | Some s' \<Rightarrow> run_actions as s')"

text \<open>
  Two takeovers overlap when a process decides to take over a lock while another one is between that
  decision and its verification. A file that is taken over for its age is abandoned when it is still
  unreadable at the time its age is tested and no live process has created it and not written it yet.
  The code ensures neither: its verification is meant to handle the first, and the two-second grace
  period the second, but the file that is tested need not be the one that could not be read. \<open>careful\<close>
  runs have both; the lemmas \<open>overlapping_takeovers\<close> and \<open>age_check_takes_live_lock\<close> show what happens
  without.
\<close>

definition taking_over :: "lock_state \<Rightarrow> pid \<Rightarrow> bool" where
  "taking_over s q \<longleftrightarrow> lp_alive s q \<and> (lp_at s q = Take_over \<or> (\<exists>ow. lp_at s q = Verify ow))"

definition abandoned :: "lock_state \<Rightarrow> bool" where
  "abandoned s \<longleftrightarrow> read_lock_file s = None \<and>
     (\<forall>q i. lp_path s = Some i \<longrightarrow> lp_at s q = Created i \<longrightarrow> \<not> lp_alive s q)"

definition careful :: "action \<Rightarrow> pid \<Rightarrow> lock_state \<Rightarrow> bool" where
  "careful a p s \<longleftrightarrow>
     (a = Check_stale \<or> a = Check_age True \<longrightarrow> (\<forall>q. \<not> taking_over s q)) \<and>
     (a = Check_age True \<and> lp_path s \<noteq> None \<longrightarrow> abandoned s)"

inductive careful_run :: "lock_state \<Rightarrow> bool" where
  careful_run_start: "careful_run start_state"
| careful_run_step: "careful_run s \<Longrightarrow> careful a p s \<Longrightarrow> act a p s = Some s' \<Longrightarrow> careful_run s'"

section \<open>The invariant of careful runs\<close>















section \<open>Every careful step keeps the invariant\<close>

















inductive_cases careful_runE: "careful_run s"

section \<open>One process alone\<close>



section \<open>The race between two takeovers\<close>

text \<open>
  Processes 1 and 2 both find the record of the dead process 0. Process 1 renames its file into place and
  verifies it; then process 2 does the same. Both verifications succeed and both processes are first:
  re-reading the file only detects a rename that happens between a rename and its own verification.
\<close>

definition race :: "(action \<times> pid) list" where
  "race = [(Open_file, 0), (Write_info, 0), (Crash, 0),
     (Open_file, 1), (Read_file, 1), (Check_stale, 1), (Open_file, 2), (Read_file, 2), (Check_stale, 2),
     (Rename_file, 1), (Verify_file, 1), (Rename_file, 2), (Verify_file, 2)]"

lemma overlapping_takeovers:
  "\<exists>s. run_actions race start_state = Some s \<and> lp_alive s 1 \<and> lp_alive s 2 \<and>
     lk_first (lp_lock s 1) \<and> lk_first (lp_lock s 2) \<and> read_lock_file s \<noteq> Some (1, lk_owner (lp_lock s 1))"
  by (simp add: race_def start_state_def act_def open_file_def write_lock_info_def read_existing_def
      check_stale_def rename_file_def verify_file_def read_lock_file_def zero_lock_def Let_def)

text \<open>
  A single takeover suffices, too, when the file changes hands between the attempt to read it and the test of
  its age. Process 0 releases the lock after process 1 has failed to create it, so process 1 finds no file
  to read; process 2 creates the lock and holds it, and more than two seconds later process 1 stats the
  path, finds the file old, and takes it over from the live process 2.
\<close>

definition late_age_check :: "(action \<times> pid) list" where
  "late_age_check = [(Open_file, 0), (Write_info, 0), (Open_file, 1), (Read_file, 1), (Release_lock, 0), (Remove_file, 0),
     (Check_stale, 1), (Open_file, 2), (Write_info, 2), (Check_age True, 1), (Rename_file, 1), (Verify_file, 1)]"

lemma age_check_takes_live_lock:
  "\<exists>s. run_actions late_age_check start_state = Some s \<and> lp_alive s 1 \<and> lp_alive s 2 \<and>
     lk_first (lp_lock s 1) \<and> lk_first (lp_lock s 2) \<and> read_lock_file s \<noteq> Some (2, lk_owner (lp_lock s 2))"
  by (simp add: late_age_check_def start_state_def act_def open_file_def write_lock_info_def read_existing_def
      check_stale_def check_age_def rename_file_def verify_file_def release_lock_def owns_current_lock_file_def
      remove_file_def read_lock_file_def zero_lock_def Let_def)

section \<open>Property\<close>







end
