(* ===== verification/Bv_Recipe.thy ===== *)
theory Bv_Recipe
  imports Bv_Analyzer
begin

text \<open>
  Recipes, \<open>pkg/recipe/types.go\<close> and \<open>pkg/recipe/apply.go\<close>: validation, filters, the sort chain and the
  limit. The calendar arithmetic and the layout parser of Go's \<open>time\<close> package, which depend on the
  location of the machine, are the fields of \<open>time_lib\<close>. Graph and triage scores are values of any linear
  order with a zero (floating-point numbers other than NaN). Case folding is that of ASCII.
\<close>

section \<open>Recipes\<close>

datatype sort_config = Sort_Config
  (sc_field: string) (sc_direction: string) (sc_secondary: "sort_config option")

record filter_config =
  f_status :: "string list"
  f_priority :: "int list"
  f_tags :: "string list"
  f_exclude_tags :: "string list"
  f_created_after :: string
  f_created_before :: string
  f_updated_after :: string
  f_updated_before :: string
  f_has_blockers :: "bool option"
  f_actionable :: "bool option"
  f_title_contains :: string
  f_id_prefix :: string

record view_config =
  v_columns :: "string list"
  v_show_graph :: bool
  v_show_metrics :: bool
  v_group_by :: string
  v_collapsed :: bool
  v_max_items :: int
  v_truncate_title :: int

record recipe =
  rc_name :: string
  rc_description :: string
  rc_filters :: filter_config
  rc_sort :: sort_config
  rc_view :: view_config
  rc_export_format :: string
  rc_metrics :: "string list"

definition known_sort_fields :: "string list" where
  "known_sort_fields = [''priority'', ''created'', ''updated'', ''title'', ''id'', ''status'',
     ''pagerank'', ''betweenness'', ''impact'', ''triage'']"

definition canonical_sort_field :: "string \<Rightarrow> string \<times> bool" where
  "canonical_sort_field field =
     (let f = to_lower (trim_space field);
          f = (if f = ''created_at'' then ''created'' else if f = ''updated_at'' then ''updated'' else f)
      in (f, f \<in> set known_sort_fields))"

definition is_graph_metric_field :: "string \<Rightarrow> bool" where
  "is_graph_metric_field field \<longleftrightarrow> field = ''pagerank'' \<or> field = ''betweenness'' \<or> field = ''impact''"

fun sort_chain :: "sort_config \<Rightarrow> sort_config list" where
  "sort_chain (Sort_Config f d sec) =
     (if trim_space f \<noteq> [] then [Sort_Config f d sec] else []) @
     (case sec of None \<Rightarrow> [] | Some s \<Rightarrow> sort_chain s)"

definition needs_graph_metrics :: "recipe \<Rightarrow> bool" where
  "needs_graph_metrics r \<longleftrightarrow> list_ex (\<lambda>s. case canonical_sort_field (sc_field s) of
     (f, ok) \<Rightarrow> ok \<and> is_graph_metric_field f) (sort_chain (rc_sort r))"

definition needs_triage_scores :: "recipe \<Rightarrow> bool" where
  "needs_triage_scores r \<longleftrightarrow> list_ex (\<lambda>s. case canonical_sort_field (sc_field s) of
     (f, ok) \<Rightarrow> ok \<and> f = ''triage'') (sort_chain (rc_sort r))"

section \<open>Time filters\<close>

record time_lib =
  add_date :: "time \<Rightarrow> int \<Rightarrow> int \<Rightarrow> int \<Rightarrow> time"
  parse_in_location :: "string \<Rightarrow> string \<Rightarrow> time option"

definition digit :: "char \<Rightarrow> bool" where
  "digit c \<longleftrightarrow> CHR ''0'' \<le> c \<and> c \<le> CHR ''9''"

definition digits_value :: "string \<Rightarrow> int" where
  "digits_value s = fold (\<lambda>c n. n * 10 + (of_char c - 48)) s 0"

abbreviation max_int64 :: int where
  "max_int64 \<equiv> 9223372036854775807"

definition wrap64 :: "int \<Rightarrow> int" where
  "wrap64 i = (i + 9223372036854775808) mod 18446744073709551616 - 9223372036854775808"

text \<open>The pattern \<open>^(\d+)([dwmy])$\<close>; an overflowing number keeps the value \<open>Atoi\<close> returns with its error.\<close>

definition relative_time :: "string \<Rightarrow> (int \<times> char) option" where
  "relative_time s =
     (if s \<noteq> [] \<and> last s \<in> set ''dwmy'' \<and> butlast s \<noteq> [] \<and> list_all digit (butlast s)
      then Some (min (digits_value (butlast s)) max_int64, last s) else None)"

definition time_layouts :: "string list" where
  "time_layouts = [''2006-01-02T15:04:05Z07:00'', ''2006-01-02T15:04:05'', ''2006-01-02'']"

fun first_layout :: "time_lib \<Rightarrow> string list \<Rightarrow> string \<Rightarrow> time option" where
  "first_layout lib [] s = None"
| "first_layout lib (f # fs) s =
     (case parse_in_location lib f s of Some t \<Rightarrow> Some t | None \<Rightarrow> first_layout lib fs s)"

definition parse_relative_time :: "time_lib \<Rightarrow> string \<Rightarrow> time \<Rightarrow> string + time" where
  "parse_relative_time lib s now =
     (if s = [] then Inr 0
      else let s = trim_space s in
      case relative_time (to_lower s) of
        Some (n, unit) \<Rightarrow> Inr
          (if unit = CHR ''d'' then add_date lib now 0 0 (- n)
           else if unit = CHR ''w'' then add_date lib now 0 0 (wrap64 (- n * 7))
           else if unit = CHR ''m'' then add_date lib now 0 (- n) 0
           else add_date lib now (- n) 0 0)
      | None \<Rightarrow> (case first_layout lib time_layouts s of Some t \<Rightarrow> Inr t | None \<Rightarrow> Inl s))"

section \<open>Validation\<close>

datatype recipe_problem =
    UnknownSortField string | BadDirection string | BadTimeFilter string string | BlankStatus string
  | NegativeMaxItems int | NegativeTruncate | UnknownName string string | RepeatedName string string
  | BadGroupBy string | CollapsedWithoutGroups | BadFormat string

definition sort_problems :: "sort_config \<Rightarrow> recipe_problem list" where
  "sort_problems s =
     (if snd (canonical_sort_field (sc_field s)) then [] else [UnknownSortField (sc_field s)]) @
     (if to_lower (trim_space (sc_direction s)) \<in> {[], ''asc'', ''desc''} then []
      else [BadDirection (sc_direction s)])"

definition time_problems :: "time_lib \<Rightarrow> time \<Rightarrow> string \<times> string \<Rightarrow> recipe_problem list" where
  "time_problems lib now kv =
     (if snd kv = [] then []
      else case parse_relative_time lib (snd kv) now of Inl e \<Rightarrow> [BadTimeFilter (fst kv) e] | Inr t \<Rightarrow> [])"

fun name_problems :: "string \<Rightarrow> string list \<Rightarrow> string list \<Rightarrow> (string, bool) gomap \<Rightarrow> recipe_problem list" where
  "name_problems name known [] seen = []"
| "name_problems name known (v # vs) seen =
     (if v \<in> set known then [] else [UnknownName name v]) @
     (if mget_or False seen v then [RepeatedName name v] else []) @
     name_problems name known vs (mput v True seen)"

definition view_columns :: "string list" where
  "view_columns = [''id'', ''title'', ''status'', ''priority'', ''created'', ''updated'', ''tags'', ''blockers'']"

definition view_metrics :: "string list" where
  "view_metrics = [''pagerank'', ''betweenness'', ''impact'', ''triage'', ''hub'', ''authority'', ''eigenvector'',
     ''kcore'', ''slack'']"

definition validate_recipe :: "time_lib \<Rightarrow> time \<Rightarrow> recipe \<Rightarrow> recipe_problem list" where
  "validate_recipe lib now r =
     (let f = rc_filters r; v = rc_view r in
      concat (map sort_problems (sort_chain (rc_sort r))) @
      concat (map (time_problems lib now)
        [(''filters.created_after'', f_created_after f), (''filters.created_before'', f_created_before f),
         (''filters.updated_after'', f_updated_after f), (''filters.updated_before'', f_updated_before f)]) @
      concat (map (\<lambda>s. if status_is_valid (to_lower (trim_space s)) then [] else [BlankStatus s]) (f_status f)) @
      (if v_max_items v < 0 then [NegativeMaxItems (v_max_items v)] else []) @
      (if v_truncate_title v < 0 then [NegativeTruncate] else []) @
      name_problems ''view.columns'' view_columns (v_columns v) [] @
      name_problems ''metrics'' view_metrics (rc_metrics r) [] @
      (if v_group_by v \<in> {[], ''none'', ''status'', ''priority'', ''tag''} then [] else [BadGroupBy (v_group_by v)]) @
      (if v_collapsed v \<and> (v_group_by v = [] \<or> v_group_by v = ''none'') then [CollapsedWithoutGroups] else []) @
      (if rc_export_format r \<in> {[], ''markdown'', ''json'', ''csv'', ''mermaid''} then []
       else [BadFormat (rc_export_format r)]))"

section \<open>Filters\<close>

record thresholds =
  t_created_after :: time
  t_created_before :: time
  t_updated_after :: time
  t_updated_before :: time

definition parse_time_filter :: "time_lib \<Rightarrow> string \<Rightarrow> string \<Rightarrow> time \<Rightarrow> (string \<times> string) + time" where
  "parse_time_filter lib key value now =
     (if value = [] then Inr 0
      else case parse_relative_time lib value now of Inl e \<Rightarrow> Inl (key, e) | Inr t \<Rightarrow> Inr t)"

definition parse_time_filters :: "time_lib \<Rightarrow> filter_config \<Rightarrow> time \<Rightarrow> (string \<times> string) + thresholds" where
  "parse_time_filters lib f now =
     (case parse_time_filter lib ''created_after'' (f_created_after f) now of Inl e \<Rightarrow> Inl e | Inr ca \<Rightarrow>
      (case parse_time_filter lib ''created_before'' (f_created_before f) now of Inl e \<Rightarrow> Inl e | Inr cb \<Rightarrow>
      (case parse_time_filter lib ''updated_after'' (f_updated_after f) now of Inl e \<Rightarrow> Inl e | Inr ua \<Rightarrow>
      (case parse_time_filter lib ''updated_before'' (f_updated_before f) now of Inl e \<Rightarrow> Inl e | Inr ub \<Rightarrow>
      Inr \<lparr>t_created_after = ca, t_created_before = cb, t_updated_after = ua, t_updated_before = ub\<rparr>))))"

definition matches_times :: "thresholds \<Rightarrow> issue \<Rightarrow> bool" where
  "matches_times t i =
     (if t_created_after t \<noteq> 0 \<and> created_at i \<noteq> 0 \<and> created_at i < t_created_after t then False
      else if t_created_before t \<noteq> 0 \<and> created_at i \<noteq> 0 \<and> created_at i > t_created_before t then False
      else if t_updated_after t \<noteq> 0 \<and> updated_at i \<noteq> 0 \<and> updated_at i < t_updated_after t then False
      else if t_updated_before t \<noteq> 0 \<and> updated_at i \<noteq> 0 \<and> updated_at i > t_updated_before t then False
      else True)"

definition matches_status :: "issue \<Rightarrow> string list \<Rightarrow> bool" where
  "matches_status i statuses =
     (if length statuses = 0 then True else list_ex (\<lambda>s. equal_fold (status i) (trim_space s)) statuses)"

definition matches_priority :: "issue \<Rightarrow> int list \<Rightarrow> bool" where
  "matches_priority i ps = (if length ps = 0 then True else list_ex (\<lambda>p. priority i = p) ps)"

definition has_label :: "issue \<Rightarrow> string \<Rightarrow> bool" where
  "has_label i tag = list_ex (\<lambda>l. equal_fold l tag) (labels i)"

definition has_all_tags :: "issue \<Rightarrow> string list \<Rightarrow> bool" where
  "has_all_tags i tags = list_all (has_label i) tags"

definition has_any_tag :: "issue \<Rightarrow> string list \<Rightarrow> bool" where
  "has_any_tag i tags = list_ex (has_label i) tags"

fun contains :: "string \<Rightarrow> string \<Rightarrow> bool" where
  "contains [] p = has_prefix [] p"
| "contains (c # s) p = (has_prefix (c # s) p \<or> contains s p)"

definition keep_issue :: "filter_config \<Rightarrow> thresholds \<Rightarrow> readiness_index \<Rightarrow> time \<Rightarrow> issue \<Rightarrow> bool" where
  "keep_issue f t idx now i =
     (if \<not> matches_status i (f_status f) \<or> \<not> matches_priority i (f_priority f) \<or> \<not> has_all_tags i (f_tags f) \<or>
         has_any_tag i (f_exclude_tags f) \<or> \<not> matches_times t i then False
      else if (case f_has_blockers f of None \<Rightarrow> False
               | Some b \<Rightarrow> b \<noteq> (dependency_state idx (issue_id i) \<noteq> DepSatisfied)) then False
      else if (case f_actionable f of None \<Rightarrow> False | Some b \<Rightarrow> b \<noteq> ready idx (issue_id i) now) then False
      else if f_title_contains f \<noteq> [] \<and> \<not> contains (to_lower (title i)) (to_lower (f_title_contains f)) then False
      else if f_id_prefix f \<noteq> [] \<and> \<not> has_prefix (issue_id i) (f_id_prefix f) then False
      else True)"

text \<open>\<open>clock\<close> is \<open>time.Now()\<close>, used when \<open>now\<close> is the zero time. A readiness index that is not supplied
  is built from the issues.\<close>

definition filter_issues ::
  "time_lib \<Rightarrow> time \<Rightarrow> issue list \<Rightarrow> recipe option \<Rightarrow> time \<Rightarrow> readiness_index option \<Rightarrow> (string \<times> string) + issue list" where
  "filter_issues lib clock issues r now idx =
     (case r of None \<Rightarrow> Inr issues | Some r \<Rightarrow>
      let now = (if now = 0 then clock else now) in
      (case parse_time_filters lib (rc_filters r) now of Inl e \<Rightarrow> Inl e | Inr t \<Rightarrow>
         let idx = (case idx of Some x \<Rightarrow> x | None \<Rightarrow> index_of_issues issues)
         in Inr (filter (keep_issue (rc_filters r) t idx now) issues)))"

section \<open>Sorting\<close>

record 's graph_metrics =
  g_pagerank :: "string \<Rightarrow> 's"
  g_betweenness :: "string \<Rightarrow> 's"
  g_critical_path :: "string \<Rightarrow> 's"

record 's metrics =
  m_graph :: "'s graph_metrics option"
  m_triage :: "(string, 's) gomap option"
  m_readiness :: "readiness_index option"

definition metric_score :: "('s::zero) metrics \<Rightarrow> string \<Rightarrow> string \<Rightarrow> 's" where
  "metric_score m field iid =
     (if field = ''pagerank'' then (case m_graph m of Some g \<Rightarrow> g_pagerank g iid | None \<Rightarrow> 0)
      else if field = ''betweenness'' then (case m_graph m of Some g \<Rightarrow> g_betweenness g iid | None \<Rightarrow> 0)
      else if field = ''impact'' then (case m_graph m of Some g \<Rightarrow> g_critical_path g iid | None \<Rightarrow> 0)
      else if field = ''triage'' then (case m_triage m of Some t \<Rightarrow> mget_or 0 t iid | None \<Rightarrow> 0)
      else 0)"

definition sort_descending :: "string \<Rightarrow> string \<Rightarrow> bool" where
  "sort_descending field direction =
     (let d = to_lower (trim_space direction) in
      if d = ''desc'' then True else if d = ''asc'' then False
      else field \<in> {''created'', ''updated'', ''pagerank'', ''betweenness'', ''impact'', ''triage''})"

definition compare_values :: "'a::linorder \<Rightarrow> 'a \<Rightarrow> int" where
  "compare_values a b = (if a < b then -1 else if a > b then 1 else 0)"

text \<open>An id is split before its trailing digits; a number beyond 64 bits counts as no number.\<close>

definition split_id :: "string \<Rightarrow> (string \<times> int) option" where
  "split_id s =
     (let ds = rev (takeWhile digit (rev s)) in
      if ds = [] \<or> digits_value ds > max_int64 then None
      else Some (take (length s - length ds) s, digits_value ds))"

definition natural_less :: "string \<Rightarrow> string \<Rightarrow> bool" where
  "natural_less a b =
     (case (split_id a, split_id b) of
        (Some (p, n), Some (q, m)) \<Rightarrow> if p = q then n < m else a < b
      | _ \<Rightarrow> a < b)"

definition compare_issues :: "('s::{linorder,zero}) metrics \<Rightarrow> string \<Rightarrow> issue \<Rightarrow> issue \<Rightarrow> int" where
  "compare_issues m field a b =
     (if field = ''priority'' then compare_values (priority a) (priority b)
      else if field = ''created'' then compare_values (created_at a) (created_at b)
      else if field = ''updated'' then compare_values (updated_at a) (updated_at b)
      else if field = ''title'' then compare_values (to_lower (title a)) (to_lower (title b))
      else if field = ''id'' then
        (if natural_less (issue_id a) (issue_id b) then -1 else if natural_less (issue_id b) (issue_id a) then 1 else 0)
      else if field = ''status'' then compare_values (status a) (status b)
      else if field \<in> {''pagerank'', ''betweenness'', ''impact'', ''triage''}
      then compare_values (metric_score m field (issue_id a)) (metric_score m field (issue_id b))
      else 0)"

definition sort_level :: "sort_config \<Rightarrow> string \<times> bool" where
  "sort_level s = (let field = fst (canonical_sort_field (sc_field s)) in (field, sort_descending field (sc_direction s)))"

fun chain_less :: "('s::{linorder,zero}) metrics \<Rightarrow> (string \<times> bool) list \<Rightarrow> issue \<Rightarrow> issue \<Rightarrow> bool" where
  "chain_less m [] a b = natural_less (issue_id a) (issue_id b)"
| "chain_less m ((field, desc) # ls) a b =
     (let cmp = compare_issues m field a b in
      if cmp = 0 then chain_less m ls a b else if desc then cmp > 0 else cmp < 0)"

definition sort_issues :: "('s::{linorder,zero}) metrics \<Rightarrow> recipe \<Rightarrow> issue list \<Rightarrow> issue list" where
  "sort_issues m r issues =
     (let chain = sort_chain (rc_sort r) in
      if length chain = 0 then issues else sort_by (chain_less m (map sort_level chain)) issues)"

definition apply_recipe ::
  "time_lib \<Rightarrow> time \<Rightarrow> issue list \<Rightarrow> ('s::{linorder,zero}) metrics \<Rightarrow> recipe option \<Rightarrow> time \<Rightarrow>
     (string \<times> string) + issue list" where
  "apply_recipe lib clock issues m r now =
     (case r of None \<Rightarrow> Inr issues | Some rc \<Rightarrow>
      (case filter_issues lib clock issues r now (m_readiness m) of Inl e \<Rightarrow> Inl e | Inr filtered \<Rightarrow>
         let sorted = sort_issues m rc filtered in
         Inr (if v_max_items (rc_view rc) > 0 \<and> int (length sorted) > v_max_items (rc_view rc)
              then take (nat (v_max_items (rc_view rc))) sorted else sorted)))"

end
