(* ===== verification/Bv_Recipe_Props.thy ===== *)
theory Bv_Recipe_Props
  imports Bv_Recipe Bv_Analyzer_Props "HOL-Library.Product_Lexorder"
begin

text \<open>
  What a recipe selects and in which order. The three-way comparisons of the sort chain share the
  contract \<open>compare_contract\<close>; chains of them keep it, and it gives the contract of \<open>sort.SliceStable\<close>.
  The last comparison, natural order of ids, is an order only on families of ids that \<open>natural_ids\<close>
  describes; \<open>natural_less_cyclic\<close> and \<open>natural_less_tie\<close> show what happens outside of them.
\<close>

section \<open>Three-way comparisons\<close>

locale compare_contract =
  fixes c :: "'a \<Rightarrow> 'a \<Rightarrow> int"
  assumes sym: "c b a > 0 \<longleftrightarrow> c a b < 0"
    and trans: "c a b \<le> 0 \<Longrightarrow> c b d \<le> 0 \<Longrightarrow> c a d \<le> 0"
begin

lemma zero_sym: "c a b = 0 \<longleftrightarrow> c b a = 0"
  using sym[of a b] sym[of b a] by linarith

lemma le_sym: "c a b \<le> 0 \<longleftrightarrow> c b a \<ge> 0"
  using sym[of a b] sym[of b a] zero_sym[of a b] by linarith

lemma less_contract: "less_contract (\<lambda>a b. c a b < 0)"
proof (unfold_locales, goal_cases)
  case (1 x)
  show ?case using sym[of x x] by linarith
next
  case (2 x y z)
  note xy = 2(1) and yz = 2(2)
  show ?case
  proof (rule ccontr)
    assume "\<not> c x z < 0"
    then have "c z x \<le> 0" using le_sym[of z x] by simp
    then have "c z y \<le> 0" using trans[of z x y] xy by simp
    then show False using yz sym[of z y] by simp
  qed
next
  case (3 x z y)
  note xz = 3
  show ?case
  proof (rule ccontr)
    assume "\<not> (c x y < 0 \<or> c y z < 0)"
    then have "c z y \<le> 0" "c y x \<le> 0" using le_sym[of z y] le_sym[of y x] by simp_all
    then have "c z x \<le> 0" by (rule trans)
    then show False using xz sym[of z x] by simp
  qed
qed

end

sublocale compare_contract \<subseteq> less_contract "\<lambda>a b. c a b < 0"
  by (rule less_contract)

lemma compare_key: "compare_contract (\<lambda>a b. compare_values (key a) (key b))"
  by unfold_locales (auto simp: compare_values_def split: if_splits)

lemma compare_reverse:
  assumes "compare_contract c"
  shows "compare_contract (\<lambda>a b. - c a b)"
proof
  show "- c b a > 0 \<longleftrightarrow> - c a b < 0" for a b
    using compare_contract.sym[OF assms, of a b] by simp
  show "- c a b \<le> 0 \<Longrightarrow> - c b d \<le> 0 \<Longrightarrow> - c a d \<le> 0" for a b d
    using compare_contract.le_sym[OF assms] compare_contract.trans[OF assms, of d b a] by simp
qed

lemma compare_lex:
  assumes c: "compare_contract c" and d: "compare_contract d"
  shows "compare_contract (\<lambda>a b. if c a b = 0 then d a b else c a b)"
proof
  note z = compare_contract.zero_sym[OF c]
  show "(if c b a = 0 then d b a else c b a) > 0 \<longleftrightarrow> (if c a b = 0 then d a b else c a b) < 0" for a b
    using compare_contract.sym[OF c, of b a] compare_contract.sym[OF d, of b a] z[of a b] by simp
  fix a b e
  assume ab: "(if c a b = 0 then d a b else c a b) \<le> 0" and be: "(if c b e = 0 then d b e else c b e) \<le> 0"
  have le: "c a b \<le> 0" "c b e \<le> 0" using ab be by (auto split: if_splits)
  then have ae: "c a e \<le> 0" by (rule compare_contract.trans[OF c])
  show "(if c a e = 0 then d a e else c a e) \<le> 0"
  proof (cases "c a e = 0")
    case True
    have "c e a \<le> 0" using True z[of a e] by simp
    then have "c b a \<le> 0" "c e b \<le> 0"
      using le compare_contract.trans[OF c, of b e a] compare_contract.trans[OF c, of e a b] by blast+
    then have "c a b = 0" "c b e = 0"
      using le compare_contract.le_sym[OF c] by (meson antisym)+
    then show ?thesis using True ab be compare_contract.trans[OF d, of a b e] by simp
  qed (use ae in simp)
qed

lemma compare_if:
  "compare_contract c \<Longrightarrow> compare_contract d \<Longrightarrow> compare_contract (\<lambda>a b. if P then c a b else d a b)"
  by (cases P) simp_all

text \<open>The comparisons of the code.\<close>

interpretation priority_order: compare_contract "\<lambda>a b. compare_values (priority a) (priority b)"
  by (rule compare_key)

interpretation title_order: compare_contract "\<lambda>a b. compare_values (to_lower (title a)) (to_lower (title b))"
  by (rule compare_key)

section \<open>Natural order of ids\<close>

definition natural_key :: "string \<Rightarrow> string \<times> int" where
  "natural_key x = (case split_id x of Some (p, n) \<Rightarrow> (p, n + 1) | None \<Rightarrow> (x, 0))"

definition natural_ids :: "string set \<Rightarrow> bool" where
  "natural_ids S \<longleftrightarrow> inj_on natural_key S \<and>
     (\<forall>x \<in> S. \<forall>y \<in> S. fst (natural_key x) \<noteq> fst (natural_key y) \<longrightarrow>
        \<not> has_prefix (fst (natural_key x)) (fst (natural_key y)))"

lemma digits_value_nonneg: "list_all digit s \<Longrightarrow> 0 \<le> digits_value s"
proof -
  have d: "(48 :: int) \<le> of_char c" if "digit c" for c
  proof -
    have "(48 :: nat) \<le> of_char c" using that by (simp add: digit_def less_eq_char_def)
    then have "int 48 \<le> int (of_char c)" by (simp only: zle_int)
    then show ?thesis by (simp only: of_nat_of_char of_nat_numeral)
  qed
  have "list_all digit s \<Longrightarrow> 0 \<le> n \<Longrightarrow> 0 \<le> fold (\<lambda>c n. n * 10 + (of_char c - 48)) s (n :: int)" for n
  proof (induction s arbitrary: n)
    case (Cons c s)
    then show ?case using Cons.IH[of "n * 10 + (of_char c - 48)"] d[of c] by simp
  qed simp
  then show "list_all digit s \<Longrightarrow> 0 \<le> digits_value s" by (simp add: digits_value_def)
qed

lemma split_id_Some:
  assumes "split_id x = Some (p, n)"
  shows "\<exists>ds. x = p @ ds \<and> ds \<noteq> [] \<and> 0 \<le> n"
proof -
  let ?ds = "rev (takeWhile digit (rev x))"
  have e: "p = take (length x - length ?ds) x" "n = digits_value ?ds" "?ds \<noteq> []"
    using assms by (auto simp: split_id_def Let_def split: if_splits)
  have r: "x = rev (dropWhile digit (rev x)) @ ?ds"
    by (metis rev_append rev_rev_ident takeWhile_dropWhile_id)
  then have "p = rev (dropWhile digit (rev x))" unfolding e(1) by (metis add_diff_cancel_right' append_eq_conv_conj length_append)
  moreover have "list_all digit ?ds" by (auto simp: list_all_iff dest: set_takeWhileD)
  ultimately show ?thesis using r e digits_value_nonneg by metis
qed

lemma less_append: "ds \<noteq> [] \<Longrightarrow> x < x @ (ds :: string)"
  by (induction x) (auto simp: neq_Nil_conv)

lemma less_prefix_free:
  "\<not> has_prefix p q \<Longrightarrow> \<not> has_prefix q p \<Longrightarrow> p @ r < q @ s \<longleftrightarrow> p < (q :: string)"
proof (induction p arbitrary: q)
  case (Cons a p)
  then show ?case by (cases q) auto
qed simp

lemma natural_less_key:
  assumes S: "natural_ids S" and x: "x \<in> S" and y: "y \<in> S"
  shows "natural_less x y \<longleftrightarrow> natural_key x < natural_key y"
proof (cases "fst (natural_key x) = fst (natural_key y)")
  case True
  show ?thesis
  proof (cases "split_id x"; cases "split_id y")
    fix a b assume "split_id x = Some a" "split_id y = Some b"
    then show ?thesis using True by (cases a; cases b) (simp add: natural_less_def natural_key_def add1_zle_eq)
  next
    fix b assume n: "split_id x = None" "split_id y = Some b"
    then obtain q m where b: "b = (q, m)" by (cases b)
    obtain ds where ds: "y = x @ ds" "ds \<noteq> []" "0 \<le> m"
      using split_id_Some[of y q m] n b True by (auto simp: natural_key_def)
    then show ?thesis using n b True less_append[OF ds(2)] by (simp add: natural_less_def natural_key_def)
  next
    fix a assume n: "split_id x = Some a" "split_id y = None"
    then obtain q m where a: "a = (q, m)" by (cases a)
    obtain ds where ds: "x = y @ ds" "ds \<noteq> []" "0 \<le> m"
      using split_id_Some[of x q m] n a True by (auto simp: natural_key_def)
    then have "\<not> x < y" using less_append[OF ds(2), of y] by simp
    then show ?thesis using n a True ds(3) by (simp add: natural_less_def natural_key_def)
  next
    assume "split_id x = None" "split_id y = None"
    then show ?thesis using True by (simp add: natural_less_def natural_key_def)
  qed
next
  case False
  have pre: "\<exists>r. z = fst (natural_key z) @ r" for z
    using split_id_Some[of z] by (cases "split_id z") (auto simp: natural_key_def)
  obtain r s where rs: "x = fst (natural_key x) @ r" "y = fst (natural_key y) @ s" using pre by blast
  have "x < y \<longleftrightarrow> fst (natural_key x) < fst (natural_key y)"
    using less_prefix_free[of "fst (natural_key x)" "fst (natural_key y)" r s] S x y False rs
    unfolding natural_ids_def by metis
  moreover have "natural_less x y \<longleftrightarrow> x < y"
    using False by (auto simp: natural_less_def natural_key_def split: option.splits prod.splits)
  moreover have "natural_key x < natural_key y \<longleftrightarrow> fst (natural_key x) < fst (natural_key y)"
    using False by (simp add: less_prod_def')
  ultimately show ?thesis by simp
qed

text \<open>Ids that differ only in the case of the shape \<open>prefix-number\<close> and mixed shapes do not order.\<close>

lemma natural_less_cyclic:
  "natural_less ''bv-9'' ''bv-10'' \<and> natural_less ''bv-10'' ''bv-5z'' \<and> natural_less ''bv-5z'' ''bv-9''"
  by code_simp

lemma natural_less_tie: "\<not> natural_less ''bv-01'' ''bv-1'' \<and> \<not> natural_less ''bv-1'' ''bv-01''"
  by code_simp

section \<open>The sort chain\<close>

text \<open>The chain as one three-way comparison, with the natural keys in place of the natural order.\<close>

definition compare_level :: "('s::{linorder,zero}) metrics \<Rightarrow> string \<Rightarrow> issue \<Rightarrow> issue \<Rightarrow> int" where
  "compare_level m field a b =
     (if field = ''id'' then compare_values (natural_key (issue_id a)) (natural_key (issue_id b))
      else compare_issues m field a b)"

fun chain_compare :: "('s::{linorder,zero}) metrics \<Rightarrow> (string \<times> bool) list \<Rightarrow> issue \<Rightarrow> issue \<Rightarrow> int" where
  "chain_compare m [] a b = compare_values (natural_key (issue_id a)) (natural_key (issue_id b))"
| "chain_compare m ((field, desc) # ls) a b =
     (let c = (if desc then - compare_level m field a b else compare_level m field a b)
      in if c = 0 then chain_compare m ls a b else c)"

lemma level_contract: "compare_contract (compare_level m field)"
proof (cases "field = ''id''")
  case True
  then have "compare_level m field = (\<lambda>a b. compare_values (natural_key (issue_id a)) (natural_key (issue_id b)))"
    by (simp add: compare_level_def fun_eq_iff)
  then show ?thesis by (simp only: compare_key)
next
  case False
  have zero: "compare_contract (\<lambda>a b :: issue. 0)" by unfold_locales simp_all
  have eq: "compare_level m field = (\<lambda>a b.
      if field = ''priority'' then compare_values (priority a) (priority b)
      else if field = ''created'' then compare_values (created_at a) (created_at b)
      else if field = ''updated'' then compare_values (updated_at a) (updated_at b)
      else if field = ''title'' then compare_values (to_lower (title a)) (to_lower (title b))
      else if field = ''status'' then compare_values (status a) (status b)
      else if field \<in> {''pagerank'', ''betweenness'', ''impact'', ''triage''}
      then compare_values (metric_score m field (issue_id a)) (metric_score m field (issue_id b)) else 0)"
    using False by (simp add: compare_level_def compare_issues_def fun_eq_iff)
  show ?thesis unfolding eq by (intro compare_if compare_key zero)
qed

lemma chain_contract: "compare_contract (chain_compare m ls)"
proof (induction ls)
  case Nil
  have "chain_compare m [] = (\<lambda>a b. compare_values (natural_key (issue_id a)) (natural_key (issue_id b)))"
    by (simp add: fun_eq_iff)
  then show ?case by (simp only: compare_key)
next
  case (Cons l ls)
  obtain field desc where l: "l = (field, desc)" by (cases l)
  let ?c = "\<lambda>a b. if desc then - compare_level m field a b else compare_level m field a b"
  have "compare_contract ?c"
    using level_contract[of m field] compare_reverse[OF level_contract[of m field]] by (cases desc) simp_all
  from compare_lex[OF this Cons.IH]
  have "compare_contract (\<lambda>a b. if ?c a b = 0 then chain_compare m ls a b else ?c a b)" .
  moreover have "chain_compare m (l # ls) = (\<lambda>a b. if ?c a b = 0 then chain_compare m ls a b else ?c a b)"
    by (simp add: fun_eq_iff l Let_def)
  ultimately show ?case by (simp only:)
qed

lemma compare_values_sign: "compare_values a b < 0 \<longleftrightarrow> a < b" "compare_values a b > 0 \<longleftrightarrow> b < a" "compare_values a b = 0 \<longleftrightarrow> a = b"
  by (auto simp: compare_values_def)

lemma level_agrees:
  assumes "natural_ids S" "issue_id a \<in> S" "issue_id b \<in> S"
  shows "compare_issues m field a b = compare_level m field a b"
  using natural_less_key[OF assms] natural_less_key[OF assms(1,3,2)]
  by (simp add: compare_level_def compare_issues_def compare_values_def)

lemma chain_agrees:
  assumes "natural_ids S" "issue_id a \<in> S" "issue_id b \<in> S"
  shows "chain_less m ls a b \<longleftrightarrow> chain_compare m ls a b < 0"
proof (induction ls)
  case Nil
  then show ?case using natural_less_key[OF assms] by (simp add: compare_values_sign)
next
  case (Cons l ls)
  then show ?case by (cases l) (auto simp: Let_def level_agrees[OF assms])
qed

lemma chain_zero: "chain_compare m ls a b = 0 \<Longrightarrow> natural_key (issue_id a) = natural_key (issue_id b)"
proof (induction ls)
  case (Cons l ls)
  then show ?case by (cases l) (auto simp: Let_def split: if_splits)
qed (simp add: compare_values_sign)

lemma insert_by_cong: "(\<And>y. y \<in> set xs \<Longrightarrow> lt y x = lt' y x) \<Longrightarrow> insert_by lt x xs = insert_by lt' x xs"
  by (induction xs) auto

lemma sort_by_cong: "(\<And>x y. x \<in> set xs \<Longrightarrow> y \<in> set xs \<Longrightarrow> lt x y = lt' x y) \<Longrightarrow> sort_by lt xs = sort_by lt' xs"
proof (induction xs)
  case (Cons x xs)
  then have "sort_by lt xs = sort_by lt' xs" by simp
  then show ?case using Cons.prems by (auto intro: insert_by_cong)
qed simp

section \<open>Sorted issues\<close>

lemma sort_chain_sorted:
  assumes S: "natural_ids (issue_id ` set xs)"
  shows "sorted_wrt (\<lambda>a b. \<not> chain_less m ls b a) (sort_by (chain_less m ls) xs)"
    and "inj_on issue_id (set xs) \<Longrightarrow> mset ys = mset xs \<Longrightarrow> sort_by (chain_less m ls) ys = sort_by (chain_less m ls) xs"
proof -
  let ?lt = "\<lambda>a b. chain_compare m ls a b < 0"
  have agree: "chain_less m ls a b \<longleftrightarrow> ?lt a b" if "a \<in> set xs" "b \<in> set xs" for a b
    using chain_agrees[OF S] that by blast
  have e: "sort_by (chain_less m ls) zs = sort_by ?lt zs" if "set zs = set xs" for zs
    by (rule sort_by_cong) (use agree that in blast)
  note lt = compare_contract.less_contract[OF chain_contract[of m ls]]
  have "sorted_wrt (\<lambda>a b. \<not> ?lt b a) (sort_by ?lt xs)" by (rule less_contract.sort_by_sorted[OF lt])
  then show "sorted_wrt (\<lambda>a b. \<not> chain_less m ls b a) (sort_by (chain_less m ls) xs)"
    unfolding e[OF refl] by (rule sorted_wrt_mono_rel[rotated]) (use agree in simp)
  assume inj: "inj_on issue_id (set xs)" and m: "mset ys = mset xs"
  have sets: "set ys = set xs" using m by (rule mset_eq_setD)
  have tot: "a = b" if "a \<in> set ys" "b \<in> set ys" "\<not> ?lt a b" "\<not> ?lt b a" for a b
  proof -
    have "chain_compare m ls a b = 0"
      using that(3,4) compare_contract.sym[OF chain_contract, of m ls a b] by linarith
    then have "natural_key (issue_id a) = natural_key (issue_id b)" by (rule chain_zero)
    then have "issue_id a = issue_id b" using S that sets unfolding natural_ids_def by (auto dest: inj_onD)
    then show ?thesis using inj that sets by (auto dest: inj_onD)
  qed
  show "sort_by (chain_less m ls) ys = sort_by (chain_less m ls) xs"
    unfolding e[OF sets] e[OF refl] by (rule less_contract.sort_by_perm[OF lt m tot])
qed

section \<open>Selection\<close>

text \<open>The filters as the documentation of \<open>FilterConfig\<close> states them, one conjunct per field.\<close>

definition same_text :: "string \<Rightarrow> string \<Rightarrow> bool" where
  "same_text a b \<longleftrightarrow> fold_case a = fold_case b"

definition within :: "time \<Rightarrow> time \<Rightarrow> time \<Rightarrow> bool" where
  "within after before t \<longleftrightarrow> t = 0 \<or> ((after = 0 \<or> after \<le> t) \<and> (before = 0 \<or> t \<le> before))"

definition selects :: "filter_config \<Rightarrow> thresholds \<Rightarrow> readiness_index \<Rightarrow> time \<Rightarrow> issue \<Rightarrow> bool" where
  "selects f t idx now i \<longleftrightarrow>
     (f_status f = [] \<or> (\<exists>s \<in> set (f_status f). same_text (status i) (trim_space s))) \<and>
     (f_priority f = [] \<or> priority i \<in> set (f_priority f)) \<and>
     (\<forall>tag \<in> set (f_tags f). \<exists>l \<in> set (labels i). same_text l tag) \<and>
     (\<forall>tag \<in> set (f_exclude_tags f). \<forall>l \<in> set (labels i). \<not> same_text l tag) \<and>
     within (t_created_after t) (t_created_before t) (created_at i) \<and>
     within (t_updated_after t) (t_updated_before t) (updated_at i) \<and>
     (\<forall>b. f_has_blockers f = Some b \<longrightarrow> b = (dependency_state idx (issue_id i) \<noteq> DepSatisfied)) \<and>
     (\<forall>b. f_actionable f = Some b \<longrightarrow> b = ready idx (issue_id i) now) \<and>
     (\<exists>u v. to_lower (title i) = u @ to_lower (f_title_contains f) @ v) \<and>
     (\<exists>v. issue_id i = f_id_prefix f @ v)"

lemma contains_iff: "contains s p \<longleftrightarrow> (\<exists>u v. s = u @ p @ v)"
proof (induction s)
  case (Cons c s)
  have "(\<exists>u v. c # s = u @ p @ v) \<longleftrightarrow> (\<exists>v. c # s = p @ v) \<or> (\<exists>u v. s = u @ p @ v)"
    by (metis append_Cons append_Nil list.inject neq_Nil_conv)
  then show ?case using Cons by (simp add: has_prefix_iff)
qed (simp add: has_prefix_iff)

lemma keep_selects: "keep_issue f t idx now i \<longleftrightarrow> selects f t idx now i"
proof -
  have times: "matches_times t i \<longleftrightarrow> within (t_created_after t) (t_created_before t) (created_at i) \<and>
      within (t_updated_after t) (t_updated_before t) (updated_at i)"
    by (auto simp: matches_times_def within_def)
  have tags: "has_all_tags i ts \<longleftrightarrow> (\<forall>tag \<in> set ts. \<exists>l \<in> set (labels i). same_text l tag)"
    "has_any_tag i ts \<longleftrightarrow> \<not> (\<forall>tag \<in> set ts. \<forall>l \<in> set (labels i). \<not> same_text l tag)" for ts
    by (auto simp: has_all_tags_def has_any_tag_def has_label_def equal_fold_def same_text_def list_all_iff list_ex_iff)
  have st: "matches_status i ss \<longleftrightarrow> ss = [] \<or> (\<exists>s \<in> set ss. same_text (status i) (trim_space s))" for ss
    by (auto simp: matches_status_def equal_fold_def same_text_def list_ex_iff)
  have pr: "matches_priority i ps \<longleftrightarrow> ps = [] \<or> priority i \<in> set ps" for ps
    by (auto simp: matches_priority_def list_ex_iff)
  have ti: "f_title_contains f \<noteq> [] \<and> \<not> contains (to_lower (title i)) (to_lower (f_title_contains f)) \<longleftrightarrow>
      \<not> (\<exists>u v. to_lower (title i) = u @ to_lower (f_title_contains f) @ v)"
    by (cases "f_title_contains f = []") (auto simp: contains_iff)
  have idp: "f_id_prefix f \<noteq> [] \<and> \<not> has_prefix (issue_id i) (f_id_prefix f) \<longleftrightarrow> \<not> (\<exists>v. issue_id i = f_id_prefix f @ v)"
    by (cases "f_id_prefix f = []") (auto simp: has_prefix_iff)
  have opt: "(case x of None \<Rightarrow> False | Some b \<Rightarrow> b \<noteq> c) \<longleftrightarrow> \<not> (\<forall>b. x = Some b \<longrightarrow> b = c)" for x and c :: bool
    by (cases x) auto
  show ?thesis
    unfolding keep_issue_def selects_def times tags st pr ti idp opt by argo
qed

section \<open>Time filters never fail after validation\<close>

lemma parse_error_any_now: "parse_relative_time lib s now = Inl e \<Longrightarrow> parse_relative_time lib s now' = Inl e"
  by (auto simp: parse_relative_time_def Let_def split: if_splits option.splits)

lemma time_problems_none:
  assumes "time_problems lib now (k, v) = []"
  shows "\<exists>t. parse_time_filter lib key v now' = Inr t"
proof (cases "v = [] \<or> (\<exists>t. parse_relative_time lib v now' = Inr t)")
  case False
  then obtain e where "parse_relative_time lib v now' = Inl e" by (cases "parse_relative_time lib v now'") auto
  from parse_error_any_now[OF this, of now] show ?thesis using assms False by (simp add: time_problems_def)
qed (auto simp: parse_time_filter_def)

lemma valid_times:
  assumes "validate_recipe lib now r = []"
  shows "\<exists>t. parse_time_filters lib (rc_filters r) now' = Inr t"
proof -
  let ?f = "rc_filters r"
  have "time_problems lib now (''filters.created_after'', f_created_after ?f) = []"
    "time_problems lib now (''filters.created_before'', f_created_before ?f) = []"
    "time_problems lib now (''filters.updated_after'', f_updated_after ?f) = []"
    "time_problems lib now (''filters.updated_before'', f_updated_before ?f) = []"
    using assms by (simp_all add: validate_recipe_def Let_def)
  note ok = this[THEN time_problems_none, of _ now']
  obtain a where a: "parse_time_filter lib ''created_after'' (f_created_after ?f) now' = Inr a" using ok(1) by blast
  obtain b where b: "parse_time_filter lib ''created_before'' (f_created_before ?f) now' = Inr b" using ok(2) by blast
  obtain c where c: "parse_time_filter lib ''updated_after'' (f_updated_after ?f) now' = Inr c" using ok(3) by blast
  obtain d where d: "parse_time_filter lib ''updated_before'' (f_updated_before ?f) now' = Inr d" using ok(4) by blast
  show ?thesis by (simp add: parse_time_filters_def a b c d)
qed

lemma take_sorted_best:
  assumes "sorted_wrt P xs" "x \<in> set (take n xs)" "y \<in># mset xs - mset (take n xs)"
  shows "P x y"
proof -
  have "mset xs = mset (take n xs) + mset (drop n xs)" by (metis append_take_drop_id mset_append)
  then have "y \<in> set (drop n xs)" using assms(3) by simp
  moreover have "sorted_wrt P (take n xs @ drop n xs)" using assms(1) by simp
  ultimately show ?thesis using assms(2) unfolding sorted_wrt_append by blast
qed

definition view_limit :: "recipe \<Rightarrow> nat \<Rightarrow> nat" where
  "view_limit r n = (if v_max_items (rc_view r) > 0 then min n (nat (v_max_items (rc_view r))) else n)"

definition the_index :: "readiness_index option \<Rightarrow> issue list \<Rightarrow> readiness_index" where
  "the_index r issues = (case r of Some x \<Rightarrow> x | None \<Rightarrow> index_of_issues issues)"

definition time_or_clock :: "time \<Rightarrow> time \<Rightarrow> time" where
  "time_or_clock clock now = (if now = 0 then clock else now)"

lemma apply_recipe_eq:
  assumes "parse_time_filters lib (rc_filters r) (time_or_clock clock now) = Inr t"
  shows "apply_recipe lib clock issues m (Some r) now =
    (let out = sort_issues m r (filter (selects (rc_filters r) t (the_index (m_readiness m) issues) (time_or_clock clock now)) issues)
     in Inr (take (view_limit r (length out)) out))"
proof -
  have "keep_issue (rc_filters r) t idx now = selects (rc_filters r) t idx now" for idx now
    by (simp add: fun_eq_iff keep_selects)
  then show ?thesis
    using assms by (auto simp: apply_recipe_def filter_issues_def view_limit_def time_or_clock_def the_index_def Let_def min_def)
qed

text \<open>Selection does not depend on the order of the issues, also when the index is built from them.\<close>

lemma selects_perm:
  assumes "mset issues' = mset issues" "distinct (map issue_id issues)"
  shows "selects f t (the_index r issues') now = selects f t (the_index r issues) now"
proof (cases r)
  case None
  have "mset (map issue_id issues') = mset (map issue_id issues)" using assms(1) by simp
  then have "distinct (map issue_id issues')" using assms(2) by (metis mset_eq_imp_distinct_iff)
  then have get: "mget (issue_map_of issues') k = mget (issue_map_of issues) k" for k
    by (rule issue_map_perm[OF assms(1)])
  then have spec: "spec_state (own_issues issues') {} k = spec_state (own_issues issues) {} k" for k
    by (intro spec_state_cong) (simp add: own_issues_get)
  have dep: "dependency_state (index_of_issues xs) k = spec_state (own_issues xs) {} k" for xs k
  proof -
    have "range_order (own_issues xs) (mkeys (own_issues xs))" by (rule range_order_mkeys) simp
    from compute_state[OF this this this] show ?thesis by (simp add: index_of_issues_def new_readiness_index_def Let_def)
  qed
  show ?thesis
    by (simp add: fun_eq_iff selects_def the_index_def None dep spec ready_index_of_issues get)
qed (simp add: the_index_def)

section \<open>Property\<close>

text \<open>C40: A recipe that validates never fails when it is applied, at any later time, on any issues. It returns
  as many of the issues that every filter selects as there are, or \<open>max_items\<close> of them if that is less:
  without a sort chain the first ones in the order of the input, and with a sort chain, if the ids of
  the issues are comparable by prefix and number, the best ones: the result is sorted by the chain and no
  selected issue that the limit left out comes before one that was kept. If the ids are distinct, too, the
  sorted result does not depend on the order of the input, whether the readiness index is supplied or built
  from the issues.\<close>

theorem recipe_apply_correct:
  fixes m :: "('s::{linorder,zero}) metrics"
  assumes "validate_recipe lib before r = []"
  defines "ls \<equiv> map sort_level (sort_chain (rc_sort r))"
  shows "\<exists>t out. parse_time_filters lib (rc_filters r) (time_or_clock clock now) = Inr t \<and>
    apply_recipe lib clock issues m (Some r) now = Inr out \<and>
    (let selected = filter (selects (rc_filters r) t (the_index (m_readiness m) issues) (time_or_clock clock now)) issues in
     mset out \<subseteq># mset selected \<and> length out = view_limit r (length selected) \<and>
     (ls = [] \<longrightarrow> out = take (length out) selected) \<and>
     (ls \<noteq> [] \<and> natural_ids (issue_id ` set issues) \<longrightarrow>
        sorted_wrt (\<lambda>a b. \<not> chain_less m ls b a) out \<and>
        (\<forall>x \<in> set out. \<forall>y. y \<in># mset selected - mset out \<longrightarrow> \<not> chain_less m ls y x) \<and>
        (\<forall>issues'. distinct (map issue_id issues) \<and> mset issues' = mset issues \<longrightarrow>
           apply_recipe lib clock issues' m (Some r) now = Inr out)))"
proof -
  obtain t where t: "parse_time_filters lib (rc_filters r) (time_or_clock clock now) = Inr t"
    using valid_times[OF assms(1)] by blast
  let ?sel = "selects (rc_filters r) t (the_index (m_readiness m) issues) (time_or_clock clock now)"
  let ?kept = "filter ?sel issues"
  let ?sorted = "sort_issues m r ?kept"
  let ?out = "take (view_limit r (length ?kept)) ?sorted"
  note app = apply_recipe_eq[OF t]
  have unsorted: "sort_issues m r xs = xs" if "ls = []" for xs using that by (simp add: sort_issues_def ls_def)
  have sorts: "sort_issues m r xs = sort_by (chain_less m ls) xs" if "ls \<noteq> []" for xs
    using that by (simp add: sort_issues_def ls_def)
  have msort: "mset ?sorted = mset ?kept" by (cases "ls = []") (simp_all add: unsorted sorts)
  then have len: "length ?sorted = length ?kept" by (metis size_mset)
  have lim: "view_limit r n \<le> n" for n by (simp add: view_limit_def)
  have "mset ?sorted = mset ?out + mset (drop (view_limit r (length ?kept)) ?sorted)" by (metis append_take_drop_id mset_append)
  then have sub: "mset ?out \<subseteq># mset ?kept" using msort by simp
  have out: "apply_recipe lib clock issues m (Some r) now = Inr ?out" by (simp add: app Let_def len)
  have best: "sorted_wrt (\<lambda>a b. \<not> chain_less m ls b a) ?out \<and>
      (\<forall>x \<in> set ?out. \<forall>y. y \<in># mset ?kept - mset ?out \<longrightarrow> \<not> chain_less m ls y x)"
    if "ls \<noteq> []" "natural_ids (issue_id ` set issues)"
  proof -
    have "natural_ids (issue_id ` set ?kept)"
      using that(2) unfolding natural_ids_def by (auto intro: inj_on_subset)
    from sort_chain_sorted(1)[OF this]
    have srt: "sorted_wrt (\<lambda>a b. \<not> chain_less m ls b a) ?sorted" by (simp add: sorts[OF that(1)])
    show ?thesis using sorted_wrt_take[OF srt] take_sorted_best[OF srt] by (simp only: msort) blast
  qed
  have perm: "apply_recipe lib clock issues' m (Some r) now = Inr ?out"
    if "ls \<noteq> []" "natural_ids (issue_id ` set issues)" "distinct (map issue_id issues)" "mset issues' = mset issues" for issues'
  proof -
    have nat: "natural_ids (issue_id ` set ?kept)" "inj_on issue_id (set ?kept)"
      using that(2,3) unfolding natural_ids_def distinct_map by (auto intro: inj_on_subset)
    have mk: "mset (filter ?sel issues') = mset ?kept" using that(4) by simp
    then have "length (filter ?sel issues') = length ?kept" by (metis size_mset)
    moreover have "sort_issues m r (filter ?sel issues') = ?sorted"
      unfolding sorts[OF that(1)] by (rule sort_chain_sorted(2)[OF nat mk])
    ultimately show ?thesis by (simp add: app Let_def selects_perm[OF that(4,3)] len)
  qed
  have "ls = [] \<longrightarrow> ?out = take (length ?out) ?kept" using unsorted lim[of "length ?kept"] by (simp add: min_def)
  then show ?thesis
    using t out sub lim[of "length ?kept"] best perm by (intro exI[of _ t] exI[of _ ?out]) (auto simp: Let_def len min_def)
qed

definition demo_lib :: time_lib where
  "demo_lib = \<lparr>add_date = (\<lambda>t y m d. t + (y * 365 + m * 30 + d) * 86400000000000), parse_in_location = (\<lambda>f s. None)\<rparr>"

definition demo_recipe :: recipe where
  "demo_recipe = \<lparr>rc_name = ''demo'', rc_description = [],
     rc_filters = \<lparr>f_status = [''Open''], f_priority = [], f_tags = [], f_exclude_tags = [], f_created_after = ''14d'',
       f_created_before = [], f_updated_after = [], f_updated_before = [], f_has_blockers = None, f_actionable = None,
       f_title_contains = [], f_id_prefix = ''bv-''\<rparr>,
     rc_sort = Sort_Config ''priority'' [] None,
     rc_view = \<lparr>v_columns = [], v_show_graph = False, v_show_metrics = False, v_group_by = [], v_collapsed = False,
       v_max_items = 1, v_truncate_title = 0\<rparr>,
     rc_export_format = [], rc_metrics = []\<rparr>"

definition demo_recipe_issues :: "issue list" where
  "demo_recipe_issues =
     [zero_issue\<lparr>issue_id := ''bv-10'', status := ''open''\<rparr>, zero_issue\<lparr>issue_id := ''bv-9'', status := ''open''\<rparr>]"

definition demo_metrics :: "int metrics" where
  "demo_metrics = \<lparr>m_graph = None, m_triage = None, m_readiness = None\<rparr>"

lemma demo_recipe_valid: "validate_recipe demo_lib 1 demo_recipe = []"
  by code_simp

lemma demo_recipe_ids: "natural_ids (issue_id ` set demo_recipe_issues)" "distinct (map issue_id demo_recipe_issues)"
proof -
  have "natural_key ''bv-10'' = (''bv-'', 11)" "natural_key ''bv-9'' = (''bv-'', 10)" by code_simp+
  then show "natural_ids (issue_id ` set demo_recipe_issues)" "distinct (map issue_id demo_recipe_issues)"
    by (simp_all add: natural_ids_def demo_recipe_issues_def inj_on_def)
qed

lemma recipe_apply_correct_witness:
  "\<exists>out. apply_recipe demo_lib 7 demo_recipe_issues demo_metrics (Some demo_recipe) 0 = Inr out \<and>
     apply_recipe demo_lib 7 (rev demo_recipe_issues) demo_metrics (Some demo_recipe) 0 = Inr out \<and>
     sorted_wrt (\<lambda>a b. \<not> chain_less demo_metrics [(''priority'', False)] b a) out \<and> map issue_id out = [''bv-9'']"
proof -
  have ls: "map sort_level (sort_chain (rc_sort demo_recipe)) = [(''priority'', False)]" by code_simp
  from recipe_apply_correct[OF demo_recipe_valid, unfolded ls, of 7 0 demo_recipe_issues demo_metrics]
  obtain out where out: "apply_recipe demo_lib 7 demo_recipe_issues demo_metrics (Some demo_recipe) 0 = Inr out"
    "sorted_wrt (\<lambda>a b. \<not> chain_less demo_metrics [(''priority'', False)] b a) out"
    "\<forall>issues'. distinct (map issue_id demo_recipe_issues) \<and> mset issues' = mset demo_recipe_issues \<longrightarrow>
       apply_recipe demo_lib 7 issues' demo_metrics (Some demo_recipe) 0 = Inr out"
    using demo_recipe_ids(1) by (auto simp: Let_def)
  have "apply_recipe demo_lib 7 (rev demo_recipe_issues) demo_metrics (Some demo_recipe) 0 = Inr out"
    using out(3) demo_recipe_ids(2) by simp
  moreover have "(case apply_recipe demo_lib 7 demo_recipe_issues demo_metrics (Some demo_recipe) 0 of
      Inl e \<Rightarrow> [] | Inr out \<Rightarrow> map issue_id out) = [''bv-9'']" by code_simp
  ultimately show ?thesis using out(1,2) by auto
qed

end
