(* ===== verification/Bv_Vector_Index.thy ===== *)
theory Bv_Vector_Index
  imports Go_Base "HOL-Library.Word"
begin

unbundle bit_operations_syntax

text \<open>
  The semantic index of \<open>pkg/search/vector_index.go\<close>: embedding vectors by issue id, the cached list of
  ids, and the binary file format with its limits.

  A file is the string of its bytes. A \<open>float32\<close> is its 32 bits, which is how the file holds it; whether
  it is finite can be read off the exponent. A content hash is a string of 32 bytes. Locks only
  serialise the operations; the temporary file, its renaming and I/O errors are outside the model, and a
  file does not change while it is read.
\<close>

section \<open>State and errors\<close>

record vector_entry =
  ve_hash :: string
  ve_vector :: "32 word list"

record vector_index =
  vx_dim :: int
  vx_entries :: "(string, vector_entry) gomap"
  vx_ids :: "string list option"
  vx_dirty :: bool
  vx_mutation :: "64 word"

datatype vector_error =
    FileTooSmall int | FileTooLarge int | ReadFails | InvalidMagic string | UnsupportedVersion "16 word"
  | ZeroDim | DimExceedsMaximum int | CountExceedsMaximum int | CountExceedsFile int
  | EmptyIssueId | DuplicateIssueId string | DimMismatch int int | NotFinite nat | TrailingData
  | DimNotSerializable int | CountNotSerializable int | IdTooLong int | VectorDimMismatch string | EncodedTooLarge

definition default_embedding_dim :: int where "default_embedding_dim = 384"
definition vector_index_magic :: string where "vector_index_magic = ''BVVI''"
definition vector_index_version :: "16 word" where "vector_index_version = 1"
definition vector_index_header_size :: int where "vector_index_header_size = 16"
definition max_vector_index_dimension :: int where "max_vector_index_dimension = 1048576"
definition max_vector_index_entries :: int where "max_vector_index_entries = 1048576"
definition max_vector_index_file_size :: int where "max_vector_index_file_size = 536870912"
definition min_vector_entry_overhead :: int where "min_vector_entry_overhead = 2 + 1 + 32"

lemmas vector_limits = vector_index_header_size_def max_vector_index_dimension_def max_vector_index_entries_def
  max_vector_index_file_size_def min_vector_entry_overhead_def

definition and_then :: "'e + 'a \<Rightarrow> ('a \<Rightarrow> 'e + 'b) \<Rightarrow> 'e + 'b" where
  "and_then r f = (case r of Inl e \<Rightarrow> Inl e | Inr x \<Rightarrow> f x)"

lemma and_then_simps [simp]: "and_then (Inl e) f = Inl e" "and_then (Inr x) f = f x"
  by (simp_all add: and_then_def)

lemma and_then_Inr: "and_then r f = Inr y \<longleftrightarrow> (\<exists>x. r = Inr x \<and> f x = Inr y)"
  by (cases r) auto

section \<open>Operations on the index\<close>

definition new_vector_index :: "int \<Rightarrow> vector_index" where
  "new_vector_index dim =
     \<lparr>vx_dim = (if dim \<le> 0 then default_embedding_dim else dim), vx_entries = [], vx_ids = None,
      vx_dirty = True, vx_mutation = 0\<rparr>"

text \<open>All exponent bits set: an infinity or a NaN.\<close>

definition is_finite_bits :: "32 word \<Rightarrow> bool" where
  "is_finite_bits w \<longleftrightarrow> w AND 0x7F800000 \<noteq> 0x7F800000"

fun validate_finite :: "nat \<Rightarrow> 32 word list \<Rightarrow> vector_error option" where
  "validate_finite i [] = None"
| "validate_finite i (w # ws) = (if \<not> is_finite_bits w then Some (NotFinite i) else validate_finite (i + 1) ws)"

definition upsert :: "string \<Rightarrow> string \<Rightarrow> 32 word list \<Rightarrow> vector_index \<Rightarrow> vector_error + vector_index" where
  "upsert iid hash vec x =
     (if iid = [] then Inl EmptyIssueId
      else if int (length vec) \<noteq> vx_dim x then Inl (DimMismatch (int (length vec)) (vx_dim x))
      else case validate_finite 0 vec of
        Some e \<Rightarrow> Inl e
      | None \<Rightarrow> Inr (x\<lparr>vx_entries := mput iid \<lparr>ve_hash = hash, ve_vector = vec\<rparr> (vx_entries x),
          vx_mutation := vx_mutation x + 1,
          vx_dirty := (if mget (vx_entries x) iid = None then True else vx_dirty x)\<rparr>))"

definition remove_entry :: "string \<Rightarrow> vector_index \<Rightarrow> vector_index" where
  "remove_entry iid x =
     (if mget (vx_entries x) iid = None then x
      else x\<lparr>vx_entries := filter (\<lambda>kv. fst kv \<noteq> iid) (vx_entries x), vx_mutation := vx_mutation x + 1,
        vx_dirty := True\<rparr>)"

definition get_entry :: "string \<Rightarrow> vector_index \<Rightarrow> vector_entry option" where
  "get_entry iid x = mget (vx_entries x) iid"

definition content_hash_of :: "string \<Rightarrow> vector_index \<Rightarrow> string option" where
  "content_hash_of iid x = map_option ve_hash (mget (vx_entries x) iid)"

definition index_size :: "vector_index \<Rightarrow> nat" where
  "index_size x = length (vx_entries x)"

text \<open>\<open>ks\<close> is the order in which the keys are visited when the cache is rebuilt.\<close>

definition sorted_ids_cached :: "string list \<Rightarrow> vector_index \<Rightarrow> string list \<times> vector_index" where
  "sorted_ids_cached ks x =
     (case (vx_dirty x, vx_ids x) of
        (False, Some ids) \<Rightarrow> (ids, x)
      | _ \<Rightarrow> (sort ks, x\<lparr>vx_ids := Some (sort ks), vx_dirty := False\<rparr>))"

section \<open>Little-endian numbers\<close>

fun le_bytes :: "nat \<Rightarrow> nat \<Rightarrow> string" where
  "le_bytes 0 w = []"
| "le_bytes (Suc n) w = char_of (w mod 256) # le_bytes n (w div 256)"

fun from_le :: "string \<Rightarrow> nat" where
  "from_le [] = 0"
| "from_le (c # cs) = of_char c + 256 * from_le cs"

definition put_u16 :: "16 word \<Rightarrow> string" where "put_u16 w = le_bytes 2 (unat w)"
definition put_u32 :: "32 word \<Rightarrow> string" where "put_u32 w = le_bytes 4 (unat w)"

definition read_full :: "nat \<Rightarrow> string \<Rightarrow> vector_error + string \<times> string" where
  "read_full n s = (if length s < n then Inl ReadFails else Inr (take n s, drop n s))"

definition read_u16 :: "string \<Rightarrow> vector_error + 16 word \<times> string" where
  "read_u16 s = and_then (read_full 2 s) (\<lambda>(bs, s). Inr (word_of_nat (from_le bs), s))"

definition read_u32 :: "string \<Rightarrow> vector_error + 32 word \<times> string" where
  "read_u32 s = and_then (read_full 4 s) (\<lambda>(bs, s). Inr (word_of_nat (from_le bs), s))"

definition decode_vector :: "nat \<Rightarrow> string \<Rightarrow> 32 word list" where
  "decode_vector dim bs = map (\<lambda>j. word_of_nat (from_le (take 4 (drop (j * 4) bs)))) [0..<dim]"

section \<open>Loading\<close>

definition read_entry :: "vector_index \<times> string \<Rightarrow> vector_error + vector_index \<times> string" where
  "read_entry = (\<lambda>(x, s).
     and_then (read_u16 s) (\<lambda>(id_len, s).
     if id_len = 0 then Inl EmptyIssueId
     else and_then (read_full (unat id_len) s) (\<lambda>(iid, s).
     if mget (vx_entries x) iid \<noteq> None then Inl (DuplicateIssueId iid)
     else and_then (read_full 32 s) (\<lambda>(hash, s).
     and_then (read_full (nat (vx_dim x * 4)) s) (\<lambda>(bs, s).
     and_then (upsert iid hash (decode_vector (nat (vx_dim x)) bs) x) (\<lambda>x. Inr (x, s)))))))"

fun read_entries :: "nat \<Rightarrow> vector_index \<times> string \<Rightarrow> vector_error + vector_index \<times> string" where
  "read_entries 0 xs = Inr xs"
| "read_entries (Suc n) xs = and_then (read_entry xs) (read_entries n)"

definition check_header :: "int \<Rightarrow> 32 word \<Rightarrow> 32 word \<Rightarrow> vector_error option" where
  "check_header sz dim cnt =
     (if dim = 0 then Some ZeroDim
      else if uint dim > max_vector_index_dimension then Some (DimExceedsMaximum (uint dim))
      else if uint cnt > max_vector_index_entries then Some (CountExceedsMaximum (uint cnt))
      else if uint cnt > 0 \<and>
        uint cnt > (sz - vector_index_header_size) div (min_vector_entry_overhead + uint dim * 4)
      then Some (CountExceedsFile (uint cnt)) else None)"

definition load_vector_index :: "string \<Rightarrow> vector_error + vector_index" where
  "load_vector_index file =
     (let sz = int (length file) in
      if sz < vector_index_header_size then Inl (FileTooSmall sz)
      else if sz > max_vector_index_file_size then Inl (FileTooLarge sz)
      else and_then (read_full 4 file) (\<lambda>(magic, s).
      if magic \<noteq> vector_index_magic then Inl (InvalidMagic magic)
      else and_then (read_u16 s) (\<lambda>(version, s).
      if version \<noteq> vector_index_version then Inl (UnsupportedVersion version)
      else and_then (read_u16 s) (\<lambda>(reserved, s).
      and_then (read_u32 s) (\<lambda>(dim, s).
      and_then (read_u32 s) (\<lambda>(cnt, s).
      case check_header sz dim cnt of
        Some e \<Rightarrow> Inl e
      | None \<Rightarrow>
        and_then (read_entries (unat cnt) (new_vector_index (uint dim), s)) (\<lambda>(x, s).
        if s \<noteq> [] then Inl TrailingData else Inr x)))))))"

section \<open>Saving\<close>

text \<open>The loop that checks the entries and adds up their size.\<close>

fun check_entries :: "vector_index \<Rightarrow> string list \<Rightarrow> int \<Rightarrow> vector_error option" where
  "check_entries x [] sz = None"
| "check_entries x (iid # ids) sz =
     (case mget (vx_entries x) iid of None \<Rightarrow> check_entries x ids sz | Some e \<Rightarrow>
      if length iid > 65535 then Some (IdTooLong (int (length iid)))
      else if int (length (ve_vector e)) \<noteq> vx_dim x then Some (VectorDimMismatch iid)
      else let sz = sz + int (2 + length iid + 32) + vx_dim x * 4 in
        if sz > max_vector_index_file_size then Some EncodedTooLarge else check_entries x ids sz)"

definition encode_entry :: "string \<Rightarrow> vector_entry \<Rightarrow> string" where
  "encode_entry iid e =
     put_u16 (word_of_nat (length iid)) @ iid @ ve_hash e @ concat (map put_u32 (ve_vector e))"

definition encode_index :: "vector_index \<Rightarrow> string list \<Rightarrow> string" where
  "encode_index x ids =
     vector_index_magic @ put_u16 vector_index_version @ put_u16 0 @ put_u32 (word_of_int (vx_dim x)) @
     put_u32 (word_of_nat (length ids)) @
     concat (map (\<lambda>iid. case mget (vx_entries x) iid of None \<Rightarrow> [] | Some e \<Rightarrow> encode_entry iid e) ids)"

definition save_vector_index :: "string list \<Rightarrow> vector_index \<Rightarrow> (vector_error + string) \<times> vector_index" where
  "save_vector_index ks x =
     (if vx_dim x \<le> 0 \<or> vx_dim x > 4294967295 then (Inl (DimNotSerializable (vx_dim x)), x)
      else if int (length (vx_entries x)) > 4294967295 then (Inl (CountNotSerializable (int (length (vx_entries x)))), x)
      else let (ids, x) = sorted_ids_cached ks x in
      if vx_dim x \<le> 0 \<or> vx_dim x > max_vector_index_dimension then (Inl (DimExceedsMaximum (vx_dim x)), x)
      else if int (length ids) > max_vector_index_entries then (Inl (CountExceedsMaximum (int (length ids))), x)
      else case check_entries x ids vector_index_header_size of
        Some e \<Rightarrow> (Inl e, x)
      | None \<Rightarrow> (Inr (encode_index x ids), x))"

section \<open>The invariant of an index\<close>

definition vector_entry_ok :: "int \<Rightarrow> string \<Rightarrow> vector_entry \<Rightarrow> bool" where
  "vector_entry_ok dim iid e \<longleftrightarrow> iid \<noteq> [] \<and> length (ve_hash e) = 32 \<and> int (length (ve_vector e)) = dim \<and>
     (\<forall>w \<in> set (ve_vector e). is_finite_bits w)"

definition index_ok :: "vector_index \<Rightarrow> bool" where
  "index_ok x \<longleftrightarrow> vx_dim x > 0 \<and> gomap_ok (vx_entries x) \<and>
     (\<forall>iid e. mget (vx_entries x) iid = Some e \<longrightarrow> vector_entry_ok (vx_dim x) iid e) \<and>
     (\<forall>ids. \<not> vx_dirty x \<longrightarrow> vx_ids x = Some ids \<longrightarrow> sorted_wrt (<) ids \<and> set ids = set (mkeys (vx_entries x)))"

lemma validate_finite_None: "validate_finite i vec = None \<longleftrightarrow> (\<forall>w \<in> set vec. is_finite_bits w)"
  by (induction vec arbitrary: i) auto

lemma index_ok_new: "index_ok (new_vector_index dim)"
  by (simp add: index_ok_def new_vector_index_def default_embedding_dim_def)

lemma upsert_Inr:
  "upsert iid hash vec x = Inr y \<longleftrightarrow> iid \<noteq> [] \<and> int (length vec) = vx_dim x \<and> (\<forall>w \<in> set vec. is_finite_bits w) \<and>
     y = x\<lparr>vx_entries := mput iid \<lparr>ve_hash = hash, ve_vector = vec\<rparr> (vx_entries x), vx_mutation := vx_mutation x + 1,
       vx_dirty := (if mget (vx_entries x) iid = None then True else vx_dirty x)\<rparr>"
  unfolding validate_finite_None[of 0 vec, symmetric] upsert_def by (auto split: option.splits)

lemma upsert_ok:
  assumes "index_ok x" "upsert iid hash vec x = Inr y" "length hash = 32"
  shows "index_ok y" "vx_dim y = vx_dim x"
    "mget (vx_entries y) k = (if k = iid then Some \<lparr>ve_hash = hash, ve_vector = vec\<rparr> else mget (vx_entries x) k)"
proof -
  have "set (mkeys (vx_entries x)) = insert iid (set (mkeys (vx_entries x)))" if "mget (vx_entries x) iid \<noteq> None"
    using that by (auto simp: mkeys_ex)
  then show "index_ok y" using assms by (auto simp: upsert_Inr index_ok_def vector_entry_ok_def split: if_splits)
qed (use assms(2) in \<open>auto simp: upsert_Inr\<close>)

lemma mget_filter_key: "mget (filter (\<lambda>kv. fst kv \<noteq> a) m) k = (if k = a then None else mget m k)"
  unfolding mget_def by (induction m) (auto split: prod.splits)

lemma remove_entry_get: "mget (vx_entries (remove_entry iid x)) k = (if k = iid then None else mget (vx_entries x) k)"
  by (auto simp: remove_entry_def mget_filter_key)

lemma remove_entry_ok: "index_ok x \<Longrightarrow> index_ok (remove_entry iid x)"
proof -
  assume ok: "index_ok x"
  have "gomap_ok (filter (\<lambda>kv. fst kv \<noteq> iid) (vx_entries x))"
    using ok by (auto simp: index_ok_def gomap_ok_def mkeys_def distinct_map inj_on_def)
  then show ?thesis using ok by (auto simp: index_ok_def remove_entry_def mget_filter_key)
qed

lemma sorted_ids_cached_ok:
  assumes "index_ok x" "range_order (vx_entries x) ks"
  shows "index_ok (snd (sorted_ids_cached ks x))" "vx_entries (snd (sorted_ids_cached ks x)) = vx_entries x"
    "vx_dim (snd (sorted_ids_cached ks x)) = vx_dim x"
    "sorted_wrt (<) (fst (sorted_ids_cached ks x))" "set (fst (sorted_ids_cached ks x)) = set (mkeys (vx_entries x))"
  using assms
  by (auto simp: sorted_ids_cached_def index_ok_def range_order_def strict_sorted_iff split: bool.splits option.splits)

section \<open>Bytes\<close>

lemma length_le_bytes [simp]: "length (le_bytes n w) = n"
  by (induction n arbitrary: w) auto

lemma from_le_bytes: "from_le (le_bytes n w) = w mod 256 ^ n"
  by (induction n arbitrary: w) (simp_all add: mod_mult2_eq)

lemma length_put [simp]: "length (put_u16 h) = 2" "length (put_u32 w) = 4"
  by (simp_all add: put_u16_def put_u32_def)

lemma from_put [simp]: "word_of_nat (from_le (put_u16 h)) = h" "word_of_nat (from_le (put_u32 w)) = w"
proof -
  have "unat h < 2 ^ LENGTH(16)" "unat w < 2 ^ LENGTH(32)" by (rule unsigned_less)+
  then have "unat h < 256 ^ 2" "unat w < 256 ^ 4" by simp_all
  then show "word_of_nat (from_le (put_u16 h)) = h" "word_of_nat (from_le (put_u32 w)) = w"
    unfolding put_u16_def put_u32_def from_le_bytes by (simp_all del: power_Suc)
qed

lemma read_full_append [simp]: "length a = n \<Longrightarrow> read_full n (a @ s) = Inr (a, s)"
  by (simp add: read_full_def)

lemma read_put [simp]: "read_u16 (put_u16 h @ s) = Inr (h, s)" "read_u32 (put_u32 w @ s) = Inr (w, s)"
  by (simp_all add: read_u16_def read_u32_def)

lemma decode_vector_put: "decode_vector (length vec) (concat (map put_u32 vec)) = vec"
proof (rule nth_equalityI)
  have "take 4 (drop (i * 4) (concat (map put_u32 vec))) = put_u32 (vec ! i)" if "i < length vec" for i
    using that
  proof (induction vec arbitrary: i)
    case (Cons w vec)
    then show ?case by (cases i) auto
  qed simp
  then show "decode_vector (length vec) (concat (map put_u32 vec)) ! i = vec ! i"
    if "i < length (decode_vector (length vec) (concat (map put_u32 vec)))" for i
    using that by (simp add: decode_vector_def)
qed (simp add: decode_vector_def)

lemma length_vector_bytes [simp]: "length (concat (map put_u32 vec)) = 4 * length vec"
  by (induction vec) auto

section \<open>Reading entries\<close>

text \<open>Reading depends only on the bytes that it takes.\<close>

lemma read_full_Inr: "read_full n s = Inr (a, r) \<longleftrightarrow> s = a @ r \<and> length a = n"
  by (auto simp: read_full_def min_def)

lemma read_full_more: "read_full n s = Inr (a, r) \<Longrightarrow> read_full n (s @ t) = Inr (a, r @ t)"
  by (simp add: read_full_Inr)

lemma read_u_more:
  "read_u16 s = Inr (h, r) \<Longrightarrow> read_u16 (s @ t) = Inr (h, r @ t)"
  "read_u32 s = Inr (w, r) \<Longrightarrow> read_u32 (s @ t) = Inr (w, r @ t)"
  by (auto simp: read_u16_def read_u32_def and_then_Inr dest: read_full_more)

lemma read_entry_Inr:
  assumes "read_entry (x, s) = Inr (y, r)"
  shows "\<exists>h s1 iid s2 hash s3 bs. read_u16 s = Inr (h, s1) \<and> h \<noteq> 0 \<and> read_full (unat h) s1 = Inr (iid, s2) \<and>
    mget (vx_entries x) iid = None \<and> read_full 32 s2 = Inr (hash, s3) \<and> read_full (nat (vx_dim x * 4)) s3 = Inr (bs, r) \<and>
    upsert iid hash (decode_vector (nat (vx_dim x)) bs) x = Inr y"
  using assms by (fastforce simp: read_entry_def and_then_Inr split: if_splits)

lemma read_entry_more:
  assumes "read_entry (x, s) = Inr (y, r)"
  shows "read_entry (x, s @ t) = Inr (y, r @ t)"
proof -
  obtain h s1 iid s2 hash s3 bs where r: "read_u16 s = Inr (h, s1)" "h \<noteq> 0" "read_full (unat h) s1 = Inr (iid, s2)"
    "mget (vx_entries x) iid = None" "read_full 32 s2 = Inr (hash, s3)" "read_full (nat (vx_dim x * 4)) s3 = Inr (bs, r)"
    "upsert iid hash (decode_vector (nat (vx_dim x)) bs) x = Inr y"
    using read_entry_Inr[OF assms] by blast
  show ?thesis
    using read_u_more(1)[OF r(1), of t] r(2,4,7) r(3,5,6)[THEN read_full_more, of t] by (simp add: read_entry_def)
qed

lemma read_entries_more: "read_entries n (x, s) = Inr (y, r) \<Longrightarrow> read_entries n (x, s @ t) = Inr (y, r @ t)"
proof (induction n arbitrary: x s)
  case (Suc n)
  from Suc.prems obtain z r1 where "read_entry (x, s) = Inr (z, r1)" "read_entries n (z, r1) = Inr (y, r)"
    by (auto simp: and_then_Inr)
  then show ?case using Suc.IH[of z r1] read_entry_more[of x s z r1 t] by simp
qed simp

text \<open>The size of an index in a file.\<close>

definition entries_bytes :: "vector_index \<Rightarrow> int" where
  "entries_bytes x = sum_list (map (\<lambda>(iid, e). int (2 + length iid + 32) + vx_dim x * 4) (vx_entries x))"

lemma mput_new: "mget m k = None \<Longrightarrow> mput k v m = m @ [(k, v)]"
  unfolding mget_def mput_def by (induction m) (auto split: if_splits)

lemma read_u16_length: "read_u16 s = Inr (h, r) \<Longrightarrow> length s = 2 + length r"
  and read_u32_length: "read_u32 s = Inr (w, r) \<Longrightarrow> length s = 4 + length r"
  by (auto simp: read_u16_def read_u32_def and_then_Inr read_full_Inr)

lemma read_entry_facts:
  assumes ok: "index_ok x" and read: "read_entry (x, s) = Inr (y, r)"
  shows "index_ok y" "vx_dim y = vx_dim x" "length (vx_entries y) = Suc (length (vx_entries x))"
    "int (length s) + entries_bytes x = int (length r) + entries_bytes y"
proof -
  obtain h s1 iid s2 hash s3 bs where r: "read_u16 s = Inr (h, s1)" "h \<noteq> 0" "read_full (unat h) s1 = Inr (iid, s2)"
    "mget (vx_entries x) iid = None" "read_full 32 s2 = Inr (hash, s3)" "read_full (nat (vx_dim x * 4)) s3 = Inr (bs, r)"
    "upsert iid hash (decode_vector (nat (vx_dim x)) bs) x = Inr y"
    using read_entry_Inr[OF read] by blast
  note full = r(3,5,6)[unfolded read_full_Inr]
  show "index_ok y" "vx_dim y = vx_dim x" using upsert_ok[OF ok r(7)] full(2) by simp_all
  show "length (vx_entries y) = Suc (length (vx_entries x))"
    "int (length s) + entries_bytes x = int (length r) + entries_bytes y"
    using r(7) read_u16_length[OF r(1)] full ok
    by (auto simp: upsert_Inr mput_new[OF r(4)] entries_bytes_def index_ok_def)
qed

lemma read_entries_facts:
  assumes "index_ok x" "read_entries n (x, s) = Inr (y, r)"
  shows "index_ok y \<and> vx_dim y = vx_dim x \<and> length (vx_entries y) = n + length (vx_entries x) \<and>
    int (length s) + entries_bytes x = int (length r) + entries_bytes y"
  using assms
proof (induction n arbitrary: x s)
  case (Suc n)
  from Suc.prems(2) obtain z r1 where z: "read_entry (x, s) = Inr (z, r1)" "read_entries n (z, r1) = Inr (y, r)"
    by (auto simp: and_then_Inr)
  note f = read_entry_facts[OF Suc.prems(1) z(1)]
  show ?case using Suc.IH[OF f(1) z(2)] f(2-4) by simp
qed simp

section \<open>Files that load\<close>

lemma check_header_None:
  "check_header sz dim cnt = None \<longleftrightarrow> dim \<noteq> 0 \<and> uint dim \<le> max_vector_index_dimension \<and>
     uint cnt \<le> max_vector_index_entries \<and>
     (uint cnt > 0 \<longrightarrow> uint cnt \<le> (sz - vector_index_header_size) div (min_vector_entry_overhead + uint dim * 4))"
  by (auto simp: check_header_def)

lemma check_header_room:
  assumes "check_header sz dim cnt = None" "cnt \<noteq> 0"
  shows "uint cnt * (min_vector_entry_overhead + uint dim * 4) \<le> sz - vector_index_header_size"
proof -
  let ?k = "min_vector_entry_overhead + uint dim * 4"
  have "0 < uint cnt" using assms(2) by (simp add: word_neq_0_conv word_less_def)
  then have "uint cnt \<le> (sz - vector_index_header_size) div ?k" using assms(1) by (simp add: check_header_None)
  moreover have k: "0 < ?k" by (simp add: min_vector_entry_overhead_def add_pos_nonneg)
  ultimately have "uint cnt * ?k \<le> (sz - vector_index_header_size) div ?k * ?k" by (intro mult_right_mono) auto
  also have "\<dots> \<le> sz - vector_index_header_size"
    using pos_mod_sign[OF k, of "sz - vector_index_header_size"] div_mult_mod_eq[of "sz - vector_index_header_size" ?k] by linarith
  finally show ?thesis .
qed

lemma check_header_mono:
  assumes "check_header sz dim cnt = None" "sz \<le> sz'"
  shows "check_header sz' dim cnt = None"
proof -
  have "(sz - vector_index_header_size) div k \<le> (sz' - vector_index_header_size) div k" if "0 < k" for k
    using assms(2) that by (intro zdiv_mono1) auto
  moreover have "0 < min_vector_entry_overhead + uint dim * 4" by (simp add: min_vector_entry_overhead_def add_pos_nonneg)
  ultimately show ?thesis using assms(1) unfolding check_header_None by (meson order_trans)
qed

lemma load_Inr:
  assumes "load_vector_index file = Inr x"
  obtains s1 s2 r s3 dim s4 cnt s5 where
    "vector_index_header_size \<le> int (length file)" "int (length file) \<le> max_vector_index_file_size"
    "read_full 4 file = Inr (vector_index_magic, s1)" "read_u16 s1 = Inr (vector_index_version, s2)"
    "read_u16 s2 = Inr (r, s3)" "read_u32 s3 = Inr (dim, s4)" "read_u32 s4 = Inr (cnt, s5)"
    "check_header (int (length file)) dim cnt = None"
    "read_entries (unat cnt) (new_vector_index (uint dim), s5) = Inr (x, [])"
  using assms unfolding load_vector_index_def Let_def
  by (auto simp: and_then_Inr not_less split: if_splits option.splits prod.splits)

lemma new_vector_index_simps [simp]:
  "vx_entries (new_vector_index d) = []" "0 < d \<Longrightarrow> vx_dim (new_vector_index d) = d"
  by (simp_all add: new_vector_index_def)

lemma entries_bytes_new [simp]: "entries_bytes (new_vector_index d) = 0"
  by (simp add: entries_bytes_def new_vector_index_def)

lemma load_facts:
  assumes "load_vector_index file = Inr x"
  shows "index_ok x" "vx_dim x \<le> max_vector_index_dimension" "int (index_size x) \<le> max_vector_index_entries"
    "int (length file) = vector_index_header_size + entries_bytes x" "int (length file) \<le> max_vector_index_file_size"
proof -
  obtain s1 s2 r s3 dim s4 cnt s5 where l: "int (length file) \<le> max_vector_index_file_size"
    "read_full 4 file = Inr (vector_index_magic, s1)" "read_u16 s1 = Inr (vector_index_version, s2)"
    "read_u16 s2 = Inr (r, s3)" "read_u32 s3 = Inr (dim, s4)" "read_u32 s4 = Inr (cnt, s5)"
    "check_header (int (length file)) dim cnt = None"
    "read_entries (unat cnt) (new_vector_index (uint dim), s5) = Inr (x, [])"
    using load_Inr[OF assms] by metis
  have "length file = 16 + length s5"
    using l(2) read_u16_length[OF l(3)] read_u16_length[OF l(4)] read_u32_length[OF l(5)] read_u32_length[OF l(6)]
    by (auto simp: read_full_Inr)
  moreover have "index_ok x \<and> vx_dim x = vx_dim (new_vector_index (uint dim)) \<and>
      length (vx_entries x) = unat cnt + length (vx_entries (new_vector_index (uint dim))) \<and>
      int (length s5) + entries_bytes (new_vector_index (uint dim)) = int (length ([] :: string)) + entries_bytes x"
    by (rule read_entries_facts[OF index_ok_new l(8)])
  moreover have "0 < uint dim" using l(7) by (simp add: check_header_None word_neq_0_conv word_less_def)
  moreover have "int (unat cnt) = uint cnt" by simp
  ultimately show "index_ok x" "vx_dim x \<le> max_vector_index_dimension" "int (index_size x) \<le> max_vector_index_entries"
    "int (length file) = vector_index_header_size + entries_bytes x" "int (length file) \<le> max_vector_index_file_size"
    using l(1,7) by (simp_all add: check_header_None index_size_def vector_index_header_size_def)
qed

lemma load_more:
  assumes "load_vector_index file = Inr x" "t \<noteq> []"
  shows "\<exists>e. load_vector_index (file @ t) = Inl e"
proof -
  obtain s1 s2 r s3 dim s4 cnt s5 where l: "vector_index_header_size \<le> int (length file)"
    "read_full 4 file = Inr (vector_index_magic, s1)" "read_u16 s1 = Inr (vector_index_version, s2)"
    "read_u16 s2 = Inr (r, s3)" "read_u32 s3 = Inr (dim, s4)" "read_u32 s4 = Inr (cnt, s5)"
    "check_header (int (length file)) dim cnt = None"
    "read_entries (unat cnt) (new_vector_index (uint dim), s5) = Inr (x, [])"
    using load_Inr[OF assms(1)] by metis
  have "check_header (int (length (file @ t))) dim cnt = None" by (rule check_header_mono[OF l(7)]) simp
  then show ?thesis
    using l(1) assms(2) read_full_more[OF l(2), of t] read_u_more(1)[OF l(3), of t] read_u_more(1)[OF l(4), of t]
      read_u_more(2)[OF l(5), of t] read_u_more(2)[OF l(6), of t] read_entries_more[OF l(8), of t]
    by (simp add: load_vector_index_def Let_def)
qed

lemma load_prefix:
  assumes "load_vector_index file = Inr x" "k < length file"
  shows "\<exists>e. load_vector_index (take k file) = Inl e"
proof (cases "load_vector_index (take k file)")
  case (Inr y)
  then show ?thesis using load_more[OF Inr, of "drop k file"] assms by auto
qed auto

section \<open>Files that are saved\<close>

definition id_bytes :: "vector_index \<Rightarrow> string \<Rightarrow> int" where
  "id_bytes x iid = int (2 + length iid + 32) + vx_dim x * 4"

lemma entries_bytes_ids:
  assumes "gomap_ok (vx_entries x)" "distinct ids" "set ids = set (mkeys (vx_entries x))"
  shows "entries_bytes x = sum_list (map (id_bytes x) ids)"
proof -
  have "mset ids = mset (mkeys (vx_entries x))"
    using assms by (simp add: gomap_ok_def set_eq_iff_mset_eq_distinct)
  then have "sum_list (map (id_bytes x) ids) = sum_list (map (id_bytes x) (mkeys (vx_entries x)))"
    by (metis mset_map sum_mset_sum_list)
  then show ?thesis by (simp add: entries_bytes_def id_bytes_def mkeys_def comp_def case_prod_unfold)
qed

lemma check_entries_None:
  assumes "vx_dim x > 0" "\<And>iid. iid \<in> set ids \<Longrightarrow> \<exists>e. mget (vx_entries x) iid = Some e \<and> int (length (ve_vector e)) = vx_dim x"
    and "sz \<le> max_vector_index_file_size"
  shows "check_entries x ids sz = None \<longleftrightarrow>
    (\<forall>iid \<in> set ids. length iid \<le> 65535) \<and> sz + sum_list (map (id_bytes x) ids) \<le> max_vector_index_file_size"
  using assms(2,3)
proof (induction ids arbitrary: sz)
  case (Cons iid ids)
  obtain e where e: "mget (vx_entries x) iid = Some e" "int (length (ve_vector e)) = vx_dim x" using Cons.prems(1) by auto
  have pos: "0 \<le> sum_list (map (id_bytes x) ids)" using assms(1) by (intro sum_list_nonneg) (auto simp: id_bytes_def)
  have "check_entries x (iid # ids) sz = None \<longleftrightarrow> length iid \<le> 65535 \<and> sz + id_bytes x iid \<le> max_vector_index_file_size \<and>
      check_entries x ids (sz + id_bytes x iid) = None"
    using e by (auto simp: Let_def id_bytes_def add.assoc)
  also have "\<dots> \<longleftrightarrow> (\<forall>iid \<in> set (iid # ids). length iid \<le> 65535) \<and>
      sz + sum_list (map (id_bytes x) (iid # ids)) \<le> max_vector_index_file_size"
    using Cons.IH[of "sz + id_bytes x iid"] Cons.prems(1) pos by (auto simp: add.assoc)
  finally show ?case .
qed simp

lemma read_encoded_entry:
  assumes e: "vector_entry_ok (vx_dim z) iid e" and "length iid \<le> 65535" "mget (vx_entries z) iid = None"
  shows "\<exists>z'. read_entry (z, encode_entry iid e @ t) = Inr (z', t) \<and> vx_dim z' = vx_dim z \<and>
    vx_entries z' = mput iid e (vx_entries z)"
proof -
  have len: "unat (word_of_nat (length iid) :: 16 word) = length iid"
    using assms(2) by (simp add: unat_of_nat take_bit_nat_eq_self_iff)
  have "iid \<noteq> []" using e by (simp add: vector_entry_ok_def)
  then have nz: "(word_of_nat (length iid) :: 16 word) \<noteq> 0" using len by (metis length_0_conv unat_0)
  have dim: "nat (vx_dim z) = length (ve_vector e)" "nat (vx_dim z * 4) = 4 * length (ve_vector e)"
    using e by (auto simp: vector_entry_ok_def)
  have "upsert iid (ve_hash e) (ve_vector e) z = Inr (z\<lparr>vx_entries := mput iid e (vx_entries z),
      vx_mutation := vx_mutation z + 1, vx_dirty := True\<rparr>)"
    using e assms(3) by (cases e) (simp add: upsert_Inr vector_entry_ok_def)
  then have "read_entry (z, encode_entry iid e @ t) = Inr (z\<lparr>vx_entries := mput iid e (vx_entries z),
      vx_mutation := vx_mutation z + 1, vx_dirty := True\<rparr>, t)"
    using e assms(3) len nz by (simp add: read_entry_def encode_entry_def dim decode_vector_put vector_entry_ok_def)
  then show ?thesis by auto
qed

lemma read_encoded_entries:
  assumes "\<And>iid. iid \<in> set ids \<Longrightarrow> \<exists>e. mget m iid = Some e \<and> vector_entry_ok (vx_dim z) iid e \<and> length iid \<le> 65535"
    and "distinct ids" "set ids \<inter> set (mkeys (vx_entries z)) = {}"
  shows "\<exists>z'. read_entries (length ids) (z, concat (map (\<lambda>iid. case mget m iid of None \<Rightarrow> [] | Some e \<Rightarrow> encode_entry iid e) ids) @ t) =
      Inr (z', t) \<and> vx_dim z' = vx_dim z \<and>
    (\<forall>k. mget (vx_entries z') k = (if k \<in> set ids then mget m k else mget (vx_entries z) k))"
  using assms
proof (induction ids arbitrary: z)
  case (Cons iid ids)
  obtain e where e: "mget m iid = Some e" "vector_entry_ok (vx_dim z) iid e" "length iid \<le> 65535" using Cons.prems(1) by auto
  have "mget (vx_entries z) iid = None" using Cons.prems(3) by (auto simp: mget_None_iff)
  then obtain z1 where z1: "read_entry (z, encode_entry iid e @
      concat (map (\<lambda>iid. case mget m iid of None \<Rightarrow> [] | Some e \<Rightarrow> encode_entry iid e) ids) @ t) =
      Inr (z1, concat (map (\<lambda>iid. case mget m iid of None \<Rightarrow> [] | Some e \<Rightarrow> encode_entry iid e) ids) @ t)"
    "vx_dim z1 = vx_dim z" "vx_entries z1 = mput iid e (vx_entries z)"
    using read_encoded_entry[OF e(2,3)] by blast
  obtain z' where "read_entries (length ids)
      (z1, concat (map (\<lambda>iid. case mget m iid of None \<Rightarrow> [] | Some e \<Rightarrow> encode_entry iid e) ids) @ t) = Inr (z', t)"
    "vx_dim z' = vx_dim z1" "\<forall>k. mget (vx_entries z') k = (if k \<in> set ids then mget m k else mget (vx_entries z1) k)"
    using Cons.IH[of z1] Cons.prems z1(2,3) by auto
  then show ?case using z1 e(1) Cons.prems(2) by auto
qed simp

text \<open>An index fits in a file if it keeps all limits.\<close>

definition fits :: "vector_index \<Rightarrow> bool" where
  "fits x \<longleftrightarrow> vx_dim x \<le> max_vector_index_dimension \<and> int (index_size x) \<le> max_vector_index_entries \<and>
     (\<forall>iid \<in> set (mkeys (vx_entries x)). length iid \<le> 65535) \<and>
     vector_index_header_size + entries_bytes x \<le> max_vector_index_file_size"

lemma save_result:
  assumes ok: "index_ok x" and order: "range_order (vx_entries x) ks"
  shows "snd (save_vector_index ks x) = x \<or> snd (save_vector_index ks x) = snd (sorted_ids_cached ks x)"
    and "(\<exists>file. fst (save_vector_index ks x) = Inr file) \<longleftrightarrow> fits x"
    and "fst (save_vector_index ks x) = Inr file \<Longrightarrow> file = encode_index x (fst (sorted_ids_cached ks x))"
proof -
  let ?ids = "fst (sorted_ids_cached ks x)" and ?y = "snd (sorted_ids_cached ks x)"
  note s = sorted_ids_cached_ok[OF ok order]
  have d: "distinct ?ids" using s(4) by (simp add: strict_sorted_iff)
  have m: "gomap_ok (vx_entries x)" "vx_dim x > 0" using ok by (simp_all add: index_ok_def)
  have "length ?ids = length (mkeys (vx_entries x))" using d s(5) m(1) by (metis distinct_card gomap_ok_def)
  then have len: "length ?ids = length (vx_entries x)" by (simp add: mkeys_def)
  have bytes: "entries_bytes x = sum_list (map (id_bytes x) ?ids)" by (rule entries_bytes_ids[OF m(1) d s(5)])
  have same: "id_bytes ?y = id_bytes x" by (simp add: id_bytes_def s(3) fun_eq_iff)
  have ex: "\<exists>e. mget (vx_entries ?y) iid = Some e \<and> int (length (ve_vector e)) = vx_dim ?y" if "iid \<in> set ?ids" for iid
    using that ok s(2,3,5) by (auto simp: mkeys_ex index_ok_def vector_entry_ok_def)
  have check: "check_entries ?y ?ids vector_index_header_size = None \<longleftrightarrow>
      (\<forall>iid \<in> set (mkeys (vx_entries x)). length iid \<le> 65535) \<and>
      vector_index_header_size + entries_bytes x \<le> max_vector_index_file_size"
    using check_entries_None[of ?y ?ids vector_index_header_size, OF _ ex] m(2) s(3)
    by (simp add: bytes same s(5) vector_limits)
  have enc: "encode_index ?y = encode_index x" by (rule ext) (simp add: encode_index_def s(2,3))
  have save: "save_vector_index ks x =
     (if vx_dim x > 4294967295 then (Inl (DimNotSerializable (vx_dim x)), x)
      else if int (length (vx_entries x)) > 4294967295 then (Inl (CountNotSerializable (int (length (vx_entries x)))), x)
      else if vx_dim x > max_vector_index_dimension then (Inl (DimExceedsMaximum (vx_dim x)), ?y)
      else if int (length (vx_entries x)) > max_vector_index_entries then (Inl (CountExceedsMaximum (int (length (vx_entries x)))), ?y)
      else case check_entries ?y ?ids vector_index_header_size of
        Some e \<Rightarrow> (Inl e, ?y) | None \<Rightarrow> (Inr (encode_index x ?ids), ?y))"
    by (cases "sorted_ids_cached ks x") (use m(2) s(3) len enc in \<open>simp add: save_vector_index_def cong: option.case_cong\<close>)
  show "snd (save_vector_index ks x) = x \<or> snd (save_vector_index ks x) = ?y"
    unfolding save by (auto split: option.splits)
  show "fst (save_vector_index ks x) = Inr file \<Longrightarrow> file = encode_index x ?ids"
    unfolding save by (auto split: option.splits if_splits)
  show "(\<exists>file. fst (save_vector_index ks x) = Inr file) \<longleftrightarrow> fits x"
  proof (cases "check_entries ?y ?ids vector_index_header_size")
    case None
    then show ?thesis using check unfolding save fits_def index_size_def by (auto simp: vector_limits)
  next
    case (Some e)
    then show ?thesis using check unfolding save fits_def index_size_def by (auto simp: vector_limits)
  qed
qed

lemma load_encoded:
  assumes ok: "index_ok x" and "fits x" and ids: "sorted_wrt (<) ids" "set ids = set (mkeys (vx_entries x))"
  shows "int (length (encode_index x ids)) = vector_index_header_size + entries_bytes x"
    "\<exists>z. load_vector_index (encode_index x ids) = Inr z \<and> vx_dim z = vx_dim x \<and>
      (\<forall>iid. mget (vx_entries z) iid = mget (vx_entries x) iid)"
proof -
  note f = \<open>fits x\<close>[unfolded fits_def]
  have m: "gomap_ok (vx_entries x)" "vx_dim x > 0" using ok by (simp_all add: index_ok_def)
  have d: "distinct ids" using ids(1) by (simp add: strict_sorted_iff)
  have "length ids = length (mkeys (vx_entries x))" using d ids(2) m(1) by (metis distinct_card gomap_ok_def)
  then have len: "length ids = index_size x" by (simp add: mkeys_def index_size_def)
  have all: "\<exists>e. mget (vx_entries x) iid = Some e \<and> vector_entry_ok (vx_dim x) iid e \<and> length iid \<le> 65535"
    if "iid \<in> set ids" for iid
    using that ok f ids(2) by (auto simp: mkeys_ex index_ok_def)
  define body where "body = concat (map (\<lambda>iid. case mget (vx_entries x) iid of None \<Rightarrow> [] | Some e \<Rightarrow> encode_entry iid e) ids)"
  have bytes: "entries_bytes x = sum_list (map (id_bytes x) ids)" by (rule entries_bytes_ids[OF m(1) d ids(2)])
  have entry_len: "int (length (case mget (vx_entries x) iid of None \<Rightarrow> [] | Some e \<Rightarrow> encode_entry iid e)) = id_bytes x iid"
    if "iid \<in> set ids" for iid
    using all[OF that] by (auto simp: encode_entry_def id_bytes_def vector_entry_ok_def)
  have "int (length body) = sum_list (map (id_bytes x) ids)"
    unfolding body_def using entry_len by (induction ids) auto
  then show size: "int (length (encode_index x ids)) = vector_index_header_size + entries_bytes x"
    by (simp add: encode_index_def bytes vector_index_magic_def vector_index_header_size_def flip: body_def)
  have dim: "uint (word_of_int (vx_dim x) :: 32 word) = vx_dim x"
    using f m(2) by (simp add: uint_word_of_int_eq take_bit_int_eq_self_iff vector_limits)
  have cnt: "unat (word_of_nat (length ids) :: 32 word) = length ids"
    using f len by (simp add: unat_of_nat take_bit_nat_eq_self_iff vector_limits)
  have cnt': "uint (word_of_nat (length ids) :: 32 word) = int (length ids)" by (simp only: uint_nat cnt)
  have "check_header (int (length (encode_index x ids))) (word_of_int (vx_dim x)) (word_of_nat (length ids)) = None"
  proof -
    have "(word_of_int (vx_dim x) :: 32 word) \<noteq> 0" using dim m(2) by (metis less_irrefl uint_0_eq)
    moreover have k: "0 < min_vector_entry_overhead + vx_dim x * 4" using m(2) by (simp add: min_vector_entry_overhead_def)
    have "int (length ids) * (min_vector_entry_overhead + vx_dim x * 4) \<le> entries_bytes x"
    proof -
      have "min_vector_entry_overhead + vx_dim x * 4 \<le> id_bytes x iid" if "iid \<in> set ids" for iid
        using all[OF that] by (cases iid) (auto simp: id_bytes_def vector_entry_ok_def min_vector_entry_overhead_def)
      then have "sum_list (map (\<lambda>_. min_vector_entry_overhead + vx_dim x * 4) ids) \<le> sum_list (map (id_bytes x) ids)"
        by (intro sum_list_mono) auto
      then show ?thesis by (simp add: bytes sum_list_triv)
    qed
    then have "int (length ids) \<le> entries_bytes x div (min_vector_entry_overhead + vx_dim x * 4)"
      using zdiv_mono1[of "int (length ids) * (min_vector_entry_overhead + vx_dim x * 4)" "entries_bytes x"
          "min_vector_entry_overhead + vx_dim x * 4"] k by simp
    ultimately show ?thesis using f by (simp add: check_header_None dim cnt'[unfolded len] size len)
  qed
  then have head: "check_header (int (length (encode_index x ids))) (word_of_int (vx_dim x)) (word_of_nat (length ids)) = None" .
  obtain z where z: "read_entries (length ids) (new_vector_index (vx_dim x), body @ []) = Inr (z, [])"
    "vx_dim z = vx_dim x" "\<forall>k. mget (vx_entries z) k = (if k \<in> set ids then mget (vx_entries x) k else None)"
    using read_encoded_entries[of ids "vx_entries x" "new_vector_index (vx_dim x)" "[]"] all d m(2)
    unfolding body_def by auto
  have "mget (vx_entries x) k = None" if "k \<notin> set ids" for k using that ids(2) by (simp add: mget_None_iff)
  then have get: "\<forall>iid. mget (vx_entries z) iid = mget (vx_entries x) iid" using z(3) by auto
  let ?s1 = "put_u16 vector_index_version @ put_u16 0 @ put_u32 (word_of_int (vx_dim x)) @ put_u32 (word_of_nat (length ids)) @ body"
  have enc: "encode_index x ids = vector_index_magic @ ?s1" by (simp add: encode_index_def body_def)
  have magic: "read_full 4 (encode_index x ids) = Inr (vector_index_magic, ?s1)"
    unfolding enc by (rule read_full_append) (simp add: vector_index_magic_def)
  have "0 \<le> entries_bytes x" using size by (simp add: enc vector_index_magic_def vector_index_header_size_def)
  then have "\<not> int (length (encode_index x ids)) < vector_index_header_size"
    "\<not> int (length (encode_index x ids)) > max_vector_index_file_size"
    using f by (simp_all add: size)
  then have "load_vector_index (encode_index x ids) = Inr z"
    using z(1) head magic by (simp add: load_vector_index_def Let_def dim cnt)
  then show "\<exists>z. load_vector_index (encode_index x ids) = Inr z \<and> vx_dim z = vx_dim x \<and>
      (\<forall>iid. mget (vx_entries z) iid = mget (vx_entries x) iid)" using z(2) get by blast
qed

section \<open>Properties\<close>

definition demo_vectors :: vector_index where
  "demo_vectors =
     (case and_then (upsert ''b'' (replicate 32 CHR ''x'') [0x3F800000, 0] (new_vector_index 2))
        (upsert ''a'' (replicate 32 CHR ''y'') [0, 0xBF800000]) of
      Inl e \<Rightarrow> new_vector_index 2 | Inr x \<Rightarrow> x)"

lemma demo_vectors_built:
  "and_then (upsert ''b'' (replicate 32 CHR ''x'') [0x3F800000, 0] (new_vector_index 2))
     (upsert ''a'' (replicate 32 CHR ''y'') [0, 0xBF800000]) = Inr demo_vectors"
  by code_simp

lemma demo_vectors_ok:
  "index_ok demo_vectors" "range_order (vx_entries demo_vectors) [''b'', ''a'']" "fits demo_vectors"
proof -
  obtain y where y: "upsert ''b'' (replicate 32 CHR ''x'') [0x3F800000, 0] (new_vector_index 2) = Inr y"
    "upsert ''a'' (replicate 32 CHR ''y'') [0, 0xBF800000] y = Inr demo_vectors"
    using demo_vectors_built by (auto simp: and_then_Inr)
  show "index_ok demo_vectors"
    by (rule upsert_ok(1)[OF upsert_ok(1)[OF index_ok_new y(1)] y(2)]) simp_all
  have keys: "mkeys (vx_entries demo_vectors) = [''b'', ''a'']" by code_simp
  show "range_order (vx_entries demo_vectors) [''b'', ''a'']" by (simp add: range_order_def keys)
  have "entries_bytes demo_vectors = 86" "index_size demo_vectors = 2" "vx_dim demo_vectors = 2" by code_simp+
  then show "fits demo_vectors" by (simp add: fits_def keys vector_limits)
qed

text \<open>C18: Saving and loading are inverse: an index of finite vectors of its dimension under non-empty ids,
  which all operations keep, is written exactly when it fits the limits of the format, and then loading
  the file gives the same dimension and the same entries, bit for bit. Saving changes no entry, and the
  bytes do not depend on the order in which Go visits the map.\<close>

theorem vector_index_roundtrip:
  assumes "index_ok x" "range_order (vx_entries x) ks"
  shows "(case fst (save_vector_index ks x) of
      Inl e \<Rightarrow> \<not> fits x
    | Inr file \<Rightarrow> fits x \<and> int (length file) = vector_index_header_size + entries_bytes x \<and>
        (\<exists>z. load_vector_index file = Inr z \<and> vx_dim z = vx_dim x \<and> (\<forall>iid. get_entry iid z = get_entry iid x)) \<and>
        (\<forall>ks'. range_order (vx_entries x) ks' \<longrightarrow> fst (save_vector_index ks' x) = Inr file)) \<and>
    index_ok (snd (save_vector_index ks x)) \<and> vx_entries (snd (save_vector_index ks x)) = vx_entries x"
proof (intro conjI)
  note s = sorted_ids_cached_ok[OF assms] and r = save_result[OF assms]
  show "index_ok (snd (save_vector_index ks x))" "vx_entries (snd (save_vector_index ks x)) = vx_entries x"
    using r(1) s(1,2) assms(1) by auto
  show "case fst (save_vector_index ks x) of Inl e \<Rightarrow> \<not> fits x
    | Inr file \<Rightarrow> fits x \<and> int (length file) = vector_index_header_size + entries_bytes x \<and>
        (\<exists>z. load_vector_index file = Inr z \<and> vx_dim z = vx_dim x \<and> (\<forall>iid. get_entry iid z = get_entry iid x)) \<and>
        (\<forall>ks'. range_order (vx_entries x) ks' \<longrightarrow> fst (save_vector_index ks' x) = Inr file)"
  proof (cases "fst (save_vector_index ks x)")
    case (Inl e)
    then show ?thesis using r(2) by auto
  next
    case (Inr bs)
    then have fit: "fits x" and enc: "bs = encode_index x (fst (sorted_ids_cached ks x))" using r(2,3) by blast+
    have "fst (save_vector_index ks' x) = Inr bs" if ks': "range_order (vx_entries x) ks'" for ks'
    proof -
      note s' = sorted_ids_cached_ok[OF assms(1) ks'] and r' = save_result[OF assms(1) ks']
      have "fst (sorted_ids_cached ks' x) = fst (sorted_ids_cached ks x)"
        using s(4,5) s'(4,5) by (metis strict_sorted_equal)
      then show ?thesis using r'(2,3) fit enc by (metis (no_types))
    qed
    then show ?thesis using Inr fit load_encoded[OF assms(1) fit s(4,5)] unfolding enc get_entry_def by auto
  qed
qed

lemma vector_index_roundtrip_witness:
  "\<exists>file z. fst (save_vector_index [''b'', ''a''] demo_vectors) = Inr file \<and> length file = 102 \<and>
     load_vector_index file = Inr z \<and> get_entry ''a'' z = Some \<lparr>ve_hash = replicate 32 CHR ''y'', ve_vector = [0, 0xBF800000]\<rparr>"
proof -
  have e: "vector_index_header_size + entries_bytes demo_vectors = 102" by code_simp
  have g: "get_entry ''a'' demo_vectors = Some \<lparr>ve_hash = replicate 32 CHR ''y'', ve_vector = [0, 0xBF800000]\<rparr>"
    by code_simp
  obtain bs where f: "fst (save_vector_index [''b'', ''a''] demo_vectors) = Inr bs"
    using vector_index_roundtrip[OF demo_vectors_ok(1,2)] demo_vectors_ok(3)
    by (cases "fst (save_vector_index [''b'', ''a''] demo_vectors)") auto
  then show ?thesis using vector_index_roundtrip[OF demo_vectors_ok(1,2)] g unfolding e f by auto
qed

text \<open>C20: Loading is safe for every file: the header is refused unless its entries fit into the file, so
  no buffer is larger than the file itself; what loads keeps the invariant, is within the limits and
  accounts for every byte of the file; and no file that loads still loads when it is truncated or when
  bytes are appended.\<close>

theorem vector_index_load_bounds:
  assumes "load_vector_index file = Inr x"
  shows "index_ok x \<and> vx_dim x \<le> max_vector_index_dimension \<and> int (index_size x) \<le> max_vector_index_entries \<and>
    int (length file) \<le> max_vector_index_file_size \<and>
    int (length file) = vector_index_header_size + entries_bytes x \<and>
    (\<forall>sz dim cnt. check_header sz dim cnt = None \<and> cnt \<noteq> 0 \<longrightarrow>
      uint cnt * (min_vector_entry_overhead + uint dim * 4) \<le> sz - vector_index_header_size) \<and>
    (\<forall>k < length file. \<exists>e. load_vector_index (take k file) = Inl e) \<and>
    (\<forall>t. t \<noteq> [] \<longrightarrow> (\<exists>e. load_vector_index (file @ t) = Inl e))"
  using load_facts[OF assms] load_prefix[OF assms] load_more[OF assms] check_header_room by blast

text \<open>The file of an index of dimension 1 with one entry, whose vector is the least positive number.\<close>

definition demo_file :: string where
  "demo_file = ''BVVI'' @ map char_of [1, 0, 0, 0, 1, 0, 0, 0, 1, 0, 0, 0, 1, 0 :: nat] @ ''a'' @
     replicate 32 CHR ''x'' @ map char_of [1, 0, 0, 0 :: nat]"

lemma vector_index_load_bounds_witness:
  "\<exists>x. load_vector_index demo_file = Inr x \<and> index_ok x \<and>
     (\<exists>e. load_vector_index (take 40 demo_file) = Inl e) \<and> (\<exists>e. load_vector_index (demo_file @ ''!'') = Inl e)"
proof -
  have k: "40 < length demo_file" by code_simp
  have "case load_vector_index demo_file of Inl e \<Rightarrow> False | Inr x \<Rightarrow> True" by code_simp
  then obtain x where x: "load_vector_index demo_file = Inr x" by (cases "load_vector_index demo_file") auto
  note b = vector_index_load_bounds[OF x]
  have "index_ok x" "\<exists>e. load_vector_index (take 40 demo_file) = Inl e"
    "\<exists>e. load_vector_index (demo_file @ ''!'') = Inl e" using b k by simp_all
  then show ?thesis using x by blast
qed

end
