(* ===== verification/Bv_Index_Sync.thy ===== *)
theory Bv_Index_Sync
  imports Bv_Vector_Index Bv_Model
begin

text \<open>
  \<open>pkg/search/documents.go\<close> and \<open>pkg/search/index_sync.go\<close>: the text of an issue, and the synchronisation
  of the semantic index with the texts of the current issues.

  Parameters: \<open>hash\<close> stands for SHA-256; the embedder answers its \<open>b\<close>-th batch with vectors or an error;
  \<open>ctx n\<close> says whether the context is done at its \<open>n\<close>-th check. While the vectors are computed the index
  is not locked: \<open>now\<close> is the index when it is locked again, and \<open>interferes\<close> says what other goroutines
  can have done to it since.
\<close>

section \<open>Documents\<close>

definition issue_document :: "issue \<Rightarrow> string" where
  "issue_document i =
     (let iid = trim_space (issue_id i); t = trim_space (title i);
          ls = trim_space (join '' '' (labels i)); d = trim_space (description i) in
      join [CHR 0x0A] ((if iid \<noteq> [] then [iid, iid, iid] else []) @ (if t \<noteq> [] then [t, t] else []) @
        (if ls \<noteq> [] then [ls] else []) @ (if d \<noteq> [] then [d] else [])))"

definition documents_from_issues :: "issue list \<Rightarrow> (string, string) gomap" where
  "documents_from_issues issues =
     fold (\<lambda>i docs. if issue_id i = [] then docs else mput (issue_id i) (issue_document i) docs) issues []"

section \<open>Synchronisation\<close>

record sync_stats =
  st_total :: int
  st_added :: int
  st_updated :: int
  st_removed :: int
  st_skipped :: int
  st_embedded :: int

definition total_stats :: "nat \<Rightarrow> sync_stats" where
  "total_stats n = \<lparr>st_total = int n, st_added = 0, st_updated = 0, st_removed = 0, st_skipped = 0, st_embedded = 0\<rparr>"

definition stats_changed :: "sync_stats \<Rightarrow> bool" where
  "stats_changed s \<longleftrightarrow> st_added s + st_updated s + st_removed s > 0"

record embedder =
  em_dim :: int
  em_embed :: "nat \<Rightarrow> string list \<Rightarrow> string + 32 word list list"

datatype sync_error =
    ContextDone | EmbedderDim int int | EmptyDocId | EmbedFailed nat nat string | VectorCount nat nat
  | VectorDim string int int | InvalidVector string vector_error | DimChanged int int | ChangedConcurrently

text \<open>What the scan of the documents collects: the statistics, the ids to embed with their texts and
  hashes (three parallel slices in the code), and the target entries.\<close>

record sync_scan =
  ss_stats :: sync_stats
  ss_embed :: "(string \<times> string \<times> string) list"
  ss_target :: "(string, vector_entry) gomap"

fun scan_docs :: "(string \<Rightarrow> string) \<Rightarrow> (string, string) gomap \<Rightarrow> (string, vector_entry) gomap \<Rightarrow> string list \<Rightarrow>
    sync_scan \<Rightarrow> sync_error option \<times> sync_scan" where
  "scan_docs hash docs old [] s = (None, s)"
| "scan_docs hash docs old (iid # ids) s =
     (if iid = [] then (Some EmptyDocId, s)
      else let text = mget_or [] docs iid; ch = hash text; stats = ss_stats s in
        case mget old iid of
          Some e \<Rightarrow>
            if ve_hash e = ch then
              scan_docs hash docs old ids
                (s\<lparr>ss_stats := stats\<lparr>st_skipped := st_skipped stats + 1\<rparr>, ss_target := mput iid e (ss_target s)\<rparr>)
            else
              scan_docs hash docs old ids
                (s\<lparr>ss_stats := stats\<lparr>st_updated := st_updated stats + 1\<rparr>, ss_embed := ss_embed s @ [(iid, text, ch)]\<rparr>)
        | None \<Rightarrow>
            scan_docs hash docs old ids
              (s\<lparr>ss_stats := stats\<lparr>st_added := st_added stats + 1\<rparr>, ss_embed := ss_embed s @ [(iid, text, ch)]\<rparr>))"

text \<open>The slices \<open>[start:end]\<close> of the embedding loop.\<close>

fun batches :: "nat \<Rightarrow> 'a list \<Rightarrow> 'a list list" where
  "batches n xs = (if n = 0 \<or> xs = [] then [] else take n xs # batches n (drop n xs))"

declare batches.simps [simp del]

fun stage_vectors :: "int \<Rightarrow> (string \<times> string \<times> string) list \<Rightarrow> 32 word list list \<Rightarrow> sync_scan \<Rightarrow>
    sync_error + sync_scan" where
  "stage_vectors dim ((iid, text, ch) # staged) (vec # vecs) s =
     (if int (length vec) \<noteq> dim then Inl (VectorDim iid (int (length vec)) dim)
      else case validate_finite 0 vec of
        Some e \<Rightarrow> Inl (InvalidVector iid e)
      | None \<Rightarrow> stage_vectors dim staged vecs
          (s\<lparr>ss_stats := (ss_stats s)\<lparr>st_embedded := st_embedded (ss_stats s) + 1\<rparr>,
             ss_target := mput iid \<lparr>ve_hash = ch, ve_vector = vec\<rparr> (ss_target s)\<rparr>))"
| "stage_vectors dim _ _ s = Inr s"

fun embed_batches :: "embedder \<Rightarrow> (nat \<Rightarrow> bool) \<Rightarrow> int \<Rightarrow> nat \<Rightarrow> nat \<Rightarrow> (string \<times> string \<times> string) list list \<Rightarrow>
    sync_scan \<Rightarrow> sync_error + sync_scan" where
  "embed_batches em ctx dim b start [] s = Inr s"
| "embed_batches em ctx dim b start (c # cs) s =
     (if ctx (2 + b) then Inl ContextDone
      else case em_embed em b (map (\<lambda>(iid, text, ch). text) c) of
        Inl msg \<Rightarrow> Inl (EmbedFailed start (start + length c) msg)
      | Inr vecs \<Rightarrow>
        if length vecs \<noteq> length c then Inl (VectorCount (length vecs) (length c))
        else and_then (stage_vectors dim c vecs s) (embed_batches em ctx dim (b + 1) (start + length c) cs))"

definition sync_vector_index :: "(nat \<Rightarrow> bool) \<Rightarrow> (string \<Rightarrow> string) \<Rightarrow> embedder \<Rightarrow> (string, string) gomap \<Rightarrow> string list \<Rightarrow>
    int \<Rightarrow> vector_index \<Rightarrow> vector_index \<Rightarrow> sync_error option \<times> sync_stats \<times> vector_index" where
  "sync_vector_index ctx hash em docs ks batch_size x now =
     (let stats0 = total_stats (length docs) in
      if ctx 0 then (Some ContextDone, stats0, now)
      else if vx_dim x \<noteq> em_dim em then (Some (EmbedderDim (vx_dim x) (em_dim em)), stats0, now)
      else case scan_docs hash docs (vx_entries x) (sort ks) \<lparr>ss_stats = stats0, ss_embed = [], ss_target = []\<rparr> of
        (Some e, s) \<Rightarrow> (Some e, ss_stats s, now)
      | (None, s) \<Rightarrow>
        let stats = ss_stats s;
            stats = stats\<lparr>st_removed := int (length (vx_entries x)) - (st_skipped stats + st_updated stats)\<rparr> in
        if ctx 1 then (Some ContextDone, stats0, now)
        else if \<not> stats_changed stats then
          if vx_dim now = vx_dim x \<and> vx_mutation now = vx_mutation x then (None, stats, now)
          else (Some ChangedConcurrently, stats0, now)
        else
          let n = (if batch_size \<le> 0 then 32 else nat batch_size); cs = batches n (ss_embed s) in
          case embed_batches em ctx (vx_dim x) 0 0 cs (s\<lparr>ss_stats := stats\<rparr>) of
            Inl e \<Rightarrow> (Some e, stats0, now)
          | Inr s \<Rightarrow>
            if ctx (2 + length cs) then (Some ContextDone, stats0, now)
            else if vx_dim now \<noteq> vx_dim x then (Some (DimChanged (vx_dim now) (vx_dim x)), stats0, now)
            else if vx_mutation now \<noteq> vx_mutation x then (Some ChangedConcurrently, stats0, now)
            else (None, ss_stats s, now\<lparr>vx_entries := ss_target s, vx_ids := None, vx_dirty := True,
              vx_mutation := vx_mutation now + 1\<rparr>))"

text \<open>The index file at start-up: \<open>None\<close> when there is no file; \<open>renamed\<close> says whether an unusable file can
  be moved away. The second result is whether the stored index is used.\<close>

definition load_or_new_vector_index :: "string option \<Rightarrow> bool \<Rightarrow> int \<Rightarrow> vector_error + vector_index \<times> bool" where
  "load_or_new_vector_index stored renamed dim =
     (let dim = (if dim \<le> 0 then default_embedding_dim else dim) in
      case stored of None \<Rightarrow> Inr (new_vector_index dim, False)
      | Some bytes \<Rightarrow>
        case load_vector_index bytes of
          Inl e \<Rightarrow> if renamed then Inr (new_vector_index dim, False) else Inl e
        | Inr x \<Rightarrow>
          if vx_dim x = dim then Inr (x, True)
          else if renamed then Inr (new_vector_index dim, False) else Inl (DimMismatch (vx_dim x) dim))"

section \<open>Concurrent changes\<close>

text \<open>What other goroutines can do to an index, with the number of changes; a synchronisation of theirs
  replaces all entries.\<close>

inductive interferes :: "nat \<Rightarrow> vector_index \<Rightarrow> vector_index \<Rightarrow> bool" where
  idle: "interferes 0 x x"
| upserts: "interferes n x y \<Longrightarrow> upsert iid hash vec y = Inr z \<Longrightarrow> length hash = 32 \<Longrightarrow> interferes (Suc n) x z"
| removes: "interferes n x y \<Longrightarrow> get_entry iid y = Some e \<Longrightarrow> interferes (Suc n) x (remove_entry iid y)"
| lists: "interferes n x y \<Longrightarrow> range_order (vx_entries y) ks \<Longrightarrow> interferes n x (snd (sorted_ids_cached ks y))"
| publishes: "interferes n x y \<Longrightarrow> gomap_ok m \<Longrightarrow> \<forall>iid e. mget m iid = Some e \<longrightarrow> vector_entry_ok (vx_dim y) iid e \<Longrightarrow>
    interferes (Suc n) x (y\<lparr>vx_entries := m, vx_ids := None, vx_dirty := True, vx_mutation := vx_mutation y + 1\<rparr>)"

lemma index_ok_publish:
  assumes "index_ok y" "gomap_ok m" "\<forall>iid e. mget m iid = Some e \<longrightarrow> vector_entry_ok (vx_dim y) iid e"
  shows "index_ok (y\<lparr>vx_entries := m, vx_ids := None, vx_dirty := True, vx_mutation := k\<rparr>)"
  using assms unfolding index_ok_def by simp

lemma interferes_facts:
  assumes "interferes n x y" "index_ok x"
  shows "index_ok y" "vx_dim y = vx_dim x" "vx_mutation y = vx_mutation x + of_nat n"
    "n = 0 \<Longrightarrow> vx_entries y = vx_entries x"
proof -
  have "index_ok y \<and> vx_dim y = vx_dim x \<and> vx_mutation y = vx_mutation x + of_nat n \<and>
      (n = 0 \<longrightarrow> vx_entries y = vx_entries x)"
    using assms
  proof (induction)
    case (upserts n x y iid hash vec z)
    have y: "index_ok y" "vx_dim y = vx_dim x" "vx_mutation y = vx_mutation x + of_nat n" using upserts by simp_all
    have "vx_mutation z = vx_mutation y + 1" using upserts.hyps(2) by (simp add: upsert_Inr)
    then show ?case using upsert_ok(1,2)[OF y(1) upserts.hyps(2,3)] y(2,3) by simp
  next
    case (removes n x y iid e)
    then show ?case using remove_entry_ok[of y iid] by (auto simp: remove_entry_def get_entry_def)
  next
    case (lists n x y ks)
    then show ?case using sorted_ids_cached_ok[of y ks]
      by (auto simp: sorted_ids_cached_def split: bool.splits option.splits)
  next
    case (publishes n x y m)
    have y: "index_ok y" "vx_dim y = vx_dim x" "vx_mutation y = vx_mutation x + of_nat n" using publishes by simp_all
    have "index_ok (y\<lparr>vx_entries := m, vx_ids := None, vx_dirty := True, vx_mutation := vx_mutation y + 1\<rparr>)"
      by (rule index_ok_publish[OF y(1) publishes.hyps(2)]) (rule publishes.hyps(3))
    then show ?case using y(2,3) by simp
  qed simp
  then show "index_ok y" "vx_dim y = vx_dim x" "vx_mutation y = vx_mutation x + of_nat n"
    "n = 0 \<Longrightarrow> vx_entries y = vx_entries x" by blast+
qed

lemma interferes_unnoticed:
  assumes "interferes n x y" "index_ok x" "n < 2 ^ 64" "vx_mutation y = vx_mutation x"
  shows "n = 0"
proof -
  have "(of_nat n :: 64 word) = 0" using assms(4) interferes_facts(3)[OF assms(1,2)] by simp
  then have "2 ^ 64 dvd n" by (simp add: word_of_nat_eq_0_iff)
  then show ?thesis using assms(3) by (metis dvd_imp_le gr0I leD)
qed

section \<open>What a synchronisation does\<close>

definition keeps :: "(string \<Rightarrow> string) \<Rightarrow> (string, string) gomap \<Rightarrow> (string, vector_entry) gomap \<Rightarrow> string \<Rightarrow> bool" where
  "keeps hash docs old iid =
     (case mget old iid of None \<Rightarrow> False | Some e \<Rightarrow> ve_hash e = hash (mget_or [] docs iid))"

definition kept_entries :: "(string, vector_entry) gomap \<Rightarrow> string list \<Rightarrow> (string, vector_entry) gomap \<Rightarrow> (string, vector_entry) gomap" where
  "kept_entries old ids m = fold (\<lambda>iid m. case mget old iid of None \<Rightarrow> m | Some e \<Rightarrow> mput iid e m) ids m"

definition to_embed :: "(string \<Rightarrow> string) \<Rightarrow> (string, string) gomap \<Rightarrow> string list \<Rightarrow> (string \<times> string \<times> string) list" where
  "to_embed hash docs ids = map (\<lambda>iid. (iid, mget_or [] docs iid, hash (mget_or [] docs iid))) ids"

lemma scan_docs_result:
  assumes "[] \<notin> set ids"
  shows "scan_docs hash docs old ids s =
    (None, s\<lparr>ss_stats := (ss_stats s)
        \<lparr>st_skipped := st_skipped (ss_stats s) + int (length (filter (keeps hash docs old) ids)),
         st_updated := st_updated (ss_stats s) + int (length (filter (\<lambda>i. \<not> keeps hash docs old i \<and> mget old i \<noteq> None) ids)),
         st_added := st_added (ss_stats s) + int (length (filter (\<lambda>i. mget old i = None) ids))\<rparr>,
      ss_embed := ss_embed s @ to_embed hash docs (filter (\<lambda>i. \<not> keeps hash docs old i) ids),
      ss_target := kept_entries old (filter (keeps hash docs old) ids) (ss_target s)\<rparr>)"
  using assms
proof (induction ids arbitrary: s)
  case (Cons iid ids)
  then show ?case
    by (cases "mget old iid") (auto simp: keeps_def to_embed_def kept_entries_def Let_def)
qed (simp add: to_embed_def kept_entries_def)

lemma kept_entries_get:
  "mget (kept_entries old ids m) k = (if k \<in> set ids \<and> mget old k \<noteq> None then mget old k else mget m k)"
  by (induction ids arbitrary: m) (auto simp: kept_entries_def split: option.splits)

lemma gomap_ok_kept: "gomap_ok m \<Longrightarrow> gomap_ok (kept_entries old ids m)"
  unfolding kept_entries_def by (induction ids arbitrary: m) (auto split: option.splits)

lemma concat_batches: "0 < n \<Longrightarrow> concat (batches n xs) = xs"
proof (induction n xs rule: batches.induct)
  case (1 n xs)
  then show ?case by (cases "xs = []") (simp_all add: batches.simps[of n])
qed

text \<open>The embedder answered a text with a vector.\<close>

definition answered :: "embedder \<Rightarrow> string \<Rightarrow> 32 word list \<Rightarrow> bool" where
  "answered em t v \<longleftrightarrow> (\<exists>b ts vs j. em_embed em b ts = Inr vs \<and> length vs = length ts \<and> j < length ts \<and>
     ts ! j = t \<and> vs ! j = v)"

definition staged :: "int \<Rightarrow> sync_scan \<Rightarrow> (string \<times> string \<times> string) \<Rightarrow> 32 word list \<Rightarrow> bool" where
  "staged dim s = (\<lambda>(iid, text, ch) v. mget (ss_target s) iid = Some \<lparr>ve_hash = ch, ve_vector = v\<rparr> \<and>
     int (length v) = dim \<and> (\<forall>w \<in> set v. is_finite_bits w))"

lemma stage_vectors_Inr:
  assumes "stage_vectors dim c vecs s = Inr s'" "length vecs = length c" "distinct (map fst c)"
  shows "ss_stats s' = (ss_stats s)\<lparr>st_embedded := st_embedded (ss_stats s) + int (length c)\<rparr> \<and>
    (\<forall>j < length c. staged dim s' (c ! j) (vecs ! j)) \<and>
    (\<forall>k. k \<notin> fst ` set c \<longrightarrow> mget (ss_target s') k = mget (ss_target s) k) \<and>
    (gomap_ok (ss_target s) \<longrightarrow> gomap_ok (ss_target s'))"
  using assms
proof (induction dim c vecs s rule: stage_vectors.induct)
  case (1 dim iid t ch c vec vecs s)
  let ?s = "s\<lparr>ss_stats := (ss_stats s)\<lparr>st_embedded := st_embedded (ss_stats s) + 1\<rparr>,
    ss_target := mput iid \<lparr>ve_hash = ch, ve_vector = vec\<rparr> (ss_target s)\<rparr>"
  have v: "int (length vec) = dim" "validate_finite 0 vec = None" "stage_vectors dim c vecs ?s = Inr s'"
    using 1(2) by (auto split: if_splits option.splits)
  have fin: "\<forall>w \<in> set vec. is_finite_bits w" using v(2) by (simp add: validate_finite_None)
  note ih = 1(1)[OF _ v(2) v(3)]
  have rest: "ss_stats s' = (ss_stats ?s)\<lparr>st_embedded := st_embedded (ss_stats ?s) + int (length c)\<rparr> \<and>
    (\<forall>j < length c. staged dim s' (c ! j) (vecs ! j)) \<and>
    (\<forall>k. k \<notin> fst ` set c \<longrightarrow> mget (ss_target s') k = mget (ss_target ?s) k) \<and>
    (gomap_ok (ss_target ?s) \<longrightarrow> gomap_ok (ss_target s'))"
    using ih v(1) 1(3,4) by simp
  have "mget (ss_target s') iid = Some \<lparr>ve_hash = ch, ve_vector = vec\<rparr>" using rest 1(4) by (auto simp: image_iff)
  then have "staged dim s' (iid, t, ch) vec" using v(1) fin by (simp add: staged_def)
  then have "staged dim s' (((iid, t, ch) # c) ! j) ((vec # vecs) ! j)" if "j < length ((iid, t, ch) # c)" for j
    using that rest by (cases j) auto
  then show ?case using rest by auto
qed auto

lemma embed_batches_Inr:
  assumes "embed_batches em ctx dim b start cs s = Inr s'" "distinct (map fst (concat cs))"
  shows "ss_stats s' = (ss_stats s)\<lparr>st_embedded := st_embedded (ss_stats s) + int (length (concat cs))\<rparr> \<and>
    (\<forall>d \<in> set (concat cs). \<exists>v. staged dim s' d v \<and> answered em (fst (snd d)) v) \<and>
    (\<forall>k. k \<notin> fst ` set (concat cs) \<longrightarrow> mget (ss_target s') k = mget (ss_target s) k) \<and>
    (gomap_ok (ss_target s) \<longrightarrow> gomap_ok (ss_target s'))"
  using assms
proof (induction cs arbitrary: b start s)
  case (Cons c cs)
  from Cons.prems(1) obtain vecs s1 where e: "em_embed em b (map (\<lambda>(iid, text, ch). text) c) = Inr vecs"
    "length vecs = length c" "stage_vectors dim c vecs s = Inr s1"
    "embed_batches em ctx dim (b + 1) (start + length c) cs s1 = Inr s'"
    by (auto simp: and_then_Inr split: if_splits sum.splits)
  have d: "distinct (map fst c)" "distinct (map fst (concat cs))" "fst ` set c \<inter> fst ` set (concat cs) = {}"
    using Cons.prems(2) by (auto simp: image_iff)
  note one = stage_vectors_Inr[OF e(3,2) d(1)] and rest = Cons.IH[OF e(4) d(2)]
  have "\<exists>v. staged dim s' x v \<and> answered em (fst (snd x)) v" if x: "x \<in> set c" for x
  proof -
    obtain j where j: "j < length c" "x = c ! j" using x by (metis in_set_conv_nth)
    have "answered em (fst (snd x)) (vecs ! j)"
      unfolding answered_def using e(1,2) j by (intro exI[of _ b] exI[of _ "map (\<lambda>(iid, text, ch). text) c"] exI[of _ vecs] exI[of _ j])
        (simp add: case_prod_beta)
    moreover have "fst x \<notin> fst ` set (concat cs)" using d(3) x by blast
    then have "staged dim s' x (vecs ! j)" using one rest j by (auto simp: staged_def split: prod.splits)
    ultimately show ?thesis by blast
  qed
  then have "\<forall>x \<in> set (concat (c # cs)). \<exists>v. staged dim s' x v \<and> answered em (fst (snd x)) v"
    using rest by auto
  moreover have "mget (ss_target s') k = mget (ss_target s) k" if "k \<notin> fst ` set (concat (c # cs))" for k
    using one rest that by (simp add: image_Un)
  ultimately show ?case using one rest by simp
qed simp

section \<open>The result of a synchronisation\<close>

definition synced :: "(string \<Rightarrow> string) \<Rightarrow> embedder \<Rightarrow> (string, string) gomap \<Rightarrow> vector_index \<Rightarrow> vector_index \<Rightarrow> bool" where
  "synced hash em docs x y \<longleftrightarrow> index_ok y \<and> vx_dim y = vx_dim x \<and>
     (\<forall>iid. map_option ve_hash (get_entry iid y) = map_option hash (mget docs iid)) \<and>
     (\<forall>iid e t. get_entry iid x = Some e \<longrightarrow> mget docs iid = Some t \<longrightarrow> ve_hash e = hash t \<longrightarrow> get_entry iid y = Some e) \<and>
     (\<forall>iid e. get_entry iid y = Some e \<longrightarrow>
        get_entry iid x = Some e \<or> (\<exists>t. mget docs iid = Some t \<and> answered em t (ve_vector e)))"

definition counted :: "(string, string) gomap \<Rightarrow> vector_index \<Rightarrow> sync_stats \<Rightarrow> bool" where
  "counted docs x st \<longleftrightarrow> st_total st = int (length docs) \<and>
     st_skipped st + st_updated st + st_added st = int (length docs) \<and>
     st_added st = int (card (set (mkeys docs) - set (mkeys (vx_entries x)))) \<and>
     st_removed st = int (card (set (mkeys (vx_entries x)) - set (mkeys docs))) \<and>
     st_embedded st = st_added st + st_updated st"

lemma length_filter_card: "distinct xs \<Longrightarrow> length (filter P xs) = card {x \<in> set xs. P x}"
  by (metis distinct_card distinct_filter set_filter)

text \<open>The situation after the scan, for the sorted ids.\<close>

definition sync_run :: "(string, string) gomap \<Rightarrow> vector_index \<Rightarrow> string list \<Rightarrow> bool" where
  "sync_run docs x ids \<longleftrightarrow> index_ok x \<and> gomap_ok docs \<and> distinct ids \<and> set ids = set (mkeys docs) \<and> [] \<notin> set ids"

definition n_skipped :: "(string \<Rightarrow> string) \<Rightarrow> (string, string) gomap \<Rightarrow> vector_index \<Rightarrow> string list \<Rightarrow> int" where
  "n_skipped hash docs x ids = int (length (filter (keeps hash docs (vx_entries x)) ids))"

definition n_updated :: "(string \<Rightarrow> string) \<Rightarrow> (string, string) gomap \<Rightarrow> vector_index \<Rightarrow> string list \<Rightarrow> int" where
  "n_updated hash docs x ids =
     int (length (filter (\<lambda>i. \<not> keeps hash docs (vx_entries x) i \<and> mget (vx_entries x) i \<noteq> None) ids))"

definition n_added :: "vector_index \<Rightarrow> string list \<Rightarrow> int" where
  "n_added x ids = int (length (filter (\<lambda>i. mget (vx_entries x) i = None) ids))"

definition n_removed :: "(string \<Rightarrow> string) \<Rightarrow> (string, string) gomap \<Rightarrow> vector_index \<Rightarrow> string list \<Rightarrow> int" where
  "n_removed hash docs x ids = int (length (vx_entries x)) - (n_skipped hash docs x ids + n_updated hash docs x ids)"

lemma sync_runD:
  assumes "sync_run docs x ids"
  shows "index_ok x" "gomap_ok docs" "distinct ids" "set ids = set (mkeys docs)" "[] \<notin> set ids" "gomap_ok (vx_entries x)"
  using assms unfolding sync_run_def index_ok_def by blast+

lemma keeps_iff: "sync_run docs x ids \<Longrightarrow> iid \<in> set ids \<Longrightarrow> keeps hash docs (vx_entries x) iid \<longleftrightarrow>
    (\<exists>e t. mget (vx_entries x) iid = Some e \<and> mget docs iid = Some t \<and> ve_hash e = hash t)"
  by (drule sync_runD(4)) (auto simp: keeps_def mget_or_def mkeys_ex split: option.splits)

lemma total:
  assumes "sync_run docs x ids"
  shows "n_skipped hash docs x ids + n_updated hash docs x ids + n_added x ids = int (length docs)"
proof -
  note r = sync_runD[OF assms]
  have "length (filter (keeps hash docs (vx_entries x)) ids) + length (filter (\<lambda>i. \<not> keeps hash docs (vx_entries x) i \<and> mget (vx_entries x) i \<noteq> None) ids) +
      length (filter (\<lambda>i. mget (vx_entries x) i = None) ids) = length ids"
    by (induction ids) (auto simp: keeps_def)
  moreover have "length ids = length docs" using r(3,4) length_gomap[OF r(2)] by (metis distinct_card)
  ultimately show ?thesis by (simp add: n_skipped_def n_updated_def n_added_def)
qed

lemma added_card:
  assumes "sync_run docs x ids"
  shows "n_added x ids = int (card (set (mkeys docs) - set (mkeys (vx_entries x))))"
proof -
  note r = sync_runD[OF assms]
  have "{i \<in> set ids. mget (vx_entries x) i = None} = set (mkeys docs) - set (mkeys (vx_entries x))" using r(4) by (auto simp: mget_None_iff)
  then show ?thesis by (simp add: n_added_def length_filter_card[OF r(3)])
qed

lemma removed_card:
  assumes "sync_run docs x ids"
  shows "n_removed hash docs x ids = int (card (set (mkeys (vx_entries x)) - set (mkeys docs)))"
proof -
  note r = sync_runD[OF assms]
  have "length (filter (keeps hash docs (vx_entries x)) ids) + length (filter (\<lambda>i. \<not> keeps hash docs (vx_entries x) i \<and> mget (vx_entries x) i \<noteq> None) ids)
      = length (filter (\<lambda>i. mget (vx_entries x) i \<noteq> None) ids)"
    by (induction ids) (auto simp: keeps_def)
  also have "\<dots> = card {i \<in> set ids. mget (vx_entries x) i \<noteq> None}" by (rule length_filter_card[OF r(3)])
  also have "{i \<in> set ids. mget (vx_entries x) i \<noteq> None} = set (mkeys (vx_entries x)) \<inter> set (mkeys docs)"
    using r(4) by (auto simp: mkeys_ex)
  finally have "n_removed hash docs x ids = int (length (vx_entries x)) - int (card (set (mkeys (vx_entries x)) \<inter> set (mkeys docs)))"
    by (simp add: n_removed_def n_skipped_def n_updated_def)
  also have "\<dots> = int (card (set (mkeys (vx_entries x)) - set (mkeys docs)))"
    using card_Int_Diff[of "set (mkeys (vx_entries x))" "set (mkeys docs)"] length_gomap[OF r(6)] by simp
  finally show ?thesis .
qed

text \<open>Nothing to add, update or remove: the index holds the documents already.\<close>

lemma unchanged:
  assumes run: "sync_run docs x ids" and le: "n_added x ids + n_updated hash docs x ids + n_removed hash docs x ids \<le> 0"
  shows "n_added x ids = 0" "n_updated hash docs x ids = 0" "n_skipped hash docs x ids = int (length docs)" "n_removed hash docs x ids = 0"
    "map_option ve_hash (mget (vx_entries x) iid) = map_option hash (mget docs iid)"
proof -
  note r = sync_runD[OF run]
  have "0 \<le> n_added x ids" "0 \<le> n_updated hash docs x ids" "0 \<le> n_removed hash docs x ids"
    unfolding removed_card[OF run] by (simp_all add: n_added_def n_updated_def)
  then show z: "n_added x ids = 0" "n_updated hash docs x ids = 0" "n_removed hash docs x ids = 0" using le by linarith+
  then show "n_skipped hash docs x ids = int (length docs)" using total[OF run, of hash] by simp
  have sub: "set (mkeys (vx_entries x)) \<subseteq> set (mkeys docs)" using z(3) unfolding removed_card[OF run] by simp
  have keep: "keeps hash docs (vx_entries x) i" if "i \<in> set ids" for i
    using z(1,2) that by (auto simp: n_added_def n_updated_def filter_empty_conv)
  show "map_option ve_hash (mget (vx_entries x) iid) = map_option hash (mget docs iid)"
  proof (cases "iid \<in> set ids")
    case True
    then show ?thesis using keep[OF True] keeps_iff[OF run True] by auto
  next
    case False
    then have "mget docs iid = None" "mget (vx_entries x) iid = None" using r(4) sub by (auto simp: mget_None_iff)
    then show ?thesis by simp
  qed
qed

lemma kept_target:
  "mget (kept_entries (vx_entries x) (filter (keeps hash docs (vx_entries x)) ids) []) k =
    (if k \<in> set ids \<and> keeps hash docs (vx_entries x) k then mget (vx_entries x) k else None)"
  by (auto simp: kept_entries_get keeps_def split: option.splits)

text \<open>The entries that are published.\<close>

lemma published:
  assumes run: "sync_run docs x ids" and e: "embed_batches em ctx (vx_dim x) 0 0 (batches n (to_embed hash docs (filter (\<lambda>i. \<not> keeps hash docs (vx_entries x) i) ids))) s = Inr s'"
    and s: "ss_target s = kept_entries (vx_entries x) (filter (keeps hash docs (vx_entries x)) ids) []" and n: "0 < n"
    and h: "\<And>t. length (hash t) = 32" and y: "index_ok y" "vx_dim y = vx_dim x"
  shows "synced hash em docs x (y\<lparr>vx_entries := ss_target s', vx_ids := None, vx_dirty := True, vx_mutation := m\<rparr>)"
    "st_embedded (ss_stats s') = st_embedded (ss_stats s) + (n_added x ids + n_updated hash docs x ids)"
    "ss_stats s' = (ss_stats s)\<lparr>st_embedded := st_embedded (ss_stats s')\<rparr>"
proof -
  note r = sync_runD[OF run]
  let ?new = "filter (\<lambda>i. \<not> keeps hash docs (vx_entries x) i) ids" and ?m = "ss_target s'"
  have fst: "map fst (to_embed hash docs ?new) = ?new" by (simp add: to_embed_def comp_def)
  then have "distinct (map fst (concat (batches n (to_embed hash docs ?new))))"
    using r(3) by (simp only: concat_batches[OF n] fst distinct_filter)
  note b = embed_batches_Inr[OF e this, unfolded concat_batches[OF n]]
  have "length ?new = length (filter (\<lambda>i. mget (vx_entries x) i = None) ids) +
      length (filter (\<lambda>i. \<not> keeps hash docs (vx_entries x) i \<and> mget (vx_entries x) i \<noteq> None) ids)"
    by (induction ids) (auto simp: keeps_def)
  then have "int (length (to_embed hash docs ?new)) = n_added x ids + n_updated hash docs x ids"
    by (simp add: to_embed_def n_added_def n_updated_def)
  then show "st_embedded (ss_stats s') = st_embedded (ss_stats s) + (n_added x ids + n_updated hash docs x ids)"
    "ss_stats s' = (ss_stats s)\<lparr>st_embedded := st_embedded (ss_stats s')\<rparr>" using b by simp_all
  have kept: "mget ?m k = mget (vx_entries x) k" if "k \<in> set ids" "keeps hash docs (vx_entries x) k" for k
  proof -
    have "k \<notin> set (map fst (to_embed hash docs ?new))" using that unfolding fst by simp
    then show ?thesis using b kept_target[of x hash docs ids k] that by (simp add: s)
  qed
  have none: "mget ?m k = None" if "k \<notin> set ids" for k
  proof -
    have "k \<notin> set (map fst (to_embed hash docs ?new))" using that unfolding fst by simp
    then show ?thesis using b kept_target[of x hash docs ids k] that by (simp add: s)
  qed
  have new: "\<exists>v t. mget docs k = Some t \<and> mget ?m k = Some \<lparr>ve_hash = hash t, ve_vector = v\<rparr> \<and> answered em t v \<and>
      int (length v) = vx_dim x \<and> (\<forall>w \<in> set v. is_finite_bits w)" if "k \<in> set ids" "\<not> keeps hash docs (vx_entries x) k" for k
  proof -
    obtain t where t: "mget docs k = Some t" using \<open>k \<in> set ids\<close> r(4) by (auto simp: mkeys_ex)
    have "(k, t, hash t) \<in> set (to_embed hash docs ?new)" using that t by (auto simp: to_embed_def mget_or_def)
    then obtain v where "staged (vx_dim x) s' (k, t, hash t) v" "answered em t v" using b by fastforce
    then show ?thesis using t by (auto simp: staged_def)
  qed
  have entry: "vector_entry_ok (vx_dim x) k e" if "mget ?m k = Some e" for k e
  proof -
    have k: "k \<in> set ids" using that none by (metis option.distinct(1))
    then show ?thesis
    proof (cases "keeps hash docs (vx_entries x) k")
      case True
      then show ?thesis using kept[OF k True] that r(1) by (simp add: index_ok_def)
    next
      case False
      then show ?thesis using new[OF k False] that h k r(5) by (auto simp: vector_entry_ok_def)
    qed
  qed
  have "gomap_ok ?m" using b by (simp add: s gomap_ok_kept)
  then have "index_ok (y\<lparr>vx_entries := ?m, vx_ids := None, vx_dirty := True, vx_mutation := m\<rparr>)"
    using entry y by (intro index_ok_publish) auto
  moreover have "map_option ve_hash (mget ?m k) = map_option hash (mget docs k)" for k
  proof (cases "k \<in> set ids")
    case True
    then show ?thesis using kept[OF True] new[OF True] keeps_iff[OF run True] by (cases "keeps hash docs (vx_entries x) k") auto
  next
    case False
    then show ?thesis using none[OF False] r(4) by (metis mget_None_iff option.map_disc_iff)
  qed
  moreover have "mget ?m k = Some e" if "mget (vx_entries x) k = Some e" "mget docs k = Some t" "ve_hash e = hash t" for k e t
  proof -
    have "k \<in> set ids" using that r(4) by auto
    then show ?thesis using kept[of k] keeps_iff[OF run, of k] that by auto
  qed
  moreover have "mget (vx_entries x) k = Some e \<or> (\<exists>t. mget docs k = Some t \<and> answered em t (ve_vector e))" if "mget ?m k = Some e" for k e
  proof -
    have k: "k \<in> set ids" using that none by (metis option.distinct(1))
    then show ?thesis using kept[OF k] new[OF k] that by (cases "keeps hash docs (vx_entries x) k") auto
  qed
  ultimately show "synced hash em docs x (y\<lparr>vx_entries := ?m, vx_ids := None, vx_dirty := True, vx_mutation := m\<rparr>)"
    unfolding synced_def get_entry_def using y(2) by simp
qed

text \<open>The scan, as a whole.\<close>

lemma scan_run:
  assumes "sync_run docs x ids"
  shows "scan_docs hash docs (vx_entries x) ids \<lparr>ss_stats = total_stats n, ss_embed = [], ss_target = []\<rparr> =
    (None, \<lparr>ss_stats = (total_stats n)\<lparr>st_skipped := n_skipped hash docs x ids, st_updated := n_updated hash docs x ids,
        st_added := n_added x ids\<rparr>,
      ss_embed = to_embed hash docs (filter (\<lambda>i. \<not> keeps hash docs (vx_entries x) i) ids),
      ss_target = kept_entries (vx_entries x) (filter (keeps hash docs (vx_entries x)) ids) []\<rparr>)"
  by (subst scan_docs_result[OF sync_runD(5)[OF assms]])
    (simp add: total_stats_def n_skipped_def n_updated_def n_added_def)

lemma scan_blank:
  assumes "sorted ids" "[] \<in> set ids"
  shows "scan_docs hash docs old ids s = (Some EmptyDocId, s)"
  using assms by (cases ids) auto

lemma already_synced:
  assumes run: "sync_run docs x ids" and same: "\<And>iid. map_option ve_hash (mget (vx_entries x) iid) = map_option hash (mget docs iid)"
  shows "n_added x ids = 0" "n_updated hash docs x ids = 0" "n_removed hash docs x ids = 0"
    "n_skipped hash docs x ids = int (length docs)"
proof -
  note r = sync_runD[OF run]
  have keep: "keeps hash docs (vx_entries x) i" "mget (vx_entries x) i \<noteq> None" if i: "i \<in> set ids" for i
  proof -
    obtain t where "mget docs i = Some t" using i r(4) by (auto simp: mkeys_ex)
    then show "keeps hash docs (vx_entries x) i" "mget (vx_entries x) i \<noteq> None"
      using same[of i] i by (auto simp: keeps_iff[OF run])
  qed
  then show added: "n_added x ids = 0" "n_updated hash docs x ids = 0"
    by (simp_all add: n_added_def n_updated_def filter_empty_conv)
  have "set (mkeys (vx_entries x)) = set (mkeys docs)" using same by (auto simp: mkeys_ex) (metis map_option_eq_Some)+
  then show "n_removed hash docs x ids = 0" by (simp add: removed_card[OF run])
  show "n_skipped hash docs x ids = int (length docs)" using total[OF run, of hash] added by simp
qed

lemma sync_blank:
  assumes "[] \<in> set ks"
  shows "\<exists>e. sync_vector_index ctx hash em docs ks batch_size x now = (Some e, total_stats (length docs), now)"
proof -
  have "scan_docs hash docs (vx_entries x) (sort ks) s = (Some EmptyDocId, s)" for s
    using assms by (intro scan_blank) simp_all
  then show ?thesis unfolding sync_vector_index_def Let_def by simp
qed

definition run_stats :: "(string \<Rightarrow> string) \<Rightarrow> (string, string) gomap \<Rightarrow> vector_index \<Rightarrow> string list \<Rightarrow> sync_stats" where
  "run_stats hash docs x ids = (total_stats (length docs))
     \<lparr>st_skipped := n_skipped hash docs x ids, st_updated := n_updated hash docs x ids, st_added := n_added x ids,
      st_removed := n_removed hash docs x ids\<rparr>"

definition run_scan :: "(string \<Rightarrow> string) \<Rightarrow> (string, string) gomap \<Rightarrow> vector_index \<Rightarrow> string list \<Rightarrow> sync_scan" where
  "run_scan hash docs x ids = \<lparr>ss_stats = run_stats hash docs x ids,
     ss_embed = to_embed hash docs (filter (\<lambda>i. \<not> keeps hash docs (vx_entries x) i) ids),
     ss_target = kept_entries (vx_entries x) (filter (keeps hash docs (vx_entries x)) ids) []\<rparr>"

lemma sync_unfold:
  fixes hash :: "string \<Rightarrow> string" and docs :: "(string, string) gomap" and x :: vector_index and ks :: "string list"
    and batch_size :: int
  assumes run: "sync_run docs x (sort ks)"
  defines "stats0 \<equiv> total_stats (length docs)" and "s \<equiv> run_scan hash docs x (sort ks)"
    and "cs \<equiv> batches (if batch_size \<le> 0 then 32 else nat batch_size) (ss_embed (run_scan hash docs x (sort ks)))"
  shows "sync_vector_index ctx hash em docs ks batch_size x now =
     (if ctx 0 then (Some ContextDone, stats0, now)
      else if vx_dim x \<noteq> em_dim em then (Some (EmbedderDim (vx_dim x) (em_dim em)), stats0, now)
      else if ctx 1 then (Some ContextDone, stats0, now)
      else if \<not> stats_changed (ss_stats s) then
        if vx_dim now = vx_dim x \<and> vx_mutation now = vx_mutation x then (None, ss_stats s, now)
        else (Some ChangedConcurrently, stats0, now)
      else case embed_batches em ctx (vx_dim x) 0 0 cs s of
          Inl e \<Rightarrow> (Some e, stats0, now)
        | Inr s \<Rightarrow>
            if ctx (2 + length cs) then (Some ContextDone, stats0, now)
            else if vx_dim now \<noteq> vx_dim x then (Some (DimChanged (vx_dim now) (vx_dim x)), stats0, now)
            else if vx_mutation now \<noteq> vx_mutation x then (Some ChangedConcurrently, stats0, now)
            else (None, ss_stats s, now\<lparr>vx_entries := ss_target s, vx_ids := None, vx_dirty := True,
              vx_mutation := vx_mutation now + 1\<rparr>))"
  unfolding sync_vector_index_def Let_def scan_run[OF run] cs_def s_def stats0_def run_scan_def
  by (simp add: n_removed_def run_stats_def total_stats_def cong: sum.case_cong)

lemma run_counted:
  assumes "sync_run docs x ids"
  shows "counted docs x ((run_stats hash docs x ids)\<lparr>st_embedded := n_added x ids + n_updated hash docs x ids\<rparr>)"
  using total[OF assms, of hash] added_card[OF assms] removed_card[OF assms]
  by (simp add: counted_def run_stats_def total_stats_def)

text \<open>An embedder that answers every text with a finite vector of its dimension.\<close>

definition embedder_works :: "embedder \<Rightarrow> bool" where
  "embedder_works em \<longleftrightarrow> (\<forall>b ts. \<exists>vs. em_embed em b ts = Inr vs \<and> length vs = length ts \<and>
     (\<forall>v \<in> set vs. int (length v) = em_dim em \<and> (\<forall>w \<in> set v. is_finite_bits w)))"

lemma stage_vectors_works:
  assumes "\<forall>v \<in> set vecs. int (length v) = dim \<and> (\<forall>w \<in> set v. is_finite_bits w)"
  shows "\<exists>s'. stage_vectors dim c vecs s = Inr s'"
  using assms
proof (induction dim c vecs s rule: stage_vectors.induct)
  case (1 dim iid t ch c vec vecs s)
  then show ?case using validate_finite_None[of 0 vec] by auto
qed auto

lemma embed_batches_works:
  assumes "embedder_works em" "\<forall>i. \<not> ctx i"
  shows "\<exists>s'. embed_batches em ctx (em_dim em) b start cs s = Inr s'"
proof (induction cs arbitrary: b start s)
  case (Cons c cs)
  obtain vs where vs: "em_embed em b (map (\<lambda>(iid, text, ch). text) c) = Inr vs" "length vs = length c"
    "\<forall>v \<in> set vs. int (length v) = em_dim em \<and> (\<forall>w \<in> set v. is_finite_bits w)"
    using assms(1) unfolding embedder_works_def by (metis length_map)
  obtain s1 where "stage_vectors (em_dim em) c vs s = Inr s1" using stage_vectors_works[OF vs(3)] by blast
  then show ?case using Cons vs(1,2) assms(2) by simp
qed simp

lemma sync_result:
  assumes "index_ok x" "gomap_ok docs" "range_order docs ks" "\<forall>t. length (hash t) = 32"
    "interferes n x now" "n < 2 ^ 64"
  shows "case sync_vector_index ctx hash em docs ks batch_size x now of
      (Some e, st, y) \<Rightarrow> y = now \<and> st = total_stats (length docs)
    | (None, st, y) \<Rightarrow> n = 0 \<and> synced hash em docs x y \<and> counted docs x st"
proof (cases "[] \<in> set ks")
  case True
  then show ?thesis using sync_blank[of ks ctx hash em docs batch_size x now] by auto
next
  case False
  let ?ids = "sort ks"
  have run: "sync_run docs x ?ids" using False assms(1-3) by (simp add: sync_run_def range_order_def)
  note now = interferes_facts[OF assms(5,1)] and zero = interferes_unnoticed[OF assms(5,1,6)]
  have idle: "synced hash em docs x now \<and> counted docs x (run_stats hash docs x ?ids)"
    if "\<not> stats_changed (run_stats hash docs x ?ids)" "vx_mutation now = vx_mutation x"
  proof -
    have "n_added x ?ids + n_updated hash docs x ?ids + n_removed hash docs x ?ids \<le> 0"
      using that(1) by (simp add: stats_changed_def run_stats_def)
    note u = unchanged[OF run this]
    have "counted docs x (run_stats hash docs x ?ids)"
      using run_counted[OF run, of hash] u(1,2) by (simp add: run_stats_def total_stats_def)
    then show ?thesis using u(5) now(1,2) now(4)[OF zero[OF that(2)]] by (simp add: synced_def get_entry_def)
  qed
  have publish: "synced hash em docs x (now\<lparr>vx_entries := ss_target s, vx_ids := None, vx_dirty := True, vx_mutation := m\<rparr>) \<and>
      counted docs x (ss_stats s)"
    if e: "embed_batches em ctx (vx_dim x) 0 0 (batches (if batch_size \<le> 0 then 32 else nat batch_size)
        (ss_embed (run_scan hash docs x ?ids))) (run_scan hash docs x ?ids) = Inr s" for s m
  proof -
    have e': "embed_batches em ctx (vx_dim x) 0 0 (batches (if batch_size \<le> 0 then 32 else nat batch_size)
        (to_embed hash docs (filter (\<lambda>i. \<not> keeps hash docs (vx_entries x) i) ?ids))) (run_scan hash docs x ?ids) = Inr s"
      using e by (simp add: run_scan_def)
    have t: "ss_target (run_scan hash docs x ?ids) = kept_entries (vx_entries x) (filter (keeps hash docs (vx_entries x)) ?ids) []"
      by (simp add: run_scan_def)
    have "length (hash t) = 32" for t using assms(4) by simp
    note p = published[OF run e' t _ this now(1,2)]
    have "ss_stats s = (run_stats hash docs x ?ids)\<lparr>st_embedded := n_added x ?ids + n_updated hash docs x ?ids\<rparr>"
      using p(2,3) by (simp add: run_scan_def run_stats_def total_stats_def)
    then show ?thesis using p(1) run_counted[OF run, of hash] by simp
  qed
  show ?thesis unfolding sync_unfold[OF run] using idle zero publish by (auto simp: run_scan_def split: sum.split)
qed

lemma sync_succeeds:
  assumes "index_ok x" "gomap_ok docs" "range_order docs ks" "\<forall>t. length (hash t) = 32"
    "interferes n x now" "n < 2 ^ 64"
  shows "(\<forall>i. \<not> ctx i) \<and> embedder_works em \<and> vx_dim x = em_dim em \<and> [] \<notin> set ks \<and> n = 0 \<longrightarrow>
      fst (sync_vector_index ctx hash em docs ks batch_size x now) = None"
proof
  assume a: "(\<forall>i. \<not> ctx i) \<and> embedder_works em \<and> vx_dim x = em_dim em \<and> [] \<notin> set ks \<and> n = 0"
  have run: "sync_run docs x (sort ks)" using a assms(1-3) by (simp add: sync_run_def range_order_def)
  have same: "vx_dim now = vx_dim x" "vx_mutation now = vx_mutation x"
    using interferes_facts[OF assms(5,1)] a by simp_all
  have no_error: "embed_batches em ctx (em_dim em) 0 0 cs (run_scan hash docs x (sort ks)) \<noteq> Inl e" for cs e
    using embed_batches_works[of em ctx 0 0 cs "run_scan hash docs x (sort ks)"] a by auto
  show "fst (sync_vector_index ctx hash em docs ks batch_size x now) = None"
    using a no_error unfolding sync_unfold[OF run] same by (auto split: sum.split)
qed

text \<open>An index that holds the documents is left as it is.\<close>

lemma sync_synced:
  assumes "index_ok z" "gomap_ok docs" "range_order docs ks" "[] \<notin> set ks"
    and same: "\<And>iid. map_option ve_hash (get_entry iid z) = map_option hash (mget docs iid)"
    and ctx: "\<not> ctx 0" "\<not> ctx 1" "em_dim em = vx_dim z"
  shows "sync_vector_index ctx hash em docs ks batch_size z z =
    (None, (total_stats (length docs))\<lparr>st_skipped := int (length docs)\<rparr>, z)"
proof -
  have run: "sync_run docs z (sort ks)" using assms(1-4) by (simp add: sync_run_def range_order_def)
  note a = already_synced[OF run same[unfolded get_entry_def]]
  then show ?thesis unfolding sync_unfold[OF run]
    using ctx by (simp add: run_scan_def run_stats_def stats_changed_def total_stats_def)
qed

lemma synced_no_blank:
  assumes "synced hash em docs x y" "range_order docs ks"
  shows "[] \<notin> set ks"
proof
  assume "[] \<in> set ks"
  then obtain t where "mget docs [] = Some t" using assms(2) by (auto simp: range_order_set)
  moreover have "map_option ve_hash (get_entry [] y) = map_option hash (mget docs [])" "index_ok y"
    using assms(1) by (simp_all add: synced_def)
  ultimately obtain e where "mget (vx_entries y) [] = Some e" by (auto simp: get_entry_def)
  then show False using \<open>index_ok y\<close> by (auto simp: index_ok_def vector_entry_ok_def)
qed

lemma saved_loads:
  assumes ok: "index_ok y" "range_order (vx_entries y) js" and saved: "fst (save_vector_index js y) = Inr bytes"
  shows "\<exists>z. load_or_new_vector_index (Some bytes) renamed (vx_dim y) = Inr (z, True) \<and> index_ok z \<and>
    vx_dim z = vx_dim y \<and> (\<forall>iid. get_entry iid z = get_entry iid y)"
proof -
  note s = sorted_ids_cached_ok[OF ok] and r = save_result[OF ok]
  have fit: "fits y" and enc: "bytes = encode_index y (fst (sorted_ids_cached js y))" using r(2,3) saved by blast+
  obtain z where z: "load_vector_index bytes = Inr z" "vx_dim z = vx_dim y" "\<forall>iid. mget (vx_entries z) iid = mget (vx_entries y) iid"
    using load_encoded(2)[OF ok(1) fit s(4,5)] unfolding enc by blast
  have "vx_dim y > 0" using ok(1) by (simp add: index_ok_def)
  then have "load_or_new_vector_index (Some bytes) renamed (vx_dim y) = Inr (z, True)"
    using z by (simp add: load_or_new_vector_index_def)
  then show ?thesis using z load_facts(1)[OF z(1)] by (auto simp: get_entry_def)
qed

section \<open>Properties\<close>

text \<open>C22: A synchronisation is all or nothing, and detects every change that other goroutines make to the
  index while it computes vectors, up to the wrap-around of the counter. When it succeeds, the index is
  well formed and holds exactly the documents with their hashes: entries whose text is unchanged are kept
  as they are, the others have the vectors that the embedder returned for their texts, and the statistics
  count what was done. When it fails, the index is left alone and the statistics are empty. It succeeds
  when nobody interferes or cancels, the ids are not empty and the embedder works.\<close>

theorem sync_vector_index_correct:
  assumes "index_ok x" "gomap_ok docs" "range_order docs ks" "\<forall>t. length (hash t) = 32"
    "interferes n x now" "n < 2 ^ 64"
  shows "(case sync_vector_index ctx hash em docs ks batch_size x now of
      (Some e, st, y) \<Rightarrow> y = now \<and> st = total_stats (length docs)
    | (None, st, y) \<Rightarrow> n = 0 \<and> synced hash em docs x y \<and> counted docs x st) \<and>
    ((\<forall>i. \<not> ctx i) \<and> embedder_works em \<and> vx_dim x = em_dim em \<and> [] \<notin> set ks \<and> n = 0 \<longrightarrow>
      fst (sync_vector_index ctx hash em docs ks batch_size x now) = None)"
  using sync_result[OF assms] sync_succeeds[OF assms] by (rule conjI)

text \<open>C3: Synchronisation is incremental across runs of the program: after a successful synchronisation and
  saving, the next start loads the file, and synchronising the loaded index with the same documents
  keeps every entry, skips all documents and asks the embedder nothing, whatever it would answer.\<close>

theorem sync_persists:
  assumes "index_ok x" "gomap_ok docs" "range_order docs ks" "\<forall>t. length (hash t) = 32"
    "interferes n x now" "n < 2 ^ 64"
    "sync_vector_index ctx hash em docs ks batch_size x now = (None, st, y)"
    "range_order (vx_entries y) js" "fst (save_vector_index js y) = Inr bytes"
    "\<not> ctx' 0" "\<not> ctx' 1" "em_dim em' = vx_dim y" "range_order docs ks'"
  shows "\<exists>z. load_or_new_vector_index (Some bytes) renamed (vx_dim y) = Inr (z, True) \<and>
    (\<forall>iid. get_entry iid z = get_entry iid y) \<and>
    sync_vector_index ctx' hash em' docs ks' batch_size' z z =
      (None, (total_stats (length docs))\<lparr>st_skipped := int (length docs)\<rparr>, z)"
proof -
  have synced: "synced hash em docs x y" using sync_result[OF assms(1-6), where ctx = ctx and em = em and batch_size = batch_size] assms(7) by simp
  then have y: "index_ok y" "\<And>iid. map_option ve_hash (get_entry iid y) = map_option hash (mget docs iid)"
    by (simp_all add: synced_def)
  obtain z where z: "load_or_new_vector_index (Some bytes) renamed (vx_dim y) = Inr (z, True)" "index_ok z"
    "vx_dim z = vx_dim y" "\<forall>iid. get_entry iid z = get_entry iid y"
    using saved_loads[OF y(1) assms(8,9)] by blast
  have "sync_vector_index ctx' hash em' docs ks' batch_size' z z =
      (None, (total_stats (length docs))\<lparr>st_skipped := int (length docs)\<rparr>, z)"
    using z y(2) assms(10-12) synced_no_blank[OF synced assms(13)]
    by (intro sync_synced[OF z(2) assms(2,13)]) simp_all
  then show ?thesis using z(1,4) by blast
qed

section \<open>A concrete synchronisation\<close>

definition demo_hash :: "string \<Rightarrow> string" where
  "demo_hash t = take 32 (t @ replicate 32 CHR ''.'')"

definition demo_embedder :: embedder where
  "demo_embedder = \<lparr>em_dim = 1, em_embed = (\<lambda>b ts. Inr (map (\<lambda>t. [if even (length t) then 0 else 1]) ts))\<rparr>"

definition demo_docs :: "(string, string) gomap" where
  "demo_docs = documents_from_issues
     [zero_issue\<lparr>issue_id := ''b'', title := ''Two''\<rparr>, zero_issue\<lparr>issue_id := ''a'', title := ''One''\<rparr>, zero_issue]"

lemma demo_docs_ok: "gomap_ok demo_docs" "range_order demo_docs [''b'', ''a'']" "range_order demo_docs [''a'', ''b'']"
proof -
  have keys: "mkeys demo_docs = [''b'', ''a'']" by code_simp
  show "gomap_ok demo_docs" by (simp add: gomap_ok_def keys)
  show "range_order demo_docs [''b'', ''a'']" "range_order demo_docs [''a'', ''b'']" by (auto simp: range_order_def keys)
qed

lemma demo_hash_length: "\<forall>t. length (demo_hash t) = 32"
  by (simp add: demo_hash_def min_def)

lemma demo_embedder_works: "embedder_works demo_embedder"
  by (auto simp: embedder_works_def demo_embedder_def is_finite_bits_def)

abbreviation demo_sync :: "vector_index \<Rightarrow> sync_error option \<times> sync_stats \<times> vector_index" where
  "demo_sync x \<equiv> sync_vector_index (\<lambda>_. False) demo_hash demo_embedder demo_docs [''b'', ''a''] 0 x x"

lemma sync_vector_index_correct_witness:
  "\<exists>st y. demo_sync (new_vector_index 1) = (None, st, y) \<and>
     synced demo_hash demo_embedder demo_docs (new_vector_index 1) y \<and> counted demo_docs (new_vector_index 1) st"
proof -
  have d: "vx_dim (new_vector_index 1) = em_dim demo_embedder" by (simp add: new_vector_index_def demo_embedder_def)
  obtain e st y where s: "demo_sync (new_vector_index 1) = (e, st, y)" by (metis prod_cases3)
  note c = sync_vector_index_correct[OF index_ok_new demo_docs_ok(1,2) demo_hash_length interferes.idle[of "new_vector_index 1"],
    where ctx = "\<lambda>_. False" and em = demo_embedder and batch_size = 0, unfolded s]
  have "e = None" using c d demo_embedder_works by simp
  then show ?thesis using c s by simp
qed

definition demo_synced :: vector_index where
  "demo_synced = snd (snd (demo_sync (new_vector_index 1)))"

lemma sync_persists_witness:
  "\<exists>bytes z. fst (save_vector_index [''a'', ''b''] demo_synced) = Inr bytes \<and>
     load_or_new_vector_index (Some bytes) False 1 = Inr (z, True) \<and>
     sync_vector_index (\<lambda>_. False) demo_hash \<lparr>em_dim = 1, em_embed = \<lambda>b ts. Inl ''offline''\<rparr> demo_docs [''a'', ''b''] 8 z z =
       (None, (total_stats 2)\<lparr>st_skipped := 2\<rparr>, z)"
proof -
  have n: "length demo_docs = 2" "vx_dim demo_synced = 1" by code_simp+
  have "fst (demo_sync (new_vector_index 1)) = None" by code_simp
  then obtain st where s: "demo_sync (new_vector_index 1) = (None, st, demo_synced)"
    by (metis demo_synced_def prod.collapse)
  have keys: "mkeys (vx_entries demo_synced) = [''a'', ''b'']" by code_simp
  then have o: "range_order (vx_entries demo_synced) [''a'', ''b'']" by (simp add: range_order_def)
  have "entries_bytes demo_synced = 78" "index_size demo_synced = 2" by code_simp+
  then have "fits demo_synced" using n by (simp add: fits_def keys vector_limits)
  moreover have ok: "index_ok demo_synced"
    using sync_result[OF index_ok_new demo_docs_ok(1,2) demo_hash_length interferes.idle[of "new_vector_index 1"],
      where ctx = "\<lambda>_. False" and em = demo_embedder and batch_size = 0] s by (simp add: synced_def)
  ultimately obtain bytes where b: "fst (save_vector_index [''a'', ''b''] demo_synced) = Inr bytes"
    using save_result(2)[OF ok o] by blast
  show ?thesis
    using sync_persists[OF index_ok_new demo_docs_ok(1,2) demo_hash_length interferes.idle _ s o b,
      of "\<lambda>_. False" "\<lparr>em_dim = 1, em_embed = \<lambda>b ts. Inl ''offline''\<rparr>" "[''a'', ''b'']" False 8]
      demo_docs_ok(3) b n by auto
qed

end
