(* ===== verification/Bv_Search.thy ===== *)
theory Bv_Search
  imports Bv_Vector_Index Bv_Topk
begin

text \<open>
  Searching the semantic index: \<open>SearchTopKWithOptions\<close> and its two wrappers in
  \<open>pkg/search/vector_index.go\<close>, on the collector of \<open>Bv_Topk\<close>.

  Scores are any linear order \<open>'s\<close> with the operations of \<open>float64\<close> that the code uses as arguments
  (\<open>float_ops\<close>): the product of two components, addition, zero and finiteness. Finite \<open>float32\<close> components cannot make
  the dot product NaN or infinite, so NaN does not reach a comparison.
\<close>

section \<open>Search\<close>

record 's float_ops =
  fl_mul :: "32 word \<Rightarrow> 32 word \<Rightarrow> 's"
  fl_add :: "'s \<Rightarrow> 's \<Rightarrow> 's"
  fl_zero :: 's
  fl_finite :: "'s \<Rightarrow> bool"

definition dot_float32 :: "'s float_ops \<Rightarrow> 32 word list \<Rightarrow> 32 word list \<Rightarrow> 's" where
  "dot_float32 fl a b =
     (if length a \<noteq> length b \<or> length a = 0 then fl_zero fl
      else fold (\<lambda>(v, w) sum. fl_add fl sum (fl_mul fl v w)) (zip a b) (fl_zero fl))"

record 's search_result =
  sr_id :: string
  sr_score :: 's
  sr_exact :: bool

record 's search_options =
  so_eligible :: "(string, bool) gomap option"
  so_exact_id :: string
  so_min_score :: "'s option"
  so_boosts :: "(string, 's) gomap"

datatype search_error = MinScoreNotFinite | InvalidBoost string | QueryDim int int | InvalidQuery vector_error

definition result_before :: "'s search_result \<Rightarrow> 's search_result \<Rightarrow> bool" where
  "result_before a b \<longleftrightarrow> sr_id a < sr_id b"

text \<open>The first invalid boost in the order \<open>bs\<close> of the visits.\<close>

fun invalid_boost :: "('s::linorder) float_ops \<Rightarrow> (string, 's) gomap \<Rightarrow> string list \<Rightarrow> string option" where
  "invalid_boost fl boosts [] = None"
| "invalid_boost fl boosts (iid # bs) =
     (let boost = mget_or (fl_zero fl) boosts iid in
      if \<not> fl_finite fl boost \<or> boost < fl_zero fl then Some iid else invalid_boost fl boosts bs)"

record 's search_state =
  sl_collector :: "('s search_result, 's) collector"
  sl_exact :: "'s search_result option"
  sl_folded :: "'s search_result option"
  sl_folded_matches :: nat

text \<open>One iteration of the loop over the ids.\<close>

definition search_step :: "('s::linorder) float_ops \<Rightarrow> 32 word list \<Rightarrow> 's search_options \<Rightarrow> string \<Rightarrow> vector_index \<Rightarrow>
    string \<Rightarrow> 's search_state \<Rightarrow> 's search_state" where
  "search_step fl query opts exact x iid st =
     (if (case so_eligible opts of None \<Rightarrow> False | Some m \<Rightarrow> \<not> mget_or False m iid) then st
      else case mget (vx_entries x) iid of None \<Rightarrow> st | Some e \<Rightarrow>
        let score = dot_float32 fl query (ve_vector e) in
        if (case so_min_score opts of None \<Rightarrow> False | Some m \<Rightarrow> score < m) then st
        else let score = fl_add fl score (mget_or (fl_zero fl) (so_boosts opts) iid);
                 result = \<lparr>sr_id = iid, sr_score = score, sr_exact = False\<rparr>;
                 st = st\<lparr>sl_collector := snd (collector_add result score (sl_collector st))\<rparr> in
             if exact \<noteq> [] then
               if iid = exact then st\<lparr>sl_exact := Some result\<rparr>
               else if equal_fold iid exact then
                 st\<lparr>sl_folded := Some result, sl_folded_matches := sl_folded_matches st + 1\<rparr>
               else st
             else st)"

fun index_of_id :: "string \<Rightarrow> 's search_result list \<Rightarrow> nat option" where
  "index_of_id iid [] = None"
| "index_of_id iid (r # rs) = (if sr_id r = iid then Some 0 else map_option Suc (index_of_id iid rs))"

text \<open>The exact match is put first; the results before its place move back by one.\<close>

definition promote :: "nat \<Rightarrow> 's search_result \<Rightarrow> 's search_result list \<Rightarrow> 's search_result list" where
  "promote k r results =
     (let (results, i) =
        (case index_of_id (sr_id r) results of Some i \<Rightarrow> (results, i)
         | None \<Rightarrow>
           if length results < k then (results @ [r], length results)
           else (results[length results - 1 := r], length results - 1))
      in r # take i results @ drop (Suc i) results)"

definition search_top_k_with_options :: "('s::linorder) float_ops \<Rightarrow> string list \<Rightarrow> string list \<Rightarrow> 32 word list \<Rightarrow> int \<Rightarrow>
    's search_options \<Rightarrow> vector_index \<Rightarrow> (search_error + 's search_result list) \<times> vector_index" where
  "search_top_k_with_options fl bs ks query k opts x =
     (let exact = trim_space (so_exact_id opts) in
      if (case so_min_score opts of None \<Rightarrow> False | Some m \<Rightarrow> \<not> fl_finite fl m) then (Inl MinScoreNotFinite, x)
      else case invalid_boost fl (so_boosts opts) bs of
        Some iid \<Rightarrow> (Inl (InvalidBoost iid), x)
      | None \<Rightarrow>
        if k \<le> 0 then (Inr [], x)
        else if int (length query) \<noteq> vx_dim x then (Inl (QueryDim (int (length query)) (vx_dim x)), x)
        else case validate_finite 0 query of
          Some e \<Rightarrow> (Inl (InvalidQuery e), x)
        | None \<Rightarrow>
          let (ids, x) = sorted_ids_cached ks x;
              k = (if k > int (length ids) then int (length ids) else k) in
          if k = 0 then (Inr [], x)
          else
            let st = fold (search_step fl query opts exact x) ids
                  \<lparr>sl_collector = new_collector k (Some result_before), sl_exact = None, sl_folded = None,
                   sl_folded_matches = 0\<rparr>;
                results = collector_results (sl_collector st) in
            case (case sl_exact st of Some r \<Rightarrow> Some r
                  | None \<Rightarrow> if sl_folded_matches st \<noteq> 1 then None else sl_folded st) of
              None \<Rightarrow> (Inr results, x)
            | Some r \<Rightarrow>
              if sr_id r = [] then (Inr results, x)
              else (Inr (promote (nat k) (r\<lparr>sr_exact := True\<rparr>) results), x))"

definition search_top_k :: "('s::linorder) float_ops \<Rightarrow> string list \<Rightarrow> 32 word list \<Rightarrow> int \<Rightarrow> vector_index \<Rightarrow>
    (search_error + 's search_result list) \<times> vector_index" where
  "search_top_k fl ks query k x = search_top_k_with_options fl [] ks query k
     \<lparr>so_eligible = None, so_exact_id = [], so_min_score = None, so_boosts = []\<rparr> x"

definition search_top_k_with_exact_id :: "('s::linorder) float_ops \<Rightarrow> string list \<Rightarrow> 32 word list \<Rightarrow> int \<Rightarrow> string \<Rightarrow>
    vector_index \<Rightarrow> (search_error + 's search_result list) \<times> vector_index" where
  "search_top_k_with_exact_id fl ks query k exact x = search_top_k_with_options fl [] ks query k
     \<lparr>so_eligible = None, so_exact_id = exact, so_min_score = None, so_boosts = []\<rparr> x"

section \<open>What a search should return\<close>

text \<open>The candidates, in the order of their ids.\<close>

definition candidate :: "('s::linorder) float_ops \<Rightarrow> 32 word list \<Rightarrow> 's search_options \<Rightarrow> vector_index \<Rightarrow> string \<Rightarrow>
    's search_result option" where
  "candidate fl query opts x iid =
     (if so_eligible opts \<noteq> None \<and> \<not> mget_or False (the (so_eligible opts)) iid then None
      else case mget (vx_entries x) iid of None \<Rightarrow> None | Some e \<Rightarrow>
        let s = dot_float32 fl query (ve_vector e) in
        if so_min_score opts \<noteq> None \<and> s < the (so_min_score opts) then None
        else Some \<lparr>sr_id = iid, sr_score = fl_add fl s (mget_or (fl_zero fl) (so_boosts opts) iid), sr_exact = False\<rparr>)"

definition candidates :: "('s::linorder) float_ops \<Rightarrow> 32 word list \<Rightarrow> 's search_options \<Rightarrow> vector_index \<Rightarrow>
    's search_result list" where
  "candidates fl query opts x = List.map_filter (candidate fl query opts x) (sort (mkeys (vx_entries x)))"

text \<open>Better scores first, ties by id.\<close>

definition ranked :: "('s::linorder) search_result list \<Rightarrow> 's search_result list" where
  "ranked rs = sort_by (\<lambda>a b. if sr_score a \<noteq> sr_score b then sr_score a > sr_score b else sr_id a < sr_id b) rs"

text \<open>The candidate that an id names: the one with that id, or else the only one with it up to case.\<close>

definition named_by :: "string \<Rightarrow> 's search_result list \<Rightarrow> 's search_result option" where
  "named_by exact rs =
     (if exact = [] then None
      else case filter (\<lambda>r. sr_id r = exact) rs of
        r # _ \<Rightarrow> Some r
      | [] \<Rightarrow> (case filter (\<lambda>r. equal_fold (sr_id r) exact) rs of [r] \<Rightarrow> Some r | _ \<Rightarrow> None))"

definition search_spec :: "nat \<Rightarrow> string \<Rightarrow> ('s::linorder) search_result list \<Rightarrow> 's search_result list" where
  "search_spec k exact rs =
     (if k = 0 then []
      else case named_by exact rs of
        None \<Rightarrow> take k (ranked rs)
      | Some r \<Rightarrow> r\<lparr>sr_exact := True\<rparr> # take (k - 1) (filter (\<lambda>q. sr_id q \<noteq> sr_id r) (ranked rs)))"

section \<open>The loop\<close>

definition as_scored :: "'s search_result \<Rightarrow> ('s search_result, 's) scored" where
  "as_scored r = \<lparr>item = r, score = sr_score r\<rparr>"

lemma collect_append_one: "collect (xs @ [e]) c = snd (collector_add (item e) (score e) (collect xs c))"
  by (simp add: collect_def)

definition take_candidate :: "string \<Rightarrow> ('s::linorder) search_result \<Rightarrow> 's search_state \<Rightarrow> 's search_state" where
  "take_candidate exact r st = st
     \<lparr>sl_collector := collect [as_scored r] (sl_collector st),
      sl_exact := (if exact \<noteq> [] \<and> sr_id r = exact then Some r else sl_exact st),
      sl_folded := (if exact \<noteq> [] \<and> sr_id r \<noteq> exact \<and> equal_fold (sr_id r) exact then Some r else sl_folded st),
      sl_folded_matches := (if exact \<noteq> [] \<and> sr_id r \<noteq> exact \<and> equal_fold (sr_id r) exact
        then sl_folded_matches st + 1 else sl_folded_matches st)\<rparr>"

lemma search_step_candidate:
  "search_step fl query opts exact x iid st =
     (case candidate fl query opts x iid of None \<Rightarrow> st | Some r \<Rightarrow> take_candidate exact r st)"
  by (cases "so_eligible opts"; cases "so_min_score opts"; cases "mget (vx_entries x) iid")
    (simp_all add: search_step_def candidate_def take_candidate_def Let_def collect_def as_scored_def)

lemma search_loop:
  "fold (search_step fl query opts exact x) ids st =
     fold (take_candidate exact) (List.map_filter (candidate fl query opts x) ids) st"
  by (induction ids arbitrary: st)
    (auto simp: search_step_candidate List.map_filter_simps split: option.split)

lemma collect_Cons: "collect (e # es) c = collect es (collect [e] c)"
  by (simp add: collect_def)

lemma take_candidates_collector: "sl_collector (fold (take_candidate exact) rs st) = collect (map as_scored rs) (sl_collector st)"
  by (induction rs arbitrary: st) (simp_all add: take_candidate_def collect_Cons[of "as_scored _" "map as_scored _"] collect_def)

definition pick_last :: "'a list \<Rightarrow> 'a option \<Rightarrow> 'a option" where
  "pick_last xs d = (if xs = [] then d else Some (last xs))"

lemma take_candidates_exact:
  assumes "exact \<noteq> []"
  shows "sl_exact (fold (take_candidate exact) rs st) = pick_last (filter (\<lambda>r. sr_id r = exact) rs) (sl_exact st)"
  using assms by (induction rs arbitrary: st) (auto simp: take_candidate_def pick_last_def)

lemma take_candidates_folded:
  fixes exact :: string and rs :: "('s::linorder) search_result list"
  assumes "exact \<noteq> []"
  defines "fs \<equiv> filter (\<lambda>r. sr_id r \<noteq> exact \<and> equal_fold (sr_id r) exact) rs"
  shows "sl_folded (fold (take_candidate exact) rs st) = pick_last fs (sl_folded st)"
    "sl_folded_matches (fold (take_candidate exact) rs st) = sl_folded_matches st + length fs"
  unfolding fs_def using assms(1) by (induction rs arbitrary: st) (auto simp: take_candidate_def pick_last_def)

lemma take_candidates_none:
  "sl_exact (fold (take_candidate []) rs st) = sl_exact st" "sl_folded (fold (take_candidate []) rs st) = sl_folded st"
  "sl_folded_matches (fold (take_candidate []) rs st) = sl_folded_matches st"
  by (induction rs arbitrary: st) (auto simp: take_candidate_def)

text \<open>What the loop finds is the named candidate.\<close>

lemma single_match: "distinct (map sr_id rs) \<Longrightarrow> filter (\<lambda>r. sr_id r = i) rs = [] \<or> (\<exists>r. filter (\<lambda>r. sr_id r = i) rs = [r])"
  by (induction rs) (auto simp: filter_empty_conv image_iff)

lemma loop_names:
  fixes rs :: "('s::linorder) search_result list"
  assumes d: "distinct (map sr_id rs)" and st: "sl_exact st = None" "sl_folded st = None" "sl_folded_matches st = 0"
  shows "(case sl_exact (fold (take_candidate exact) rs st) of Some r \<Rightarrow> Some r
      | None \<Rightarrow> if sl_folded_matches (fold (take_candidate exact) rs st) \<noteq> 1 then None
          else sl_folded (fold (take_candidate exact) rs st)) = named_by exact rs"
proof (cases "exact = []")
  case True
  then show ?thesis by (simp add: take_candidates_none st named_by_def)
next
  case False
  let ?es = "filter (\<lambda>r. sr_id r = exact) rs" and ?fs = "filter (\<lambda>r. sr_id r \<noteq> exact \<and> equal_fold (sr_id r) exact) rs"
  note loop = take_candidates_exact[OF False] take_candidates_folded[OF False]
  from single_match[OF d, of exact] show ?thesis
  proof
    assume e: "?es = []"
    then have "filter (\<lambda>r. equal_fold (sr_id r) exact) rs = ?fs" by (auto simp: filter_empty_conv intro!: filter_cong)
    then show ?thesis unfolding loop st named_by_def using e False
      by (cases ?fs; cases "tl ?fs") (auto simp: pick_last_def)
  next
    assume "\<exists>r. ?es = [r]"
    then obtain r where "?es = [r]" by blast
    then show ?thesis unfolding loop st named_by_def using False by (simp add: pick_last_def)
  qed
qed

section \<open>The collector and the promotion\<close>

lemma result_tie_ok: "tie_ok (Some (result_before :: 's search_result \<Rightarrow> 's search_result \<Rightarrow> bool))"
  unfolding tie_ok_def option.case by unfold_locales (auto simp: result_before_def)

lemma insert_by_map: "insert_by lt (f x) (map f xs) = map f (insert_by (\<lambda>a b. lt (f a) (f b)) x xs)"
  by (induction xs) auto

lemma sort_by_map: "sort_by lt (map f xs) = map f (sort_by (\<lambda>a b. lt (f a) (f b)) xs)"
  by (induction xs) (auto simp: insert_by_map)

lemma ranked_eq: "ranked rs = map item (sort_by (result_less (Some result_before)) (map as_scored rs))"
  by (simp add: ranked_def sort_by_map as_scored_def result_less_def result_before_def comp_def cong: if_cong)

lemma collector_ranks:
  fixes rs :: "('s::linorder) search_result list"
  assumes "distinct (map sr_id rs)"
  shows "collector_results (collect (map as_scored rs) (new_collector k (Some result_before))) = take (nat k) (ranked rs)"
proof -
  let ?xs = "map as_scored rs" and ?lt = "result_less (Some result_before)"
  let ?c = "collect ?xs (new_collector k (Some result_before))"
  note best = results_are_best[OF result_tie_ok, of ?xs k]
  obtain out where out: "mset ?xs = mset (results_with_scores ?c @ out)"
    "\<forall>r \<in> set out. \<forall>x \<in> set (results_with_scores ?c). \<not> ?lt r x" using best(3) by blast
  have sep: "a = b" if "a \<in> set ?xs" "b \<in> set ?xs" "\<not> ?lt a b" "\<not> ?lt b a" for a b
  proof -
    obtain q r where q: "q \<in> set rs" "a = as_scored q" "r \<in> set rs" "b = as_scored r" using \<open>a \<in> _\<close> \<open>b \<in> _\<close> by auto
    have "sr_id q = sr_id r" using that(3,4) unfolding q
      by (auto simp: result_less_def result_before_def as_scored_def split: if_splits)
    then show ?thesis using assms q by (metis distinct_map inj_onD)
  qed
  have "results_with_scores ?c = take (nat k) (sort_by ?lt ?xs)"
    by (rule take_best[OF result_contract[OF result_tie_ok] out(1) best(1,2) out(2) sep])
  then show ?thesis by (simp add: collector_results_def ranked_eq take_map)
qed

lemma index_of_id_found:
  "sr_id r \<notin> sr_id ` set A \<Longrightarrow> index_of_id (sr_id r) (A @ r # B) = Some (length A)"
  by (induction A) auto

lemma index_of_id_None: "i \<notin> sr_id ` set rs \<Longrightarrow> index_of_id i rs = None"
  by (induction rs) auto

lemma promote_take:
  assumes d: "distinct (map sr_id L)" and r: "r \<in> set L" and k: "0 < k" and r': "sr_id r' = sr_id r"
  shows "promote k r' (take k L) = r' # take (k - 1) (filter (\<lambda>q. sr_id q \<noteq> sr_id r) L)"
proof -
  obtain A B where L: "L = A @ r # B" using r by (meson split_list)
  have A: "sr_id r \<notin> sr_id ` set A" and B: "sr_id r \<notin> sr_id ` set B" using d by (auto simp: L)
  have "filter (\<lambda>q. sr_id q \<noteq> sr_id r) A = A" "filter (\<lambda>q. sr_id q \<noteq> sr_id r) B = B"
    using A B by (auto simp: filter_id_conv image_iff)
  then have rest: "filter (\<lambda>q. sr_id q \<noteq> sr_id r) L = A @ B" by (simp add: L)
  show ?thesis
  proof (cases "length A < k")
    case True
    then obtain m where m: "k = Suc (length A + m)" by (metis add_Suc_right less_imp_Suc_add)
    then have t: "take k L = A @ r # take m B" by (simp add: L)
    show ?thesis unfolding promote_def r' t index_of_id_found[OF A] rest by (simp add: m)
  next
    case False
    then have t: "take k L = take k A" "length (take k A) = k" by (simp_all add: L)
    have "sr_id r \<notin> sr_id ` set (take k A)" using A by (auto dest: in_set_takeD)
    then have "promote k r' (take k L) = r' # take (k - 1) (take k A)"
      unfolding promote_def r' t(1) using t(2) k by (simp add: index_of_id_None)
    then show ?thesis unfolding rest using False by simp
  qed
qed

section \<open>Requests that are refused\<close>

definition search_refused :: "('s::linorder) float_ops \<Rightarrow> 32 word list \<Rightarrow> int \<Rightarrow> 's search_options \<Rightarrow> vector_index \<Rightarrow> bool" where
  "search_refused fl query k opts x \<longleftrightarrow>
     (\<exists>m. so_min_score opts = Some m \<and> \<not> fl_finite fl m) \<or>
     (\<exists>iid b. mget (so_boosts opts) iid = Some b \<and> (\<not> fl_finite fl b \<or> b < fl_zero fl)) \<or>
     k > 0 \<and> (int (length query) \<noteq> vx_dim x \<or> (\<exists>w \<in> set query. \<not> is_finite_bits w))"

lemma invalid_boost_None:
  assumes "set bs \<subseteq> set (mkeys boosts)"
  shows "invalid_boost fl boosts bs = None \<longleftrightarrow>
    (\<forall>iid \<in> set bs. \<forall>b. mget boosts iid = Some b \<longrightarrow> fl_finite fl b \<and> \<not> b < fl_zero fl)"
  using assms
proof (induction bs)
  case (Cons iid bs)
  then obtain b where "mget boosts iid = Some b" by (auto simp: mkeys_ex)
  then show ?case using Cons by (auto simp: mget_or_def Let_def)
qed simp

lemma candidate_ids: "candidate fl query opts x iid = Some r \<Longrightarrow> sr_id r = iid \<and> mget (vx_entries x) iid \<noteq> None"
  by (auto simp: candidate_def Let_def split: if_splits option.splits)

lemma candidates_distinct:
  assumes "gomap_ok (vx_entries x)"
  shows "distinct (map sr_id (candidates fl query opts x))"
proof -
  have "distinct (map sr_id (List.map_filter (candidate fl query opts x) ids)) \<and>
      sr_id ` set (List.map_filter (candidate fl query opts x) ids) \<subseteq> set ids" if "distinct ids" for ids
    using that by (induction ids) (auto simp: List.map_filter_simps dest: candidate_ids split: option.splits)
  then show ?thesis using assms by (simp add: candidates_def gomap_ok_def)
qed

lemma filter_Cons_in: "filter P xs = y # ys \<Longrightarrow> y \<in> set xs"
  by (metis filter_is_subset list.set_intros(1) subsetD)

lemma named_by_in: "named_by exact rs = Some r \<Longrightarrow> r \<in> set rs"
  unfolding named_by_def by (auto split: if_splits list.splits dest: filter_Cons_in)

lemma length_ranked [simp]: "length (ranked rs) = length rs" "set (ranked rs) = set rs"
  by (simp_all add: ranked_def)

lemma distinct_ranked: "distinct (map sr_id rs) \<Longrightarrow> distinct (map sr_id (ranked rs))"
proof -
  have "mset (map sr_id (ranked rs)) = mset (map sr_id rs)" by (simp add: ranked_def)
  then show "distinct (map sr_id rs) \<Longrightarrow> ?thesis" using mset_eq_imp_distinct_iff by blast
qed

text \<open>The part after the checks, for \<open>k\<close> cut to the number of ids.\<close>

lemma spec_cut:
  assumes "length rs \<le> n"
  shows "search_spec (min k n) exact rs = search_spec k exact rs"
proof (cases "n < k")
  case True
  have cut: "length (filter (\<lambda>q. sr_id q \<noteq> sr_id r) (ranked rs)) \<le> n - 1" if "r \<in> set rs" for r
  proof -
    have "length (filter (\<lambda>q. sr_id q \<noteq> sr_id r) (ranked rs)) < length (ranked rs)"
      using that by (intro length_filter_less) auto
    then show ?thesis using assms by simp
  qed
  have take_all: "take (n - 1) (filter (\<lambda>q. sr_id q \<noteq> sr_id r) (ranked rs)) = take (k - 1) (filter (\<lambda>q. sr_id q \<noteq> sr_id r) (ranked rs))"
    if "r \<in> set rs" for r
    using cut[OF that] True by simp
  show ?thesis
  proof (cases "rs = []")
    case True
    then show ?thesis by (simp add: search_spec_def named_by_def ranked_def)
  next
    case False
    then have "n \<noteq> 0" using assms by (cases rs) auto
    then show ?thesis using \<open>n < k\<close> assms named_by_in[of exact rs] take_all
      by (auto simp: search_spec_def min_def split: option.split)
  qed
qed (simp add: min_def)

lemma length_map_filter: "length (List.map_filter f xs) \<le> length xs"
  by (induction xs) (auto simp: List.map_filter_simps split: option.split)

lemma candidate_entries: "vx_entries y = vx_entries x \<Longrightarrow> candidate fl query opts y = candidate fl query opts x"
  by (rule ext) (simp add: candidate_def)

lemma ranked_spec:
  assumes d: "distinct (map sr_id rs)" and k: "0 < k"
  shows "(case named_by exact rs of None \<Rightarrow> take k (ranked rs)
      | Some r \<Rightarrow> promote k (r\<lparr>sr_exact := True\<rparr>) (take k (ranked rs))) = search_spec k exact rs"
  using promote_take[OF distinct_ranked[OF d] _ k] named_by_in[of exact rs] k
  by (auto simp: search_spec_def split: option.split)

lemma search_result_spec:
  assumes ok: "index_ok x" and order: "range_order (vx_entries x) ks"
    and fine: "\<not> search_refused fl query k opts x" and k: "k > 0"
    and boosts: "invalid_boost fl (so_boosts opts) bs = None"
  shows "fst (search_top_k_with_options fl bs ks query k opts x) =
    Inr (search_spec (nat k) (trim_space (so_exact_id opts)) (candidates fl query opts x))"
proof -
  let ?ids = "fst (sorted_ids_cached ks x)" and ?y = "snd (sorted_ids_cached ks x)"
  let ?exact = "trim_space (so_exact_id opts)" and ?rs = "candidates fl query opts x"
  note s = sorted_ids_cached_ok[OF ok order]
  have m: "gomap_ok (vx_entries x)" using ok by (simp add: index_ok_def)
  have ids: "?ids = sort (mkeys (vx_entries x))"
    using s(4,5) m by (metis gomap_ok_def set_sort sorted_distinct_set_unique sorted_sort strict_sorted_iff distinct_sort)
  have len: "length ?rs \<le> length ?ids"
    unfolding candidates_def ids by (rule length_map_filter)
  define kk where "kk = (if k > int (length ?ids) then int (length ?ids) else k)"
  have kk: "nat kk = min (nat k) (length ?ids)" using k by (auto simp: kk_def)
  define st0 where "st0 = \<lparr>sl_collector = new_collector kk (Some result_before), sl_exact = None :: 'a search_result option,
    sl_folded = None, sl_folded_matches = 0\<rparr>"
  define st where "st = fold (search_step fl query opts ?exact ?y) ?ids st0"
  have st: "st = fold (take_candidate ?exact) ?rs st0"
    unfolding st_def search_loop candidate_entries[OF s(2)] candidates_def ids ..
  have d: "distinct (map sr_id ?rs)" by (rule candidates_distinct[OF m])
  have names: "(case sl_exact st of Some r \<Rightarrow> Some r
      | None \<Rightarrow> if sl_folded_matches st \<noteq> 1 then None else sl_folded st) = named_by ?exact ?rs"
    unfolding st by (rule loop_names[OF d]) (simp_all add: st0_def)
  have results: "collector_results (sl_collector st) = take (nat kk) (ranked ?rs)"
    unfolding st take_candidates_collector using collector_ranks[OF d] by (simp add: st0_def)
  have checks: "(case so_min_score opts of None \<Rightarrow> False | Some m \<Rightarrow> \<not> fl_finite fl m) = False"
    "int (length query) = vx_dim x" "validate_finite 0 query = None"
    using fine k by (auto simp: search_refused_def validate_finite_None split: option.split)
  have "fst (search_top_k_with_options fl bs ks query k opts x) =
     (if kk = 0 then Inr [] else
        case named_by ?exact ?rs of None \<Rightarrow> Inr (take (nat kk) (ranked ?rs))
        | Some r \<Rightarrow> if sr_id r = [] then Inr (take (nat kk) (ranked ?rs))
            else Inr (promote (nat kk) (r\<lparr>sr_exact := True\<rparr>) (take (nat kk) (ranked ?rs))))"
    unfolding search_top_k_with_options_def Let_def case_prod_beta kk_def[symmetric] st0_def[symmetric]
      st_def[symmetric] names results
    using k by (simp add: checks boosts split: option.split)
  also have "\<dots> = Inr (search_spec (nat kk) ?exact ?rs)"
  proof (cases "kk = 0")
    case False
    then have "0 < nat kk" using k by (auto simp: kk_def split: if_splits)
    have "sr_id r \<noteq> []" if "named_by ?exact ?rs = Some r" for r
    proof -
      have "r \<in> set ?rs" by (rule named_by_in[OF that])
      then have "mget (vx_entries x) (sr_id r) \<noteq> None"
        by (auto simp: candidates_def List.map_filter_def dest: candidate_ids)
      then show ?thesis using ok by (auto simp: index_ok_def vector_entry_ok_def)
    qed
    then show ?thesis using False unfolding ranked_spec[OF d \<open>0 < nat kk\<close>, symmetric] by (simp split: option.split)
  qed (simp add: search_spec_def)
  also have "search_spec (nat kk) ?exact ?rs = search_spec (nat k) ?exact ?rs"
    unfolding kk by (rule spec_cut[OF len])
  finally show ?thesis .
qed

lemma search_checks:
  assumes "set bs = set (mkeys (so_boosts opts))"
  shows "search_refused fl query k opts x \<longleftrightarrow>
    (case so_min_score opts of None \<Rightarrow> False | Some m \<Rightarrow> \<not> fl_finite fl m) \<or> invalid_boost fl (so_boosts opts) bs \<noteq> None \<or>
    k > 0 \<and> (int (length query) \<noteq> vx_dim x \<or> validate_finite 0 query \<noteq> None)"
proof -
  have "invalid_boost fl (so_boosts opts) bs \<noteq> None \<longleftrightarrow>
      (\<exists>iid b. mget (so_boosts opts) iid = Some b \<and> (\<not> fl_finite fl b \<or> b < fl_zero fl))"
    using invalid_boost_None[of bs "so_boosts opts" fl] assms by (auto simp del: not_None_eq)
  then show ?thesis unfolding search_refused_def validate_finite_None
    by (auto split: option.split)
qed

lemma found_result:
  "snd (if b then (Inr [], y) else case c of None \<Rightarrow> (Inr a, y) | Some r \<Rightarrow> if p r then (Inr a, y) else (Inr (f r), y)) = y"
  "fst (if b then (Inr [], y) else case c of None \<Rightarrow> (Inr a, y) | Some r \<Rightarrow> if p r then (Inr a, y) else (Inr (f r), y)) \<noteq> Inl e"
  by (simp_all split: option.split)

lemma search_outcome:
  "if (case so_min_score opts of None \<Rightarrow> False | Some m \<Rightarrow> \<not> fl_finite fl m) \<or> invalid_boost fl (so_boosts opts) bs \<noteq> None \<or>
      k > 0 \<and> (int (length query) \<noteq> vx_dim x \<or> validate_finite 0 query \<noteq> None)
    then \<exists>e. search_top_k_with_options fl bs ks query k opts x = (Inl e, x)
    else (\<exists>rs. fst (search_top_k_with_options fl bs ks query k opts x) = Inr rs) \<and>
      snd (search_top_k_with_options fl bs ks query k opts x) \<in> {x, snd (sorted_ids_cached ks x)}"
proof (cases "(case so_min_score opts of None \<Rightarrow> False | Some m \<Rightarrow> \<not> fl_finite fl m) \<or> invalid_boost fl (so_boosts opts) bs \<noteq> None \<or>
      k > 0 \<and> (int (length query) \<noteq> vx_dim x \<or> validate_finite 0 query \<noteq> None)")
  case True
  have "\<exists>e. search_top_k_with_options fl bs ks query k opts x = (Inl e, x)"
  proof (cases "case so_min_score opts of None \<Rightarrow> False | Some m \<Rightarrow> \<not> fl_finite fl m")
    case True
    then show ?thesis by (simp add: search_top_k_with_options_def Let_def)
  next
    case no_min: False
    show ?thesis
    proof (cases "invalid_boost fl (so_boosts opts) bs")
      case None
      then have "k > 0" "int (length query) \<noteq> vx_dim x \<or> validate_finite 0 query \<noteq> None" using True no_min by simp_all
      then show ?thesis using no_min None by (cases "int (length query) = vx_dim x") (auto simp: search_top_k_with_options_def Let_def)
    next
      case (Some iid)
      then show ?thesis using no_min by (simp add: search_top_k_with_options_def Let_def)
    qed
  qed
  then show ?thesis using True by simp
next
  case False
  have sum: "\<exists>rs. v = Inr rs" if "\<And>e. v \<noteq> Inl e" for v :: "search_error + 'a search_result list" using that by (cases v) auto
  show ?thesis
  proof (cases "k \<le> 0")
    case True
    then show ?thesis using False by (simp add: search_top_k_with_options_def Let_def)
  next
    case k: False
    then have c: "(case so_min_score opts of None \<Rightarrow> False | Some m \<Rightarrow> \<not> fl_finite fl m) = False"
      "invalid_boost fl (so_boosts opts) bs = None" "(int (length query) \<noteq> vx_dim x) = False" "validate_finite 0 query = None"
      "(k \<le> 0) = False"
      using False by simp_all
    have "fst (search_top_k_with_options fl bs ks query k opts x) \<noteq> Inl e" for e
      unfolding search_top_k_with_options_def Let_def case_prod_beta c option.case if_False
      by (rule found_result)
    moreover have "snd (search_top_k_with_options fl bs ks query k opts x) = snd (sorted_ids_cached ks x)"
      unfolding search_top_k_with_options_def Let_def case_prod_beta c option.case if_False
      by (rule found_result)
    ultimately show ?thesis unfolding if_not_P[OF False] using sum by blast
  qed
qed

section \<open>Property\<close>

text \<open>C9: A search refuses exactly the invalid requests. Otherwise it returns the first k candidates (the
  eligible entries at or above the minimum score), best score first and ties by id; and when the request
  names a candidate, by its id or as the only one up to case, that candidate comes first and the best of
  the others follow. The entries of the index do not change, and no order of map visits matters.\<close>

theorem search_returns_best:
  assumes "index_ok x" "range_order (vx_entries x) ks" "range_order (so_boosts opts) bs"
  shows "case search_top_k_with_options fl bs ks query k opts x of
      (Inl e, y) \<Rightarrow> y = x \<and> search_refused fl query k opts x
    | (Inr rs, y) \<Rightarrow> \<not> search_refused fl query k opts x \<and> index_ok y \<and> vx_entries y = vx_entries x \<and>
        rs = search_spec (nat k) (trim_space (so_exact_id opts)) (candidates fl query opts x)"
proof (cases "search_refused fl query k opts x")
  case True
  then show ?thesis using search_outcome[where opts = opts and fl = fl and bs = bs and k = k and query = query and x = x and ks = ks] search_checks[of bs opts fl query k x] assms(3)
    by (auto simp: range_order_def split: if_splits)
next
  case False
  then have out: "\<exists>rs. fst (search_top_k_with_options fl bs ks query k opts x) = Inr rs"
      "snd (search_top_k_with_options fl bs ks query k opts x) \<in> {x, snd (sorted_ids_cached ks x)}"
    and boosts: "invalid_boost fl (so_boosts opts) bs = None"
    using search_outcome[where opts = opts and fl = fl and bs = bs and k = k and query = query and x = x and ks = ks] search_checks[of bs opts fl query k x] assms(3)
    by (auto simp: range_order_def split: if_splits)
  then obtain rs y where rs: "search_top_k_with_options fl bs ks query k opts x = (Inr rs, y)" by (metis prod.collapse)
  have "rs = search_spec (nat k) (trim_space (so_exact_id opts)) (candidates fl query opts x)"
  proof (cases "k > 0")
    case True
    then show ?thesis using search_result_spec[OF assms(1,2) False True boosts] rs by simp
  next
    case k: False
    have "(case so_min_score opts of None \<Rightarrow> False | Some m \<Rightarrow> \<not> fl_finite fl m) = False"
      using False by (auto simp: search_refused_def split: option.split)
    then show ?thesis using rs boosts k by (simp add: search_top_k_with_options_def search_spec_def Let_def)
  qed
  then show ?thesis using False rs out(2) sorted_ids_cached_ok(1,2)[OF assms(1,2)] assms(1) by auto
qed

definition demo_ops :: "int float_ops" where
  "demo_ops = \<lparr>fl_mul = (\<lambda>v w. uint v * uint w), fl_add = (+), fl_zero = 0,
     fl_finite = (\<lambda>_. True)\<rparr>"

definition demo_index :: vector_index where
  "demo_index = \<lparr>vx_dim = 1,
     vx_entries = map (\<lambda>(i, w). (i, \<lparr>ve_hash = replicate 32 CHR ''h'', ve_vector = [w]\<rparr>)) [(''bv-1'', 5), (''bv-2'', 7), (''bv-3'', 3)],
     vx_ids = None, vx_dirty = True, vx_mutation = 0\<rparr>"

lemma search_returns_best_witness:
  "fst (search_top_k_with_exact_id demo_ops [''bv-2'', ''bv-1'', ''bv-3''] [2] 2 '' BV-3 '' demo_index) =
     Inr [\<lparr>sr_id = ''bv-3'', sr_score = 6, sr_exact = True\<rparr>, \<lparr>sr_id = ''bv-2'', sr_score = 14, sr_exact = False\<rparr>]"
proof -
  let ?opts = "\<lparr>so_eligible = None, so_exact_id = '' BV-3 '', so_min_score = None, so_boosts = []\<rparr>"
  have ok: "index_ok demo_index"
    by (auto simp: index_ok_def demo_index_def gomap_ok_def mkeys_def mget_def vector_entry_ok_def is_finite_bits_def split: if_splits)
  have order: "range_order (vx_entries demo_index) [''bv-2'', ''bv-1'', ''bv-3'']"
    by (auto simp: range_order_def demo_index_def mkeys_def)
  have "\<not> search_refused demo_ops [2] 2 ?opts demo_index"
    by (simp add: search_refused_def demo_ops_def demo_index_def is_finite_bits_def)
  moreover have b: "range_order (so_boosts ?opts) []" by (simp add: range_order_def)
  moreover have "search_spec (nat 2) (trim_space '' BV-3 '') (candidates demo_ops [2] ?opts demo_index) =
      [\<lparr>sr_id = ''bv-3'', sr_score = 6, sr_exact = True\<rparr>, \<lparr>sr_id = ''bv-2'', sr_score = 14, sr_exact = False\<rparr>]"
    by code_simp
  ultimately show ?thesis
    using search_returns_best[OF ok order b, where fl = demo_ops and query = "[2]" and k = 2]
    by (auto simp: search_top_k_with_exact_id_def split: prod.splits sum.splits)
qed

end
