(* ===== verification/Bv_Debouncer.thy ===== *)
theory Bv_Debouncer
  imports Go_Base "HOL-Library.Word" "HOL-Library.Sublist" "HOL-Library.Multiset"
begin

text \<open>
  \<open>pkg/watcher/debouncer.go\<close>: a debouncer lets only the last callback of a burst of triggers run.

  The debouncer lives with the timers of the Go runtime. A timer that was started fires once its deadline
  has passed, which starts its function in a goroutine of its own. That function takes the lock at some
  later time, so stale functions can wait for the lock while the debouncer is triggered again. It checks
  under the lock whether it should run, and calls the callback after it has released the lock: between the
  two, other goroutines can take any step. The atomic steps are therefore the operations, the check and
  the call.
\<close>

section \<open>The debouncer and the timers\<close>

record debouncer =
  db_duration :: int
  db_timer :: "nat option"
  db_seq :: "64 word"

record 'c timer =
  tm_id :: nat
  tm_deadline :: time
  tm_seq :: "64 word"
  tm_callback :: 'c
  tm_fired :: bool

text \<open>\<open>rt_ready\<close> holds the goroutines that have passed their check and not called their callback yet. The lists of
  callbacks that have passed the check and that were called are the history of a run.\<close>

record 'c runtime =
  rt_debouncer :: debouncer
  rt_now :: time
  rt_timers :: "'c timer list"
  rt_next :: nat
  rt_passed :: "'c list"
  rt_ready :: "(nat \<times> 'c) list"
  rt_called :: "'c list"

definition default_debounce_duration :: int where
  "default_debounce_duration = 250 * 1000000"

definition new_debouncer :: "int \<Rightarrow> debouncer" where
  "new_debouncer duration =
     \<lparr>db_duration = (if duration = 0 then default_debounce_duration else duration), db_timer = None, db_seq = 0\<rparr>"

definition new_runtime :: "time \<Rightarrow> int \<Rightarrow> 'c runtime" where
  "new_runtime now duration =
     \<lparr>rt_debouncer = new_debouncer duration, rt_now = now, rt_timers = [], rt_next = 0, rt_passed = [], rt_ready = [], rt_called = []\<rparr>"

text \<open>\<open>Timer.Stop\<close>: a timer that has fired is not stopped.\<close>

definition stop_timer :: "nat \<Rightarrow> 'c timer list \<Rightarrow> 'c timer list" where
  "stop_timer i ts = filter (\<lambda>t. \<not> (tm_id t = i \<and> \<not> tm_fired t)) ts"

definition stop_current :: "debouncer \<Rightarrow> 'c timer list \<Rightarrow> 'c timer list" where
  "stop_current d ts = (case db_timer d of None \<Rightarrow> ts | Some i \<Rightarrow> stop_timer i ts)"

definition trigger :: "'c \<Rightarrow> 'c runtime \<Rightarrow> 'c runtime" where
  "trigger callback rt =
     (let d = rt_debouncer rt; seq = db_seq d + 1; i = rt_next rt in
      rt\<lparr>rt_debouncer := d\<lparr>db_seq := seq, db_timer := Some i\<rparr>,
         rt_timers := stop_current d (rt_timers rt) @
           [\<lparr>tm_id = i, tm_deadline = rt_now rt + db_duration d, tm_seq = seq, tm_callback = callback, tm_fired = False\<rparr>],
         rt_next := i + 1\<rparr>)"

text \<open>The function of a timer: the check when it gets the lock, and then the call, without the lock.\<close>

definition should_run :: "'c timer \<Rightarrow> 'c runtime \<Rightarrow> 'c runtime" where
  "should_run t rt =
     (let d = rt_debouncer rt; rt = rt\<lparr>rt_timers := filter (\<lambda>u. tm_id u \<noteq> tm_id t) (rt_timers rt)\<rparr> in
      if tm_seq t \<noteq> db_seq d then rt
      else rt\<lparr>rt_debouncer := d\<lparr>db_timer := None\<rparr>, rt_passed := rt_passed rt @ [tm_callback t],
             rt_ready := rt_ready rt @ [(tm_id t, tm_callback t)]\<rparr>)"

definition run_callback :: "nat \<times> 'c \<Rightarrow> 'c runtime \<Rightarrow> 'c runtime" where
  "run_callback r rt = rt\<lparr>rt_ready := remove1 r (rt_ready rt), rt_called := rt_called rt @ [snd r]\<rparr>"

definition cancel :: "'c runtime \<Rightarrow> 'c runtime" where
  "cancel rt =
     (let d = rt_debouncer rt in
      rt\<lparr>rt_debouncer := d\<lparr>db_seq := db_seq d + 1, db_timer := None\<rparr>, rt_timers := stop_current d (rt_timers rt)\<rparr>)"

definition fire_timer :: "nat \<Rightarrow> 'c runtime \<Rightarrow> 'c runtime" where
  "fire_timer i rt = rt\<lparr>rt_timers := map (\<lambda>t. if tm_id t = i then t\<lparr>tm_fired := True\<rparr> else t) (rt_timers rt)\<rparr>"

datatype 'c event = Trigger 'c | Cancel | Tick nat | Fire nat | Run nat | Call nat

text \<open>What can happen next.\<close>

inductive rt_step :: "'c runtime \<Rightarrow> 'c event \<Rightarrow> 'c runtime \<Rightarrow> bool" where
  step_trigger: "rt_step rt (Trigger c) (trigger c rt)"
| step_cancel: "rt_step rt Cancel (cancel rt)"
| step_tick: "rt_step rt (Tick n) (rt\<lparr>rt_now := rt_now rt + int n\<rparr>)"
| step_fire: "t \<in> set (rt_timers rt) \<Longrightarrow> \<not> tm_fired t \<Longrightarrow> tm_deadline t \<le> rt_now rt \<Longrightarrow> rt_step rt (Fire (tm_id t)) (fire_timer (tm_id t) rt)"
| step_run: "t \<in> set (rt_timers rt) \<Longrightarrow> tm_fired t \<Longrightarrow> rt_step rt (Run (tm_id t)) (should_run t rt)"
| step_call: "r \<in> set (rt_ready rt) \<Longrightarrow> rt_step rt (Call (fst r)) (run_callback r rt)"

inductive_cases rt_step_Trigger: "rt_step rt (Trigger c) rt'"
inductive_cases rt_step_Cancel: "rt_step rt Cancel rt'"
inductive_cases rt_step_Tick: "rt_step rt (Tick n) rt'"
inductive_cases rt_step_Fire: "rt_step rt (Fire i) rt'"
inductive_cases rt_step_Run: "rt_step rt (Run i) rt'"
inductive_cases rt_step_Call: "rt_step rt (Call i) rt'"

inductive rt_run :: "'c runtime \<Rightarrow> 'c event list \<Rightarrow> 'c runtime \<Rightarrow> bool" where
  run_Nil: "rt_run rt [] rt"
| run_Cons: "rt_step rt e rt1 \<Longrightarrow> rt_run rt1 es rt2 \<Longrightarrow> rt_run rt (e # es) rt2"

definition resets :: "'c event \<Rightarrow> bool" where
  "resets e \<longleftrightarrow> (case e of Trigger _ \<Rightarrow> True | Cancel \<Rightarrow> True | _ \<Rightarrow> False)"

lemma resets_simps [simp]:
  "resets (Trigger c)" "resets Cancel" "\<not> resets (Tick n)" "\<not> resets (Fire i)" "\<not> resets (Run i)" "\<not> resets (Call i)"
  by (simp_all add: resets_def)

section \<open>The promise of a debouncer\<close>

text \<open>At most one callback is pending, with the earliest time at which it may be chosen. A chosen callback is
  called once, at any later time.\<close>

record 'c promise =
  pr_now :: time
  pr_pending :: "('c \<times> time) option"
  pr_passed :: "'c list"
  pr_called :: "'c list"

inductive pr_step :: "int \<Rightarrow> 'c promise \<Rightarrow> 'c event \<Rightarrow> 'c promise \<Rightarrow> bool" for d where
  pr_trigger: "pr_step d p (Trigger c) (p\<lparr>pr_pending := Some (c, pr_now p + d)\<rparr>)"
| pr_cancel: "pr_step d p Cancel (p\<lparr>pr_pending := None\<rparr>)"
| pr_tick: "pr_step d p (Tick n) (p\<lparr>pr_now := pr_now p + int n\<rparr>)"
| pr_fire: "pr_step d p (Fire i) p"
| pr_stale: "pr_step d p (Run i) p"
| pr_pass: "pr_pending p = Some (c, t) \<Longrightarrow> t \<le> pr_now p \<Longrightarrow>
    pr_step d p (Run i) (p\<lparr>pr_pending := None, pr_passed := pr_passed p @ [c]\<rparr>)"
| pr_call: "mset (pr_called p) + {#c#} \<subseteq># mset (pr_passed p) \<Longrightarrow>
    pr_step d p (Call i) (p\<lparr>pr_called := pr_called p @ [c]\<rparr>)"

inductive pr_run :: "int \<Rightarrow> 'c promise \<Rightarrow> 'c event list \<Rightarrow> 'c promise \<Rightarrow> bool" for d where
  pr_Nil: "pr_run d p [] p"
| pr_Cons: "pr_step d p e p1 \<Longrightarrow> pr_run d p1 es p2 \<Longrightarrow> pr_run d p (e # es) p2"

text \<open>The pending callback is the one of the timer with the current sequence number, if any is left.\<close>

definition current_timer :: "'c runtime \<Rightarrow> 'c timer option" where
  "current_timer rt = find (\<lambda>t. tm_seq t = db_seq (rt_debouncer rt)) (rt_timers rt)"

definition promise_of :: "'c runtime \<Rightarrow> 'c promise" where
  "promise_of rt = \<lparr>pr_now = rt_now rt,
     pr_pending = map_option (\<lambda>t. (tm_callback t, tm_deadline t)) (current_timer rt), pr_passed = rt_passed rt,
     pr_called = rt_called rt\<rparr>"

section \<open>The invariant\<close>

text \<open>\<open>n\<close> counts the triggers and cancellations so far.\<close>

definition debounced :: "nat \<Rightarrow> 'c runtime \<Rightarrow> bool" where
  "debounced n rt \<longleftrightarrow> db_seq (rt_debouncer rt) = of_nat n \<and> distinct (map tm_id (rt_timers rt)) \<and>
     (\<forall>t \<in> set (rt_timers rt). tm_id t < rt_next rt \<and> (\<exists>m. m \<le> n \<and> tm_seq t = of_nat m) \<and>
        (tm_seq t = of_nat n \<longleftrightarrow> db_timer (rt_debouncer rt) = Some (tm_id t)) \<and>
        (\<not> tm_fired t \<longrightarrow> tm_seq t = of_nat n) \<and> (tm_fired t \<longrightarrow> tm_deadline t \<le> rt_now rt))"

lemma debounced_new: "debounced 0 (new_runtime now duration)"
  by (simp add: debounced_def new_runtime_def new_debouncer_def)

lemma of_nat_64_eq: "m \<le> n \<Longrightarrow> n < 2 ^ 64 \<Longrightarrow> (of_nat m :: 64 word) = of_nat n \<longleftrightarrow> m = n"
  by (simp add: word_of_nat_eq_iff take_bit_nat_eq_self)

lemma debouncedI:
  assumes "db_seq (rt_debouncer rt) = of_nat n" "distinct (map tm_id (rt_timers rt))"
    and "\<And>t. t \<in> set (rt_timers rt) \<Longrightarrow> tm_id t < rt_next rt"
    and "\<And>t. t \<in> set (rt_timers rt) \<Longrightarrow> \<exists>m. m \<le> n \<and> tm_seq t = of_nat m"
    and "\<And>t. t \<in> set (rt_timers rt) \<Longrightarrow> tm_seq t = of_nat n \<longleftrightarrow> db_timer (rt_debouncer rt) = Some (tm_id t)"
    and "\<And>t. t \<in> set (rt_timers rt) \<Longrightarrow> \<not> tm_fired t \<Longrightarrow> tm_seq t = of_nat n"
    and "\<And>t. t \<in> set (rt_timers rt) \<Longrightarrow> tm_fired t \<Longrightarrow> tm_deadline t \<le> rt_now rt"
  shows "debounced n rt"
  using assms unfolding debounced_def by blast

lemma debouncedD:
  assumes "debounced n rt" "t \<in> set (rt_timers rt)"
  shows "tm_id t < rt_next rt" "\<exists>m. m \<le> n \<and> tm_seq t = of_nat m"
    "tm_seq t = of_nat n \<longleftrightarrow> db_timer (rt_debouncer rt) = Some (tm_id t)"
    "\<not> tm_fired t \<Longrightarrow> tm_seq t = of_nat n" "tm_fired t \<Longrightarrow> tm_deadline t \<le> rt_now rt"
  using assms unfolding debounced_def by blast+

lemma timer_id_inj:
  assumes "debounced n rt" "t \<in> set (rt_timers rt)" "u \<in> set (rt_timers rt)" "tm_id t = tm_id u"
  shows "t = u"
  using assms unfolding debounced_def by (meson distinct_map inj_onD)

lemma current_timer_Some:
  assumes inv: "debounced n rt"
  shows "current_timer rt = Some t \<longleftrightarrow> t \<in> set (rt_timers rt) \<and> tm_seq t = of_nat n"
proof
  have seq: "db_seq (rt_debouncer rt) = of_nat n" using inv by (simp add: debounced_def)
  show "current_timer rt = Some t \<Longrightarrow> t \<in> set (rt_timers rt) \<and> tm_seq t = of_nat n"
    by (auto simp: current_timer_def find_Some_iff seq)
  assume t: "t \<in> set (rt_timers rt) \<and> tm_seq t = of_nat n"
  then obtain u where u: "current_timer rt = Some u"
    by (cases "current_timer rt") (auto simp: current_timer_def find_None_iff seq)
  then have "u \<in> set (rt_timers rt)" "tm_seq u = of_nat n" by (auto simp: current_timer_def find_Some_iff seq)
  then have "u = t" using t debouncedD(3)[OF inv, of t] debouncedD(3)[OF inv, of u] timer_id_inj[OF inv, of u t] by simp
  then show "current_timer rt = Some t" using u by simp
qed

lemma stop_current_fired:
  assumes inv: "debounced n rt"
  shows "set (stop_current (rt_debouncer rt) (rt_timers rt)) = {t \<in> set (rt_timers rt). tm_fired t}"
proof -
  have "t \<in> set (stop_current (rt_debouncer rt) (rt_timers rt)) \<longleftrightarrow> tm_fired t" if t: "t \<in> set (rt_timers rt)" for t
  proof (cases "tm_fired t")
    case True
    then show ?thesis using t by (simp add: stop_current_def stop_timer_def split: option.split)
  next
    case False
    then have "db_timer (rt_debouncer rt) = Some (tm_id t)" using debouncedD(3,4)[OF inv t] by simp
    then show ?thesis using False by (simp add: stop_current_def stop_timer_def)
  qed
  moreover have "set (stop_current (rt_debouncer rt) (rt_timers rt)) \<subseteq> set (rt_timers rt)"
    by (auto simp: stop_current_def stop_timer_def split: option.split)
  ultimately show ?thesis by blast
qed

lemma stop_current_distinct:
  "distinct (map tm_id ts) \<Longrightarrow> distinct (map tm_id (stop_current d ts))"
  by (auto simp: stop_current_def stop_timer_def distinct_map_filter split: option.split)

lemma stale:
  assumes inv: "debounced n rt" and n: "n + 1 < 2 ^ 64" and t: "t \<in> set (rt_timers rt)"
  shows "tm_seq t \<noteq> of_nat (n + 1)"
proof -
  obtain m where m: "m \<le> n" "tm_seq t = of_nat m" using debouncedD(2)[OF inv t] by blast
  then show ?thesis using of_nat_64_eq[of m "n + 1"] n by (simp del: of_nat_add of_nat_Suc)
qed

lemma trigger_step:
  assumes inv: "debounced n rt" and n: "n + 1 < 2 ^ 64"
  shows "debounced (n + 1) (trigger c rt)"
    "promise_of (trigger c rt) = (promise_of rt)\<lparr>pr_pending := Some (c, rt_now rt + db_duration (rt_debouncer rt))\<rparr>"
proof -
  let ?new = "\<lparr>tm_id = rt_next rt, tm_deadline = rt_now rt + db_duration (rt_debouncer rt), tm_seq = of_nat (n + 1),
    tm_callback = c, tm_fired = False\<rparr>"
  have seq: "db_seq (rt_debouncer rt) + 1 = of_nat (n + 1)" using inv by (simp add: debounced_def)
  have rt': "rt_timers (trigger c rt) = stop_current (rt_debouncer rt) (rt_timers rt) @ [?new]"
    "db_timer (rt_debouncer (trigger c rt)) = Some (rt_next rt)" "rt_next (trigger c rt) = rt_next rt + 1"
    "rt_now (trigger c rt) = rt_now rt" "db_seq (rt_debouncer (trigger c rt)) = of_nat (n + 1)"
    "rt_passed (trigger c rt) = rt_passed rt" "rt_called (trigger c rt) = rt_called rt"
    unfolding trigger_def Let_def seq by (simp_all del: of_nat_add)
  have old: "tm_id t < rt_next rt \<and> (\<exists>m. m \<le> n + 1 \<and> tm_seq t = of_nat m) \<and> tm_seq t \<noteq> of_nat (n + 1) \<and> tm_fired t \<and>
      tm_deadline t \<le> rt_now rt"
    if "t \<in> set (stop_current (rt_debouncer rt) (rt_timers rt))" for t
    using that stale[OF inv n, of t] debouncedD(1,2,5)[OF inv, of t] unfolding stop_current_fired[OF inv]
    by (auto simp del: of_nat_add of_nat_Suc dest: le_SucI)
  have "distinct (map tm_id (rt_timers rt))" using inv by (simp add: debounced_def)
  then have "distinct (map tm_id (rt_timers (trigger c rt)))"
    using stop_current_distinct old unfolding rt' by fastforce
  then show inv': "debounced (n + 1) (trigger c rt)"
  proof (intro debouncedI; (unfold rt')?)
    fix t assume "t \<in> set (stop_current (rt_debouncer rt) (rt_timers rt) @ [?new])"
    then consider "t \<in> set (stop_current (rt_debouncer rt) (rt_timers rt))" | "t = ?new" by auto
    then show "tm_id t < rt_next rt + 1" "\<exists>m. m \<le> n + 1 \<and> tm_seq t = of_nat m"
      "tm_seq t = of_nat (n + 1) \<longleftrightarrow> Some (rt_next rt) = Some (tm_id t)"
      "\<not> tm_fired t \<Longrightarrow> tm_seq t = of_nat (n + 1)" "tm_fired t \<Longrightarrow> tm_deadline t \<le> rt_now rt"
      by (cases, use old in fastforce, force)+
  qed simp
  have "current_timer (trigger c rt) = Some ?new"
    unfolding current_timer_Some[OF inv'] rt' by simp
  then show "promise_of (trigger c rt) = (promise_of rt)\<lparr>pr_pending := Some (c, rt_now rt + db_duration (rt_debouncer rt))\<rparr>"
    unfolding promise_of_def rt' by simp
qed

lemma cancel_step:
  assumes inv: "debounced n rt" and n: "n + 1 < 2 ^ 64"
  shows "debounced (n + 1) (cancel rt)" "promise_of (cancel rt) = (promise_of rt)\<lparr>pr_pending := None\<rparr>"
proof -
  have seq: "db_seq (rt_debouncer rt) + 1 = of_nat (n + 1)" using inv by (simp add: debounced_def)
  have rt': "rt_timers (cancel rt) = stop_current (rt_debouncer rt) (rt_timers rt)"
    "db_timer (rt_debouncer (cancel rt)) = None" "rt_next (cancel rt) = rt_next rt"
    "rt_now (cancel rt) = rt_now rt" "db_seq (rt_debouncer (cancel rt)) = of_nat (n + 1)" "rt_passed (cancel rt) = rt_passed rt"
    "rt_called (cancel rt) = rt_called rt"
    unfolding cancel_def Let_def seq by (simp_all del: of_nat_add)
  have old: "tm_id t < rt_next rt \<and> (\<exists>m. m \<le> n + 1 \<and> tm_seq t = of_nat m) \<and> tm_seq t \<noteq> of_nat (n + 1) \<and> tm_fired t \<and>
      tm_deadline t \<le> rt_now rt"
    if "t \<in> set (stop_current (rt_debouncer rt) (rt_timers rt))" for t
    using that stale[OF inv n, of t] debouncedD(1,2,5)[OF inv, of t] unfolding stop_current_fired[OF inv]
    by (auto simp del: of_nat_add of_nat_Suc dest: le_SucI)
  have "distinct (map tm_id (rt_timers rt))" using inv by (simp add: debounced_def)
  then show inv': "debounced (n + 1) (cancel rt)"
    using old stop_current_distinct unfolding debounced_def rt' by (auto simp del: of_nat_add of_nat_Suc)
  have "current_timer (cancel rt) \<noteq> Some t" for t
    unfolding current_timer_Some[OF inv'] rt' using old by blast
  then have "current_timer (cancel rt) = None" by (metis option.exhaust)
  then show "promise_of (cancel rt) = (promise_of rt)\<lparr>pr_pending := None\<rparr>" unfolding promise_of_def rt' by simp
qed

lemma tick_step:
  assumes inv: "debounced n rt"
  shows "debounced n (rt\<lparr>rt_now := rt_now rt + int k\<rparr>)"
    "promise_of (rt\<lparr>rt_now := rt_now rt + int k\<rparr>) = (promise_of rt)\<lparr>pr_now := pr_now (promise_of rt) + int k\<rparr>"
  using inv by (fastforce simp: debounced_def promise_of_def current_timer_def)+

lemma promise_of_same:
  assumes "debounced n rt" "debounced n rt'" "rt_now rt' = rt_now rt" "rt_passed rt' = rt_passed rt" "rt_called rt' = rt_called rt"
    and "\<And>t. t \<in> set (rt_timers rt') \<Longrightarrow> tm_seq t = of_nat n \<Longrightarrow>
      \<exists>u \<in> set (rt_timers rt). tm_seq u = of_nat n \<and> tm_callback u = tm_callback t \<and> tm_deadline u = tm_deadline t"
    and "\<And>t. t \<in> set (rt_timers rt) \<Longrightarrow> tm_seq t = of_nat n \<Longrightarrow> \<exists>u \<in> set (rt_timers rt'). tm_seq u = of_nat n"
  shows "promise_of rt' = promise_of rt"
proof (cases "current_timer rt'")
  case None
  have "current_timer rt = None"
  proof (cases "current_timer rt")
    case (Some t)
    then obtain u where "u \<in> set (rt_timers rt')" "tm_seq u = of_nat n"
      using current_timer_Some[OF assms(1)] assms(7) by blast
    then have "current_timer rt' = Some u" using current_timer_Some[OF assms(2)] by blast
    then show ?thesis using None by simp
  qed
  then show ?thesis using None assms(3,4,5) by (simp add: promise_of_def)
next
  case (Some t)
  then obtain u where u: "u \<in> set (rt_timers rt)" "tm_seq u = of_nat n" "tm_callback u = tm_callback t" "tm_deadline u = tm_deadline t"
    using current_timer_Some[OF assms(2)] assms(6) by blast
  then have "current_timer rt = Some u" using current_timer_Some[OF assms(1)] by blast
  then show ?thesis using Some u assms(3,4,5) by (simp add: promise_of_def)
qed

lemma fire_step:
  assumes inv: "debounced n rt" and t: "t \<in> set (rt_timers rt)" "tm_deadline t \<le> rt_now rt"
  shows "debounced n (fire_timer (tm_id t) rt)" "promise_of (fire_timer (tm_id t) rt) = promise_of rt"
proof -
  let ?f = "\<lambda>u. if tm_id u = tm_id t then u\<lparr>tm_fired := True\<rparr> else u"
  have rt': "rt_timers (fire_timer (tm_id t) rt) = map ?f (rt_timers rt)"
    "rt_debouncer (fire_timer (tm_id t) rt) = rt_debouncer rt" "rt_next (fire_timer (tm_id t) rt) = rt_next rt"
    "rt_now (fire_timer (tm_id t) rt) = rt_now rt" "rt_passed (fire_timer (tm_id t) rt) = rt_passed rt"
    "rt_called (fire_timer (tm_id t) rt) = rt_called rt"
    by (simp_all add: fire_timer_def)
  have f: "tm_id (?f u) = tm_id u" "tm_seq (?f u) = tm_seq u" "tm_callback (?f u) = tm_callback u"
    "tm_deadline (?f u) = tm_deadline u" for u by auto
  have same: "u = t" if "u \<in> set (rt_timers rt)" "tm_id u = tm_id t" for u using timer_id_inj[OF inv that(1) t(1) that(2)] .
  show inv': "debounced n (fire_timer (tm_id t) rt)"
  proof (intro debouncedI; (unfold rt')?)
    show "db_seq (rt_debouncer rt) = of_nat n" using inv by (simp add: debounced_def)
    have "map tm_id (map ?f (rt_timers rt)) = map tm_id (rt_timers rt)" by simp
    then show "distinct (map tm_id (map ?f (rt_timers rt)))" using inv by (simp only: debounced_def)
    fix v assume "v \<in> set (map ?f (rt_timers rt))"
    then obtain u where u: "u \<in> set (rt_timers rt)" "v = ?f u" by auto
    note d = debouncedD[OF inv u(1)]
    show "tm_id v < rt_next rt" "\<exists>m. m \<le> n \<and> tm_seq v = of_nat m"
      "tm_seq v = of_nat n \<longleftrightarrow> db_timer (rt_debouncer rt) = Some (tm_id v)"
      unfolding u(2) f using d(1,2,3) by simp_all
    show "\<not> tm_fired v \<Longrightarrow> tm_seq v = of_nat n" using d(4) unfolding u(2) by (auto split: if_splits)
    show "tm_fired v \<Longrightarrow> tm_deadline v \<le> rt_now rt"
      using d(5) t(2) same[OF u(1)] unfolding u(2) by (auto split: if_splits)
  qed
  show "promise_of (fire_timer (tm_id t) rt) = promise_of rt"
  proof (rule promise_of_same[OF inv inv'])
    show "\<exists>u \<in> set (rt_timers rt). tm_seq u = of_nat n \<and> tm_callback u = tm_callback v \<and> tm_deadline u = tm_deadline v"
      if "v \<in> set (rt_timers (fire_timer (tm_id t) rt))" "tm_seq v = of_nat n" for v
      using that unfolding rt' by (auto split: if_splits)
    show "\<exists>u \<in> set (rt_timers (fire_timer (tm_id t) rt)). tm_seq u = of_nat n"
      if "v \<in> set (rt_timers rt)" "tm_seq v = of_nat n" for v
      using that f(2)[of v] unfolding rt' by (intro bexI[of _ "?f v"]) simp_all
  qed (simp_all add: rt')
qed

lemma run_step:
  assumes inv: "debounced n rt" and t: "t \<in> set (rt_timers rt)" "tm_fired t"
  shows "debounced n (should_run t rt)"
    "if tm_seq t = of_nat n
     then pr_pending (promise_of rt) = Some (tm_callback t, tm_deadline t) \<and> tm_deadline t \<le> rt_now rt \<and>
       promise_of (should_run t rt) = (promise_of rt)\<lparr>pr_pending := None, pr_passed := rt_passed rt @ [tm_callback t]\<rparr>
     else promise_of (should_run t rt) = promise_of rt"
proof -
  let ?rt = "should_run t rt"
  have seq: "db_seq (rt_debouncer rt) = of_nat n" using inv by (simp add: debounced_def)
  have rt': "rt_timers ?rt = filter (\<lambda>u. tm_id u \<noteq> tm_id t) (rt_timers rt)" "rt_next ?rt = rt_next rt" "rt_now ?rt = rt_now rt"
    "db_seq (rt_debouncer ?rt) = of_nat n" "rt_passed ?rt = (if tm_seq t = of_nat n then rt_passed rt @ [tm_callback t] else rt_passed rt)"
    "db_timer (rt_debouncer ?rt) = (if tm_seq t = of_nat n then None else db_timer (rt_debouncer rt))"
    "rt_called ?rt = rt_called rt"
    by (simp_all add: should_run_def Let_def seq)
  show inv': "debounced n ?rt"
  proof (intro debouncedI; (unfold rt')?)
    show "distinct (map tm_id (filter (\<lambda>u. tm_id u \<noteq> tm_id t) (rt_timers rt)))"
      using inv by (simp add: debounced_def distinct_map_filter)
    fix u assume "u \<in> set (filter (\<lambda>u. tm_id u \<noteq> tm_id t) (rt_timers rt))"
    then have u: "u \<in> set (rt_timers rt)" "tm_id u \<noteq> tm_id t" by simp_all
    note d = debouncedD[OF inv u(1)]
    show "tm_id u < rt_next rt" "\<exists>m. m \<le> n \<and> tm_seq u = of_nat m" by (rule d)+
    show "\<not> tm_fired u \<Longrightarrow> tm_seq u = of_nat n" "tm_fired u \<Longrightarrow> tm_deadline u \<le> rt_now rt" by (rule d; assumption)+
    show "tm_seq u = of_nat n \<longleftrightarrow> (if tm_seq t = of_nat n then None else db_timer (rt_debouncer rt)) = Some (tm_id u)"
      using d(3) debouncedD(3)[OF inv t(1)] u(2) by auto
  qed simp
  show "if tm_seq t = of_nat n
     then pr_pending (promise_of rt) = Some (tm_callback t, tm_deadline t) \<and> tm_deadline t \<le> rt_now rt \<and>
       promise_of ?rt = (promise_of rt)\<lparr>pr_pending := None, pr_passed := rt_passed rt @ [tm_callback t]\<rparr>
     else promise_of ?rt = promise_of rt"
  proof (cases "tm_seq t = of_nat n")
    case True
    have cur: "current_timer rt = Some t" using current_timer_Some[OF inv] t True by blast
    have "current_timer ?rt \<noteq> Some u" for u
      using current_timer_Some[OF inv', of u] debouncedD(3)[OF inv', of u] True by (auto simp: rt')
    then have "current_timer ?rt = None" by (metis option.exhaust)
    then show ?thesis using True cur debouncedD(5)[OF inv t] by (simp add: promise_of_def rt')
  next
    case False
    have "promise_of ?rt = promise_of rt"
    proof (rule promise_of_same[OF inv inv'])
      show "\<exists>u \<in> set (rt_timers ?rt). tm_seq u = of_nat n" if "v \<in> set (rt_timers rt)" "tm_seq v = of_nat n" for v
        using that False timer_id_inj[OF inv that(1) t(1)] unfolding rt' by auto
    qed (use False in \<open>auto simp: rt'\<close>)
    then show ?thesis using False by simp
  qed
qed

lemma call_step:
  assumes inv: "debounced n rt"
  shows "debounced n (run_callback q rt)"
    "promise_of (run_callback q rt) = (promise_of rt)\<lparr>pr_called := rt_called rt @ [snd q]\<rparr>"
  using inv by (simp_all add: debounced_def run_callback_def promise_of_def current_timer_def)

text \<open>Every callback that has passed its check was called or is about to be called, and only once.\<close>

definition accounted :: "'c runtime \<Rightarrow> bool" where
  "accounted rt \<longleftrightarrow> mset (rt_passed rt) = mset (rt_called rt) + mset (map snd (rt_ready rt))"

lemma accounted_new: "accounted (new_runtime now d)"
  by (simp add: accounted_def new_runtime_def)

lemma accounted_step: "rt_step rt e rt' \<Longrightarrow> accounted rt \<Longrightarrow> accounted rt'"
proof (induction rule: rt_step.induct)
  case (step_call q rt)
  have "image_mset snd (mset (rt_ready rt)) = add_mset (snd q) (image_mset snd (mset (rt_ready rt) - {#q#}))"
    using step_call.hyps by (metis image_mset_add_mset insert_DiffM set_mset_mset)
  then show ?case using step_call.prems by (simp add: accounted_def run_callback_def)
qed (auto simp: accounted_def trigger_def cancel_def fire_timer_def should_run_def Let_def)

section \<open>Refinement\<close>

lemma step_keeps:
  assumes inv: "debounced n rt" and step: "rt_step rt e rt'" and n: "n + (if resets e then 1 else 0) < 2 ^ 64"
  shows "debounced (n + (if resets e then 1 else 0)) rt'"
    "db_duration (rt_debouncer rt') = db_duration (rt_debouncer rt)"
proof -
  from step show "debounced (n + (if resets e then 1 else 0)) rt'"
  proof cases
    case (step_trigger c)
    then show ?thesis using trigger_step(1)[OF inv] n by simp
  next
    case step_cancel
    then show ?thesis using cancel_step(1)[OF inv] n by simp
  next
    case (step_tick k)
    then show ?thesis using tick_step(1)[OF inv] by simp
  next
    case (step_fire t)
    then show ?thesis using fire_step(1)[OF inv step_fire(3,5)] by simp
  next
    case (step_run t)
    then show ?thesis using run_step(1)[OF inv step_run(3,4)] by simp
  next
    case (step_call q)
    then show ?thesis using call_step(1)[OF inv] by simp
  qed
  from step show "db_duration (rt_debouncer rt') = db_duration (rt_debouncer rt)"
    by cases (simp_all add: trigger_def cancel_def fire_timer_def should_run_def run_callback_def Let_def)
qed

lemma step_refines:
  assumes inv: "debounced n rt" and acc: "accounted rt" and step: "rt_step rt e rt'"
    and n: "n + (if resets e then 1 else 0) < 2 ^ 64"
  shows "pr_step (db_duration (rt_debouncer rt)) (promise_of rt) e (promise_of rt')"
proof -
  have now: "pr_now (promise_of rt) = rt_now rt" "pr_passed (promise_of rt) = rt_passed rt" by (simp_all add: promise_of_def)
  from step show ?thesis
  proof cases
    case (step_trigger c)
    then show ?thesis using trigger_step(2)[OF inv] n pr_trigger[of _ "promise_of rt" c] by (simp add: now)
  next
    case step_cancel
    then show ?thesis using cancel_step(2)[OF inv] n pr_cancel[of _ "promise_of rt"] by simp
  next
    case (step_tick k)
    then show ?thesis using tick_step(2)[OF inv] pr_tick[of _ "promise_of rt"] by simp
  next
    case (step_fire t)
    then show ?thesis using fire_step(2)[OF inv step_fire(3,5)] pr_fire by simp
  next
    case (step_run t)
    note r = run_step(2)[OF inv step_run(3,4)]
    show ?thesis
    proof (cases "tm_seq t = of_nat n")
      case True
      then show ?thesis using r step_run(1,2) pr_pass[of "promise_of rt" "tm_callback t" "tm_deadline t"] by (simp add: now)
    next
      case False
      then show ?thesis using r step_run(1,2) pr_stale by simp
    qed
  next
    case (step_call q)
    have "snd q \<in># mset (map snd (rt_ready rt))" using step_call(3) by simp
    then have "mset (pr_called (promise_of rt)) + {#snd q#} \<subseteq># mset (pr_passed (promise_of rt))"
      using acc by (simp add: promise_of_def accounted_def)
    from pr_call[OF this] show ?thesis
      using call_step(2)[OF inv] step_call(1,2) by (simp add: promise_of_def)
  qed
qed

lemma run_refines:
  assumes "rt_run rt es rt'" "debounced n rt" "accounted rt" "n + length (filter resets es) < 2 ^ 64"
  shows "debounced (n + length (filter resets es)) rt'" "accounted rt'"
    "pr_run (db_duration (rt_debouncer rt)) (promise_of rt) es (promise_of rt')"
proof -
  have "debounced (n + length (filter resets es)) rt' \<and> accounted rt' \<and>
      pr_run (db_duration (rt_debouncer rt)) (promise_of rt) es (promise_of rt')"
    using assms
  proof (induction arbitrary: n)
    case (run_Nil rt)
    then show ?case by (simp add: pr_Nil)
  next
    case (run_Cons rt e rt1 es rt2)
    let ?n = "n + (if resets e then 1 else 0)"
    have len: "?n + length (filter resets es) = n + length (filter resets (e # es))" by simp
    then have "?n < 2 ^ 64" using run_Cons.prems(3) by linarith
    note s = step_keeps[OF run_Cons.prems(1) run_Cons.hyps(1) this] step_refines[OF run_Cons.prems(1,2) run_Cons.hyps(1) this]
    show ?case
      using run_Cons.IH[OF s(1) accounted_step[OF run_Cons.hyps(1) run_Cons.prems(2)]] run_Cons.prems(3) len s(2,3) pr_Cons
      by fastforce
  qed
  then show "debounced (n + length (filter resets es)) rt'" "accounted rt'"
    "pr_run (db_duration (rt_debouncer rt)) (promise_of rt) es (promise_of rt')" by blast+
qed

section \<open>Progress\<close>

lemma rt_step_now: "rt_step rt e rt' \<Longrightarrow> rt_now rt \<le> rt_now rt'"
  by (induction rule: rt_step.induct) (simp_all add: trigger_def cancel_def fire_timer_def should_run_def run_callback_def Let_def)

lemma pending_step:
  assumes inv: "debounced n rt" and step: "rt_step rt e rt'" and e: "\<not> resets e" and n: "n < 2 ^ 64"
    and cur: "current_timer rt = Some v"
  shows "e \<noteq> Run (tm_id v) \<Longrightarrow> \<exists>u. current_timer rt' = Some u \<and> tm_id u = tm_id v \<and> tm_callback u = tm_callback v \<and>
      tm_deadline u = tm_deadline v \<and> (tm_fired v \<or> e = Fire (tm_id v) \<longrightarrow> tm_fired u) \<and> rt_passed rt' = rt_passed rt"
    "e = Run (tm_id v) \<Longrightarrow> current_timer rt' = None \<and> rt_passed rt' = rt_passed rt @ [tm_callback v]"
proof -
  have v: "v \<in> set (rt_timers rt)" "tm_seq v = of_nat n" using cur current_timer_Some[OF inv] by simp_all
  have inv': "debounced n rt'" using step_keeps(1)[OF inv step] e n by simp
  note some = current_timer_Some[OF inv']
  from step e show "\<exists>u. current_timer rt' = Some u \<and> tm_id u = tm_id v \<and> tm_callback u = tm_callback v \<and>
      tm_deadline u = tm_deadline v \<and> (tm_fired v \<or> e = Fire (tm_id v) \<longrightarrow> tm_fired u) \<and> rt_passed rt' = rt_passed rt"
    if ne: "e \<noteq> Run (tm_id v)"
  proof cases
    case (step_tick k)
    then have "current_timer rt' = Some v" unfolding some using v by simp
    then show ?thesis using step_tick by simp
  next
    case (step_fire t)
    let ?u = "if tm_id v = tm_id t then v\<lparr>tm_fired := True\<rparr> else v"
    have "current_timer rt' = Some ?u" unfolding some using v step_fire by (auto simp: fire_timer_def)
    then show ?thesis using step_fire by (auto simp: fire_timer_def)
  next
    case (step_run t)
    then have "tm_id v \<noteq> tm_id t" using ne by auto
    moreover have "tm_seq t \<noteq> of_nat n"
      using debouncedD(3)[OF inv v(1)] debouncedD(3)[OF inv step_run(3)] v(2) calculation by auto
    then have "tm_seq t \<noteq> db_seq (rt_debouncer rt)" using inv by (simp add: debounced_def)
    ultimately have "current_timer rt' = Some v" "rt_passed rt' = rt_passed rt"
      unfolding some using v step_run by (auto simp: should_run_def Let_def)
    then show ?thesis using step_run by simp
  next
    case (step_call q)
    then have "current_timer rt' = Some v" using cur by (simp add: run_callback_def current_timer_def)
    then show ?thesis using step_call by (simp add: run_callback_def)
  qed simp_all
  from step e show "current_timer rt' = None \<and> rt_passed rt' = rt_passed rt @ [tm_callback v]" if ne: "e = Run (tm_id v)"
  proof cases
    case (step_run t)
    then have t: "t = v" using ne timer_id_inj[OF inv step_run(3) v(1)] by simp
    have "promise_of rt' = (promise_of rt)\<lparr>pr_pending := None, pr_passed := rt_passed rt @ [tm_callback v]\<rparr>"
      using run_step(2)[OF inv step_run(3,4)] v(2) step_run(2) by (simp add: t)
    then show ?thesis by (simp add: promise_of_def)
  qed (use ne in simp_all)
qed

lemma idle_step:
  assumes inv: "debounced n rt" and acc: "accounted rt" and step: "rt_step rt e rt'" and e: "\<not> resets e" and n: "n < 2 ^ 64"
    and cur: "current_timer rt = None"
  shows "current_timer rt' = None" "rt_passed rt' = rt_passed rt"
proof -
  have "pr_step (db_duration (rt_debouncer rt)) (promise_of rt) e (promise_of rt')"
    using step_refines[OF inv acc step] e n by simp
  then have "pr_pending (promise_of rt') = None \<and> pr_passed (promise_of rt') = pr_passed (promise_of rt)"
    using e cur by cases (simp_all add: promise_of_def)
  then show "current_timer rt' = None" "rt_passed rt' = rt_passed rt" by (simp_all add: promise_of_def)
qed

section \<open>Infinite runs\<close>

text \<open>Time passes, and the runtime is weakly fair: what a timer or the goroutine of its
  function can do from some point on happens.\<close>

definition timer_event :: "'c event \<Rightarrow> bool" where
  "timer_event e \<longleftrightarrow> (case e of Fire _ \<Rightarrow> True | Run _ \<Rightarrow> True | Call _ \<Rightarrow> True | _ \<Rightarrow> False)"

lemma timer_event_simps [simp]:
  "\<not> timer_event (Trigger c)" "\<not> timer_event Cancel" "\<not> timer_event (Tick n)" "timer_event (Fire i)" "timer_event (Run i)"
  "timer_event (Call i)"
  by (simp_all add: timer_event_def)

definition fair_run :: "(nat \<Rightarrow> 'c runtime) \<Rightarrow> (nat \<Rightarrow> 'c event) \<Rightarrow> bool" where
  "fair_run s l \<longleftrightarrow> (\<forall>i. rt_step (s i) (l i) (s (Suc i))) \<and> (\<forall>t. \<exists>i. t \<le> rt_now (s i)) \<and>
     (\<forall>e i. timer_event e \<longrightarrow> (\<forall>j \<ge> i. \<exists>rt. rt_step (s j) e rt) \<longrightarrow> (\<exists>j \<ge> i. l j = e))"

definition resets_before :: "(nat \<Rightarrow> 'c event) \<Rightarrow> nat \<Rightarrow> nat" where
  "resets_before l i = length (filter resets (map l [0..<i]))"

lemma resets_before_Suc: "resets_before l (Suc i) = resets_before l i + (if resets (l i) then 1 else 0)"
  by (simp add: resets_before_def)

lemma resets_before_mono: "i \<le> j \<Longrightarrow> resets_before l i \<le> resets_before l j"
  by (rule lift_Suc_mono_le) (simp_all add: resets_before_Suc)

lemma resets_before_quiet: "i \<le> j \<Longrightarrow> \<forall>k \<ge> i. \<not> resets (l k) \<Longrightarrow> resets_before l j = resets_before l i"
  by (induction rule: dec_induct) (simp_all add: resets_before_Suc)

lemma debounced_run:
  assumes "fair_run s l" "s 0 = new_runtime now d" "resets_before l i < 2 ^ 64"
  shows "debounced (resets_before l i) (s i)"
  using assms(3)
proof (induction i)
  case 0
  then show ?case using assms(2) debounced_new by (simp add: resets_before_def)
next
  case (Suc i)
  then have "debounced (resets_before l i) (s i)" using resets_before_mono[of i "Suc i" l] by simp
  moreover have "rt_step (s i) (l i) (s (Suc i))" using assms(1) by (simp add: fair_run_def)
  ultimately show ?case using step_keeps(1)[of "resets_before l i" "s i" "l i" "s (Suc i)"] Suc.prems
    by (simp add: resets_before_Suc)
qed

text \<open>The part of a run after the last trigger or cancellation.\<close>

lemma quiet_run:
  assumes fair: "fair_run s l" and inv: "\<And>j. i \<le> j \<Longrightarrow> debounced n (s j)" and n: "n < 2 ^ 64"
    and quiet: "\<And>j. i \<le> j \<Longrightarrow> \<not> resets (l j)" and cur: "current_timer (s i) = Some v"
  shows "\<exists>j \<ge> i. l j = Run (tm_id v)"
    and "i \<le> j \<Longrightarrow> \<forall>k. i \<le> k \<and> k < j \<longrightarrow> l k \<noteq> Run (tm_id v) \<Longrightarrow> \<exists>u. current_timer (s j) = Some u \<and> tm_id u = tm_id v \<and>
      tm_callback u = tm_callback v \<and> tm_deadline u = tm_deadline v \<and> rt_passed (s j) = rt_passed (s i)"
proof -
  have step: "rt_step (s j) (l j) (s (Suc j))" for j using fair by (simp add: fair_run_def)
  have waits: "\<exists>u. current_timer (s j) = Some u \<and> tm_id u = tm_id v \<and>
      tm_callback u = tm_callback v \<and> tm_deadline u = tm_deadline v \<and> rt_passed (s j) = rt_passed (s i)"
    if "i \<le> j" "\<forall>k. i \<le> k \<and> k < j \<longrightarrow> l k \<noteq> Run (tm_id v)" for j
    using that
  proof (induction rule: dec_induct)
    case (step j)
    then obtain u where u: "current_timer (s j) = Some u" "tm_id u = tm_id v" "tm_callback u = tm_callback v"
      "tm_deadline u = tm_deadline v" "rt_passed (s j) = rt_passed (s i)" by auto
    have "l j \<noteq> Run (tm_id u)" using step.prems step.hyps u(2) by simp
    then show ?case using pending_step(1)[OF inv[OF step.hyps(1)] \<open>\<And>j. rt_step (s j) (l j) (s (Suc j))\<close> quiet[OF step.hyps(1)] n u(1)] u
      by metis
  qed (use cur in simp)
  then show "i \<le> j \<Longrightarrow> \<forall>k. i \<le> k \<and> k < j \<longrightarrow> l k \<noteq> Run (tm_id v) \<Longrightarrow> \<exists>u. current_timer (s j) = Some u \<and> tm_id u = tm_id v \<and>
      tm_callback u = tm_callback v \<and> tm_deadline u = tm_deadline v \<and> rt_passed (s j) = rt_passed (s i)" by blast
  show "\<exists>j \<ge> i. l j = Run (tm_id v)"
  proof (rule ccontr)
    assume "\<not> (\<exists>j \<ge> i. l j = Run (tm_id v))"
    then have never: "l j \<noteq> Run (tm_id v)" if "i \<le> j" for j using that by blast
    then have w: "\<exists>u. current_timer (s j) = Some u \<and> tm_id u = tm_id v \<and> tm_deadline u = tm_deadline v" if "i \<le> j" for j
      using waits[OF that] by auto
    have now: "rt_now (s j) \<le> rt_now (s k)" if "j \<le> k" for j k
      using that by (rule lift_Suc_mono_le[rotated]) (rule rt_step_now[OF step])
    obtain m where "tm_deadline v \<le> rt_now (s m)" using fair unfolding fair_run_def by blast
    then have m: "tm_deadline v \<le> rt_now (s (max i m))" using now[of m "max i m"] by simp
    let ?m = "max i m"
    have due: "tm_deadline v \<le> rt_now (s j)" if "?m \<le> j" for j using m now[of ?m j] that by simp
    have keeps: "\<exists>u. current_timer (s k) = Some u \<and> tm_id u = tm_id v \<and> tm_fired u"
      if j: "i \<le> j" "current_timer (s j) = Some u" "tm_fired u" and "j \<le> k" for j k u
      using \<open>j \<le> k\<close>
    proof (induction rule: dec_induct)
      case base
      then show ?case using j w[OF j(1)] by auto
    next
      case (step k)
      then obtain u where u: "current_timer (s k) = Some u" "tm_id u = tm_id v" "tm_fired u" by blast
      have k: "i \<le> k" using j(1) step.hyps(1) by simp
      have "l k \<noteq> Run (tm_id u)" using never[OF k] u(2) by simp
      then show ?case using pending_step(1)[OF inv[OF k] \<open>\<And>j. rt_step (s j) (l j) (s (Suc j))\<close> quiet[OF k] n u(1)] u by metis
    qed
    have "\<exists>j \<ge> ?m. \<exists>u. current_timer (s j) = Some u \<and> tm_fired u"
    proof (rule ccontr)
      assume unfired: "\<not> (\<exists>j \<ge> ?m. \<exists>u. current_timer (s j) = Some u \<and> tm_fired u)"
      have "\<exists>rt. rt_step (s j) (Fire (tm_id v)) rt" if "?m \<le> j" for j
      proof -
        have ij: "i \<le> j" using that by simp
        obtain u where u: "current_timer (s j) = Some u" "tm_id u = tm_id v" "tm_deadline u = tm_deadline v" using w[OF ij] by blast
        then have "u \<in> set (rt_timers (s j))" using current_timer_Some[OF inv[OF ij]] by simp
        then show ?thesis using step_fire[of u "s j"] u unfired due[OF that] that by auto
      qed
      then obtain j where j: "?m \<le> j" "l j = Fire (tm_id v)" using fair unfolding fair_run_def by (metis timer_event_simps(4))
      have ij: "i \<le> j" using j(1) by simp
      obtain u where u: "current_timer (s j) = Some u" "tm_id u = tm_id v" using w[OF ij] by blast
      then obtain u' where "current_timer (s (Suc j)) = Some u'" "tm_fired u'"
        using pending_step(1)[OF inv[OF ij] \<open>\<And>j. rt_step (s j) (l j) (s (Suc j))\<close> quiet[OF ij] n u(1)] j(2) by auto
      then show False using unfired j(1) le_SucI by blast
    qed
    then obtain j u where j: "i \<le> j" "current_timer (s j) = Some u" "tm_fired u" by auto
    have "\<exists>rt. rt_step (s k) (Run (tm_id v)) rt" if jk: "j \<le> k" for k
    proof -
      obtain u where u: "current_timer (s k) = Some u" "tm_id u = tm_id v" "tm_fired u" using keeps[OF j jk] by blast
      have "i \<le> k" using j(1) jk by simp
      then have "u \<in> set (rt_timers (s k))" using current_timer_Some[OF inv] u(1) by blast
      then show ?thesis using step_run[of u "s k"] u by auto
    qed
    then obtain k where "j \<le> k" "l k = Run (tm_id v)" using fair unfolding fair_run_def by (metis timer_event_simps(5))
    then show False using never[of k] j(1) by simp
  qed
qed

lemma idle_run:
  assumes fair: "fair_run s l" and inv: "\<And>j. i \<le> j \<Longrightarrow> debounced n (s j)" and acc: "\<And>j. accounted (s j)" and n: "n < 2 ^ 64"
    and quiet: "\<And>j. i \<le> j \<Longrightarrow> \<not> resets (l j)" and cur: "current_timer (s i) = None" and j: "i \<le> j"
  shows "rt_passed (s j) = rt_passed (s i)"
proof -
  have "current_timer (s j) = None \<and> rt_passed (s j) = rt_passed (s i)"
    using j
  proof (induction rule: dec_induct)
    case (step j)
    have "rt_step (s j) (l j) (s (Suc j))" using fair by (simp add: fair_run_def)
    then show ?case
      using idle_step[OF inv[OF step.hyps(1)] acc[of j] _ quiet[OF step.hyps(1)] n, of "s (Suc j)"] step.IH by simp
  qed (use cur in simp)
  then show ?thesis ..
qed

lemma accounted_run:
  assumes "fair_run s l" "s 0 = new_runtime now d"
  shows "accounted (s i)"
proof (induction i)
  case 0
  then show ?case using assms(2) accounted_new by simp
next
  case (Suc i)
  have "rt_step (s i) (l i) (s (Suc i))" using assms(1) by (simp add: fair_run_def)
  then show ?case by (rule accounted_step) (rule Suc)
qed

text \<open>Once nothing can pass the check any more, the goroutines that have passed it are done sooner or later.\<close>

lemma call_run:
  assumes fair: "fair_run s l" and idle: "\<And>j. i \<le> j \<Longrightarrow> rt_passed (s j) = rt_passed (s i)"
    and acc: "\<And>j. accounted (s j)"
  shows "\<exists>m \<ge> i. \<forall>k \<ge> m. rt_ready (s k) = []"
proof -
  have step: "rt_step (s j) (l j) (s (Suc j))" for j using fair by (simp add: fair_run_def)
  have kept: "rt_ready (s (Suc j)) = rt_ready (s j) \<or>
      (\<exists>q. q \<in> set (rt_ready (s j)) \<and> rt_ready (s (Suc j)) = remove1 q (rt_ready (s j)))" if "i \<le> j" for j
    using step[of j] idle[of j] idle[of "Suc j"] that
    by cases (auto simp: trigger_def cancel_def fire_timer_def should_run_def run_callback_def Let_def split: if_splits)
  have shrinks: "length (rt_ready (s (Suc j))) \<le> length (rt_ready (s j))" if "i \<le> j" for j
    using kept[OF that] by (auto simp: length_remove1)
  have "\<exists>m \<ge> j. rt_ready (s m) = []" if "i \<le> j" for j
    using that
  proof (induction "length (rt_ready (s j))" arbitrary: j rule: less_induct)
    case less
    show ?case
    proof (cases "rt_ready (s j) = []")
      case False
      then obtain q where q: "q \<in> set (rt_ready (s j))" by (meson last_in_set)
      have "\<exists>k \<ge> j. rt_ready (s (Suc k)) \<noteq> rt_ready (s k)"
      proof (rule ccontr)
        assume stuck: "\<not> (\<exists>k \<ge> j. rt_ready (s (Suc k)) \<noteq> rt_ready (s k))"
        have same: "rt_ready (s k) = rt_ready (s j)" if "j \<le> k" for k
          using that by (induction rule: dec_induct) (use stuck in auto)
        have "\<exists>rt. rt_step (s k) (Call (fst q)) rt" if "j \<le> k" for k
          using step_call[of q "s k"] q same[OF that] by auto
        then obtain k where k: "j \<le> k" "l k = Call (fst q)"
          using fair unfolding fair_run_def by (metis timer_event_simps(6))
        have "rt_step (s k) (Call (fst q)) (s (Suc k))" using step[of k] k(2) by simp
        then obtain p where "p \<in> set (rt_ready (s k))" "rt_ready (s (Suc k)) = remove1 p (rt_ready (s k))"
          by (auto elim!: rt_step_Call simp: run_callback_def)
        then have "length (rt_ready (s (Suc k))) < length (rt_ready (s k))"
          using length_pos_if_in_set[of p "rt_ready (s k)"] by (simp add: length_remove1)
        then show False using same[OF k(1)] same[of "Suc k"] k(1) by simp
      qed
      then obtain k where k: "j \<le> k" "rt_ready (s (Suc k)) \<noteq> rt_ready (s k)" by blast
      have "i \<le> k" using less.prems k(1) by simp
      then have "length (rt_ready (s (Suc k))) < length (rt_ready (s k))"
        using kept[of k] k(2) length_pos_if_in_set by (fastforce simp: length_remove1)
      moreover have "length (rt_ready (s k)) \<le> length (rt_ready (s j))"
        using k(1) by (induction rule: dec_induct) (use shrinks less.prems in \<open>auto intro: order_trans\<close>)
      ultimately obtain m where "Suc k \<le> m" "rt_ready (s m) = []" using less.hyps[of "Suc k"] \<open>i \<le> k\<close> by auto
      then show ?thesis using k(1) by (intro exI[of _ m]) simp
    qed auto
  qed
  then obtain m where m: "i \<le> m" "rt_ready (s m) = []" by blast
  have "rt_ready (s k) = []" if "m \<le> k" for k
    using that
  proof (induction rule: dec_induct)
    case (step n)
    then show ?case using kept[of n] m(1) by auto
  qed (rule m(2))
  then show ?thesis using m(1) by blast
qed

section \<open>The callbacks that ran\<close>

fun triggered :: "'c event list \<Rightarrow> 'c list" where
  "triggered [] = []"
| "triggered (Trigger c # es) = c # triggered es"
| "triggered (e # es) = triggered es"

definition pending_list :: "'c promise \<Rightarrow> 'c list" where
  "pending_list p = (case pr_pending p of None \<Rightarrow> [] | Some (c, t) \<Rightarrow> [c])"

lemma pr_run_subseq:
  "pr_run d p es q \<Longrightarrow> subseq (pr_passed q @ pending_list q) (pr_passed p @ pending_list p @ triggered es)"
proof (induction rule: pr_run.induct)
  case (pr_Cons p e p1 es p2)
  have "subseq (pr_passed p1 @ pending_list p1 @ triggered es) (pr_passed p @ pending_list p @ triggered (e # es))"
    using pr_Cons.hyps(1)
  proof cases
    case (pr_trigger c)
    have "subseq (c # triggered es) (pending_list p @ c # triggered es)" by (rule list_emb_append2) simp
    moreover have "pending_list p1 = [c]" "pr_passed p1 = pr_passed p" using pr_trigger by (simp_all add: pending_list_def)
    ultimately show ?thesis using pr_trigger(1) list_emb_append_mono[OF subseq_order.refl] by simp
  next
    case pr_cancel
    then have "pending_list p1 = []" "pr_passed p1 = pr_passed p" by (simp_all add: pending_list_def)
    moreover have "subseq (triggered es) (pending_list p @ triggered es)" by (rule list_emb_append2) simp
    ultimately show ?thesis using pr_cancel(1) list_emb_append_mono[OF subseq_order.refl] by simp
  qed (simp_all add: pending_list_def)
  then show ?case using pr_Cons.IH subseq_order.trans by blast
qed simp

section \<open>Properties\<close>

text \<open>Where every function finds no other one between its check and its call, callbacks are called in the order of
  their checks.\<close>

inductive serial_run :: "'c runtime \<Rightarrow> 'c event list \<Rightarrow> 'c runtime \<Rightarrow> bool" where
  serial_Nil: "serial_run rt [] rt"
| serial_Cons: "rt_step rt e rt1 \<Longrightarrow> (\<exists>i. e = Run i) \<longrightarrow> rt_ready rt = [] \<Longrightarrow> serial_run rt1 es rt2 \<Longrightarrow>
    serial_run rt (e # es) rt2"

lemma serial_order:
  "serial_run rt es rt' \<Longrightarrow> length (rt_ready rt) \<le> 1 \<Longrightarrow> rt_called rt @ map snd (rt_ready rt) = rt_passed rt \<Longrightarrow>
    length (rt_ready rt') \<le> 1 \<and> rt_called rt' @ map snd (rt_ready rt') = rt_passed rt'"
proof (induction rule: serial_run.induct)
  case (serial_Cons rt e rt1 es rt2)
  from serial_Cons.hyps(1)
  have "length (rt_ready rt1) \<le> 1 \<and> rt_called rt1 @ map snd (rt_ready rt1) = rt_passed rt1"
  proof cases
    case (step_call q)
    then have "rt_ready rt = [q]" using serial_Cons.prems(1) by (cases "rt_ready rt") auto
    then show ?thesis using step_call serial_Cons.prems(2) by (simp add: run_callback_def)
  qed (use serial_Cons.hyps(2) serial_Cons.prems in
      \<open>auto simp: trigger_def cancel_def fire_timer_def should_run_def Let_def\<close>)
  then show ?case using serial_Cons.IH by blast
qed simp

lemma serial_run_rt_run: "serial_run rt es rt' \<Longrightarrow> rt_run rt es rt'"
  by (induction rule: serial_run.induct) (auto intro: rt_run.intros)

lemma pr_run_passed_subseq:
  assumes "pr_run d \<lparr>pr_now = now, pr_pending = None, pr_passed = [], pr_called = []\<rparr> es p"
  shows "subseq (pr_passed p) (triggered es)"
proof -
  have "subseq (pr_passed p @ pending_list p) (triggered es)"
    using pr_run_subseq[OF assms] by (simp add: pending_list_def)
  then show ?thesis
    by (rule subseq_order.trans[rotated]) (metis append_Nil2 list_emb_Nil list_emb_append_mono subseq_order.refl)
qed

text \<open>C11: The debouncer keeps its promise in every interleaving of triggers, cancellations, timers, checks and calls:
  at most one callback is pending, a trigger replaces it and a cancellation drops it, and it is chosen
  once, at the earliest after the duration; what is called was chosen before, once for each time it was
  chosen. In particular the chosen callbacks are some of those that were triggered, in that order, and
  each of them was called or is still to be called by its goroutine. They are called in the order of the
  triggers, too, when no function is checked while another one is between its check and its call; otherwise
  the order of the calls is open. The sequence number may not wrap around.\<close>

theorem debouncer_keeps_promise:
  assumes "rt_run (new_runtime now d) es rt" "length (filter resets es) < 2 ^ 64"
  shows "pr_run (db_duration (new_debouncer d)) \<lparr>pr_now = now, pr_pending = None, pr_passed = [], pr_called = []\<rparr> es
      (promise_of rt) \<and>
    subseq (rt_passed rt) (triggered es) \<and> mset (rt_passed rt) = mset (rt_called rt) + mset (map snd (rt_ready rt)) \<and>
    (serial_run (new_runtime now d) es rt \<longrightarrow> subseq (rt_called rt) (triggered es))"
proof -
  have "promise_of (new_runtime now d :: 'a runtime) = \<lparr>pr_now = now, pr_pending = None, pr_passed = [], pr_called = []\<rparr>"
    by (simp add: promise_of_def new_runtime_def current_timer_def)
  moreover have "rt_debouncer (new_runtime now d :: 'a runtime) = new_debouncer d" by (simp add: new_runtime_def)
  ultimately have pr: "pr_run (db_duration (new_debouncer d))
      \<lparr>pr_now = now, pr_pending = None, pr_passed = [], pr_called = []\<rparr> es (promise_of rt)" and acc: "accounted rt"
    using run_refines(2,3)[OF assms(1) debounced_new accounted_new] assms(2) by simp_all
  have sub: "subseq (rt_passed rt) (triggered es)" using pr_run_passed_subseq[OF pr] by (simp add: promise_of_def)
  have "subseq (rt_called rt) (triggered es)" if s: "serial_run (new_runtime now d) es rt"
  proof -
    have "rt_called rt @ map snd (rt_ready rt) = rt_passed rt"
      using serial_order[OF s] by (simp add: new_runtime_def)
    then have "subseq (rt_called rt) (rt_passed rt)" by (metis append_Nil2 list_emb_Nil list_emb_append_mono subseq_order.refl)
    then show ?thesis using sub by (rule subseq_order.trans)
  qed
  then show ?thesis using pr sub acc by (simp add: accounted_def)
qed

text \<open>A step that can be computed.\<close>

definition exec_event :: "'c event \<Rightarrow> 'c runtime \<Rightarrow> 'c runtime option" where
  "exec_event e rt =
     (case e of Trigger c \<Rightarrow> Some (trigger c rt) | Cancel \<Rightarrow> Some (cancel rt)
      | Tick n \<Rightarrow> Some (rt\<lparr>rt_now := rt_now rt + int n\<rparr>)
      | Fire i \<Rightarrow> (case find (\<lambda>t. tm_id t = i \<and> \<not> tm_fired t \<and> tm_deadline t \<le> rt_now rt) (rt_timers rt) of
          None \<Rightarrow> None | Some t \<Rightarrow> Some (fire_timer i rt))
      | Run i \<Rightarrow> (case find (\<lambda>t. tm_id t = i \<and> tm_fired t) (rt_timers rt) of
          None \<Rightarrow> None | Some t \<Rightarrow> Some (should_run t rt))
      | Call i \<Rightarrow> (case find (\<lambda>q. fst q = i) (rt_ready rt) of None \<Rightarrow> None | Some q \<Rightarrow> Some (run_callback q rt)))"

fun exec_events :: "'c event list \<Rightarrow> 'c runtime \<Rightarrow> 'c runtime option" where
  "exec_events [] rt = Some rt"
| "exec_events (e # es) rt = (case exec_event e rt of None \<Rightarrow> None | Some rt \<Rightarrow> exec_events es rt)"

lemma exec_event_step: "exec_event e rt = Some rt' \<Longrightarrow> rt_step rt e rt'"
  by (auto simp: exec_event_def find_Some_iff split: event.splits option.splits intro: rt_step.intros nth_mem
      dest!: nth_mem intro!: step_fire step_run step_call)

lemma exec_events_run: "exec_events es rt = Some rt' \<Longrightarrow> rt_run rt es rt'"
  by (induction es arbitrary: rt) (auto intro: rt_run.intros exec_event_step split: option.splits)

text \<open>A race: the first timer has fired when the second trigger comes, and its function finds itself stale.\<close>

definition demo_events :: "string event list" where
  "demo_events = [Trigger ''a'', Tick 10, Fire 0, Trigger ''b'', Run 0, Tick 10, Fire 1, Run 1, Call 1]"

lemma debouncer_keeps_promise_witness:
  "\<exists>rt. rt_run (new_runtime 0 10) demo_events rt \<and> rt_called rt = [''b''] \<and> subseq (rt_passed rt) (triggered demo_events) \<and>
     mset (rt_passed rt) = mset (rt_called rt)"
proof -
  have "map_option (\<lambda>rt. (rt_called rt, rt_ready rt)) (exec_events demo_events (new_runtime 0 10)) = Some ([''b''], [])"
    by code_simp
  then obtain rt where e: "exec_events demo_events (new_runtime 0 10) = Some rt" "rt_called rt = [''b'']" "rt_ready rt = []" by auto
  have "length (filter resets demo_events) < 2 ^ 64" by (simp add: demo_events_def)
  then show ?thesis using debouncer_keeps_promise[OF exec_events_run[OF e(1)]] exec_events_run[OF e(1)] e(2,3) by auto
qed

text \<open>A callback that has passed its check is not held back by what happens before its call: here the first one is
  called after the second, and here after a cancellation.\<close>

lemma callback_overtaken:
  "map_option rt_called (exec_events [Trigger ''a'', Tick 10, Fire 0, Run 0, Trigger ''b'', Tick 10, Fire 1, Run 1, Call 1, Call 0]
     (new_runtime 0 10)) = Some [''b'', ''a'']"
  by code_simp

lemma callback_after_cancel:
  "map_option rt_called (exec_events [Trigger ''a'', Tick 10, Fire 0, Run 0, Cancel, Call 0] (new_runtime 0 10)) = Some [''a'']"
  by code_simp

text \<open>C31: The last callback is not lost: in every fair run, after a trigger that no trigger or cancellation
  follows, its function passes the check exactly once, not before the duration has passed, and no other
  function passes it any more. Up to then nothing is called but callbacks of goroutines that had passed
  their check before the trigger, and in the end the new callback and each of those was called exactly
  once, nothing else was, and nothing is left to be called.\<close>

theorem debouncer_runs_last:
  assumes "fair_run s l" "s 0 = new_runtime now d" "l i = Trigger c" "\<forall>j > i. \<not> resets (l j)"
    and "resets_before l (Suc i) < 2 ^ 64"
  shows "\<exists>j > i. rt_now (s i) + db_duration (rt_debouncer (s i)) \<le> rt_now (s j) \<and>
    (\<forall>k. i \<le> k \<and> k \<le> j \<longrightarrow> rt_passed (s k) = rt_passed (s i) \<and>
       mset (rt_called (s k)) \<subseteq># mset (rt_called (s i)) + mset (map snd (rt_ready (s i)))) \<and>
    (\<forall>k > j. rt_passed (s k) = rt_passed (s i) @ [c]) \<and>
    (\<exists>m > j. \<forall>k \<ge> m. rt_ready (s k) = [] \<and>
       mset (rt_called (s k)) = mset (rt_called (s i)) + mset (map snd (rt_ready (s i))) + {#c#})"
proof -
  let ?n = "resets_before l (Suc i)"
  have step: "rt_step (s j) (l j) (s (Suc j))" for j using assms(1) by (simp add: fair_run_def)
  have quiet: "\<not> resets (l j)" if "Suc i \<le> j" for j using assms(4) that by simp
  have acc: "accounted (s j)" for j by (rule accounted_run[OF assms(1,2)])
  have inv: "debounced ?n (s j)" if "Suc i \<le> j" for j
    using debounced_run[OF assms(1,2), of j] resets_before_quiet[OF that, of l] quiet assms(5) by simp
  have s1: "s (Suc i) = trigger c (s i)" using step[of i] assms(3) by (auto elim: rt_step_Trigger)
  have n: "resets_before l i + 1 < 2 ^ 64" using assms(3,5) by (simp add: resets_before_Suc)
  have "debounced (resets_before l i) (s i)" using n by (intro debounced_run[OF assms(1,2)]) linarith
  then have pr: "promise_of (s (Suc i)) = (promise_of (s i))\<lparr>pr_pending := Some (c, rt_now (s i) + db_duration (rt_debouncer (s i)))\<rparr>"
    unfolding s1 by (rule trigger_step(2)) (rule n)
  then obtain v where v: "current_timer (s (Suc i)) = Some v" "tm_callback v = c"
    "tm_deadline v = rt_now (s i) + db_duration (rt_debouncer (s i))" "rt_passed (s (Suc i)) = rt_passed (s i)"
    by (auto simp: promise_of_def)
  note q = quiet_run[OF assms(1) inv assms(5) quiet v(1)]
  define j where "j = (LEAST j. Suc i \<le> j \<and> l j = Run (tm_id v))"
  have "\<exists>j. Suc i \<le> j \<and> l j = Run (tm_id v)" using q(1) by simp
  from LeastI_ex[OF this] have j: "Suc i \<le> j" "l j = Run (tm_id v)" unfolding j_def by auto
  have before: "l k \<noteq> Run (tm_id v)" if "Suc i \<le> k" "k < j" for k using not_less_Least that unfolding j_def by blast
  have wait: "\<exists>u. current_timer (s k) = Some u \<and> tm_id u = tm_id v \<and> tm_callback u = c \<and>
      tm_deadline u = tm_deadline v \<and> rt_passed (s k) = rt_passed (s i)" if "Suc i \<le> k" "k \<le> j" for k
    using q(2)[of k] before that v(2,4) by simp
  obtain u where u: "current_timer (s j) = Some u" "tm_id u = tm_id v" "tm_callback u = c" "tm_deadline u = tm_deadline v"
    "rt_passed (s j) = rt_passed (s i)" using wait[OF j(1)] by auto
  have ran: "current_timer (s (Suc j)) = None" "rt_passed (s (Suc j)) = rt_passed (s i) @ [c]"
    using pending_step(2)[OF inv[OF j(1)] step quiet[OF j(1)] assms(5) u(1)] j(2) u by simp_all
  have late: "tm_deadline v \<le> rt_now (s j)"
  proof -
    have "rt_step (s j) (Run (tm_id v)) (s (Suc j))" using step[of j] j(2) by simp
    then obtain t where t: "t \<in> set (rt_timers (s j))" "tm_fired t" "tm_id t = tm_id v" by (auto elim: rt_step_Run)
    have "u \<in> set (rt_timers (s j))" using u(1) current_timer_Some[OF inv[OF j(1)]] by simp
    then have "t = u" using timer_id_inj[OF inv[OF j(1)] t(1)] t(3) u(2) by simp
    then show ?thesis using debouncedD(5)[OF inv[OF j(1)] t(1,2)] u(4) by simp
  qed
  have silent: "rt_passed (s k) = rt_passed (s i)" if "i \<le> k" "k \<le> j" for k
    using wait[of k] that by (cases "k = i") auto
  have once: "rt_passed (s k) = rt_passed (s i) @ [c]" if "k > j" for k
    using idle_run[OF assms(1), of "Suc j" ?n k] inv acc quiet assms(5) ran j(1) that by simp
  have calls: "mset (rt_called (s k)) \<subseteq># mset (rt_called (s i)) + mset (map snd (rt_ready (s i)))" if "i \<le> k" "k \<le> j" for k
    using acc[of k] acc[of i] silent[OF that] by (metis accounted_def mset_subset_eq_add_left)
  obtain m where m: "Suc j \<le> m" "\<forall>k \<ge> m. rt_ready (s k) = []"
    using call_run[OF assms(1), of "Suc j"] once acc by auto
  have fin: "mset (rt_called (s k)) = mset (rt_called (s i)) + mset (map snd (rt_ready (s i))) + {#c#}" if "m \<le> k" for k
    using acc[of k] acc[of i] once[of k] m that by (simp add: accounted_def)
  show ?thesis
  proof (rule exI, rule conjI[OF _ conjI[OF _ conjI[OF _ conjI]]])
    show "j > i" using j(1) by simp
    show "rt_now (s i) + db_duration (rt_debouncer (s i)) \<le> rt_now (s j)" using late v(3) by simp
    show "\<exists>m > j. \<forall>k \<ge> m. rt_ready (s k) = [] \<and>
       mset (rt_called (s k)) = mset (rt_called (s i)) + mset (map snd (rt_ready (s i))) + {#c#}"
      using m fin by (intro exI[of _ m]) auto
  qed (use silent calls once in blast)+
qed

text \<open>One trigger, and then nothing but time and its timer.\<close>

definition demo_trace :: "nat \<Rightarrow> string event" where
  "demo_trace i = (if i = 0 then Trigger ''a'' else if i = 2 then Fire 0 else if i = 3 then Run 0 else if i = 4 then Call 0 else Tick 10)"

primrec demo_states :: "nat \<Rightarrow> string runtime" where
  "demo_states 0 = new_runtime 0 10"
| "demo_states (Suc i) = (case exec_event (demo_trace i) (demo_states i) of None \<Rightarrow> demo_states i | Some rt \<Rightarrow> rt)"

lemma demo_tail:
  "rt_timers (demo_states (5 + k)) = [] \<and> rt_ready (demo_states (5 + k)) = [] \<and> rt_now (demo_states (5 + k)) = 10 + 10 * int k"
proof (induction k)
  case 0
  have "rt_timers (demo_states 5) = []" "rt_ready (demo_states 5) = []" "rt_now (demo_states 5) = 10" by code_simp+
  then show ?case by simp
next
  case (Suc k)
  have "demo_states (Suc (5 + k)) = (demo_states (5 + k))\<lparr>rt_now := rt_now (demo_states (5 + k)) + 10\<rparr>"
    by (simp only: demo_states.simps) (simp add: demo_trace_def exec_event_def)
  then show ?case unfolding add_Suc_right using Suc by (simp del: demo_states.simps)
qed

lemma demo_step: "rt_step (demo_states i) (demo_trace i) (demo_states (Suc i))"
proof -
  have "exec_event (demo_trace i) (demo_states i) \<noteq> None"
  proof (cases "i < 5")
    case True
    then have "i = 0 \<or> i = 1 \<or> i = 2 \<or> i = 3 \<or> i = 4" by arith
    moreover have "exec_event (demo_trace 0) (demo_states 0) \<noteq> None" "exec_event (demo_trace 1) (demo_states 1) \<noteq> None"
      "exec_event (demo_trace 2) (demo_states 2) \<noteq> None" "exec_event (demo_trace 3) (demo_states 3) \<noteq> None"
      "exec_event (demo_trace 4) (demo_states 4) \<noteq> None" by code_simp+
    ultimately show ?thesis by blast
  next
    case False
    then show ?thesis by (simp add: demo_trace_def exec_event_def)
  qed
  then show ?thesis by (auto intro: exec_event_step)
qed

lemma demo_fair: "fair_run demo_states demo_trace"
  unfolding fair_run_def
proof (intro conjI allI impI)
  show "rt_step (demo_states i) (demo_trace i) (demo_states (Suc i))" for i by (rule demo_step)
  show "\<exists>i. t \<le> rt_now (demo_states i)" for t
    using demo_tail[of "nat t"] by (intro exI[of _ "5 + nat t"]) simp
  fix e :: "string event" and i
  assume e: "timer_event e" and "\<forall>j \<ge> i. \<exists>rt. rt_step (demo_states j) e rt"
  then obtain rt where "rt_step (demo_states (5 + i)) e rt" by (meson le_add2)
  then have False using e demo_tail[of i] by cases simp_all
  then show "\<exists>j \<ge> i. demo_trace j = e" ..
qed

lemma debouncer_runs_last_witness:
  "\<exists>k. rt_called (demo_states k) = [''a''] \<and> rt_ready (demo_states k) = []"
proof -
  have n: "resets_before demo_trace (Suc 0) < 2 ^ 64" by (simp add: resets_before_def demo_trace_def)
  have "\<forall>j > 0. \<not> resets (demo_trace j)" "demo_trace 0 = Trigger ''a''" by (simp_all add: demo_trace_def)
  then obtain m where "\<forall>k \<ge> m. rt_ready (demo_states k) = [] \<and> mset (rt_called (demo_states k)) =
      mset (rt_called (demo_states 0)) + mset (map snd (rt_ready (demo_states 0))) + {#''a''#}"
    using debouncer_runs_last[OF demo_fair _ _ _ n, of 0 10 "''a''"] by (auto simp del: demo_states.simps(2))
  then show ?thesis by (intro exI[of _ m]) (simp add: new_runtime_def del: demo_states.simps(2))
qed

end
