(* ===== verification/Bv_Cycle_Warnings.thy ===== *)
theory Bv_Cycle_Warnings
  imports Bv_Analyzer
begin

text \<open>
  \<open>pkg/analysis/cycle_warnings.go\<close>: the check whether a new dependency would close a cycle, which comes
  before a dependency is added, and the warnings for the cycles that were found.

  The closure \<open>dfs\<close> updates \<open>visited\<close> and \<open>path\<close>; they are its state here. The recursion has fuel, one
  more than the number of issues with dependencies, which is shown to be enough. Confidences are floats
  and are left out of the warnings.
\<close>

section \<open>A new dependency\<close>

definition append_adj :: "string \<Rightarrow> string \<Rightarrow> (string, string list) gomap \<Rightarrow> (string, string list) gomap" where
  "append_adj x y adj = mput x (mget_or [] adj x @ [y]) adj"

definition issue_adj :: "issue \<Rightarrow> (string, string list) gomap \<Rightarrow> (string, string list) gomap" where
  "issue_adj i adj = fold (\<lambda>dep adj. case dep of None \<Rightarrow> adj
     | Some d \<Rightarrow> if \<not> is_blocking (dep_kind d) then adj else append_adj (issue_id i) (dep_on d) adj) (dependencies i) adj"

definition proposed_adj :: "issue list \<Rightarrow> string \<Rightarrow> string \<Rightarrow> (string, string list) gomap" where
  "proposed_adj issues src tgt =
     map (\<lambda>(k, ys). (k, sort ys)) (append_adj src tgt (fold issue_adj issues []))"

type_synonym path_state = "(string, bool) gomap \<times> string list"

fun cycle_dfs :: "nat \<Rightarrow> (string, string list) gomap \<Rightarrow> string \<Rightarrow> string \<Rightarrow> path_state \<Rightarrow> (bool \<times> path_state) option"
  and cycle_loop :: "nat \<Rightarrow> (string, string list) gomap \<Rightarrow> string \<Rightarrow> string list \<Rightarrow> path_state \<Rightarrow> (bool \<times> path_state) option" where
  "cycle_dfs 0 adj src node s = None"
| "cycle_dfs (Suc n) adj src node (visited, path) =
     (if node = src then Some (True, visited, path @ [node])
      else if mget_or False visited node then Some (False, visited, path)
      else case cycle_loop n adj src (mget_or [] adj node) (mput node True visited, path @ [node]) of
        None \<Rightarrow> None
      | Some (found, visited, path) \<Rightarrow>
          if found then Some (True, visited, path) else Some (False, visited, take (length path - 1) path))"
| "cycle_loop n adj src [] s = Some (False, s)"
| "cycle_loop n adj src (x # xs) s =
     (case cycle_dfs n adj src x s of
        None \<Rightarrow> None
      | Some (found, s) \<Rightarrow> if found then Some (True, s) else cycle_loop n adj src xs s)"

definition would_create_cycle :: "issue list \<Rightarrow> string \<Rightarrow> string \<Rightarrow> (bool \<times> string list) option" where
  "would_create_cycle issues src tgt =
     (let adj = proposed_adj issues src tgt in
      case cycle_dfs (length adj + 1) adj src tgt ([], []) of
        None \<Rightarrow> None
      | Some (found, visited, path) \<Rightarrow> if found then Some (True, src # path) else Some (False, []))"

text \<open>The separator is the UTF-8 text of an arrow between blanks.\<close>

definition arrow :: string where
  "arrow = [CHR 0x20, CHR 0xE2, CHR 0x86, CHR 0x92, CHR 0x20]"

definition format_cycle_path :: "string list \<Rightarrow> string" where
  "format_cycle_path cycle = (if length cycle = 0 then [] else join arrow cycle)"

definition check_dependency_addition :: "issue list \<Rightarrow> string \<Rightarrow> string \<Rightarrow> (bool \<times> string list \<times> string) option" where
  "check_dependency_addition issues src tgt =
     (case would_create_cycle issues src tgt of
        None \<Rightarrow> None
      | Some (would, path) \<Rightarrow>
          if would then Some (False, path,
            ''Adding dependency '' @ src @ arrow @ tgt @ '' would create cycle: '' @ format_cycle_path path)
          else Some (True, [], []))"

definition validate_new_dependency :: "issue list \<Rightarrow> string \<Rightarrow> string \<Rightarrow> (bool \<times> string) option" where
  "validate_new_dependency issues src tgt =
     map_option (\<lambda>(can_add, path, warning). (can_add, warning)) (check_dependency_addition issues src tgt)"

section \<open>Warnings for cycles\<close>

record cycle_config =
  cc_max_cycles :: int
  cc_include_self_loops :: bool

definition default_cycle_config :: cycle_config where
  "default_cycle_config = \<lparr>cc_max_cycles = 10, cc_include_self_loops = True\<rparr>"

record cycle_warning =
  cw_target :: string
  cw_summary :: string
  cw_reason :: string
  cw_length :: int
  cw_path :: "string list"
  cw_action :: "(string + issue_command) option"
  cw_related :: "string option"

text \<open>A cycle lists its first issue again at the end.\<close>

definition cycle_warning_of :: "(string, issue) gomap \<Rightarrow> string list \<Rightarrow> cycle_warning" where
  "cycle_warning_of by_id cycle =
     (let n = length cycle - 1 in
      \<lparr>cw_target = cycle ! 0,
       cw_summary =
         (if n = 1 then ''Self-loop: '' @ cycle ! 0 @ '' depends on itself''
          else if n = 2 then ''Direct cycle between '' @ cycle ! 0 @ '' and '' @ cycle ! 1
          else ''Dependency cycle of '' @ show_nat n @ '' issues''),
       cw_reason = ''Cycle path: '' @ format_cycle_path cycle,
       cw_length = int n,
       cw_path = take n cycle,
       cw_action =
         (if n \<ge> 2 then Some (mutation_action (mget_or zero_issue by_id (cycle ! (n - 1))) MutationRemoveDependency
            (Some (mget_or zero_issue by_id (cycle ! 0))) []) else None),
       cw_related = (if n \<ge> 2 then Some (cycle ! 1) else None)\<rparr>)"

fun warn_cycles :: "cycle_config \<Rightarrow> (string, issue) gomap \<Rightarrow> string list list \<Rightarrow> cycle_warning list \<Rightarrow> cycle_warning list" where
  "warn_cycles cfg by_id [] ws = ws"
| "warn_cycles cfg by_id (c # cs) ws =
     (if length c = 2 \<and> c ! 0 = c ! 1 \<and> \<not> cc_include_self_loops cfg then warn_cycles cfg by_id cs ws
      else if int (length ws) \<ge> cc_max_cycles cfg then ws
      else warn_cycles cfg by_id cs (ws @ [cycle_warning_of by_id c]))"

text \<open>How many cycles the analysis is asked for.\<close>

definition cycles_to_store :: "cycle_config \<Rightarrow> issue list \<Rightarrow> int" where
  "cycles_to_store cfg issues =
     (if \<not> cc_include_self_loops cfg \<and> cc_max_cycles cfg < int (length issues) then int (length issues)
      else cc_max_cycles cfg)"

text \<open>\<open>cycles_of\<close> is the analysis: the cycles it stores when asked for so many.\<close>

definition detect_cycle_warnings :: "(int \<Rightarrow> string list list) \<Rightarrow> issue list \<Rightarrow> cycle_config \<Rightarrow> cycle_warning list" where
  "detect_cycle_warnings cycles_of issues cfg =
     (if length issues = 0 \<or> cc_max_cycles cfg \<le> 0 then []
      else warn_cycles cfg (issue_map_of issues) (cycles_of (cycles_to_store cfg issues)) [])"

lemma warn_cycles_filter:
  "warn_cycles cfg by_id cs ws =
     ws @ map (cycle_warning_of by_id) (take (nat (cc_max_cycles cfg) - length ws)
       (filter (\<lambda>c. \<not> (length c = 2 \<and> c ! 0 = c ! 1 \<and> \<not> cc_include_self_loops cfg)) cs))"
proof (induction cs arbitrary: ws)
  case (Cons c cs)
  show ?case
  proof (cases "int (length ws) \<ge> cc_max_cycles cfg")
    case True
    then have "nat (cc_max_cycles cfg) - length ws = 0" by simp
    then show ?thesis using Cons True by simp
  next
    case False
    then have "nat (cc_max_cycles cfg) - length ws = Suc (nat (cc_max_cycles cfg) - length (ws @ [cycle_warning_of by_id c]))"
      by simp
    then show ?thesis using Cons False by simp
  qed
qed simp

section \<open>The graph of dependencies\<close>

definition dep_edge :: "issue list \<Rightarrow> string \<Rightarrow> string \<Rightarrow> bool" where
  "dep_edge issues x y \<longleftrightarrow> (\<exists>i \<in> set issues. issue_id i = x \<and> blocks_dep i y)"

lemma append_adj_set: "set (mget_or [] (append_adj x y adj) k) = set (mget_or [] adj k) \<union> (if k = x then {y} else {})"
  by (simp add: append_adj_def)

lemma append_adj_keys: "set (mkeys (append_adj x y adj)) = insert x (set (mkeys adj))"
  by (simp add: append_adj_def)

lemma issue_adj_set:
  "y \<in> set (mget_or [] (issue_adj i adj) x) \<longleftrightarrow> y \<in> set (mget_or [] adj x) \<or> issue_id i = x \<and> blocks_dep i y"
proof -
  have "y \<in> set (mget_or [] (fold (\<lambda>dep adj. case dep of None \<Rightarrow> adj
       | Some d \<Rightarrow> if \<not> is_blocking (dep_kind d) then adj else append_adj (issue_id i) (dep_on d) adj) ds adj) x) \<longleftrightarrow>
     y \<in> set (mget_or [] adj x) \<or> issue_id i = x \<and> (\<exists>d. Some d \<in> set ds \<and> is_blocking (dep_kind d) \<and> dep_on d = y)" for ds
    by (induction ds arbitrary: adj) (auto simp: append_adj_set split: option.splits if_splits)
  then show ?thesis by (simp add: issue_adj_def blocks_dep_def)
qed

lemma issues_adj_set:
  "y \<in> set (mget_or [] (fold issue_adj issues adj) x) \<longleftrightarrow> y \<in> set (mget_or [] adj x) \<or> dep_edge issues x y"
  by (induction issues arbitrary: adj) (auto simp: issue_adj_set dep_edge_def)

lemma proposed_adj_set: "y \<in> set (mget_or [] (proposed_adj issues src tgt) x) \<longleftrightarrow> dep_edge issues x y \<or> x = src \<and> y = tgt"
  by (auto simp: proposed_adj_def mget_or_map_sort append_adj_set issues_adj_set)

section \<open>The search\<close>

definition seen :: "(string, bool) gomap \<Rightarrow> string set" where
  "seen visited = {k. mget_or False visited k}"

lemma seen_simps [simp]: "seen [] = {}" "seen (mput k True m) = insert k (seen m)"
  by (auto simp: seen_def)

text \<open>A path that the search adds when it finds \<open>src\<close>: from \<open>x\<close> to \<open>src\<close> over new nodes.\<close>

definition closing :: "(string, string list) gomap \<Rightarrow> string \<Rightarrow> string set \<Rightarrow> string \<Rightarrow> string list \<Rightarrow> bool" where
  "closing adj src V x p \<longleftrightarrow> p \<noteq> [] \<and> hd p = x \<and> last p = src \<and> distinct p \<and>
     successively (\<lambda>u v. v \<in> set (mget_or [] adj u)) p \<and> set (butlast p) \<inter> V = {}"

definition search_post :: "(string, string list) gomap \<Rightarrow> string \<Rightarrow> string list \<Rightarrow> path_state \<Rightarrow> bool \<Rightarrow> path_state \<Rightarrow> bool" where
  "search_post adj src xs s found s' \<longleftrightarrow> seen (fst s) \<subseteq> seen (fst s') \<and> src \<notin> seen (fst s') \<and>
     (if found then \<exists>x \<in> set xs. \<exists>p. snd s' = snd s @ p \<and> closing adj src (seen (fst s)) x p
      else snd s' = snd s \<and> set xs \<subseteq> seen (fst s') \<and>
        (\<forall>v \<in> seen (fst s') - seen (fst s). set (mget_or [] adj v) \<subseteq> seen (fst s')))"

definition fuel_ok :: "nat \<Rightarrow> (string, string list) gomap \<Rightarrow> path_state \<Rightarrow> bool" where
  "fuel_ok n adj s \<longleftrightarrow> Suc (card (set (mkeys adj) - seen (fst s))) \<le> n"

lemma fuel_ok_mono: "fuel_ok n adj s \<Longrightarrow> seen (fst s) \<subseteq> seen (fst s') \<Longrightarrow> fuel_ok n adj s'"
  unfolding fuel_ok_def by (meson Diff_mono List.finite_set card_mono finite_Diff le_trans not_less_eq_eq order_refl)

lemma closing_mono: "closing adj src V x p \<Longrightarrow> W \<subseteq> V \<Longrightarrow> closing adj src W x p"
  by (auto simp: closing_def)

lemma closing_Cons:
  assumes "closing adj src (insert x V) y p" "y \<in> set (mget_or [] adj x)" "x \<noteq> src" "x \<notin> V"
  shows "closing adj src V x (x # p)"
proof -
  have "x \<notin> set (butlast p)" "p \<noteq> []" "last p = src" using assms(1) by (auto simp: closing_def)
  then have "x \<notin> set p" using assms(3) by (metis append_butlast_last_id in_set_conv_decomp rotate1.simps(2) set_ConsD set_rotate1)
  then show ?thesis using assms by (cases p) (auto simp: closing_def)
qed

lemma search_correct:
  "fuel_ok n adj s \<Longrightarrow> src \<notin> seen (fst s) \<Longrightarrow>
     \<exists>found s'. cycle_dfs n adj src node s = Some (found, s') \<and> search_post adj src [node] s found s'"
  "xs = [] \<or> fuel_ok n adj s \<Longrightarrow> src \<notin> seen (fst s) \<Longrightarrow>
     \<exists>found s'. cycle_loop n adj src xs s = Some (found, s') \<and> search_post adj src xs s found s'"
proof (induction n adj src node s and n adj src xs s rule: cycle_dfs_cycle_loop.induct)
  case (1 adj src node s)
  then show ?case by (simp add: fuel_ok_def)
next
  case (2 n adj src node visited path)
  show ?case
  proof (cases "node = src \<or> mget_or False visited node")
    case True
    then show ?thesis using "2.prems" by (auto simp: search_post_def closing_def seen_def)
  next
    case False
    then have new: "node \<noteq> src" "node \<notin> seen visited" by (auto simp: seen_def)
    let ?s = "(mput node True visited, path @ [node])"
    have "mget_or [] adj node = [] \<or> fuel_ok n adj ?s"
    proof (cases "node \<in> set (mkeys adj)")
      case True
      then have split: "set (mkeys adj) - seen visited = insert node (set (mkeys adj) - insert node (seen visited))"
        using new by auto
      have "card (set (mkeys adj) - seen visited) = Suc (card (set (mkeys adj) - insert node (seen visited)))"
        unfolding split by (rule card_insert_disjoint) auto
      then show ?thesis using "2.prems"(1) by (simp add: fuel_ok_def)
    next
      case False
      then have "mget adj node = None" by (simp add: mget_None_iff)
      then show ?thesis by (simp add: mget_or_def)
    qed
    then obtain found vis path' where r: "cycle_loop n adj src (mget_or [] adj node) ?s = Some (found, vis, path')"
      "search_post adj src (mget_or [] adj node) ?s found (vis, path')"
      using "2.IH" False "2.prems"(2) by fastforce
    show ?thesis
    proof (cases found)
      case True
      then obtain y p where p: "y \<in> set (mget_or [] adj node)" "path' = path @ node # p"
        "closing adj src (insert node (seen visited)) y p" using r(2) by (auto simp: search_post_def)
      then have "closing adj src (seen visited) node (node # p)" using closing_Cons[OF p(3,1) new] by simp
      moreover have "cycle_dfs (Suc n) adj src node (visited, path) = Some (True, vis, path')"
        using False r(1) True by simp
      moreover have "seen visited \<subseteq> seen vis" "src \<notin> seen vis" using r(2) by (auto simp: search_post_def)
      ultimately show ?thesis using p(2) unfolding search_post_def by auto
    next
      case f: False
      have post: "seen visited \<subseteq> seen vis" "node \<in> seen vis" "src \<notin> seen vis" "path' = path @ [node]"
        "set (mget_or [] adj node) \<subseteq> seen vis"
        "\<forall>v \<in> seen vis - insert node (seen visited). set (mget_or [] adj v) \<subseteq> seen vis"
        using r(2) f by (auto simp: search_post_def)
      have "cycle_dfs (Suc n) adj src node (visited, path) = Some (False, vis, path)"
        using False r(1) f post(4) by simp
      moreover have "set (mget_or [] adj v) \<subseteq> seen vis" if "v \<in> seen vis - seen visited" for v
        using post(5,6) that by (cases "v = node") blast+
      then have "search_post adj src [node] (visited, path) False (vis, path)"
        using post(1-3) by (simp add: search_post_def)
      ultimately show ?thesis by blast
    qed
  qed
next
  case (3 n adj src s)
  then have "cycle_loop n adj src [] s = Some (False, s) \<and> search_post adj src [] s False s"
    by (simp add: search_post_def)
  then show ?case by blast
next
  case (4 n adj src x xs s)
  then obtain found s1 where one: "cycle_dfs n adj src x s = Some (found, s1)" "search_post adj src [x] s found s1" by auto
  show ?case
  proof (cases found)
    case True
    then have "search_post adj src (x # xs) s True s1" using one(2) by (simp add: search_post_def)
    then show ?thesis using one(1) True by (intro exI[of _ True] exI[of _ s1]) simp
  next
    case False
    have sub: "seen (fst s) \<subseteq> seen (fst s1)" "src \<notin> seen (fst s1)" "snd s1 = snd s" using one False by (auto simp: search_post_def)
    then have "xs = [] \<or> fuel_ok n adj s1" using "4.prems"(1) fuel_ok_mono by blast
    then have "\<exists>found2 s2. cycle_loop n adj src xs s1 = Some (found2, s2) \<and> search_post adj src xs s1 found2 s2"
      by (rule "4.IH"(2)[OF one(1) refl False _ sub(2)])
    then obtain found2 s2 where two: "cycle_loop n adj src xs s1 = Some (found2, s2)" "search_post adj src xs s1 found2 s2"
      by (elim exE conjE)
    have "search_post adj src (x # xs) s found2 s2"
    proof (cases found2)
      case True
      then show ?thesis using two(2) sub closing_mono[OF _ sub(1)] unfolding search_post_def by fastforce
    next
      case f: False
      have post: "seen (fst s1) \<subseteq> seen (fst s2)" "src \<notin> seen (fst s2)" "snd s2 = snd s1" "set xs \<subseteq> seen (fst s2)"
        "\<forall>v \<in> seen (fst s2) - seen (fst s1). set (mget_or [] adj v) \<subseteq> seen (fst s2)" "x \<in> seen (fst s1)"
        "\<forall>v \<in> seen (fst s1) - seen (fst s). set (mget_or [] adj v) \<subseteq> seen (fst s1)"
        using two(2) one(2) f False by (simp_all add: search_post_def)
      have "set (mget_or [] adj v) \<subseteq> seen (fst s2)" if "v \<in> seen (fst s2) - seen (fst s)" for v
        using post(1,5,7) that by (cases "v \<in> seen (fst s1)") blast+
      then show ?thesis using post sub f by (auto simp: search_post_def)
    qed
    then show ?thesis using one(1) two(1) False by simp
  qed
qed

section \<open>Properties\<close>

lemma successively_rtranclp: "successively E p \<Longrightarrow> p \<noteq> [] \<Longrightarrow> E\<^sup>*\<^sup>* (hd p) (last p)"
  by (induction p rule: induct_list012) (auto intro: converse_rtranclp_into_rtranclp)

lemma closed_reach: "E\<^sup>*\<^sup>* x y \<Longrightarrow> x \<in> V \<Longrightarrow> \<forall>v \<in> V. \<forall>w. E v w \<longrightarrow> w \<in> V \<Longrightarrow> y \<in> V"
  by (induction rule: rtranclp_induct) auto

lemma would_create_cycle_search:
  "\<exists>found path. would_create_cycle issues src tgt = Some (found, path) \<and>
     (if found then \<exists>p. path = src # p \<and> p \<noteq> [] \<and> hd p = tgt \<and> last p = src \<and> distinct p \<and> successively (dep_edge issues) p
      else path = [] \<and> \<not> (dep_edge issues)\<^sup>*\<^sup>* tgt src)"
proof -
  let ?adj = "proposed_adj issues src tgt"
  have "card (set (mkeys ?adj)) \<le> length ?adj" by (metis card_length length_map mkeys_def)
  then have "fuel_ok (length ?adj + 1) ?adj ([], [])" by (simp add: fuel_ok_def)
  then obtain found vis path where r: "cycle_dfs (length ?adj + 1) ?adj src tgt ([], []) = Some (found, vis, path)"
    "search_post ?adj src [tgt] ([], []) found (vis, path)"
    using search_correct(1)[of "length ?adj + 1" ?adj "([], [])" src tgt] by auto
  show ?thesis
  proof (cases found)
    case True
    then have p: "closing ?adj src {} tgt path" using r(2) by (simp add: search_post_def)
    have "u \<noteq> src" if "u \<in> set (butlast path)" for u
      using p that by (metis append_butlast_last_id closing_def distinct_butlast not_distinct_conv_prefix)
    then have "successively (dep_edge issues) path"
      using p unfolding closing_def proposed_adj_set successively_conv_nth
      by (metis (no_types, lifting) Suc_lessD Suc_less_eq2 diff_Suc_1 length_butlast nth_butlast nth_mem)
    moreover have "would_create_cycle issues src tgt = Some (True, src # path)"
      unfolding would_create_cycle_def Let_def r(1) using True by simp
    ultimately show ?thesis using p unfolding closing_def by (intro exI[of _ True] exI[of _ "src # path"]) simp
  next
    case False
    have post: "tgt \<in> seen vis" "src \<notin> seen vis" "\<forall>v \<in> seen vis. set (mget_or [] ?adj v) \<subseteq> seen vis"
      using r(2) False by (simp_all add: search_post_def)
    then have "\<forall>v \<in> seen vis. \<forall>w. dep_edge issues v w \<longrightarrow> w \<in> seen vis" using proposed_adj_set by blast
    then have "\<not> (dep_edge issues)\<^sup>*\<^sup>* tgt src" using closed_reach[of "dep_edge issues" tgt src "seen vis"] post(1,2) by blast
    moreover have "would_create_cycle issues src tgt = Some (False, [])"
      unfolding would_create_cycle_def Let_def r(1) using False by simp
    ultimately show ?thesis by (intro exI[of _ False] exI[of _ "[]"]) simp
  qed
qed

text \<open>C29: The check before a dependency is added always returns, and it is exact: it reports a cycle if and only
  if the target already depends on the source, directly or not, which for a graph without cycles means
  that the new dependency would close one. The path it shows is a simple cycle of existing
  dependencies closed by the new one, and the warning is empty exactly when the dependency may be added.\<close>

theorem would_create_cycle_correct:
  "\<exists>found path. would_create_cycle issues src tgt = Some (found, path) \<and>
     (found \<longleftrightarrow> (dep_edge issues)\<^sup>*\<^sup>* tgt src) \<and>
     (acyclicP (dep_edge issues) \<longrightarrow> (found \<longleftrightarrow> \<not> acyclicP (\<lambda>x y. dep_edge issues x y \<or> x = src \<and> y = tgt))) \<and>
     (found \<longrightarrow> (\<exists>p. path = src # p \<and> p \<noteq> [] \<and> hd p = tgt \<and> last p = src \<and> distinct p \<and> successively (dep_edge issues) p)) \<and>
     (\<exists>warning. validate_new_dependency issues src tgt = Some (\<not> found, warning) \<and> (warning = [] \<longleftrightarrow> \<not> found))"
proof -
  obtain found path where r: "would_create_cycle issues src tgt = Some (found, path)"
    "if found then \<exists>p. path = src # p \<and> p \<noteq> [] \<and> hd p = tgt \<and> last p = src \<and> distinct p \<and> successively (dep_edge issues) p
      else path = [] \<and> \<not> (dep_edge issues)\<^sup>*\<^sup>* tgt src"
    using would_create_cycle_search by blast
  have reach: "found \<longleftrightarrow> (dep_edge issues)\<^sup>*\<^sup>* tgt src"
    using r(2) successively_rtranclp by (cases found) fastforce+
  have set: "{(x, y). dep_edge issues x y \<or> x = src \<and> y = tgt} = insert (src, tgt) {(x, y). dep_edge issues x y}" by auto
  have star: "(tgt, src) \<in> {(x, y). dep_edge issues x y}\<^sup>* \<longleftrightarrow> (dep_edge issues)\<^sup>*\<^sup>* tgt src"
    by (simp add: rtranclp_rtrancl_eq)
  have "acyclicP (dep_edge issues) \<longrightarrow> (found \<longleftrightarrow> \<not> acyclicP (\<lambda>x y. dep_edge issues x y \<or> x = src \<and> y = tgt))"
    unfolding set acyclic_insert star reach by blast
  moreover have "\<exists>warning. validate_new_dependency issues src tgt = Some (\<not> found, warning) \<and> (warning = [] \<longleftrightarrow> \<not> found)"
    using r(1) by (cases found) (simp_all add: validate_new_dependency_def check_dependency_addition_def)
  ultimately show ?thesis using r reach by (intro exI[of _ found] exI[of _ path]) simp
qed

text \<open>In \<open>b \<rightarrow> c\<close>, adding \<open>c \<rightarrow> b\<close> is refused with the path that closes the cycle.\<close>

definition cw_issues :: "issue list" where
  "cw_issues =
     [zero_issue\<lparr>issue_id := ''a''\<rparr>,
      zero_issue\<lparr>issue_id := ''b'', dependencies := [Some \<lparr>dep_issue_id = ''b'', dep_on = ''c'', dep_kind = DepBlocks, dep_created_at = 0, dep_created_by = []\<rparr>]\<rparr>,
      zero_issue\<lparr>issue_id := ''c''\<rparr>]"

theorem would_create_cycle_correct_witness:
  "(dep_edge cw_issues)\<^sup>*\<^sup>* ''b'' ''c'' \<and> would_create_cycle cw_issues ''c'' ''b'' = Some (True, [''c'', ''b'', ''c'']) \<and>
   \<not> (dep_edge cw_issues)\<^sup>*\<^sup>* ''a'' ''c'' \<and> would_create_cycle cw_issues ''c'' ''a'' = Some (False, [])"
proof -
  have eval: "would_create_cycle cw_issues ''c'' ''b'' = Some (True, [''c'', ''b'', ''c''])"
    "would_create_cycle cw_issues ''c'' ''a'' = Some (False, [])"
    by code_simp+
  then show ?thesis
    using would_create_cycle_correct[of cw_issues "''c''" "''b''"] would_create_cycle_correct[of cw_issues "''c''" "''a''"]
    by simp
qed

end
