(* ===== verification/Bv_Tree.thy ===== *)
theory Bv_Tree
  imports Bv_Analyzer
begin

text \<open>
  \<open>pkg/ui/tree.go\<close>, first part: how the tree view arranges the issues under their parents.

  A node is a Go pointer that lives in exactly one place of the tree, so the heap of nodes is the forest
  itself: a node carries its address, the order in which it was allocated, and \<open>Parent\<close> and the entries
  of \<open>issueMap\<close> are addresses. Two pointers are equal when their addresses are.

  \<open>build_node\<close> recurses along the children of an issue and stops at an issue that is already on the path.
  Its fuel bounds the length of the path; one more than the number of issues is shown to be enough.
\<close>

section \<open>Nodes\<close>

datatype tree_node = TreeNode (tn_addr: nat) (tn_issue: issue) (tn_depth: nat) (tn_parent: "nat option")
  (tn_expanded: bool) (tn_children: "tree_node list")

definition issue_type_order :: "issue_type \<Rightarrow> nat" where
  "issue_type_order t =
     (if t = TypeEpic then 0 else if t = ''feature'' then 1 else if t = ''task'' then 2
      else if t = ''bug'' then 3 else if t = ''chore'' then 4 else 5)"

definition node_less :: "tree_node \<Rightarrow> tree_node \<Rightarrow> bool" where
  "node_less x y =
     (let a = tn_issue x; b = tn_issue y in
      if priority a \<noteq> priority b then priority a < priority b
      else if issue_type_order (kind a) \<noteq> issue_type_order (kind b)
        then issue_type_order (kind a) < issue_type_order (kind b)
      else created_at a < created_at b)"

definition sort_nodes :: "tree_node list \<Rightarrow> tree_node list" where
  "sort_nodes ns = (if length ns \<le> 1 then ns else sort_by node_less ns)"

section \<open>The index of children\<close>

record tree_index =
  ix_children :: "(string, issue list) gomap"
  ix_has_parent :: "(string, bool) gomap"
  ix_by_id :: "(string, issue) gomap"

definition parent_of_dep :: "dependency option \<Rightarrow> string option" where
  "parent_of_dep dep = (case dep of None \<Rightarrow> None
     | Some d \<Rightarrow> if dep_kind d = DepParentChild then Some (dep_on d) else None)"

definition index_dep :: "issue \<Rightarrow> dependency option \<Rightarrow> tree_index \<Rightarrow> tree_index" where
  "index_dep i dep ix = (case parent_of_dep dep of None \<Rightarrow> ix
     | Some p \<Rightarrow> ix\<lparr>ix_children := mput p (mget_or [] (ix_children ix) p @ [i]) (ix_children ix),
                    ix_has_parent := mput (issue_id i) True (ix_has_parent ix)\<rparr>)"

definition index_issue :: "issue \<Rightarrow> tree_index \<Rightarrow> tree_index" where
  "index_issue i ix = fold (index_dep i) (dependencies i) (ix\<lparr>ix_by_id := mput (issue_id i) i (ix_by_id ix)\<rparr>)"

definition tree_index_of :: "issue list \<Rightarrow> tree_index" where
  "tree_index_of issues = fold index_issue issues \<lparr>ix_children = [], ix_has_parent = [], ix_by_id = []\<rparr>"

definition has_valid_parent :: "tree_index \<Rightarrow> issue \<Rightarrow> bool" where
  "has_valid_parent ix i =
     list_ex (\<lambda>dep. case parent_of_dep dep of None \<Rightarrow> False | Some p \<Rightarrow> mget (ix_by_id ix) p \<noteq> None) (dependencies i)"

definition root_issues :: "tree_index \<Rightarrow> issue list \<Rightarrow> issue list" where
  "root_issues ix issues =
     filter (\<lambda>i. if \<not> mget_or False (ix_has_parent ix) (issue_id i) then True else \<not> has_valid_parent ix i) issues"

section \<open>Building the tree\<close>

record build_state =
  bs_visited :: "(string, bool) gomap"
  bs_next :: nat
  bs_issue_map :: "(string, nat) gomap"

fun build_node :: "nat \<Rightarrow> (string, issue list) gomap \<Rightarrow> issue \<Rightarrow> nat \<Rightarrow> nat option \<Rightarrow> build_state \<Rightarrow>
    (tree_node \<times> build_state) option"
  and build_children :: "nat \<Rightarrow> (string, issue list) gomap \<Rightarrow> issue list \<Rightarrow> nat \<Rightarrow> nat option \<Rightarrow> build_state \<Rightarrow>
    (tree_node list \<times> build_state) option" where
  "build_node 0 children i depth parent st = None"
| "build_node (Suc n) children i depth parent st =
     (let a = bs_next st; st = st\<lparr>bs_next := a + 1\<rparr> in
      if mget_or False (bs_visited st) (issue_id i)
      then Some (TreeNode a i depth parent False [], st)
      else
        let st = st\<lparr>bs_visited := mput (issue_id i) True (bs_visited st),
                    bs_issue_map := mput (issue_id i) a (bs_issue_map st)\<rparr> in
        case build_children n children (mget_or [] children (issue_id i)) (depth + 1) (Some a) st of
          None \<Rightarrow> None
        | Some (ns, st) \<Rightarrow>
            Some (TreeNode a i depth parent (depth < 2) (sort_nodes ns),
                  st\<lparr>bs_visited := mput (issue_id i) False (bs_visited st)\<rparr>))"
| "build_children n children [] depth parent st = Some ([], st)"
| "build_children n children (c # cs) depth parent st =
     (case build_node n children c depth parent st of
        None \<Rightarrow> None
      | Some (x, st) \<Rightarrow>
        case build_children n children cs depth parent st of
          None \<Rightarrow> None
        | Some (xs, st) \<Rightarrow> Some (x # xs, st))"

text \<open>The least of the parents of an issue that exist.\<close>

definition take_parent :: "tree_index \<Rightarrow> dependency option \<Rightarrow> string option \<Rightarrow> string option" where
  "take_parent ix dep best =
     (case parent_of_dep dep of None \<Rightarrow> best
      | Some p \<Rightarrow> if mget (ix_by_id ix) p = None then best
          else (case best of None \<Rightarrow> Some p | Some b \<Rightarrow> if p < b then Some p else best))"

definition least_parent :: "tree_index \<Rightarrow> issue \<Rightarrow> string option" where
  "least_parent ix i = fold (take_parent ix) (dependencies i) None"

text \<open>The climb to a member of a cycle of parents, with the ids seen so far.\<close>

fun climb :: "nat \<Rightarrow> tree_index \<Rightarrow> (string, bool) gomap \<Rightarrow> string \<Rightarrow> string option" where
  "climb 0 ix on_path iid = None"
| "climb (Suc n) ix on_path iid =
     (if mget_or False on_path iid then Some iid
      else case mget (ix_by_id ix) iid of None \<Rightarrow> Some iid
      | Some i \<Rightarrow>
        case least_parent ix i of None \<Rightarrow> Some iid
        | Some p \<Rightarrow> climb n ix (mput iid True on_path) p)"

fun build_remaining :: "nat \<Rightarrow> tree_index \<Rightarrow> string list \<Rightarrow> tree_node list \<Rightarrow> build_state \<Rightarrow>
    (tree_node list \<times> build_state) option" where
  "build_remaining n ix [] roots st = Some (roots, st)"
| "build_remaining n ix (iid # ids) roots st =
     (if mget (bs_issue_map st) iid \<noteq> None then build_remaining n ix ids roots st
      else case climb n ix [] iid of
        None \<Rightarrow> None
      | Some c \<Rightarrow>
        case mget (ix_by_id ix) c of
          None \<Rightarrow> build_remaining n ix ids roots st
        | Some i \<Rightarrow>
          case build_node n (ix_children ix) i 0 None st of
            None \<Rightarrow> None
          | Some (x, st) \<Rightarrow> build_remaining n ix ids (roots @ [x]) st)"

definition build_issue_tree_nodes :: "issue list \<Rightarrow> (tree_node list \<times> (string, nat) gomap) option" where
  "build_issue_tree_nodes issues =
     (if length issues = 0 then Some ([], [])
      else
        let ix = tree_index_of issues; n = length (ix_by_id ix) + 1 in
        case build_children n (ix_children ix) (root_issues ix issues) 0 None
            \<lparr>bs_visited = [], bs_next = 0, bs_issue_map = []\<rparr> of
          None \<Rightarrow> None
        | Some (roots, st) \<Rightarrow>
          let remaining = (if length (bs_issue_map st) < length (ix_by_id ix)
                then filter (\<lambda>iid. mget (bs_issue_map st) iid = None) (mkeys (ix_by_id ix)) else []) in
          case build_remaining n ix (sort remaining) roots st of
            None \<Rightarrow> None
          | Some (roots, st) \<Rightarrow> Some (sort_nodes roots, bs_issue_map st))"

section \<open>The index\<close>

text \<open>The children of an issue, once for every record that names it as the parent.\<close>

definition child_issues :: "issue list \<Rightarrow> string \<Rightarrow> issue list" where
  "child_issues issues p =
     concat (map (\<lambda>i. map (\<lambda>dep. i) (filter (\<lambda>dep. parent_of_dep dep = Some p) (dependencies i))) issues)"

definition valid_parents :: "issue list \<Rightarrow> issue \<Rightarrow> string set" where
  "valid_parents issues i = {p \<in> issue_id ` set issues. \<exists>dep \<in> set (dependencies i). parent_of_dep dep = Some p}"

definition child_edge :: "issue list \<Rightarrow> string \<Rightarrow> string \<Rightarrow> bool" where
  "child_edge issues p c \<longleftrightarrow> (\<exists>i \<in> set issues. issue_id i = c \<and> p \<in> valid_parents issues i)"

lemma set_child_issues: "i \<in> set (child_issues issues p) \<longleftrightarrow>
    i \<in> set issues \<and> (\<exists>dep \<in> set (dependencies i). parent_of_dep dep = Some p)"
  by (auto simp: child_issues_def)

lemma index_deps:
  "mget_or [] (ix_children (fold (index_dep i) ds ix)) p =
      mget_or [] (ix_children ix) p @ map (\<lambda>dep. i) (filter (\<lambda>dep. parent_of_dep dep = Some p) ds) \<and>
    mget_or False (ix_has_parent (fold (index_dep i) ds ix)) k =
      (mget_or False (ix_has_parent ix) k \<or> k = issue_id i \<and> (\<exists>dep \<in> set ds. parent_of_dep dep \<noteq> None)) \<and>
    ix_by_id (fold (index_dep i) ds ix) = ix_by_id ix"
proof (induction ds arbitrary: ix)
  case (Cons dep ds)
  show ?case using Cons.IH[of "index_dep i dep ix"] by (auto simp: index_dep_def split: option.splits)
qed simp

lemma fold_index_issues:
  "mget_or [] (ix_children (fold index_issue issues ix)) p = mget_or [] (ix_children ix) p @ child_issues issues p"
  "mget_or False (ix_has_parent (fold index_issue issues ix)) k \<longleftrightarrow> mget_or False (ix_has_parent ix) k \<or>
     (\<exists>i \<in> set issues. issue_id i = k \<and> (\<exists>dep \<in> set (dependencies i). parent_of_dep dep \<noteq> None))"
  "ix_by_id (fold index_issue issues ix) = fold (\<lambda>i m. mput (issue_id i) i m) issues (ix_by_id ix)"
  by (induction issues arbitrary: ix) (auto simp: index_issue_def index_deps child_issues_def)

lemma tree_index_simps:
  "mget_or [] (ix_children (tree_index_of issues)) p = child_issues issues p"
  "mget_or False (ix_has_parent (tree_index_of issues)) k \<longleftrightarrow>
     (\<exists>i \<in> set issues. issue_id i = k \<and> (\<exists>dep \<in> set (dependencies i). parent_of_dep dep \<noteq> None))"
  "ix_by_id (tree_index_of issues) = issue_map_of issues"
  by (simp_all add: tree_index_of_def fold_index_issues issue_map_of_def)

lemma issue_map_of_keys: "set (mkeys (issue_map_of issues)) = issue_id ` set issues"
  by (auto simp: mkeys_ex issue_map_of_get find_None_iff simp flip: not_None_eq)

lemma valid_parent_iff: "has_valid_parent (tree_index_of issues) i \<longleftrightarrow> valid_parents issues i \<noteq> {}"
  by (auto simp: has_valid_parent_def list_ex_iff valid_parents_def tree_index_simps mkeys_ex
      simp flip: issue_map_of_keys split: option.splits)

lemma root_issues_eq: "root_issues (tree_index_of issues) issues = filter (\<lambda>i. valid_parents issues i = {}) issues"
  unfolding root_issues_def
proof (rule filter_cong[OF refl])
  fix i assume "i \<in> set issues"
  then show "(if \<not> mget_or False (ix_has_parent (tree_index_of issues)) (issue_id i) then True
      else \<not> has_valid_parent (tree_index_of issues) i) = (valid_parents issues i = {})"
    by (auto simp: tree_index_simps valid_parent_iff) (auto simp: valid_parents_def)
qed

section \<open>What a built tree looks like\<close>

fun tree_nodes :: "tree_node \<Rightarrow> tree_node list" where
  "tree_nodes (TreeNode a i d p e cs) = TreeNode a i d p e cs # concat (map tree_nodes cs)"

definition forest_nodes :: "tree_node list \<Rightarrow> tree_node list" where
  "forest_nodes ts = concat (map tree_nodes ts)"

lemma forest_nodes_simps [simp]:
  "forest_nodes [] = []" "forest_nodes (t # ts) = tree_nodes t @ forest_nodes ts"
  "forest_nodes (ts @ us) = forest_nodes ts @ forest_nodes us"
  by (simp_all add: forest_nodes_def)

declare tree_nodes.simps [simp del]

lemma tree_nodes_eq [simp]: "tree_nodes (TreeNode a i d p e cs) = TreeNode a i d p e cs # forest_nodes cs"
  by (simp add: forest_nodes_def tree_nodes.simps)

lemma mset_forest_nodes:
  assumes "mset ts = mset us"
  shows "mset (forest_nodes ts) = mset (forest_nodes us)"
proof -
  have "mset (forest_nodes ts) = (\<Sum>t \<in># mset ts. mset (tree_nodes t))" for ts
    by (induction ts) simp_all
  then show ?thesis using assms by simp
qed

interpretation node_order: less_contract node_less
proof -
  define key where "key n = (priority (tn_issue n), issue_type_order (kind (tn_issue n)), created_at (tn_issue n))" for n
  have "node_less x y \<longleftrightarrow> (fst (key x) < fst (key y) \<or> fst (key x) = fst (key y) \<and>
      (fst (snd (key x)) < fst (snd (key y)) \<or> fst (snd (key x)) = fst (snd (key y)) \<and> snd (snd (key x)) < snd (snd (key y))))" for x y
    by (auto simp: node_less_def key_def Let_def)
  then show "less_contract node_less" by unfold_locales auto
qed

lemma sort_nodes_facts [simp]:
  "mset (sort_nodes ns) = mset ns" "set (sort_nodes ns) = set ns"
  "sorted_wrt (\<lambda>x y. \<not> node_less y x) (sort_nodes ns)"
  by (auto simp: sort_nodes_def node_order.sort_by_sorted) (cases ns; simp)

text \<open>
  \<open>built ch V d p t\<close>: the tree \<open>t\<close> at depth \<open>d\<close> under the address \<open>p\<close>, on a path of the ids \<open>V\<close>. An issue of
  the path is repeated as a collapsed leaf; any other has all its children, in order.
\<close>

fun built :: "(string \<Rightarrow> issue list) \<Rightarrow> string set \<Rightarrow> nat \<Rightarrow> nat option \<Rightarrow> tree_node \<Rightarrow> bool" where
  "built ch V d p (TreeNode a i d' p' e cs) \<longleftrightarrow> d' = d \<and> p' = p \<and>
     (if issue_id i \<in> V then \<not> e \<and> cs = []
      else e = (d < 2) \<and> mset (map tn_issue cs) = mset (ch (issue_id i)) \<and>
        sorted_wrt (\<lambda>x y. \<not> node_less y x) cs \<and>
        (\<forall>c \<in> set cs. built ch (insert (issue_id i) V) (d + 1) (Some a) c))"

section \<open>Reachable issues\<close>

definition within :: "('a \<Rightarrow> 'a \<Rightarrow> bool) \<Rightarrow> 'a set \<Rightarrow> 'a \<Rightarrow> 'a \<Rightarrow> bool" where
  "within E V u v \<longleftrightarrow> E u v \<and> v \<notin> V"

lemma within_step:
  "(within E V)\<^sup>*\<^sup>* x y \<longleftrightarrow> y = x \<or> (\<exists>c. E x c \<and> c \<notin> insert x V \<and> (within E (insert x V))\<^sup>*\<^sup>* c y)"
proof
  assume "(within E V)\<^sup>*\<^sup>* x y"
  then show "y = x \<or> (\<exists>c. E x c \<and> c \<notin> insert x V \<and> (within E (insert x V))\<^sup>*\<^sup>* c y)"
  proof (induction rule: rtranclp_induct)
    case (step y z)
    show ?case
    proof (cases "z = x")
      case False
      then have z: "E y z" "z \<notin> insert x V" using step.hyps(2) by (auto simp: within_def)
      from step.IH show ?thesis
      proof
        assume "\<exists>c. E x c \<and> c \<notin> insert x V \<and> (within E (insert x V))\<^sup>*\<^sup>* c y"
        then show ?thesis using z by (metis rtranclp.rtrancl_into_rtrancl within_def)
      qed (use z in blast)
    qed simp
  qed simp
next
  assume r: "y = x \<or> (\<exists>c. E x c \<and> c \<notin> insert x V \<and> (within E (insert x V))\<^sup>*\<^sup>* c y)"
  have "(within E V)\<^sup>*\<^sup>* c y" if "(within E (insert x V))\<^sup>*\<^sup>* c y" for c
    using that by (rule rtranclp_mono[THEN predicate2D, rotated]) (auto simp: within_def)
  then show "(within E V)\<^sup>*\<^sup>* x y" using r by (auto simp: within_def intro: converse_rtranclp_into_rtranclp)
qed

section \<open>Building is correct\<close>

definition on_path :: "build_state \<Rightarrow> string set" where
  "on_path st = {k. mget_or False (bs_visited st) k}"

definition edge_of :: "(string, issue list) gomap \<Rightarrow> string \<Rightarrow> string \<Rightarrow> bool" where
  "edge_of children p c \<longleftrightarrow> (\<exists>i \<in> set (mget_or [] children p). issue_id i = c)"

definition covered :: "(string, issue list) gomap \<Rightarrow> string set \<Rightarrow> issue list \<Rightarrow> string \<Rightarrow> bool" where
  "covered children V cs k \<longleftrightarrow>
     (\<exists>c \<in> set cs. issue_id c \<notin> V \<and> (within (edge_of children) V)\<^sup>*\<^sup>* (issue_id c) k)"

definition map_post :: "(string, issue list) gomap \<Rightarrow> string set \<Rightarrow> issue list \<Rightarrow> tree_node list \<Rightarrow>
    (string, nat) gomap \<Rightarrow> (string, nat) gomap \<Rightarrow> bool" where
  "map_post children V cs ts m m' \<longleftrightarrow>
     (\<forall>k. if covered children V cs k
       then \<exists>n \<in> set (forest_nodes ts). issue_id (tn_issue n) = k \<and> mget m' k = Some (tn_addr n)
       else mget m' k = mget m k)"

definition build_post :: "(string, issue list) gomap \<Rightarrow> issue list \<Rightarrow> nat \<Rightarrow> nat option \<Rightarrow> build_state \<Rightarrow>
    tree_node list \<Rightarrow> build_state \<Rightarrow> bool" where
  "build_post children cs depth parent st ts st' \<longleftrightarrow>
     on_path st' = on_path st \<and> map tn_issue ts = cs \<and>
     (\<forall>t \<in> set ts. built (mget_or [] children) (on_path st) depth parent t) \<and>
     bs_next st \<le> bs_next st' \<and> distinct (map tn_addr (forest_nodes ts)) \<and>
     tn_addr ` set (forest_nodes ts) = {bs_next st..<bs_next st'} \<and>
     (gomap_ok (bs_issue_map st) \<longrightarrow> gomap_ok (bs_issue_map st')) \<and>
     map_post children (on_path st) cs ts (bs_issue_map st) (bs_issue_map st')"

definition path_fuel :: "nat \<Rightarrow> string set \<Rightarrow> build_state \<Rightarrow> bool" where
  "path_fuel n U st \<longleftrightarrow> Suc (card (U - on_path st)) \<le> n"

lemma on_path_simps [simp]:
  "on_path (st\<lparr>bs_next := a\<rparr>) = on_path st" "on_path (st\<lparr>bs_issue_map := m\<rparr>) = on_path st"
  "on_path (st\<lparr>bs_visited := mput k True (bs_visited st)\<rparr>) = insert k (on_path st)"
  "on_path (st\<lparr>bs_visited := mput k False (bs_visited st)\<rparr>) = on_path st - {k}"
  by (auto simp: on_path_def)

lemma covered_Cons: "covered children V (c # cs) k \<longleftrightarrow> covered children V [c] k \<or> covered children V cs k"
  by (auto simp: covered_def)

lemma covered_step:
  "issue_id i \<notin> V \<Longrightarrow> covered children V [i] k \<longleftrightarrow>
     k = issue_id i \<or> covered children (insert (issue_id i) V) (mget_or [] children (issue_id i)) k"
  unfolding covered_def by (simp add: within_step[of "edge_of children" V "issue_id i"]) (auto simp: edge_of_def)

lemma build_post_repeated:
  assumes "issue_id i \<in> on_path st"
  shows "build_post children [i] depth parent st [TreeNode (bs_next st) i depth parent False []]
    (st\<lparr>bs_next := bs_next st + 1\<rparr>)"
  using assms by (auto simp: build_post_def map_post_def covered_def)

lemma map_post_append:
  assumes x: "map_post children V [c] [x] m m1" and xs: "map_post children V cs xs m1 m2"
  shows "map_post children V (c # cs) (x # xs) m m2"
  unfolding map_post_def
proof
  fix k
  have cov: "covered children V (c # cs) k \<longleftrightarrow> covered children V [c] k \<or> covered children V cs k"
    by (rule covered_Cons)
  show "if covered children V (c # cs) k
      then \<exists>n \<in> set (forest_nodes (x # xs)). issue_id (tn_issue n) = k \<and> mget m2 k = Some (tn_addr n)
      else mget m2 k = mget m k"
  proof (cases "covered children V cs k")
    case True
    then have "\<exists>n \<in> set (forest_nodes xs). issue_id (tn_issue n) = k \<and> mget m2 k = Some (tn_addr n)"
      using xs unfolding map_post_def by metis
    then show ?thesis using True unfolding cov by auto
  next
    case False
    then have "mget m2 k = mget m1 k" using xs unfolding map_post_def by metis
    moreover have "if covered children V [c] k
      then \<exists>n \<in> set (forest_nodes [x]). issue_id (tn_issue n) = k \<and> mget m1 k = Some (tn_addr n)
      else mget m1 k = mget m k" using x unfolding map_post_def by blast
    ultimately show ?thesis using False unfolding cov by (auto split: if_splits)
  qed
qed

lemma map_post_enter:
  assumes new: "issue_id i \<notin> V"
    and post: "map_post children (insert (issue_id i) V) (mget_or [] children (issue_id i)) ns (mput (issue_id i) a m) m'"
    and t: "set (forest_nodes ts) = insert t (set (forest_nodes ns))" "tn_issue t = i" "tn_addr t = a"
  shows "map_post children V [i] ts m m'"
  unfolding map_post_def
proof
  fix k
  have "if covered children (insert (issue_id i) V) (mget_or [] children (issue_id i)) k
      then \<exists>n \<in> set (forest_nodes ns). issue_id (tn_issue n) = k \<and> mget m' k = Some (tn_addr n)
      else mget m' k = (if k = issue_id i then Some a else mget m k)"
    using spec[OF post[unfolded map_post_def], of k] by (simp only: mget_mput)
  then show "if covered children V [i] k
      then \<exists>n \<in> set (forest_nodes ts). issue_id (tn_issue n) = k \<and> mget m' k = Some (tn_addr n)
      else mget m' k = mget m k"
    unfolding covered_step[OF new] t(1) using t(2,3) by (auto split: if_splits)
qed

lemma build_post_append:
  assumes x: "build_post children [c] depth parent st [x] st1" and xs: "build_post children cs depth parent st1 xs st2"
  shows "build_post children (c # cs) depth parent st (x # xs) st2"
proof -
  have p: "on_path st1 = on_path st" using x by (simp add: build_post_def)
  have a: "tn_addr ` set (tree_nodes x) = {bs_next st..<bs_next st1}" "tn_addr ` set (forest_nodes xs) = {bs_next st1..<bs_next st2}"
    "bs_next st \<le> bs_next st1" "bs_next st1 \<le> bs_next st2"
    using x xs by (simp_all add: build_post_def)
  have "distinct (map tn_addr (forest_nodes (x # xs)))"
    using x xs a by (auto simp: build_post_def)
  moreover have "tn_addr ` set (forest_nodes (x # xs)) = {bs_next st..<bs_next st2}"
    using a by (simp add: image_Un ivl_disj_un_two(3))
  moreover have "map_post children (on_path st) (c # cs) (x # xs) (bs_issue_map st) (bs_issue_map st2)"
  proof (rule map_post_append)
    show "map_post children (on_path st) [c] [x] (bs_issue_map st) (bs_issue_map st1)"
      using x unfolding build_post_def by blast
    show "map_post children (on_path st) cs xs (bs_issue_map st1) (bs_issue_map st2)"
      using xs unfolding build_post_def p by blast
  qed
  ultimately show ?thesis using x xs p a(3,4) by (simp add: build_post_def)
qed

lemma build_post_enter:
  fixes i st children depth parent
  defines "a \<equiv> bs_next st"
  defines "st1 \<equiv> st\<lparr>bs_next := a + 1, bs_visited := mput (issue_id i) True (bs_visited st),
      bs_issue_map := mput (issue_id i) a (bs_issue_map st)\<rparr>"
  assumes new: "issue_id i \<notin> on_path st"
    and post: "build_post children (mget_or [] children (issue_id i)) (depth + 1) (Some a) st1 ns st2"
  shows "build_post children [i] depth parent st [TreeNode a i depth parent (depth < 2) (sort_nodes ns)]
      (st2\<lparr>bs_visited := mput (issue_id i) False (bs_visited st2)\<rparr>)" (is "build_post _ _ _ _ _ [?t] ?st'")
proof -
  have st1: "on_path st1 = insert (issue_id i) (on_path st)" "bs_next st1 = a + 1"
    "bs_issue_map st1 = mput (issue_id i) a (bs_issue_map st)"
    by (auto simp: st1_def on_path_def)
  have ms: "mset (forest_nodes (sort_nodes ns)) = mset (forest_nodes ns)" by (rule mset_forest_nodes) simp
  have set: "set (forest_nodes (sort_nodes ns)) = set (forest_nodes ns)" by (rule mset_eq_setD[OF ms])
  have ns: "distinct (map tn_addr (forest_nodes ns))" "tn_addr ` set (forest_nodes ns) = {a + 1..<bs_next st2}"
    "a + 1 \<le> bs_next st2" "map tn_issue ns = mget_or [] children (issue_id i)"
    using post st1(2) by (simp_all add: build_post_def)
  have "mset (map tn_addr (forest_nodes (sort_nodes ns))) = mset (map tn_addr (forest_nodes ns))" using ms by simp
  then have "distinct (map tn_addr (forest_nodes (sort_nodes ns)))" using ns(1) mset_eq_imp_distinct_iff by blast
  then have dist: "distinct (map tn_addr (forest_nodes [?t]))" using ns(2) set by simp
  have addrs: "tn_addr ` set (forest_nodes [?t]) = {bs_next st..<bs_next ?st'}"
    using ns(2,3) set by (auto simp: a_def)
  have "mset (map tn_issue (sort_nodes ns)) = mset (mget_or [] children (issue_id i))"
    unfolding ns(4)[symmetric] by simp
  then have bt: "built (mget_or [] children) (on_path st) depth parent ?t"
    using post new st1(1) by (simp add: build_post_def)
  have "map_post children (on_path st) [i] [?t] (bs_issue_map st) (bs_issue_map st2)"
    using post new st1 set by (intro map_post_enter[where ns = ns and a = a and t = ?t]) (simp_all add: build_post_def)
  then show ?thesis
    using post new st1 dist addrs bt ns(3) by (simp add: build_post_def a_def)
qed

lemma build_correct:
  assumes U: "finite U" "\<And>p i. i \<in> set (mget_or [] children p) \<Longrightarrow> issue_id i \<in> U"
  shows "path_fuel n U st \<Longrightarrow> issue_id i \<in> U \<Longrightarrow>
      \<exists>t st'. build_node n children i depth parent st = Some (t, st') \<and> build_post children [i] depth parent st [t] st'"
    and "path_fuel n U st \<Longrightarrow> issue_id ` set cs \<subseteq> U \<Longrightarrow>
      \<exists>ts st'. build_children n children cs depth parent st = Some (ts, st') \<and> build_post children cs depth parent st ts st'"
  using U
proof (induction n children i depth parent st and n children cs depth parent st rule: build_node_build_children.induct)
  case (1 children i depth parent st)
  then show ?case by (simp add: path_fuel_def)
next
  case (2 n children i depth parent st)
  let ?st1 = "st\<lparr>bs_next := bs_next st + 1, bs_visited := mput (issue_id i) True (bs_visited st),
      bs_issue_map := mput (issue_id i) (bs_next st) (bs_issue_map st)\<rparr>"
  show ?case
  proof (cases "issue_id i \<in> on_path st")
    case True
    then have "build_node (Suc n) children i depth parent st =
        Some (TreeNode (bs_next st) i depth parent False [], st\<lparr>bs_next := bs_next st + 1\<rparr>)"
      by (simp add: on_path_def Let_def)
    then show ?thesis using build_post_repeated[OF True] by blast
  next
    case False
    have on: "on_path ?st1 = insert (issue_id i) (on_path st)" by (auto simp: on_path_def)
    have split: "U - on_path st = insert (issue_id i) (U - on_path ?st1)" unfolding on using False "2.prems"(2) by auto
    have "card (U - on_path st) = Suc (card (U - on_path ?st1))"
      unfolding split using "2.prems"(3) on by (intro card_insert_disjoint) auto
    then have "path_fuel n U ?st1" using "2.prems"(1) by (simp add: path_fuel_def)
    moreover have "issue_id ` set (mget_or [] children (issue_id i)) \<subseteq> U" using "2.prems"(4) by blast
    ultimately obtain ns st2 where r: "build_children n children (mget_or [] children (issue_id i)) (depth + 1)
        (Some (bs_next st)) ?st1 = Some (ns, st2)"
      "build_post children (mget_or [] children (issue_id i)) (depth + 1) (Some (bs_next st)) ?st1 ns st2"
      using "2.IH" False "2.prems"(3,4) by (fastforce simp: on_path_def)
    have "build_node (Suc n) children i depth parent st = Some (TreeNode (bs_next st) i depth parent (depth < 2) (sort_nodes ns),
        st2\<lparr>bs_visited := mput (issue_id i) False (bs_visited st2)\<rparr>)"
      using False r(1) by (simp add: on_path_def Let_def)
    then show ?thesis using build_post_enter[OF False r(2)] by blast
  qed
next
  case (3 n children depth parent st)
  then show ?case by (simp add: build_post_def map_post_def covered_def)
next
  case (4 n children c cs depth parent st)
  then obtain x st1 where x: "build_node n children c depth parent st = Some (x, st1)"
    "build_post children [c] depth parent st [x] st1" by fastforce
  have "on_path st1 = on_path st" using x(2) by (simp add: build_post_def)
  then have "path_fuel n U st1" using "4.prems"(1) by (simp add: path_fuel_def)
  then obtain xs st2 where xs: "build_children n children cs depth parent st1 = Some (xs, st2)"
    "build_post children cs depth parent st1 xs st2"
    using "4.IH"(2)[OF x(1) refl] "4.prems" by fastforce
  show ?case using x(1) xs(1) build_post_append[OF x(2) xs(2)] by simp
qed

section \<open>Issues without a root above them\<close>

lemma least_parent_in:
  "least_parent (tree_index_of issues) i = None \<longleftrightarrow> valid_parents issues i = {}"
  "least_parent (tree_index_of issues) i = Some p \<Longrightarrow> p \<in> valid_parents issues i"
proof -
  let ?ok = "\<lambda>dep p. parent_of_dep dep = Some p \<and> p \<in> issue_id ` set issues"
  have step: "take_parent (tree_index_of issues) dep best = None \<longleftrightarrow> best = None \<and> (\<forall>p. \<not> ?ok dep p)"
    "take_parent (tree_index_of issues) dep best = Some q \<Longrightarrow> best = Some q \<or> ?ok dep q" for dep best q
    unfolding issue_map_of_keys[symmetric]
    by (auto simp: take_parent_def tree_index_simps mkeys_ex split: option.splits if_splits)
  have none: "fold (take_parent (tree_index_of issues)) ds best = None \<longleftrightarrow> best = None \<and> (\<forall>dep \<in> set ds. \<forall>p. \<not> ?ok dep p)" for ds best
    by (induction ds arbitrary: best) (auto simp: step(1))
  have some: "fold (take_parent (tree_index_of issues)) ds best = Some q \<Longrightarrow> best = Some q \<or> (\<exists>dep \<in> set ds. ?ok dep q)" for ds best q
  proof (induction ds arbitrary: best)
    case (Cons d ds)
    then have "take_parent (tree_index_of issues) d best = Some q \<or> (\<exists>dep \<in> set ds. ?ok dep q)" by simp
    then show ?case using step(2) by (meson list.set_intros)
  qed simp
  show "least_parent (tree_index_of issues) i = None \<longleftrightarrow> valid_parents issues i = {}"
    unfolding least_parent_def none valid_parents_def by blast
  show "least_parent (tree_index_of issues) i = Some p \<Longrightarrow> p \<in> valid_parents issues i"
    using some[of "dependencies i" None p] by (auto simp: least_parent_def valid_parents_def)
qed

lemma climb_correct:
  fixes issues
  defines "S \<equiv> issue_id ` set issues"
  assumes "iid \<in> S" "Suc (card (S - {k. mget_or False on k})) \<le> n"
    and "\<And>u. mget_or False on u \<Longrightarrow> (child_edge issues)\<^sup>+\<^sup>+ iid u"
  shows "\<exists>c i. climb n (tree_index_of issues) on iid = Some c \<and> mget (issue_map_of issues) c = Some i \<and>
    (child_edge issues)\<^sup>*\<^sup>* c iid \<and> ((child_edge issues)\<^sup>+\<^sup>+ c c \<or> valid_parents issues i = {})"
  using assms(2-)
proof (induction n arbitrary: on iid)
  case (Suc n)
  obtain i where i: "mget (issue_map_of issues) iid = Some i"
    using Suc.prems(1) by (metis S_def issue_map_of_keys mkeys_ex)
  show ?case
  proof (cases "mget_or False on iid")
    case True
    then show ?thesis using i Suc.prems(3) by auto
  next
    case new: False
    show ?thesis
    proof (cases "least_parent (tree_index_of issues) i")
      case None
      then show ?thesis using i new least_parent_in(1)[of issues i] by (simp add: tree_index_simps)
    next
      case (Some p)
      then have p: "p \<in> valid_parents issues i" by (rule least_parent_in(2))
      then have e: "child_edge issues p iid" using issue_map_of_id[OF i] by (auto simp: child_edge_def)
      have split: "S - {k. mget_or False on k} = insert iid (S - {k. mget_or False (mput iid True on) k})"
        using new Suc.prems(1) by auto
      have "card (S - {k. mget_or False on k}) = Suc (card (S - {k. mget_or False (mput iid True on) k}))"
        unfolding split by (rule card_insert_disjoint) (auto simp: S_def)
      then have "Suc (card (S - {k. mget_or False (mput iid True on) k})) \<le> n" using Suc.prems(2) by simp
      moreover have "(child_edge issues)\<^sup>+\<^sup>+ p u" if "mget_or False (mput iid True on) u" for u
        using that e Suc.prems(3)[of u] by (auto split: if_splits intro: tranclp_into_tranclp2)
      moreover have "p \<in> S" using p by (simp add: valid_parents_def S_def)
      ultimately obtain c j where c: "climb n (tree_index_of issues) (mput iid True on) p = Some c"
        "mget (issue_map_of issues) c = Some j" "(child_edge issues)\<^sup>*\<^sup>* c p"
        "(child_edge issues)\<^sup>+\<^sup>+ c c \<or> valid_parents issues j = {}"
        using Suc.IH by blast
      have "(child_edge issues)\<^sup>*\<^sup>* c iid" using c(3) e by (rule rtranclp.rtrancl_into_rtrancl)
      then show ?thesis using c i new Some by (auto simp: tree_index_simps)
    qed
  qed
qed simp

section \<open>The forest\<close>

text \<open>What holds of the trees and the map while the roots are built.\<close>

definition forest_ok :: "issue list \<Rightarrow> tree_node list \<Rightarrow> build_state \<Rightarrow> bool" where
  "forest_ok issues roots st \<longleftrightarrow> on_path st = {} \<and>
     (\<forall>t \<in> set roots. built (child_issues issues) {} 0 None t) \<and>
     distinct (map tn_addr (forest_nodes roots)) \<and> tn_addr ` set (forest_nodes roots) = {0..<bs_next st} \<and>
     gomap_ok (bs_issue_map st) \<and> set (mkeys (bs_issue_map st)) \<subseteq> issue_id ` set issues \<and>
     (\<forall>k a. mget (bs_issue_map st) k = Some a \<longrightarrow> (\<exists>n \<in> set (forest_nodes roots). issue_id (tn_issue n) = k \<and> tn_addr n = a)) \<and>
     (\<forall>k c. k \<in> set (mkeys (bs_issue_map st)) \<longrightarrow> child_edge issues k c \<longrightarrow> c \<in> set (mkeys (bs_issue_map st)))"

lemma child_edge_ids: "child_edge issues p c \<Longrightarrow> p \<in> issue_id ` set issues \<and> c \<in> issue_id ` set issues"
  by (auto simp: child_edge_def valid_parents_def)

lemma edge_of_reach:
  assumes "x \<in> issue_id ` set issues"
  shows "(edge_of (ix_children (tree_index_of issues)))\<^sup>*\<^sup>* x y \<longleftrightarrow> (child_edge issues)\<^sup>*\<^sup>* x y"
proof -
  have e: "edge_of (ix_children (tree_index_of issues)) p c \<longleftrightarrow> child_edge issues p c" if "p \<in> issue_id ` set issues" for p c
    using that unfolding edge_of_def Bex_def tree_index_simps set_child_issues child_edge_def valid_parents_def by blast
  have cl: "c \<in> issue_id ` set issues" if "edge_of (ix_children (tree_index_of issues)) p c" for p c
    using that by (auto simp: edge_of_def tree_index_simps set_child_issues)
  show ?thesis
  proof
    show "(child_edge issues)\<^sup>*\<^sup>* x y" if "(edge_of (ix_children (tree_index_of issues)))\<^sup>*\<^sup>* x y"
    proof -
      from that have "(child_edge issues)\<^sup>*\<^sup>* x y \<and> y \<in> issue_id ` set issues"
        by (induction rule: rtranclp_induct) (use assms e cl in \<open>blast intro: rtranclp.rtrancl_into_rtrancl\<close>)+
      then show ?thesis by blast
    qed
    show "(edge_of (ix_children (tree_index_of issues)))\<^sup>*\<^sup>* x y" if "(child_edge issues)\<^sup>*\<^sup>* x y"
      using that by (rule rtranclp_mono[THEN predicate2D, rotated]) (use e child_edge_ids in blast)
  qed
qed

lemma within_empty [simp]: "within E {} = E"
  by (auto simp: within_def fun_eq_iff)

lemma covered_roots:
  assumes "set cs \<subseteq> set issues"
  shows "covered (ix_children (tree_index_of issues)) {} cs k \<longleftrightarrow> (\<exists>c \<in> set cs. (child_edge issues)\<^sup>*\<^sup>* (issue_id c) k)"
  unfolding covered_def using assms edge_of_reach by (auto simp: subset_iff)

text \<open>Adding trees to a forest.\<close>

lemma forest_extend:
  assumes ok: "forest_ok issues roots st" and cs: "set cs \<subseteq> set issues"
    and post: "build_post (ix_children (tree_index_of issues)) cs 0 None st ts st'"
  shows "forest_ok issues (roots @ ts) st'" "map tn_issue (roots @ ts) = map tn_issue roots @ cs"
    "set (mkeys (bs_issue_map st')) =
       set (mkeys (bs_issue_map st)) \<union> {k. \<exists>c \<in> set cs. (child_edge issues)\<^sup>*\<^sup>* (issue_id c) k}"
proof -
  have ch: "mget_or [] (ix_children (tree_index_of issues)) = child_issues issues" by (simp add: tree_index_simps fun_eq_iff)
  have on: "on_path st = {}" using ok by (simp add: forest_ok_def)
  have maps: "if \<exists>c \<in> set cs. (child_edge issues)\<^sup>*\<^sup>* (issue_id c) k
      then \<exists>n \<in> set (forest_nodes ts). issue_id (tn_issue n) = k \<and> mget (bs_issue_map st') k = Some (tn_addr n)
      else mget (bs_issue_map st') k = mget (bs_issue_map st) k" for k
    using post covered_roots[OF cs, of k] unfolding build_post_def map_post_def on by metis
  show keys: "set (mkeys (bs_issue_map st')) =
       set (mkeys (bs_issue_map st)) \<union> {k. \<exists>c \<in> set cs. (child_edge issues)\<^sup>*\<^sup>* (issue_id c) k}" (is "?K' = ?K \<union> ?C")
  proof (rule set_eqI)
    fix k show "k \<in> ?K' \<longleftrightarrow> k \<in> ?K \<union> ?C"
      using maps[of k] by (auto simp: mkeys_ex split: if_splits)
  qed
  have "child_edge issues x y \<Longrightarrow> x \<in> ?C \<Longrightarrow> y \<in> ?C" for x y by (auto intro: rtranclp.rtrancl_into_rtrancl)
  then have closed: "\<forall>k c. k \<in> ?K' \<longrightarrow> child_edge issues k c \<longrightarrow> c \<in> ?K'"
    using ok unfolding keys forest_ok_def by blast
  have "k \<in> issue_id ` set issues" if k: "(child_edge issues)\<^sup>*\<^sup>* (issue_id c) k" and c: "c \<in> set cs" for k c
    using k by (cases rule: rtranclp.cases) (use c cs child_edge_ids in blast)+
  then have "?C \<subseteq> issue_id ` set issues" by blast
  moreover have "?K \<subseteq> issue_id ` set issues" using ok by (simp add: forest_ok_def)
  ultimately have sub: "?K' \<subseteq> issue_id ` set issues" unfolding keys by blast
  have src: "\<exists>n \<in> set (forest_nodes (roots @ ts)). issue_id (tn_issue n) = k \<and> tn_addr n = a"
    if "mget (bs_issue_map st') k = Some a" for k a
  proof (cases "k \<in> ?C")
    case True
    then show ?thesis using maps[of k] that by auto
  next
    case False
    then have "mget (bs_issue_map st) k = Some a" using maps[of k] that by auto
    moreover have "mget (bs_issue_map st) k = Some a \<longrightarrow> (\<exists>n \<in> set (forest_nodes roots). issue_id (tn_issue n) = k \<and> tn_addr n = a)"
      using ok unfolding forest_ok_def by blast
    ultimately show ?thesis by auto
  qed
  have addrs: "distinct (map tn_addr (forest_nodes (roots @ ts)))" "tn_addr ` set (forest_nodes (roots @ ts)) = {0..<bs_next st'}"
  proof -
    have a: "tn_addr ` set (forest_nodes roots) = {0..<bs_next st}" "tn_addr ` set (forest_nodes ts) = {bs_next st..<bs_next st'}"
      "bs_next st \<le> bs_next st'" "distinct (map tn_addr (forest_nodes roots))" "distinct (map tn_addr (forest_nodes ts))"
      using ok post by (simp_all add: forest_ok_def build_post_def)
    then show "distinct (map tn_addr (forest_nodes (roots @ ts)))" by auto
    show "tn_addr ` set (forest_nodes (roots @ ts)) = {0..<bs_next st'}"
      using a(1-3) by (simp add: image_Un ivl_disj_un_two(3))
  qed
  have trees: "\<forall>t \<in> set (roots @ ts). built (child_issues issues) {} 0 None t"
    using ok post unfolding forest_ok_def build_post_def ch on by auto
  have "on_path st' = {}" "gomap_ok (bs_issue_map st')" using ok post by (simp_all add: forest_ok_def build_post_def)
  then show "forest_ok issues (roots @ ts) st'"
    unfolding forest_ok_def using addrs src sub closed trees by blast
  show "map tn_issue (roots @ ts) = map tn_issue roots @ cs" using post by (simp add: build_post_def)
qed

lemma closed_keys:
  assumes "forest_ok issues roots st" "(child_edge issues)\<^sup>*\<^sup>* x y" "x \<in> set (mkeys (bs_issue_map st))"
  shows "y \<in> set (mkeys (bs_issue_map st))"
  using assms(2,3) by (induction rule: rtranclp_induct) (use assms(1) in \<open>auto simp: forest_ok_def\<close>)

lemma build_children_index:
  assumes "Suc (card (issue_id ` set issues)) \<le> n" "forest_ok issues roots st" "set cs \<subseteq> set issues"
  shows "\<exists>ts st'. build_children n (ix_children (tree_index_of issues)) cs 0 None st = Some (ts, st') \<and>
      build_post (ix_children (tree_index_of issues)) cs 0 None st ts st'"
    and "i \<in> set issues \<Longrightarrow> \<exists>t st'. build_node n (ix_children (tree_index_of issues)) i 0 None st = Some (t, st') \<and>
      build_post (ix_children (tree_index_of issues)) [i] 0 None st [t] st'"
proof -
  have "issue_id i \<in> issue_id ` set issues" if "i \<in> set (mget_or [] (ix_children (tree_index_of issues)) p)" for p i
    using that by (auto simp: tree_index_simps set_child_issues)
  note build = build_correct[OF finite_imageI[OF finite_set] this]
  have fuel: "path_fuel n (issue_id ` set issues) st" using assms(1,2) by (simp add: path_fuel_def forest_ok_def)
  show "\<exists>ts st'. build_children n (ix_children (tree_index_of issues)) cs 0 None st = Some (ts, st') \<and>
      build_post (ix_children (tree_index_of issues)) cs 0 None st ts st'"
    using build(2)[OF _ fuel] assms(3) by (simp add: image_mono)
  show "i \<in> set issues \<Longrightarrow> \<exists>t st'. build_node n (ix_children (tree_index_of issues)) i 0 None st = Some (t, st') \<and>
      build_post (ix_children (tree_index_of issues)) [i] 0 None st [t] st'"
    using build(1)[OF _ fuel] by simp
qed

lemma build_remaining_correct:
  assumes "Suc (card (issue_id ` set issues)) \<le> n" "set ids \<subseteq> issue_id ` set issues" "forest_ok issues roots st"
    and "\<And>i. i \<in> set issues \<Longrightarrow> valid_parents issues i = {} \<Longrightarrow> issue_id i \<in> set (mkeys (bs_issue_map st))"
  shows "\<exists>roots' st' extra. build_remaining n (tree_index_of issues) ids roots st = Some (roots', st') \<and>
    forest_ok issues roots' st' \<and> map tn_issue roots' = map tn_issue roots @ extra \<and> set extra \<subseteq> set issues \<and>
    (\<forall>i \<in> set extra. (child_edge issues)\<^sup>+\<^sup>+ (issue_id i) (issue_id i)) \<and>
    set (mkeys (bs_issue_map st)) \<union> set ids \<subseteq> set (mkeys (bs_issue_map st'))"
  using assms(2-)
proof (induction ids arbitrary: roots st)
  case Nil
  then show ?case by (auto intro: exI[of _ "[]"])
next
  case (Cons iid ids)
  show ?case
  proof (cases "mget (bs_issue_map st) iid")
    case (Some a)
    then show ?thesis using Cons.IH[OF _ Cons.prems(2,3)] Cons.prems(1) by fastforce
  next
    case None
    have "iid \<in> issue_id ` set issues" using Cons.prems(1) by simp
    from climb_correct[OF this, of "[]" n] assms(1) obtain c i where c: "climb n (tree_index_of issues) [] iid = Some c"
      "mget (issue_map_of issues) c = Some i" "(child_edge issues)\<^sup>*\<^sup>* c iid"
      "(child_edge issues)\<^sup>+\<^sup>+ c c \<or> valid_parents issues i = {}" by auto
    have i: "issue_id i = c" "i \<in> set issues" using issue_map_of_id[OF c(2)] by simp_all
    have "iid \<notin> set (mkeys (bs_issue_map st))" using None by (simp add: mget_None_iff)
    then have "valid_parents issues i \<noteq> {}"
      using closed_keys[OF Cons.prems(2) c(3)] Cons.prems(3)[OF i(2)] i(1) by blast
    then have cyc: "(child_edge issues)\<^sup>+\<^sup>+ (issue_id i) (issue_id i)" using c(4) i(1) by simp
    obtain t st1 where t: "build_node n (ix_children (tree_index_of issues)) i 0 None st = Some (t, st1)"
      "build_post (ix_children (tree_index_of issues)) [i] 0 None st [t] st1"
      using build_children_index(2)[OF assms(1) Cons.prems(2) _ i(2), of "[]"] by auto
    note ext = forest_extend[OF Cons.prems(2) _ t(2)]
    have sub: "set [i] \<subseteq> set issues" using i(2) by simp
    have keys: "iid \<in> set (mkeys (bs_issue_map st1))" "set (mkeys (bs_issue_map st)) \<subseteq> set (mkeys (bs_issue_map st1))"
      using ext(3)[OF sub] c(3) i(1) by auto
    have "\<exists>roots' st' extra. build_remaining n (tree_index_of issues) ids (roots @ [t]) st1 = Some (roots', st') \<and>
      forest_ok issues roots' st' \<and> map tn_issue roots' = map tn_issue (roots @ [t]) @ extra \<and> set extra \<subseteq> set issues \<and>
      (\<forall>i \<in> set extra. (child_edge issues)\<^sup>+\<^sup>+ (issue_id i) (issue_id i)) \<and>
      set (mkeys (bs_issue_map st1)) \<union> set ids \<subseteq> set (mkeys (bs_issue_map st'))"
      using Cons.IH[OF _ ext(1)[OF sub]] Cons.prems(1,3) keys(2) by (simp add: subset_iff)
    then obtain roots' st' extra where r: "build_remaining n (tree_index_of issues) ids (roots @ [t]) st1 = Some (roots', st')"
      "forest_ok issues roots' st'" "map tn_issue roots' = map tn_issue (roots @ [t]) @ extra" "set extra \<subseteq> set issues"
      "\<forall>i \<in> set extra. (child_edge issues)\<^sup>+\<^sup>+ (issue_id i) (issue_id i)"
      "set (mkeys (bs_issue_map st1)) \<union> set ids \<subseteq> set (mkeys (bs_issue_map st'))" by blast
    have "build_remaining n (tree_index_of issues) (iid # ids) roots st = Some (roots', st')"
      using None c(1,2) t(1) r(1) by (simp add: tree_index_simps)
    moreover have "map tn_issue roots' = map tn_issue roots @ i # extra" using r(3) ext(2)[OF sub] by simp
    ultimately show ?thesis using r(2,4-6) sub cyc keys by (intro exI[of _ roots'] exI[of _ st'] exI[of _ "i # extra"]) auto
  qed
qed

lemma forest_ok_start: "forest_ok issues [] \<lparr>bs_visited = [], bs_next = 0, bs_issue_map = []\<rparr>"
  by (auto simp: forest_ok_def on_path_def)

lemma build_issue_tree_nodes_correct:
  assumes "issues \<noteq> []"
  shows "\<exists>roots st extra. build_issue_tree_nodes issues = Some (sort_nodes roots, bs_issue_map st) \<and> forest_ok issues roots st \<and>
    map tn_issue roots = filter (\<lambda>i. valid_parents issues i = {}) issues @ extra \<and> set extra \<subseteq> set issues \<and>
    (\<forall>i \<in> set extra. (child_edge issues)\<^sup>+\<^sup>+ (issue_id i) (issue_id i)) \<and>
    set (mkeys (bs_issue_map st)) = issue_id ` set issues"
proof -
  let ?S = "issue_id ` set issues" and ?ix = "tree_index_of issues" and ?cs = "filter (\<lambda>i. valid_parents issues i = {}) issues"
  let ?st0 = "\<lparr>bs_visited = [], bs_next = 0, bs_issue_map = []\<rparr> :: build_state"
  define n where "n = length (ix_by_id ?ix) + 1"
  have len: "length (ix_by_id ?ix) = card ?S" by (simp add: tree_index_simps length_gomap issue_map_of_keys)
  then have fuel: "Suc (card ?S) \<le> n" by (simp add: n_def)
  have sub: "set ?cs \<subseteq> set issues" by auto
  obtain ts st1 where ts: "build_children n (ix_children ?ix) ?cs 0 None ?st0 = Some (ts, st1)"
    "build_post (ix_children ?ix) ?cs 0 None ?st0 ts st1"
    using build_children_index(1)[OF fuel forest_ok_start sub] by blast
  note ext = forest_extend[OF forest_ok_start sub ts(2), simplified]
  define remaining where "remaining = (if length (bs_issue_map st1) < length (ix_by_id ?ix)
    then filter (\<lambda>iid. mget (bs_issue_map st1) iid = None) (mkeys (ix_by_id ?ix)) else [])"
  have rem: "set (sort remaining) \<subseteq> ?S" by (auto simp: remaining_def tree_index_simps issue_map_of_keys)
  have natural: "issue_id i \<in> set (mkeys (bs_issue_map st1))" if "i \<in> set issues" "valid_parents issues i = {}" for i
    using ext(3) that by auto
  obtain roots st extra where r: "build_remaining n ?ix (sort remaining) ts st1 = Some (roots, st)" "forest_ok issues roots st"
    "map tn_issue roots = map tn_issue ts @ extra" "set extra \<subseteq> set issues"
    "\<forall>i \<in> set extra. (child_edge issues)\<^sup>+\<^sup>+ (issue_id i) (issue_id i)"
    "set (mkeys (bs_issue_map st1)) \<union> set (sort remaining) \<subseteq> set (mkeys (bs_issue_map st))"
    using build_remaining_correct[OF fuel rem ext(1) natural] by blast
  have eq: "build_issue_tree_nodes issues = Some (sort_nodes roots, bs_issue_map st)"
    using assms ts(1) r(1) unfolding build_issue_tree_nodes_def remaining_def n_def
    by (simp add: Let_def root_issues_eq)
  have "?S \<subseteq> set (mkeys (bs_issue_map st1)) \<union> set remaining"
  proof (cases "length (bs_issue_map st1) < length (ix_by_id ?ix)")
    case True
    then show ?thesis by (auto simp: remaining_def tree_index_simps issue_map_of_keys mget_None_iff)
  next
    case False
    have "gomap_ok (bs_issue_map st1)" "set (mkeys (bs_issue_map st1)) \<subseteq> ?S" using ext(1) by (simp_all add: forest_ok_def)
    then have "set (mkeys (bs_issue_map st1)) = ?S"
      using False len by (intro card_seteq) (simp_all add: length_gomap)
    then show ?thesis by blast
  qed
  moreover have "set (mkeys (bs_issue_map st)) \<subseteq> ?S" using r(2) by (simp add: forest_ok_def)
  ultimately have "set (mkeys (bs_issue_map st)) = ?S" using r(6) by auto
  moreover have "map tn_issue roots = ?cs @ extra" using r(3) ext(2) by simp
  ultimately show ?thesis using eq r(2,4,5) by blast
qed

end
