(* ===== verification/Bv_Tree_Props.thy ===== *)
theory Bv_Tree_Props
  imports Bv_Tree
begin

text \<open>
  \<open>pkg/ui/tree.go\<close>: the tree that \<open>buildIssueTreeNodes\<close> builds is complete, and in a proper hierarchy it shows
  every issue once.
\<close>

section \<open>Hierarchies\<close>

text \<open>The usual case: ids are unique, no issue names two parents, and there is no cycle of parents.\<close>

definition hierarchical :: "issue list \<Rightarrow> bool" where
  "hierarchical issues \<longleftrightarrow> distinct (map issue_id issues) \<and> acyclicP (child_edge issues) \<and>
     (\<forall>i \<in> set issues. length (filter (\<lambda>dep. parent_of_dep dep \<noteq> None) (dependencies i)) \<le> 1)"

definition node_id :: "tree_node \<Rightarrow> string" where
  "node_id n = issue_id (tn_issue n)"

lemma ancestors_chain:
  assumes unique: "\<And>a b c. E a c \<Longrightarrow> E b c \<Longrightarrow> a = b" and "E\<^sup>*\<^sup>* a k" "E\<^sup>*\<^sup>* b k"
  shows "E\<^sup>*\<^sup>* a b \<or> E\<^sup>*\<^sup>* b a"
  using assms(2,3)
proof (induction rule: rtranclp_induct)
  case (step y z)
  from step.prems show ?case
  proof (cases rule: rtranclp.cases)
    case rtrancl_refl
    then show ?thesis using step.hyps by (metis rtranclp.rtrancl_into_rtrancl)
  next
    case (rtrancl_into_rtrancl y')
    then show ?thesis using step.IH unique[OF step.hyps(2)] by blast
  qed
qed simp

lemma forest_distinct:
  assumes unique: "\<And>a b c. E a c \<Longrightarrow> E b c \<Longrightarrow> a = b"
    and "distinct (map node_id ts)" "\<And>t. t \<in> set ts \<Longrightarrow> distinct (map node_id (tree_nodes t))"
    and "\<And>t n. t \<in> set ts \<Longrightarrow> n \<in> set (tree_nodes t) \<Longrightarrow> E\<^sup>*\<^sup>* (node_id t) (node_id n)"
    and "\<And>t u. t \<in> set ts \<Longrightarrow> u \<in> set ts \<Longrightarrow> E\<^sup>*\<^sup>* (node_id t) (node_id u) \<Longrightarrow> node_id t = node_id u"
  shows "distinct (map node_id (forest_nodes ts))"
  using assms(2-)
proof (induction ts)
  case (Cons t ts)
  have "node_id n \<noteq> node_id m" if n: "n \<in> set (tree_nodes t)" and m: "m \<in> set (tree_nodes u)" and u: "u \<in> set ts" for n m u
  proof
    assume eq: "node_id n = node_id m"
    have "E\<^sup>*\<^sup>* (node_id t) (node_id n)" "E\<^sup>*\<^sup>* (node_id u) (node_id n)"
      using Cons.prems(3)[OF _ n] Cons.prems(3)[OF _ m] u eq by simp_all
    then have "E\<^sup>*\<^sup>* (node_id t) (node_id u) \<or> E\<^sup>*\<^sup>* (node_id u) (node_id t)" by (intro ancestors_chain[where E = E and k = "node_id n"]) (blast intro: unique)+
    then have "node_id t = node_id u" using Cons.prems(4) u by (metis list.set_intros)
    then show False using Cons.prems(1) u by auto
  qed
  then have "node_id ` set (tree_nodes t) \<inter> node_id ` set (forest_nodes ts) = {}" by (auto simp: forest_nodes_def)
  moreover have "distinct (map node_id (forest_nodes ts))" using Cons by simp
  ultimately show ?case using Cons.prems(2) by simp
qed simp

lemma filter_single: "length (filter P xs) \<le> 1 \<Longrightarrow> x \<in> set xs \<Longrightarrow> P x \<Longrightarrow> y \<in> set xs \<Longrightarrow> P y \<Longrightarrow> x = y"
proof -
  assume l: "length (filter P xs) \<le> 1" and x: "x \<in> set xs" "P x" and y: "y \<in> set xs" "P y"
  have "x \<in> set (filter P xs)" "y \<in> set (filter P xs)" using x y by simp_all
  then show "x = y" using l by (cases "filter P xs") auto
qed

lemma hierarchical_unique:
  assumes h: "hierarchical issues" and a: "child_edge issues a c" and b: "child_edge issues b c"
  shows "a = b"
proof -
  obtain i where i: "i \<in> set issues" "issue_id i = c" "a \<in> valid_parents issues i" using a by (auto simp: child_edge_def)
  obtain j where j: "j \<in> set issues" "issue_id j = c" "b \<in> valid_parents issues j" using b by (auto simp: child_edge_def)
  have "i = j" using h i j by (auto simp: hierarchical_def distinct_map inj_on_def)
  moreover obtain d e where d: "d \<in> set (dependencies i)" "parent_of_dep d = Some a"
    and e: "e \<in> set (dependencies j)" "parent_of_dep e = Some b" using i(3) j(3) by (auto simp: valid_parents_def)
  moreover have "length (filter (\<lambda>dep. parent_of_dep dep \<noteq> None) (dependencies i)) \<le> 1"
    using h i(1) by (simp add: hierarchical_def)
  ultimately have "d = e" by (intro filter_single[of "\<lambda>dep. parent_of_dep dep \<noteq> None" "dependencies i"]) simp_all
  then show ?thesis using d e by simp
qed

lemma hierarchical_children:
  assumes "hierarchical issues"
  shows "distinct (map issue_id (child_issues issues p))"
proof -
  have "length (filter (\<lambda>dep. parent_of_dep dep = Some p) (dependencies i)) \<le> 1" if "i \<in> set issues" for i
  proof -
    have "length (filter (\<lambda>dep. parent_of_dep dep = Some p) ds) \<le> length (filter (\<lambda>dep. parent_of_dep dep \<noteq> None) ds)" for ds
      by (induction ds) auto
    from this[of "dependencies i"] show ?thesis using assms that by (fastforce simp: hierarchical_def)
  qed
  moreover have "distinct (map issue_id issues)" using assms by (simp add: hierarchical_def)
  ultimately show ?thesis
  proof (induction issues)
    case (Cons i issues)
    have "distinct (map issue_id (map (\<lambda>dep. i) (filter (\<lambda>dep. parent_of_dep dep = Some p) (dependencies i))))"
      using Cons.prems(1)[of i] by (cases "filter (\<lambda>dep. parent_of_dep dep = Some p) (dependencies i)") auto
    moreover have "distinct (map issue_id (child_issues issues p))" using Cons by simp
    moreover have "issue_id ` set (child_issues issues p) \<subseteq> issue_id ` set issues" by (auto simp: set_child_issues)
    moreover have "issue_id i \<notin> issue_id ` set issues" using Cons.prems(2) by simp
    ultimately show ?case by (auto simp: child_issues_def)
  qed (simp add: child_issues_def)
qed

lemma built_hierarchy:
  assumes h: "hierarchical issues"
  shows "built (child_issues issues) V d p t \<Longrightarrow> tn_issue t \<in> set issues \<Longrightarrow>
     (\<And>v. v \<in> V \<Longrightarrow> (child_edge issues)\<^sup>+\<^sup>+ v (node_id t)) \<Longrightarrow>
     distinct (map node_id (tree_nodes t)) \<and>
     (\<forall>n \<in> set (tree_nodes t). tn_issue n \<in> set issues \<and> (child_edge issues)\<^sup>*\<^sup>* (node_id t) (node_id n))"
proof (induction t arbitrary: V d p)
  case (TreeNode a i d' p' e cs)
  let ?E = "child_edge issues" and ?x = "issue_id i"
  have acyc: "\<not> ?E\<^sup>+\<^sup>+ x x" for x using h by (simp add: hierarchical_def acyclic_def tranclp_unfold)
  have "?x \<notin> V" using TreeNode.prems(3)[of ?x] acyc by (auto simp: node_id_def)
  then have ms: "mset (map tn_issue cs) = mset (child_issues issues ?x)"
    and kids: "\<forall>c \<in> set cs. built (child_issues issues) (insert ?x V) (d + 1) (Some a) c"
    using TreeNode.prems(1) by auto
  have edge: "?E ?x (node_id c)" "tn_issue c \<in> set issues" if "c \<in> set cs" for c
  proof -
    have "tn_issue c \<in> set (child_issues issues ?x)" using mset_eq_setD[OF ms] that by auto
    then show "tn_issue c \<in> set issues" by (simp add: set_child_issues)
    show "?E ?x (node_id c)" using \<open>tn_issue c \<in> set (child_issues issues ?x)\<close> TreeNode.prems(2)
      by (auto simp: set_child_issues child_edge_def valid_parents_def node_id_def)
  qed
  have sub: "distinct (map node_id (tree_nodes c)) \<and>
     (\<forall>n \<in> set (tree_nodes c). tn_issue n \<in> set issues \<and> ?E\<^sup>*\<^sup>* (node_id c) (node_id n))" if c: "c \<in> set cs" for c
  proof (rule TreeNode.IH[OF c])
    show "built (child_issues issues) (insert ?x V) (d + 1) (Some a) c" using kids c by blast
    show "tn_issue c \<in> set issues" using edge(2)[OF c] .
    show "?E\<^sup>+\<^sup>+ v (node_id c)" if "v \<in> insert ?x V" for v
      using that edge(1)[OF c] TreeNode.prems(3)[of v] by (auto simp: node_id_def)
  qed
  have below: "?E\<^sup>+\<^sup>+ ?x (node_id n)" if "n \<in> set (forest_nodes cs)" for n
    using that edge(1) sub by (fastforce simp: forest_nodes_def intro: tranclp_rtranclp_tranclp)
  have same: "node_id t = node_id u" if tu: "t \<in> set cs" "u \<in> set cs" "?E\<^sup>*\<^sup>* (node_id t) (node_id u)" for t u
    using tu(3)
  proof (cases rule: rtranclp.cases)
    case (rtrancl_into_rtrancl y)
    then have "y = ?x" using hierarchical_unique[OF h _ edge(1)[OF tu(2)]] by blast
    then have "?E\<^sup>+\<^sup>+ ?x ?x" using edge(1)[OF tu(1)] rtrancl_into_rtrancl by (metis rtranclp_into_tranclp2)
    then show ?thesis using acyc by blast
  qed simp
  have "map node_id cs = map issue_id (map tn_issue cs)" by (simp add: node_id_def)
  also have "mset \<dots> = mset (map issue_id (child_issues issues ?x))" using ms by (metis mset_map)
  finally have "distinct (map node_id cs)"
    using hierarchical_children[OF h] mset_eq_imp_distinct_iff by blast
  then have "distinct (map node_id (forest_nodes cs))"
    using sub same hierarchical_unique[OF h] by (intro forest_distinct[of ?E]) blast+
  moreover have "?x \<notin> node_id ` set (forest_nodes cs)" using below acyc by force
  ultimately have "distinct (map node_id (tree_nodes (TreeNode a i d' p' e cs)))" by (simp add: node_id_def)
  moreover have "tn_issue n \<in> set issues \<and> ?E\<^sup>*\<^sup>* ?x (node_id n)" if "n \<in> set (tree_nodes (TreeNode a i d' p' e cs))" for n
  proof (cases "n \<in> set (forest_nodes cs)")
    case True
    then have "tn_issue n \<in> set issues" using sub by (auto simp: forest_nodes_def)
    then show ?thesis using tranclp_into_rtranclp[OF below[OF True]] by simp
  next
    case False
    then show ?thesis using that TreeNode.prems(2) by (simp add: node_id_def)
  qed
  moreover have "node_id (TreeNode a i d' p' e cs) = ?x" by (simp add: node_id_def)
  ultimately show ?case by metis
qed

section \<open>The tree is complete\<close>

lemma forest_hierarchy:
  assumes h: "hierarchical issues" and ok: "forest_ok issues roots st"
    and roots: "map tn_issue roots = filter (\<lambda>i. valid_parents issues i = {}) issues"
    and keys: "set (mkeys (bs_issue_map st)) = issue_id ` set issues"
  shows "distinct (map node_id (forest_nodes roots))" "mset (map tn_issue (forest_nodes roots)) = mset issues"
proof -
  let ?E = "child_edge issues"
  have ri: "tn_issue t \<in> set issues \<and> valid_parents issues (tn_issue t) = {}" if "t \<in> set roots" for t
  proof -
    have "tn_issue t \<in> set (map tn_issue roots)" using that by simp
    then show ?thesis unfolding roots by simp
  qed
  have t: "distinct (map node_id (tree_nodes t)) \<and>
     (\<forall>n \<in> set (tree_nodes t). tn_issue n \<in> set issues \<and> ?E\<^sup>*\<^sup>* (node_id t) (node_id n))" if "t \<in> set roots" for t
    using ok ri that by (intro built_hierarchy[OF h, of "{}" 0 None]) (auto simp: forest_ok_def)
  have "distinct (map issue_id (filter (\<lambda>i. valid_parents issues i = {}) issues))"
    using h by (simp add: hierarchical_def distinct_map_filter)
  then have droots: "distinct (map node_id roots)" unfolding roots[symmetric] node_id_def[abs_def] by (simp add: comp_def)
  have same: "node_id t = node_id u" if tu: "t \<in> set roots" "u \<in> set roots" "?E\<^sup>*\<^sup>* (node_id t) (node_id u)" for t u
    using tu(3)
  proof (cases rule: rtranclp.cases)
    case (rtrancl_into_rtrancl y)
    then obtain i where "i \<in> set issues" "issue_id i = node_id u" "valid_parents issues i \<noteq> {}"
      by (auto simp: child_edge_def)
    moreover have "inj_on issue_id (set issues)" using h by (simp add: hierarchical_def distinct_map)
    ultimately have "valid_parents issues (tn_issue u) \<noteq> {}" using ri[OF tu(2)] by (auto simp: node_id_def inj_on_def)
    then show ?thesis using ri[OF tu(2)] by blast
  qed simp
  show dist: "distinct (map node_id (forest_nodes roots))"
    using droots t same hierarchical_unique[OF h] by (intro forest_distinct[of ?E]) blast+
  have "set (map tn_issue (forest_nodes roots)) = set issues"
  proof
    show "set (map tn_issue (forest_nodes roots)) \<subseteq> set issues" using t by (auto simp: forest_nodes_def)
    show "set issues \<subseteq> set (map tn_issue (forest_nodes roots))"
    proof
      fix i assume i: "i \<in> set issues"
      then obtain a where "mget (bs_issue_map st) (issue_id i) = Some a" using keys by (metis image_eqI mkeys_ex)
      then obtain n where n: "n \<in> set (forest_nodes roots)" "issue_id (tn_issue n) = issue_id i"
        using ok unfolding forest_ok_def by blast
      moreover have "tn_issue n \<in> set issues" using n(1) t by (auto simp: forest_nodes_def)
      ultimately have "tn_issue n = i" using h i by (auto simp: hierarchical_def distinct_map inj_on_def)
      then show "i \<in> set (map tn_issue (forest_nodes roots))" using n(1) by auto
    qed
  qed
  moreover have "distinct (map issue_id (map tn_issue (forest_nodes roots)))"
    using dist unfolding node_id_def[abs_def] by (simp add: comp_def)
  then have "distinct (map tn_issue (forest_nodes roots))" by (simp only: distinct_map)
  moreover have "distinct issues" using h by (simp add: hierarchical_def distinct_map)
  ultimately show "mset (map tn_issue (forest_nodes roots)) = mset issues" by (metis set_eq_iff_mset_eq_distinct)
qed

text \<open>C19: Building the tree always returns, also when issues are parents of each other. Its roots are the issues
  without an existing parent, and for the others members of a cycle of parents; every node has its
  issue's children, sorted by priority, type and age, unless the issue is already on the path from the
  root, and then it is a leaf. Every issue is shown, and the lookup by id leads to a node of the issue.
  If ids are unique and no issue has two parents or is its own ancestor, every issue is shown exactly once.\<close>

theorem issue_tree_correct:
  "\<exists>roots m extra. build_issue_tree_nodes issues = Some (roots, m) \<and>
     mset (map tn_issue roots) = mset (filter (\<lambda>i. valid_parents issues i = {}) issues) + mset extra \<and>
     (\<forall>i \<in> set extra. i \<in> set issues \<and> (child_edge issues)\<^sup>+\<^sup>+ (issue_id i) (issue_id i)) \<and>
     sorted_wrt (\<lambda>x y. \<not> node_less y x) roots \<and> (\<forall>t \<in> set roots. built (child_issues issues) {} 0 None t) \<and>
     distinct (map tn_addr (forest_nodes roots)) \<and> set (mkeys m) = issue_id ` set issues \<and>
     (\<forall>k a. mget m k = Some a \<longrightarrow> (\<exists>n \<in> set (forest_nodes roots). tn_addr n = a \<and> node_id n = k)) \<and>
     (hierarchical issues \<longrightarrow> extra = [] \<and> mset (map tn_issue (forest_nodes roots)) = mset issues)"
proof (cases "issues = []")
  case True
  then show ?thesis by (intro exI[of _ "[]"]) (simp add: build_issue_tree_nodes_def)
next
  case False
  from build_issue_tree_nodes_correct[OF False] obtain roots st extra where
    r: "build_issue_tree_nodes issues = Some (sort_nodes roots, bs_issue_map st)" "forest_ok issues roots st"
    "map tn_issue roots = filter (\<lambda>i. valid_parents issues i = {}) issues @ extra" "set extra \<subseteq> set issues"
    "\<forall>i \<in> set extra. (child_edge issues)\<^sup>+\<^sup>+ (issue_id i) (issue_id i)"
    "set (mkeys (bs_issue_map st)) = issue_id ` set issues" by blast
  have ms: "mset (forest_nodes (sort_nodes roots)) = mset (forest_nodes roots)" by (rule mset_forest_nodes) simp
  have set: "set (forest_nodes (sort_nodes roots)) = set (forest_nodes roots)" by (rule mset_eq_setD[OF ms])
  have "distinct (map tn_addr (forest_nodes roots))" using r(2) by (simp add: forest_ok_def)
  moreover have "mset (map tn_addr (forest_nodes (sort_nodes roots))) = mset (map tn_addr (forest_nodes roots))" using ms by simp
  ultimately have addrs: "distinct (map tn_addr (forest_nodes (sort_nodes roots)))" using mset_eq_imp_distinct_iff by blast
  have "extra = [] \<and> mset (map tn_issue (forest_nodes (sort_nodes roots))) = mset issues" if h: "hierarchical issues"
  proof -
    have "\<not> (child_edge issues)\<^sup>+\<^sup>+ x x" for x using h by (simp add: hierarchical_def acyclic_def tranclp_unfold)
    then have "extra = []" using r(5) by (cases extra) auto
    moreover have "mset (map tn_issue (forest_nodes (sort_nodes roots))) = mset (map tn_issue (forest_nodes roots))"
      using ms by simp
    ultimately show ?thesis using forest_hierarchy(2)[OF h r(2) _ r(6)] r(3) by simp
  qed
  moreover have "mset (map tn_issue (sort_nodes roots)) = mset (map tn_issue roots)" by simp
  then have "mset (map tn_issue (sort_nodes roots)) = mset (filter (\<lambda>i. valid_parents issues i = {}) issues) + mset extra"
    unfolding r(3) by simp
  moreover have "\<forall>t \<in> set (sort_nodes roots). built (child_issues issues) {} 0 None t" using r(2) by (simp add: forest_ok_def)
  moreover have "\<forall>k a. mget (bs_issue_map st) k = Some a \<longrightarrow>
      (\<exists>n \<in> set (forest_nodes (sort_nodes roots)). tn_addr n = a \<and> node_id n = k)"
    using r(2) unfolding forest_ok_def set node_id_def by blast
  ultimately show ?thesis
    using r(1,4,5,6) addrs by (intro exI[of _ "sort_nodes roots"] exI[of _ "bs_issue_map st"] exI[of _ extra]) auto
qed

definition demo_child :: "string \<Rightarrow> string list \<Rightarrow> issue" where
  "demo_child k ps = zero_issue\<lparr>issue_id := k, dependencies := map (\<lambda>p. Some \<lparr>dep_issue_id = k, dep_on = p,
     dep_kind = DepParentChild, dep_created_at = 0, dep_created_by = []\<rparr>) ps\<rparr>"

definition demo_family :: "issue list" where
  "demo_family = [demo_child ''b'' [''a''], demo_child ''c'' [''b''], demo_child ''a'' []]"

lemma demo_hierarchical: "hierarchical demo_family"
proof -
  have "child_edge demo_family x y \<longleftrightarrow> (x, y) \<in> {(''a'', ''b''), (''b'', ''c'')}" for x y
    by (auto simp: child_edge_def valid_parents_def demo_family_def demo_child_def zero_issue_def parent_of_dep_def)
  then have e: "{(x, y). child_edge demo_family x y} = {(''a'', ''b''), (''b'', ''c'')}" by auto
  have "acyclic {(''a'', ''b''), (''b'', ''c'')}"
    by (simp add: acyclic_insert rtrancl_insert) (simp add: acyclic_def)
  moreover have "distinct (map issue_id demo_family)" by code_simp
  ultimately show ?thesis
    unfolding hierarchical_def e by (simp add: demo_family_def demo_child_def)
qed

theorem issue_tree_correct_witness:
  "\<exists>roots m. build_issue_tree_nodes demo_family = Some (roots, m) \<and>
     mset (map tn_issue (forest_nodes roots)) = mset demo_family \<and> set (mkeys m) = {''a'', ''b'', ''c''}"
proof -
  have "issue_id ` set demo_family = {''a'', ''b'', ''c''}" by (auto simp: demo_family_def demo_child_def)
  then show ?thesis using issue_tree_correct[of demo_family] demo_hierarchical by metis
qed

text \<open>An issue that is its own parent and two issues that are parents of each other are shown, too.\<close>

lemma cyclic_parents_shown:
  "map_option (\<lambda>(roots, m). map (\<lambda>t. map node_id (tree_nodes t)) roots)
     (build_issue_tree_nodes [demo_child ''d'' [''e''], demo_child ''e'' [''d''], demo_child ''s'' [''s'']]) =
   Some [[''d'', ''e'', ''d''], [''s'', ''s'']]"
  by code_simp

end
