(* ===== verification/Bv_Tree_View.thy ===== *)
theory Bv_Tree_View
  imports Bv_Tree_Props
begin

text \<open>
  \<open>pkg/ui/tree.go\<close>, second part, and \<open>handleTreeKeys\<close> of \<open>pkg/ui/model.go\<close>: the state of the tree view, its
  commands, and the expand state that is kept in a file between sessions.

  \<open>flatList\<close> holds pointers, so it is a list of addresses. The file \<open>tree-state.json\<close> is a field of the
  state: what it decodes to, or \<open>None\<close> when it is missing or no valid JSON; \<open>tm_writable\<close> says whether
  writing it succeeds. Drawing and styles are left out.
\<close>

section \<open>State\<close>

record tree_state =
  ts_version :: int
  ts_expanded :: "(string, bool) gomap"

definition tree_state_version :: int where
  "tree_state_version = 1"

definition default_tree_state :: tree_state where
  "default_tree_state = \<lparr>ts_version = tree_state_version, ts_expanded = []\<rparr>"

record tree_model =
  tm_roots :: "tree_node list"
  tm_flat :: "nat list"
  tm_cursor :: int
  tm_issue_map :: "(string, nat) gomap"
  tm_width :: int
  tm_height :: int
  tm_offset :: int
  tm_built :: bool
  tm_hash :: string
  tm_disk :: "tree_state option"
  tm_writable :: bool

definition new_tree_model :: "tree_state option \<Rightarrow> bool \<Rightarrow> tree_model" where
  "new_tree_model disk writable =
     \<lparr>tm_roots = [], tm_flat = [], tm_cursor = 0, tm_issue_map = [], tm_width = 0, tm_height = 0,
      tm_offset = 0, tm_built = False, tm_hash = [], tm_disk = disk, tm_writable = writable\<rparr>"

section \<open>Expand state\<close>

fun record_expanded :: "tree_node \<Rightarrow> (string, bool) gomap \<Rightarrow> (string, bool) gomap" where
  "record_expanded (TreeNode a i d p e cs) m =
     fold record_expanded cs (if e \<noteq> (d < 2) then mput (issue_id i) e m else m)"

definition save_state :: "tree_model \<Rightarrow> tree_model" where
  "save_state tm =
     (if tm_writable tm
      then tm\<lparr>tm_disk := Some (default_tree_state\<lparr>ts_expanded := fold record_expanded (tm_roots tm) []\<rparr>)\<rparr>
      else tm)"

text \<open>Writing \<open>Expanded\<close> through a pointer, and for a whole subtree.\<close>

fun set_expanded :: "nat \<Rightarrow> bool \<Rightarrow> tree_node \<Rightarrow> tree_node" where
  "set_expanded a b (TreeNode a' i d p e cs) =
     TreeNode a' i d p (if a' = a then b else e) (map (set_expanded a b) cs)"

fun set_expanded_rec :: "bool \<Rightarrow> tree_node \<Rightarrow> tree_node" where
  "set_expanded_rec b (TreeNode a i d p e cs) = TreeNode a i d p b (map (set_expanded_rec b) cs)"

text \<open>The order in which \<open>range\<close> visits the loaded map is the argument \<open>ks\<close>.\<close>

definition apply_entry :: "tree_state \<Rightarrow> string \<Rightarrow> tree_model \<Rightarrow> tree_model" where
  "apply_entry s k tm = (case mget (tm_issue_map tm) k of None \<Rightarrow> tm
     | Some a \<Rightarrow> tm\<lparr>tm_roots := map (set_expanded a (mget_or False (ts_expanded s) k)) (tm_roots tm)\<rparr>)"

definition apply_state :: "string list \<Rightarrow> tree_state \<Rightarrow> tree_model \<Rightarrow> tree_model" where
  "apply_state ks s tm = (if length (ts_expanded s) = 0 then tm else fold (apply_entry s) ks tm)"

definition load_state :: "string list \<Rightarrow> tree_model \<Rightarrow> tree_model" where
  "load_state ks tm =
     (case tm_disk tm of None \<Rightarrow> tm
      | Some s \<Rightarrow> if ts_version s \<noteq> tree_state_version then tm else apply_state ks s tm)"

section \<open>The visible rows\<close>

fun append_visible :: "tree_node \<Rightarrow> nat list \<Rightarrow> nat list" where
  "append_visible (TreeNode a i d p e cs) flat =
     (if e then fold append_visible cs (flat @ [a]) else flat @ [a])"

definition rebuild_flat_list :: "tree_model \<Rightarrow> tree_model" where
  "rebuild_flat_list tm =
     (let flat = fold append_visible (tm_roots tm) [];
          cursor = (if tm_cursor tm \<ge> int (length flat) then int (length flat) - 1 else tm_cursor tm);
          cursor = (if cursor < 0 then 0 else cursor)
      in tm\<lparr>tm_flat := flat, tm_cursor := cursor\<rparr>)"

definition visible_count :: "tree_model \<Rightarrow> int" where
  "visible_count tm = (if tm_height tm \<le> 0 then 20 else tm_height tm)"

definition ensure_cursor_visible :: "tree_model \<Rightarrow> tree_model" where
  "ensure_cursor_visible tm =
     (if length (tm_flat tm) = 0 then tm
      else
        let n = visible_count tm; offset = tm_offset tm;
            offset = (if tm_cursor tm < offset then tm_cursor tm else offset);
            offset = (if tm_cursor tm \<ge> offset + n then tm_cursor tm - n + 1 else offset);
            max_offset = int (length (tm_flat tm)) - n;
            max_offset = (if max_offset < 0 then 0 else max_offset);
            offset = (if offset > max_offset then max_offset else offset);
            offset = (if offset < 0 then 0 else offset)
        in tm\<lparr>tm_offset := offset\<rparr>)"

definition visible_range :: "tree_model \<Rightarrow> int \<times> int" where
  "visible_range tm =
     (let n = int (length (tm_flat tm)) in
      if n = 0 then (0, 0)
      else
        let start = (if tm_offset tm < 0 then 0 else tm_offset tm); last = start + visible_count tm in
        if last > n then (if n - visible_count tm < 0 then 0 else n - visible_count tm, n) else (start, last))"

section \<open>Selection\<close>

definition node_at :: "tree_node list \<Rightarrow> nat \<Rightarrow> tree_node option" where
  "node_at roots a = find (\<lambda>n. tn_addr n = a) (forest_nodes roots)"

definition selected_node :: "tree_model \<Rightarrow> tree_node option" where
  "selected_node tm =
     (if tm_cursor tm \<ge> 0 \<and> tm_cursor tm < int (length (tm_flat tm))
      then node_at (tm_roots tm) (tm_flat tm ! nat (tm_cursor tm)) else None)"

definition selected_id :: "tree_model \<Rightarrow> string" where
  "selected_id tm = (case selected_node tm of None \<Rightarrow> [] | Some n \<Rightarrow> node_id n)"

fun find_index :: "('a \<Rightarrow> bool) \<Rightarrow> 'a list \<Rightarrow> nat option" where
  "find_index P [] = None"
| "find_index P (x # xs) = (if P x then Some 0 else map_option Suc (find_index P xs))"

definition shows_id :: "tree_model \<Rightarrow> string \<Rightarrow> nat \<Rightarrow> bool" where
  "shows_id tm k a = (case node_at (tm_roots tm) a of None \<Rightarrow> False | Some n \<Rightarrow> node_id n = k)"

definition select_by_id :: "string \<Rightarrow> tree_model \<Rightarrow> tree_model \<times> bool" where
  "select_by_id k tm = (case find_index (shows_id tm k) (tm_flat tm) of None \<Rightarrow> (tm, False)
     | Some i \<Rightarrow> (tm\<lparr>tm_cursor := int i\<rparr>, True))"

section \<open>Building\<close>

definition set_size :: "int \<Rightarrow> int \<Rightarrow> tree_model \<Rightarrow> tree_model" where
  "set_size width height tm = tm\<lparr>tm_width := width, tm_height := height\<rparr>"

definition build_tree :: "string list \<Rightarrow> issue list \<Rightarrow> tree_model \<Rightarrow> tree_model option" where
  "build_tree ks issues tm =
     (let tm = tm\<lparr>tm_roots := [], tm_flat := [], tm_issue_map := [], tm_cursor := 0\<rparr> in
      if length issues = 0 then Some (tm\<lparr>tm_built := True\<rparr>)
      else case build_issue_tree_nodes issues of
        None \<Rightarrow> None
      | Some (roots, m) \<Rightarrow>
          Some ((rebuild_flat_list (load_state ks (tm\<lparr>tm_roots := roots, tm_issue_map := m\<rparr>)))\<lparr>tm_built := True\<rparr>))"

record data_snapshot =
  sn_issues :: "issue list"
  sn_tree_roots :: "tree_node list"
  sn_tree_map :: "(string, nat) gomap option"
  sn_hash :: string

definition load_snapshot :: "string list \<Rightarrow> data_snapshot \<Rightarrow> tree_model \<Rightarrow> tree_model" where
  "load_snapshot ks sn tm =
     (rebuild_flat_list (load_state ks
        (tm\<lparr>tm_roots := sn_tree_roots sn, tm_issue_map := the (sn_tree_map sn)\<rparr>)))
     \<lparr>tm_built := True, tm_hash := sn_hash sn\<rparr>"

definition restore_selection :: "string \<Rightarrow> tree_model \<Rightarrow> tree_model" where
  "restore_selection k tm =
     (if k \<noteq> [] then (case find_index (shows_id tm k) (tm_flat tm) of None \<Rightarrow> tm
        | Some i \<Rightarrow> ensure_cursor_visible (tm\<lparr>tm_cursor := int i\<rparr>))
      else tm)"

definition build_from_snapshot :: "string list \<Rightarrow> data_snapshot \<Rightarrow> tree_model \<Rightarrow> tree_model option" where
  "build_from_snapshot ks sn tm =
     (if tm_built tm \<and> sn_hash sn \<noteq> [] \<and> tm_hash tm = sn_hash sn then Some tm
      else
        let prev = selected_id tm in
        if length (sn_tree_roots sn) = 0 \<or> sn_tree_map sn = None
        then map_option (\<lambda>tm. tm\<lparr>tm_hash := sn_hash sn\<rparr>) (build_tree ks (sn_issues sn)
          (tm\<lparr>tm_roots := sn_tree_roots sn, tm_issue_map := (case sn_tree_map sn of None \<Rightarrow> [] | Some m \<Rightarrow> m)\<rparr>))
        else Some (restore_selection prev (load_snapshot ks sn tm)))"

section \<open>Commands\<close>

definition move_down :: "tree_model \<Rightarrow> tree_model" where
  "move_down tm = (if tm_cursor tm < int (length (tm_flat tm)) - 1
     then ensure_cursor_visible (tm\<lparr>tm_cursor := tm_cursor tm + 1\<rparr>) else tm)"

definition move_up :: "tree_model \<Rightarrow> tree_model" where
  "move_up tm = (if tm_cursor tm > 0 then ensure_cursor_visible (tm\<lparr>tm_cursor := tm_cursor tm - 1\<rparr>) else tm)"

text \<open>What every change of the expand state ends with.\<close>

definition after_expand :: "tree_model \<Rightarrow> tree_model" where
  "after_expand tm = ensure_cursor_visible (save_state (rebuild_flat_list tm))"

definition put_expanded :: "nat \<Rightarrow> bool \<Rightarrow> tree_model \<Rightarrow> tree_model" where
  "put_expanded a b tm = tm\<lparr>tm_roots := map (set_expanded a b) (tm_roots tm)\<rparr>"

definition toggle_expand :: "tree_model \<Rightarrow> tree_model" where
  "toggle_expand tm = (case selected_node tm of None \<Rightarrow> tm
     | Some n \<Rightarrow> if length (tn_children n) > 0
         then after_expand (put_expanded (tn_addr n) (\<not> tn_expanded n) tm) else tm)"

definition expand_all :: "tree_model \<Rightarrow> tree_model" where
  "expand_all tm = after_expand (tm\<lparr>tm_roots := map (set_expanded_rec True) (tm_roots tm)\<rparr>)"

definition collapse_all :: "tree_model \<Rightarrow> tree_model" where
  "collapse_all tm = after_expand (tm\<lparr>tm_roots := map (set_expanded_rec False) (tm_roots tm)\<rparr>)"

definition jump_to_top :: "tree_model \<Rightarrow> tree_model" where
  "jump_to_top tm = ensure_cursor_visible (tm\<lparr>tm_cursor := 0\<rparr>)"

definition jump_to_bottom :: "tree_model \<Rightarrow> tree_model" where
  "jump_to_bottom tm = (if length (tm_flat tm) > 0
     then ensure_cursor_visible (tm\<lparr>tm_cursor := int (length (tm_flat tm)) - 1\<rparr>) else tm)"

definition jump_to :: "nat \<Rightarrow> tree_model \<Rightarrow> tree_model" where
  "jump_to a tm = (case find_index (\<lambda>b. b = a) (tm_flat tm) of None \<Rightarrow> tm
     | Some i \<Rightarrow> ensure_cursor_visible (tm\<lparr>tm_cursor := int i\<rparr>))"

definition jump_to_parent :: "tree_model \<Rightarrow> tree_model" where
  "jump_to_parent tm = (case selected_node tm of None \<Rightarrow> tm
     | Some n \<Rightarrow> (case tn_parent n of None \<Rightarrow> tm | Some p \<Rightarrow> jump_to p tm))"

definition expand_or_move_to_child :: "tree_model \<Rightarrow> tree_model" where
  "expand_or_move_to_child tm = (case selected_node tm of None \<Rightarrow> tm
     | Some n \<Rightarrow> if length (tn_children n) = 0 then tm
         else if \<not> tn_expanded n then after_expand (put_expanded (tn_addr n) True tm)
         else jump_to (tn_addr (tn_children n ! 0)) tm)"

definition collapse_or_jump_to_parent :: "tree_model \<Rightarrow> tree_model" where
  "collapse_or_jump_to_parent tm = (case selected_node tm of None \<Rightarrow> tm
     | Some n \<Rightarrow> if length (tn_children n) > 0 \<and> tn_expanded n
         then after_expand (put_expanded (tn_addr n) False tm) else jump_to_parent tm)"

definition page_size :: "tree_model \<Rightarrow> int" where
  "page_size tm = (if tm_height tm div 2 < 1 then 5 else tm_height tm div 2)"

definition page_down :: "tree_model \<Rightarrow> tree_model" where
  "page_down tm =
     (let cursor = tm_cursor tm + page_size tm;
          cursor = (if cursor \<ge> int (length (tm_flat tm)) then int (length (tm_flat tm)) - 1 else cursor);
          cursor = (if cursor < 0 then 0 else cursor)
      in ensure_cursor_visible (tm\<lparr>tm_cursor := cursor\<rparr>))"

definition page_up :: "tree_model \<Rightarrow> tree_model" where
  "page_up tm =
     (let cursor = tm_cursor tm - page_size tm; cursor = (if cursor < 0 then 0 else cursor)
      in ensure_cursor_visible (tm\<lparr>tm_cursor := cursor\<rparr>))"

text \<open>The keys of the tree view. Other keys leave the tree alone.\<close>

definition handle_tree_keys :: "string \<Rightarrow> tree_model \<Rightarrow> tree_model" where
  "handle_tree_keys key tm =
     (if key = ''j'' \<or> key = ''down'' then move_down tm
      else if key = ''k'' \<or> key = ''up'' then move_up tm
      else if key = ''enter'' \<or> key = '' '' then toggle_expand tm
      else if key = ''h'' \<or> key = ''left'' then collapse_or_jump_to_parent tm
      else if key = ''l'' \<or> key = ''right'' then expand_or_move_to_child tm
      else if key = ''G'' then jump_to_bottom tm
      else if key = ''o'' then expand_all tm
      else if key = ''O'' then collapse_all tm
      else if key = ''ctrl+d'' \<or> key = ''pgdown'' then page_down tm
      else if key = ''ctrl+u'' \<or> key = ''pgup'' then page_up tm
      else tm)"

text \<open>\<open>Update\<close> gives its keys to the handler while the tree has the focus, but it handles the key \<open>g\<close> pressed twice
  within a short time itself, which is the key \<open>gg\<close> here.\<close>

definition tree_view_key :: "string \<Rightarrow> tree_model \<Rightarrow> tree_model" where
  "tree_view_key key tm = (if key = ''gg'' then jump_to_top tm else handle_tree_keys key tm)"

end
