(* ===== verification/Bv_Tree_View_Props.thy ===== *)
theory Bv_Tree_View_Props
  imports Bv_Tree_View
begin

text \<open>
  The tree view in use: its rows are always the visible part of the tree, the selection stays a row, a
  command that does something leaves the selection on the screen, and going into a subtree and out
  again leads back.
\<close>

section \<open>The shape of the forest\<close>

fun linked :: "nat option \<Rightarrow> tree_node \<Rightarrow> bool" where
  "linked q (TreeNode a i d p e cs) \<longleftrightarrow> p = q \<and> (\<forall>c \<in> set cs. linked (Some a) c)"

definition shape_ok :: "tree_node list \<Rightarrow> bool" where
  "shape_ok roots \<longleftrightarrow> distinct (map tn_addr (forest_nodes roots)) \<and> (\<forall>t \<in> set roots. linked None t)"

lemma built_linked: "built ch V d p t \<Longrightarrow> linked p t"
proof (induction t arbitrary: V d p)
  case (TreeNode a i d' p' e cs)
  then show ?case by (cases "issue_id i \<in> V") auto
qed

lemma build_shape: "build_issue_tree_nodes issues = Some (roots, m) \<Longrightarrow> shape_ok roots"
proof (cases "issues = []")
  case False
  assume b: "build_issue_tree_nodes issues = Some (roots, m)"
  obtain ts st where t: "build_issue_tree_nodes issues = Some (sort_nodes ts, bs_issue_map st)" "forest_ok issues ts st"
    using build_issue_tree_nodes_correct[OF False] by blast
  have "mset (map tn_addr (forest_nodes (sort_nodes ts))) = mset (map tn_addr (forest_nodes ts))"
    using mset_forest_nodes[of "sort_nodes ts" ts] by simp
  from mset_eq_imp_distinct_iff[OF this] have "distinct (map tn_addr (forest_nodes (sort_nodes ts)))"
    using t(2) by (simp add: forest_ok_def)
  moreover have "\<forall>n \<in> set (sort_nodes ts). linked None n" using t(2) built_linked by (auto simp: forest_ok_def)
  ultimately have "shape_ok (sort_nodes ts)" unfolding shape_ok_def by blast
  then show "shape_ok roots" using b t(1) by simp
qed (simp add: build_issue_tree_nodes_def shape_ok_def)

lemma addrs_set_expanded [simp]:
  "map tn_addr (tree_nodes (set_expanded a b t)) = map tn_addr (tree_nodes t)"
  "linked p (set_expanded a b t) = linked p t"
  by (induction t arbitrary: p) (simp_all add: forest_nodes_def map_concat comp_def cong: map_cong)

lemma addrs_set_expanded_rec [simp]:
  "map tn_addr (tree_nodes (set_expanded_rec b t)) = map tn_addr (tree_nodes t)"
  "linked p (set_expanded_rec b t) = linked p t"
  by (induction t arbitrary: p) (simp_all add: forest_nodes_def map_concat comp_def cong: map_cong)

lemma shape_ok_map:
  assumes "\<And>t. map tn_addr (tree_nodes (f t)) = map tn_addr (tree_nodes t)" "\<And>p t. linked p (f t) = linked p t"
  shows "shape_ok (map f roots) = shape_ok roots"
proof -
  have "map tn_addr (forest_nodes (map f roots)) = map tn_addr (forest_nodes roots)"
    by (simp add: forest_nodes_def map_concat comp_def assms)
  then show ?thesis by (simp add: shape_ok_def assms(2))
qed

lemma shape_ok_set_expanded [simp]:
  "shape_ok (map (set_expanded a b) roots) = shape_ok roots"
  "shape_ok (map (set_expanded_rec b) roots) = shape_ok roots"
  by (simp_all add: shape_ok_map)

section \<open>The visible rows\<close>

fun visible :: "tree_node \<Rightarrow> nat list" where
  "visible (TreeNode a i d p e cs) = a # (if e then concat (map visible cs) else [])"

definition visible_rows :: "tree_node list \<Rightarrow> nat list" where
  "visible_rows ts = concat (map visible ts)"

lemma visible_rows_simps [simp]:
  "visible_rows [] = []" "visible_rows (t # ts) = visible t @ visible_rows ts"
  by (simp_all add: visible_rows_def)

lemma append_visible_eq: "append_visible t flat = flat @ visible t"
proof (induction t arbitrary: flat)
  case (TreeNode a i d p e cs)
  have "fold append_visible cs flat = flat @ concat (map visible cs)" for flat
    using TreeNode by (induction cs arbitrary: flat) auto
  then show ?case by simp
qed

lemma fold_append_visible: "fold append_visible ts flat = flat @ visible_rows ts"
  by (induction ts arbitrary: flat) (simp_all add: append_visible_eq)

lemma visible_subset: "set (visible t) \<subseteq> tn_addr ` set (tree_nodes t)"
  by (induction t) (auto simp: forest_nodes_def)

lemma distinct_visible: "distinct (map tn_addr (tree_nodes t)) \<Longrightarrow> distinct (visible t)"
proof (induction t)
  case (TreeNode a i d p e cs)
  have "distinct (map tn_addr (forest_nodes cs)) \<Longrightarrow> (\<forall>c \<in> set cs. distinct (map tn_addr (tree_nodes c)) \<longrightarrow> distinct (visible c))
     \<Longrightarrow> distinct (concat (map visible cs))"
  proof (induction cs)
    case (Cons c cs)
    have "set (concat (map visible cs)) \<subseteq> tn_addr ` set (forest_nodes cs)"
      using visible_subset by (fastforce simp: forest_nodes_def)
    moreover have "tn_addr ` set (tree_nodes c) \<inter> tn_addr ` set (forest_nodes cs) = {}" using Cons.prems(1) by simp
    ultimately have "set (visible c) \<inter> set (concat (map visible cs)) = {}" using visible_subset[of c] by blast
    moreover have "distinct (visible c)" "distinct (concat (map visible cs))" using Cons by simp_all
    ultimately show ?case by simp
  qed simp
  moreover have "set (concat (map visible cs)) \<subseteq> tn_addr ` set (forest_nodes cs)"
    using visible_subset by (fastforce simp: forest_nodes_def)
  ultimately show ?case using TreeNode by auto
qed

lemma visible_rows_subset: "set (visible_rows ts) \<subseteq> tn_addr ` set (forest_nodes ts)"
  using visible_subset by (fastforce simp: visible_rows_def forest_nodes_def)

lemma distinct_visible_rows: "distinct (map tn_addr (forest_nodes ts)) \<Longrightarrow> distinct (visible_rows ts)"
proof (induction ts)
  case (Cons t ts)
  then show ?case using visible_subset[of t] visible_rows_subset[of ts] distinct_visible[of t] by auto
qed simp

section \<open>The invariant\<close>

definition view_ok :: "tree_model \<Rightarrow> bool" where
  "view_ok tm \<longleftrightarrow> shape_ok (tm_roots tm) \<and> tm_flat tm = visible_rows (tm_roots tm) \<and> 0 \<le> tm_cursor tm \<and>
     (if tm_flat tm = [] then tm_cursor tm = 0 else tm_cursor tm < int (length (tm_flat tm)))"

text \<open>The selected row is one of the rows that are drawn.\<close>

definition on_screen :: "tree_model \<Rightarrow> bool" where
  "on_screen tm \<longleftrightarrow> tm_flat tm = [] \<or>
     (case visible_range tm of (start, stop) \<Rightarrow> start \<le> tm_cursor tm \<and> tm_cursor tm < stop)"

lemma visible_range_bounds:
  assumes "visible_range tm = (start, stop)"
  shows "0 \<le> start" "start \<le> stop" "stop \<le> int (length (tm_flat tm))"
    "stop - start = min (int (length (tm_flat tm))) (visible_count tm)"
proof -
  have "visible_count tm > 0" by (simp add: visible_count_def)
  then show "0 \<le> start" "start \<le> stop" "stop \<le> int (length (tm_flat tm))"
    "stop - start = min (int (length (tm_flat tm))) (visible_count tm)"
    using assms by (auto simp: visible_range_def Let_def split: if_splits)
qed

lemma ensure_fields [simp]:
  "tm_roots (ensure_cursor_visible tm) = tm_roots tm" "tm_flat (ensure_cursor_visible tm) = tm_flat tm"
  "tm_cursor (ensure_cursor_visible tm) = tm_cursor tm" "tm_issue_map (ensure_cursor_visible tm) = tm_issue_map tm"
  "tm_height (ensure_cursor_visible tm) = tm_height tm" "tm_disk (ensure_cursor_visible tm) = tm_disk tm"
  "tm_writable (ensure_cursor_visible tm) = tm_writable tm" "view_ok (ensure_cursor_visible tm) = view_ok tm"
  by (simp_all add: ensure_cursor_visible_def view_ok_def Let_def)

lemma ensure_on_screen:
  assumes "view_ok tm"
  shows "on_screen (ensure_cursor_visible tm)"
proof (cases "tm_flat tm = []")
  case False
  have "visible_count tm > 0" by (simp add: visible_count_def)
  moreover have "visible_count (ensure_cursor_visible tm) = visible_count tm" by (simp add: visible_count_def)
  ultimately show ?thesis
    using assms False by (simp add: on_screen_def visible_range_def Let_def view_ok_def)
      (auto simp: ensure_cursor_visible_def Let_def)
qed (simp add: on_screen_def)

lemma save_fields [simp]:
  "tm_roots (save_state tm) = tm_roots tm" "tm_flat (save_state tm) = tm_flat tm" "tm_cursor (save_state tm) = tm_cursor tm"
  "tm_issue_map (save_state tm) = tm_issue_map tm" "tm_writable (save_state tm) = tm_writable tm"
  "view_ok (save_state tm) = view_ok tm"
  by (simp_all add: save_state_def view_ok_def)

lemma rebuild_fields [simp]:
  "tm_roots (rebuild_flat_list tm) = tm_roots tm" "tm_flat (rebuild_flat_list tm) = visible_rows (tm_roots tm)"
  "tm_issue_map (rebuild_flat_list tm) = tm_issue_map tm" "tm_writable (rebuild_flat_list tm) = tm_writable tm"
  "tm_disk (rebuild_flat_list tm) = tm_disk tm"
  by (simp_all add: rebuild_flat_list_def fold_append_visible Let_def)

lemma rebuild_ok: "shape_ok (tm_roots tm) \<Longrightarrow> view_ok (rebuild_flat_list tm)"
  by (auto simp: view_ok_def) (auto simp: rebuild_flat_list_def fold_append_visible Let_def)

lemma after_expand_ok: "shape_ok (tm_roots tm) \<Longrightarrow> \<exists>tm'. view_ok tm' \<and> after_expand tm = ensure_cursor_visible tm'"
  unfolding after_expand_def using rebuild_ok by (intro exI[of _ "save_state (rebuild_flat_list tm)"]) simp

lemma find_index_Some: "find_index P xs = Some i \<Longrightarrow> i < length xs \<and> P (xs ! i)"
  by (induction xs arbitrary: i) (auto split: if_splits)

lemma move_ok:
  "view_ok tm \<Longrightarrow> 0 \<le> c \<Longrightarrow> c < int (length (tm_flat tm)) \<Longrightarrow>
     \<exists>tm'. view_ok tm' \<and> ensure_cursor_visible (tm\<lparr>tm_cursor := c\<rparr>) = ensure_cursor_visible tm'"
  by (intro exI[of _ "tm\<lparr>tm_cursor := c\<rparr>"]) (auto simp: view_ok_def)

definition effective :: "tree_model \<Rightarrow> tree_model \<Rightarrow> bool" where
  "effective tm tm' \<longleftrightarrow> tm' = tm \<or> (\<exists>u. view_ok u \<and> tm' = ensure_cursor_visible u)"

lemma effectiveI: "\<exists>u. view_ok u \<and> tm' = ensure_cursor_visible u \<Longrightarrow> effective tm tm'"
  by (simp add: effective_def)

lemma effective_ensure: "view_ok u \<Longrightarrow> effective tm (ensure_cursor_visible u)"
  by (auto simp: effective_def)

lemma effective_same [simp]: "effective tm tm"
  by (simp add: effective_def)

lemma effective_after_expand: "shape_ok (tm_roots u) \<Longrightarrow> effective tm (after_expand u)"
  using after_expand_ok by (rule effectiveI)

lemma jump_to_effective: "view_ok tm \<Longrightarrow> effective tm (jump_to a tm)"
  unfolding jump_to_def
  by (auto split: option.split dest!: find_index_Some intro!: effective_ensure simp: view_ok_def)

lemma keys_effective:
  assumes ok: "view_ok tm"
  shows "effective tm (tree_view_key key tm)"
proof -
  have shape: "shape_ok (tm_roots tm)" using ok by (simp add: view_ok_def)
  have put: "effective tm (after_expand (put_expanded a b tm))" for a b
    using shape by (intro effective_after_expand) (simp add: put_expanded_def)
  have parent: "effective tm (jump_to_parent tm)"
    using jump_to_effective[OF ok] by (simp add: jump_to_parent_def split: option.split)
  have "effective tm (move_down tm)" "effective tm (move_up tm)" "effective tm (jump_to_bottom tm)"
    using ok by (auto simp: move_down_def move_up_def jump_to_bottom_def view_ok_def intro!: effective_ensure)
  moreover have "effective tm (jump_to_top tm)" "effective tm (page_down tm)" "effective tm (page_up tm)"
    using ok by (auto simp: jump_to_top_def page_down_def page_up_def page_size_def Let_def view_ok_def intro!: effective_ensure)
  moreover have "effective tm (expand_all tm)" "effective tm (collapse_all tm)"
    using shape by (simp_all add: expand_all_def collapse_all_def effective_after_expand)
  moreover have "effective tm (toggle_expand tm)" "effective tm (expand_or_move_to_child tm)"
    "effective tm (collapse_or_jump_to_parent tm)"
    using put parent jump_to_effective[OF ok]
    by (simp_all add: toggle_expand_def expand_or_move_to_child_def collapse_or_jump_to_parent_def split: option.split)
  ultimately show ?thesis by (simp add: tree_view_key_def handle_tree_keys_def)
qed

section \<open>All runs\<close>

lemma load_state_roots:
  "\<exists>f. tm_roots (load_state ks tm) = map f (tm_roots tm) \<and>
     (\<forall>t. map tn_addr (tree_nodes (f t)) = map tn_addr (tree_nodes t)) \<and> (\<forall>p t. linked p (f t) = linked p t)"
proof -
  let ?P = "\<lambda>tm'. \<exists>f. tm_roots tm' = map f (tm_roots tm) \<and>
     (\<forall>t. map tn_addr (tree_nodes (f t)) = map tn_addr (tree_nodes t)) \<and> (\<forall>p t. linked p (f t) = linked p t)"
  have "?P tm" by (intro exI[of _ "\<lambda>t. t"]) simp
  moreover have step: "?P (apply_entry st k u)" if P: "?P u" for st u k
  proof (cases "mget (tm_issue_map u) k")
    case (Some a)
    from P obtain f where "tm_roots u = map f (tm_roots tm)"
      "\<forall>t. map tn_addr (tree_nodes (f t)) = map tn_addr (tree_nodes t)" "\<forall>p t. linked p (f t) = linked p t" by blast
    then show ?thesis
      using Some by (intro exI[of _ "set_expanded a (mget_or False (ts_expanded st) k) \<circ> f"]) (simp add: apply_entry_def)
  qed (use P in \<open>simp add: apply_entry_def\<close>)
  have "?P (fold (apply_entry st) ks u)" if "?P u" for st u
    using that
  proof (induction ks arbitrary: u)
    case (Cons k ks)
    show ?case unfolding fold_Cons comp_apply by (rule Cons.IH) (rule step[OF Cons.prems])
  qed simp
  ultimately show ?thesis by (simp add: load_state_def apply_state_def split: option.split)
qed

lemma load_state_shape: "shape_ok (tm_roots (load_state ks tm)) = shape_ok (tm_roots tm)"
  using load_state_roots[of ks tm] by (metis shape_ok_map)

text \<open>A snapshot comes with its tree or without one.\<close>

definition snapshot_ok :: "data_snapshot \<Rightarrow> bool" where
  "snapshot_ok sn \<longleftrightarrow> sn_tree_roots sn = [] \<and> sn_tree_map sn = None \<or>
     (case sn_tree_map sn of None \<Rightarrow> False
      | Some m \<Rightarrow> build_issue_tree_nodes (sn_issues sn) = Some (sn_tree_roots sn, m))"

lemma view_ok_hash [simp]:
  "view_ok (tm\<lparr>tm_hash := h\<rparr>) = view_ok tm" "view_ok (tm\<lparr>tm_built := b\<rparr>) = view_ok tm"
  "view_ok (set_size w h' tm) = view_ok tm"
  by (simp_all add: view_ok_def set_size_def)

lemma view_ok_cursor: "view_ok u \<Longrightarrow> i < length (tm_flat u) \<Longrightarrow> view_ok (u\<lparr>tm_cursor := int i\<rparr>)"
  by (auto simp: view_ok_def)

lemma load_view_ok:
  "shape_ok roots \<Longrightarrow> view_ok (rebuild_flat_list (load_state ks (tm\<lparr>tm_roots := roots, tm_issue_map := m\<rparr>)))"
  by (intro rebuild_ok) (simp add: load_state_shape)

lemma build_ok: "\<exists>tm'. build_tree ks issues tm = Some tm' \<and> view_ok tm'"
proof (cases "issues = []")
  case False
  obtain roots m where b: "build_issue_tree_nodes issues = Some (roots, m)"
    using build_issue_tree_nodes_correct[OF False] by blast
  then have "shape_ok roots" by (rule build_shape)
  then show ?thesis using False b load_view_ok by (simp add: build_tree_def)
qed (simp add: build_tree_def view_ok_def shape_ok_def)

lemma load_snapshot_ok:
  assumes "snapshot_ok sn" "sn_tree_map sn \<noteq> None"
  shows "view_ok (load_snapshot ks sn tm)"
proof -
  have "shape_ok (sn_tree_roots sn)" using assms build_shape by (auto simp: snapshot_ok_def split: option.splits)
  then show ?thesis unfolding load_snapshot_def view_ok_hash by (rule load_view_ok)
qed

lemma restore_selection_ok: "view_ok tm \<Longrightarrow> view_ok (restore_selection k tm)"
  using find_index_Some[of "shows_id tm k" "tm_flat tm"] view_ok_cursor[of tm]
  by (simp add: restore_selection_def split: option.split)

lemma build_from_snapshot_ok:
  assumes "snapshot_ok sn" "view_ok tm"
  shows "\<exists>tm'. build_from_snapshot ks sn tm = Some tm' \<and> view_ok tm'"
proof -
  have "\<exists>tm'. map_option (\<lambda>tm. tm\<lparr>tm_hash := h\<rparr>) (build_tree ks issues u) = Some tm' \<and> view_ok tm'" for issues u h
    using build_ok[of ks issues u] by auto
  moreover have "view_ok (restore_selection k (load_snapshot ks sn tm))" if "sn_tree_map sn \<noteq> None" for k
    by (intro restore_selection_ok load_snapshot_ok assms(1) that)
  ultimately show ?thesis using assms(2) by (simp add: build_from_snapshot_def Let_def)
qed

inductive tree_reachable :: "tree_model \<Rightarrow> bool" where
  start: "tree_reachable (new_tree_model disk writable)"
| key: "tree_reachable tm \<Longrightarrow> tree_reachable (tree_view_key k tm)"
| size: "tree_reachable tm \<Longrightarrow> tree_reachable (set_size w h tm)"
| issues: "tree_reachable tm \<Longrightarrow> build_tree ks issues tm = Some tm' \<Longrightarrow> tree_reachable tm'"
| snapshot: "tree_reachable tm \<Longrightarrow> snapshot_ok sn \<Longrightarrow> build_from_snapshot ks sn tm = Some tm' \<Longrightarrow> tree_reachable tm'"

lemma effective_ok: "view_ok tm \<Longrightarrow> effective tm tm' \<Longrightarrow> view_ok tm' \<and> (tm' = tm \<or> on_screen tm')"
  by (auto simp: effective_def ensure_on_screen)

lemma reachable_ok: "tree_reachable tm \<Longrightarrow> view_ok tm"
proof (induction rule: tree_reachable.induct)
  case (start disk writable)
  show ?case by (simp add: view_ok_def shape_ok_def new_tree_model_def)
next
  case (key tm k)
  then show ?case using effective_ok keys_effective by blast
next
  case (issues tm ks xs tm')
  then show ?case using build_ok[of ks xs tm] by auto
next
  case (snapshot tm sn ks tm')
  then show ?case using build_from_snapshot_ok[of sn tm ks] by auto
qed simp

section \<open>The selected node\<close>

fun visible_nodes :: "tree_node \<Rightarrow> tree_node list" where
  "visible_nodes (TreeNode a i d p e cs) = TreeNode a i d p e cs # (if e then concat (map visible_nodes cs) else [])"

lemma visible_eq: "visible t = map tn_addr (visible_nodes t)"
  by (induction t) (simp add: map_concat comp_def cong: map_cong)

lemma visible_nodes_subset: "set (visible_nodes t) \<subseteq> set (tree_nodes t)"
  by (induction t) (auto simp: forest_nodes_def)

lemma visible_rows_nodes: "visible_rows ts = map tn_addr (concat (map visible_nodes ts))"
  by (simp add: visible_rows_def visible_eq[abs_def] map_concat comp_def)

lemma node_at_Some:
  assumes "distinct (map tn_addr (forest_nodes roots))"
  shows "node_at roots a = Some n \<longleftrightarrow> n \<in> set (forest_nodes roots) \<and> tn_addr n = a"
proof -
  have "find (\<lambda>n. tn_addr n = a) ns = Some n \<longleftrightarrow> n \<in> set ns \<and> tn_addr n = a" if "distinct (map tn_addr ns)" for ns
    using that by (induction ns) (auto simp: image_iff)
  then show ?thesis using assms by (simp add: node_at_def)
qed

lemma row_node:
  assumes "distinct (map tn_addr (forest_nodes roots))" "a \<in> set (visible_rows roots)"
  shows "\<exists>n t. node_at roots a = Some n \<and> tn_addr n = a \<and> t \<in> set roots \<and> n \<in> set (visible_nodes t)"
proof -
  obtain t n where t: "t \<in> set roots" "n \<in> set (visible_nodes t)" "tn_addr n = a"
    using assms(2) unfolding visible_rows_nodes by auto
  then have "n \<in> set (forest_nodes roots)" using visible_nodes_subset by (fastforce simp: forest_nodes_def)
  then show ?thesis using t node_at_Some[OF assms(1)] by blast
qed

lemma view_okD:
  assumes "view_ok tm"
  shows "shape_ok (tm_roots tm)" "distinct (map tn_addr (forest_nodes (tm_roots tm)))"
    "tm_flat tm = visible_rows (tm_roots tm)" "distinct (tm_flat tm)"
    "tm_flat tm \<noteq> [] \<Longrightarrow> 0 \<le> tm_cursor tm \<and> tm_cursor tm < int (length (tm_flat tm))"
  using assms distinct_visible_rows[of "tm_roots tm"] by (auto simp: view_ok_def shape_ok_def)

lemma selected_row:
  assumes ok: "view_ok tm"
  shows "selected_node tm = Some n \<longleftrightarrow>
    n \<in> set (forest_nodes (tm_roots tm)) \<and> tm_flat tm \<noteq> [] \<and> tm_flat tm ! nat (tm_cursor tm) = tn_addr n"
proof (cases "tm_flat tm = []")
  case False
  then show ?thesis using view_okD(5)[OF ok] node_at_Some[OF view_okD(2)[OF ok]] by (auto simp: selected_node_def)
qed (auto simp: selected_node_def)

lemma selected_exists:
  assumes ok: "view_ok tm" and "tm_flat tm \<noteq> []"
  shows "\<exists>n t. selected_node tm = Some n \<and> t \<in> set (tm_roots tm) \<and> n \<in> set (visible_nodes t)"
proof -
  have "tm_flat tm ! nat (tm_cursor tm) \<in> set (visible_rows (tm_roots tm))"
    using view_okD(5)[OF ok assms(2)] view_okD(3)[OF ok] nth_mem by force
  from row_node[OF view_okD(2)[OF ok] this] show ?thesis
    using view_okD(5)[OF ok assms(2)] by (auto simp: selected_node_def)
qed

lemma find_index_exists: "find_index P xs = None \<longleftrightarrow> (\<forall>x \<in> set xs. \<not> P x)"
  by (induction xs) auto

lemma select_shows:
  assumes "view_ok tm" "find_index (shows_id tm k) (tm_flat tm) = Some i"
  shows "selected_id (ensure_cursor_visible (tm\<lparr>tm_cursor := int i\<rparr>)) = k"
  using find_index_Some[OF assms(2)] by (auto simp: selected_id_def selected_node_def shows_id_def split: option.splits)

lemma snapshot_keeps_selection:
  assumes "snapshot_ok sn" "sn_tree_roots sn \<noteq> []" "build_from_snapshot ks sn tm = Some tm'"
    "a \<in> set (tm_flat tm')" "shows_id tm' (selected_id tm) a" "selected_id tm \<noteq> []"
  shows "selected_id tm' = selected_id tm"
proof (cases "tm_built tm \<and> sn_hash sn \<noteq> [] \<and> tm_hash tm = sn_hash sn")
  case True
  then show ?thesis using assms(3) by (simp add: build_from_snapshot_def)
next
  case False
  have m: "sn_tree_map sn \<noteq> None" using assms(1,2) by (cases "sn_tree_map sn") (auto simp: snapshot_ok_def)
  define u where "u = load_snapshot ks sn tm"
  have u: "view_ok u" unfolding u_def by (rule load_snapshot_ok[OF assms(1) m])
  have tm': "tm' = restore_selection (selected_id tm) u"
    using assms(2,3) m False unfolding build_from_snapshot_def Let_def u_def by simp
  have same: "tm_roots tm' = tm_roots u" "tm_flat tm' = tm_flat u"
    unfolding tm' by (simp_all add: restore_selection_def split: option.split)
  then have "shows_id u (selected_id tm) a" "a \<in> set (tm_flat u)" using assms(4,5) by (simp_all add: shows_id_def)
  then have "find_index (shows_id u (selected_id tm)) (tm_flat u) \<noteq> None" unfolding find_index_exists by blast
  then obtain i where i: "find_index (shows_id u (selected_id tm)) (tm_flat u) = Some i" by blast
  then show ?thesis using select_shows[OF u i] assms(6) unfolding tm' by (simp add: restore_selection_def)
qed

text \<open>C23: In every run of the tree view, over any data, snapshots, window sizes and keys, the rows are exactly the
  visible part of the tree, each once, the selection is one of them, and the range that is drawn lies
  within the rows and fills the window. A key either does nothing or leaves the selection on the screen.
  Building always returns, and a snapshot that comes with its tree keeps the selected issue selected
  while it is still a row.\<close>

theorem tree_view_invariant:
  assumes "tree_reachable tm"
  shows "tm_flat tm = visible_rows (tm_roots tm) \<and> distinct (tm_flat tm) \<and>
    (if tm_flat tm = [] then tm_cursor tm = 0
     else \<exists>n. selected_node tm = Some n \<and> tn_addr n = tm_flat tm ! nat (tm_cursor tm)) \<and>
    (\<forall>start stop. visible_range tm = (start, stop) \<longrightarrow> 0 \<le> start \<and> stop \<le> int (length (tm_flat tm)) \<and>
       stop - start = min (int (length (tm_flat tm))) (visible_count tm)) \<and>
    (\<forall>key. tree_view_key key tm = tm \<or> on_screen (tree_view_key key tm)) \<and>
    (\<forall>ks issues. build_tree ks issues tm \<noteq> None) \<and>
    (\<forall>ks sn. snapshot_ok sn \<longrightarrow> (\<exists>tm'. build_from_snapshot ks sn tm = Some tm' \<and>
       (sn_tree_roots sn \<noteq> [] \<and> selected_id tm \<noteq> [] \<and> (\<exists>a \<in> set (tm_flat tm'). shows_id tm' (selected_id tm) a) \<longrightarrow>
          selected_id tm' = selected_id tm)))"
proof -
  have ok: "view_ok tm" by (rule reachable_ok[OF assms])
  have "\<exists>n. selected_node tm = Some n \<and> tn_addr n = tm_flat tm ! nat (tm_cursor tm)" if "tm_flat tm \<noteq> []"
    using selected_exists[OF ok that] selected_row[OF ok] by metis
  moreover have "tm_cursor tm = 0" if "tm_flat tm = []" using ok that by (simp add: view_ok_def)
  moreover have "tree_view_key key tm = tm \<or> on_screen (tree_view_key key tm)" for key
    using effective_ok[OF ok keys_effective[OF ok]] by blast
  moreover have "build_tree ks issues tm \<noteq> None" for ks issues using build_ok[of ks issues tm] by auto
  moreover have "\<exists>tm'. build_from_snapshot ks sn tm = Some tm' \<and>
       (sn_tree_roots sn \<noteq> [] \<and> selected_id tm \<noteq> [] \<and> (\<exists>a \<in> set (tm_flat tm'). shows_id tm' (selected_id tm) a) \<longrightarrow>
          selected_id tm' = selected_id tm)" if sn: "snapshot_ok sn" for ks sn
    using build_from_snapshot_ok[OF sn ok, of ks] snapshot_keeps_selection[OF sn, of ks tm] by blast
  ultimately show ?thesis using view_okD(3,4)[OF ok] visible_range_bounds[of tm] by simp
qed

definition demo_view :: tree_model where
  "demo_view = tree_view_key ''j'' (the (build_tree [] demo_family (set_size 80 1 (new_tree_model None True))))"

lemma demo_view_reachable: "tree_reachable demo_view"
proof -
  have "tree_reachable (set_size 80 1 (new_tree_model None True))" by (intro tree_reachable.intros)
  moreover obtain tm' where tm': "build_tree [] demo_family (set_size 80 1 (new_tree_model None True)) = Some tm'"
    using build_ok by blast
  ultimately have "tree_reachable tm'" by (rule tree_reachable.issues)
  then show ?thesis unfolding demo_view_def tm' option.sel by (rule tree_reachable.key)
qed

theorem tree_view_invariant_witness:
  "tm_flat demo_view = [0, 1, 2] \<and> tm_cursor demo_view = 1 \<and> visible_range demo_view = (1, 2) \<and> distinct (tm_flat demo_view)"
proof -
  have "tm_flat demo_view = [0, 1, 2]" "tm_cursor demo_view = 1" "visible_range demo_view = (1, 2)" by code_simp+
  then show ?thesis using tree_view_invariant[OF demo_view_reachable] by simp
qed

end
