(* ===== verification/Bv_Tree_Navigation.thy ===== *)
theory Bv_Tree_Navigation
  imports Bv_Tree_View_Props
begin

text \<open>
  Moving in the tree view: what expanding, collapsing and jumping do to the rows and the selection, so that
  the keys are inverse to each other.
\<close>

section \<open>Writing one node\<close>

lemma tree_nodes_set_expanded: "tree_nodes (set_expanded a b t) = map (set_expanded a b) (tree_nodes t)"
  by (induction t) (simp add: forest_nodes_def map_concat comp_def cong: map_cong)

lemma forest_nodes_set_expanded:
  "forest_nodes (map (set_expanded a b) ts) = map (set_expanded a b) (forest_nodes ts)"
  by (simp add: forest_nodes_def map_concat comp_def tree_nodes_set_expanded)

lemma set_expanded_fields [simp]:
  "tn_addr (set_expanded a b t) = tn_addr t" "tn_issue (set_expanded a b t) = tn_issue t"
  "tn_depth (set_expanded a b t) = tn_depth t" "tn_parent (set_expanded a b t) = tn_parent t"
  "tn_expanded (set_expanded a b t) = (if tn_addr t = a then b else tn_expanded t)"
  "tn_children (set_expanded a b t) = map (set_expanded a b) (tn_children t)"
  by (cases t; simp)+

lemma set_expanded_twice: "set_expanded a c (set_expanded a b t) = set_expanded a c t"
  by (induction t) (simp add: comp_def cong: map_cong)

lemma set_expanded_same:
  "(\<And>n. n \<in> set (tree_nodes t) \<Longrightarrow> tn_addr n = a \<Longrightarrow> tn_expanded n = e) \<Longrightarrow> set_expanded a e t = t"
proof (induction t)
  case (TreeNode a' i d p e' cs)
  have "set_expanded a e c = c" if "c \<in> set cs" for c
    using TreeNode.prems that by (intro TreeNode.IH) (auto simp: forest_nodes_def)
  moreover have "a' = a \<Longrightarrow> e' = e" using TreeNode.prems[of "TreeNode a' i d p e' cs"] by simp
  ultimately show ?case by (simp add: map_idI)
qed

lemma roots_set_expanded_back:
  assumes "distinct (map tn_addr (forest_nodes roots))" "n \<in> set (forest_nodes roots)"
  shows "map (set_expanded (tn_addr n) (tn_expanded n)) (map (set_expanded (tn_addr n) b) roots) = roots"
proof -
  have "set_expanded (tn_addr n) (tn_expanded n) t = t" if "t \<in> set roots" for t
  proof (rule set_expanded_same)
    fix m assume "m \<in> set (tree_nodes t)" "tn_addr m = tn_addr n"
    then have "m \<in> set (forest_nodes roots)" using that by (auto simp: forest_nodes_def)
    then have "m = n" using assms \<open>tn_addr m = tn_addr n\<close> by (simp add: distinct_map inj_on_def)
    then show "tn_expanded m = tn_expanded n" by simp
  qed
  then show ?thesis by (simp add: set_expanded_twice map_idI)
qed

section \<open>The rows up to the written node stay\<close>

lemma visible_hidden: "a \<notin> set (visible t) \<Longrightarrow> visible (set_expanded a b t) = visible t"
  by (induction t) (simp add: comp_def cong: map_cong)

lemma rows_hidden: "a \<notin> set (visible_rows ts) \<Longrightarrow> visible_rows (map (set_expanded a b) ts) = visible_rows ts"
  by (induction ts) (simp_all add: visible_hidden)

lemma rows_prefix_step:
  assumes "\<And>t. t \<in> set ts \<Longrightarrow> a \<in> set (visible t) \<Longrightarrow>
      \<exists>xs ys zs. visible t = xs @ a # ys \<and> visible (set_expanded a b t) = xs @ a # zs"
    and "a \<in> set (visible_rows ts)"
  shows "\<exists>xs ys zs. visible_rows ts = xs @ a # ys \<and> visible_rows (map (set_expanded a b) ts) = xs @ a # zs"
  using assms
proof (induction ts)
  case (Cons t ts)
  show ?case
  proof (cases "a \<in> set (visible t)")
    case True
    then obtain xs ys zs where "visible t = xs @ a # ys" "visible (set_expanded a b t) = xs @ a # zs"
      using Cons.prems(1)[of t] by auto
    then show ?thesis by - (rule exI[of _ xs], simp)
  next
    case False
    then obtain xs ys zs where "visible_rows ts = xs @ a # ys" "visible_rows (map (set_expanded a b) ts) = xs @ a # zs"
      using Cons by auto
    then show ?thesis using visible_hidden[OF False, of b] by - (rule exI[of _ "visible t @ xs"], simp)
  qed
qed simp

lemma visible_prefix:
  "a \<in> set (visible t) \<Longrightarrow> \<exists>xs ys zs. visible t = xs @ a # ys \<and> visible (set_expanded a b t) = xs @ a # zs"
proof (induction t)
  case (TreeNode a' i d p e cs)
  show ?case
  proof (cases "a' = a")
    case True
    then show ?thesis
      by (intro exI[of _ "[]"] exI[of _ "if e then concat (map visible cs) else []"]
        exI[of _ "if b then concat (map visible (map (set_expanded a b) cs)) else []"]) simp
  next
    case False
    then have e: "e" "a \<in> set (visible_rows cs)" using TreeNode.prems by (auto simp: visible_rows_def split: if_splits)
    obtain xs ys zs where "visible_rows cs = xs @ a # ys" "visible_rows (map (set_expanded a b) cs) = xs @ a # zs"
      using rows_prefix_step[OF TreeNode.IH e(2)] by blast
    then show ?thesis using False e(1) by - (rule exI[of _ "a' # xs"], simp add: visible_rows_def comp_def)
  qed
qed

lemma rows_prefix:
  "a \<in> set (visible_rows ts) \<Longrightarrow>
     \<exists>xs ys zs. visible_rows ts = xs @ a # ys \<and> visible_rows (map (set_expanded a b) ts) = xs @ a # zs"
  by (rule rows_prefix_step[OF visible_prefix])

section \<open>Expanding and collapsing the selected node\<close>

text \<open>What \<open>put_expanded\<close> of the selected node and \<open>after_expand\<close> do together.\<close>

lemma put_selected:
  fixes tm n b
  assumes ok: "view_ok tm" and n: "selected_node tm = Some n"
  defines "tm' \<equiv> after_expand (put_expanded (tn_addr n) b tm)"
  shows "tm_roots tm' = map (set_expanded (tn_addr n) b) (tm_roots tm)" "tm_cursor tm' = tm_cursor tm"
    "view_ok tm'" "selected_node tm' = Some (set_expanded (tn_addr n) b n)"
proof -
  have row: "n \<in> set (forest_nodes (tm_roots tm))" "tm_flat tm \<noteq> []" "tm_flat tm ! nat (tm_cursor tm) = tn_addr n"
    using selected_row[OF ok] n by blast+
  have c: "0 \<le> tm_cursor tm" "tm_cursor tm < int (length (tm_flat tm))" using view_okD(5)[OF ok row(2)] by simp_all
  then have "tn_addr n \<in> set (visible_rows (tm_roots tm))"
    using row(3) view_okD(3)[OF ok] nth_mem[of "nat (tm_cursor tm)" "tm_flat tm"] by auto
  then obtain xs ys zs where r: "visible_rows (tm_roots tm) = xs @ tn_addr n # ys"
    "visible_rows (map (set_expanded (tn_addr n) b) (tm_roots tm)) = xs @ tn_addr n # zs"
    using rows_prefix by blast
  have "nat (tm_cursor tm) = length xs"
  proof (rule nth_eq_iff_index_eq[OF view_okD(4)[OF ok], THEN iffD1])
    show "nat (tm_cursor tm) < length (tm_flat tm)" "length xs < length (tm_flat tm)"
      using c r(1) view_okD(3)[OF ok] by simp_all
    show "tm_flat tm ! nat (tm_cursor tm) = tm_flat tm ! length xs" using row(3) r(1) view_okD(3)[OF ok] by simp
  qed
  then have cur: "tm_cursor tm = int (length xs)" using c(1) by simp
  show roots: "tm_roots tm' = map (set_expanded (tn_addr n) b) (tm_roots tm)"
    by (simp add: tm'_def after_expand_def put_expanded_def)
  have flat: "tm_flat tm' = xs @ tn_addr n # zs" by (simp add: tm'_def after_expand_def put_expanded_def r(2))
  show cur': "tm_cursor tm' = tm_cursor tm"
    by (simp add: tm'_def after_expand_def)
      (simp add: rebuild_flat_list_def fold_append_visible put_expanded_def r(2) cur Let_def)
  have "shape_ok (tm_roots (put_expanded (tn_addr n) b tm))" using view_okD(1)[OF ok] by (simp add: put_expanded_def)
  from after_expand_ok[OF this] show ok': "view_ok tm'" by (auto simp: tm'_def)
  show "selected_node tm' = Some (set_expanded (tn_addr n) b n)"
    unfolding selected_row[OF ok'] using row(1) by (simp add: roots flat cur' cur forest_nodes_set_expanded)
qed

section \<open>Jumping\<close>

lemma jump_to_row:
  assumes ok: "view_ok tm" and a: "a \<in> set (tm_flat tm)"
  shows "\<exists>i. tm_flat tm ! i = a \<and> i < length (tm_flat tm) \<and> tm_cursor (jump_to a tm) = int i \<and>
    tm_roots (jump_to a tm) = tm_roots tm \<and> tm_flat (jump_to a tm) = tm_flat tm \<and> view_ok (jump_to a tm)"
proof -
  obtain i where i: "find_index (\<lambda>b. b = a) (tm_flat tm) = Some i"
    using a find_index_exists[of "\<lambda>b. b = a" "tm_flat tm"] by auto
  then show ?thesis using find_index_Some[OF i] view_ok_cursor[OF ok] by (auto simp: jump_to_def)
qed

lemma jump_to_selects:
  assumes ok: "view_ok tm" and n: "n \<in> set (forest_nodes (tm_roots tm))" "tn_addr n \<in> set (tm_flat tm)"
  shows "selected_node (jump_to (tn_addr n) tm) = Some n"
proof -
  obtain i where "tm_flat tm ! i = tn_addr n" "tm_cursor (jump_to (tn_addr n) tm) = int i"
    "tm_roots (jump_to (tn_addr n) tm) = tm_roots tm" "tm_flat (jump_to (tn_addr n) tm) = tm_flat tm"
    "view_ok (jump_to (tn_addr n) tm)" using jump_to_row[OF ok n(2)] by blast
  then show ?thesis using n by (auto simp: selected_row)
qed

text \<open>The children of an expanded row are rows, and the parent of a row is one.\<close>

lemma visible_child:
  "n \<in> set (visible_nodes t) \<Longrightarrow> tn_expanded n \<Longrightarrow> c \<in> set (tn_children n) \<Longrightarrow> c \<in> set (visible_nodes t)"
proof (induction t)
  case (TreeNode a i d p e cs)
  show ?case
  proof (cases "n = TreeNode a i d p e cs")
    case True
    moreover have "c \<in> set (visible_nodes c)" by (cases c) simp
    ultimately show ?thesis using TreeNode.prems by auto
  next
    case False
    then show ?thesis using TreeNode by (auto split: if_splits)
  qed
qed

lemma child_parent:
  "linked q t \<Longrightarrow> n \<in> set (tree_nodes t) \<Longrightarrow> c \<in> set (tn_children n) \<Longrightarrow> tn_parent c = Some (tn_addr n)"
proof (induction t arbitrary: q)
  case (TreeNode a i d p e cs)
  show ?case
  proof (cases "n = TreeNode a i d p e cs")
    case True
    then have "linked (Some a) c" using TreeNode.prems by simp
    then show ?thesis using True by (cases c) simp
  next
    case False
    then obtain c' where "c' \<in> set cs" "n \<in> set (tree_nodes c')" using TreeNode.prems(2) by (auto simp: forest_nodes_def)
    then show ?thesis using TreeNode.IH[of c' "Some a"] TreeNode.prems by simp
  qed
qed

lemma selected_child_row:
  assumes ok: "view_ok tm" and n: "selected_node tm = Some n" "tn_expanded n" "c \<in> set (tn_children n)"
  shows "c \<in> set (forest_nodes (tm_roots tm))" "tn_addr c \<in> set (tm_flat tm)" "tn_parent c = Some (tn_addr n)"
proof -
  have "tm_flat tm \<noteq> []" using selected_row[OF ok] n(1) by blast
  then obtain t where t: "t \<in> set (tm_roots tm)" "n \<in> set (visible_nodes t)" using selected_exists[OF ok] n(1) by auto
  have v: "c \<in> set (visible_nodes t)" using visible_child[OF t(2) n(2,3)] .
  then show "c \<in> set (forest_nodes (tm_roots tm))" using visible_nodes_subset t(1) by (fastforce simp: forest_nodes_def)
  show "tn_addr c \<in> set (tm_flat tm)" using v t(1) view_okD(3)[OF ok] by (auto simp: visible_rows_nodes)
  have "linked None t" using view_okD(1)[OF ok] t(1) by (simp add: shape_ok_def)
  then show "tn_parent c = Some (tn_addr n)" using child_parent n(3) t(2) visible_nodes_subset by blast
qed

section \<open>There and back\<close>

definition same_view :: "tree_model \<Rightarrow> tree_model \<Rightarrow> bool" where
  "same_view tm tm' \<longleftrightarrow> tm_roots tm' = tm_roots tm \<and> tm_flat tm' = tm_flat tm \<and> tm_cursor tm' = tm_cursor tm"

lemma put_back:
  assumes ok: "view_ok tm" and n: "selected_node tm = Some n"
  shows "same_view tm (after_expand (put_expanded (tn_addr n) (tn_expanded n) (after_expand (put_expanded (tn_addr n) b tm))))"
proof -
  note p = put_selected[OF ok n, of b]
  note q = put_selected[OF p(3,4), of "tn_expanded n", simplified]
  have n': "n \<in> set (forest_nodes (tm_roots tm))" using selected_row[OF ok] n by blast
  have roots: "map (set_expanded (tn_addr n) (tn_expanded n)) (map (set_expanded (tn_addr n) b) (tm_roots tm)) = tm_roots tm"
    by (rule roots_set_expanded_back[OF view_okD(2)[OF ok] n'])
  show ?thesis
    unfolding same_view_def view_okD(3)[OF ok] view_okD(3)[OF q(3)] q(1,2) p(1,2) roots by simp
qed

lemma keys_eq:
  "tree_view_key ''l'' tm = expand_or_move_to_child tm" "tree_view_key ''h'' tm = collapse_or_jump_to_parent tm"
  "tree_view_key ''enter'' tm = toggle_expand tm"
  by (simp_all add: tree_view_key_def handle_tree_keys_def)

text \<open>C28: Going into the selected node and out again leads back, in every reachable state: toggling twice
  restores rows and selection; on a collapsed node, right expands it and left collapses it again; on
  an expanded one, right selects its first child, and from there left returns, unless the child is itself
  expanded over children of its own, which left closes first.\<close>

theorem tree_navigation_roundtrip:
  assumes "tree_reachable tm" and n: "selected_node tm = Some n" and children: "tn_children n \<noteq> []"
  shows "same_view tm (tree_view_key ''enter'' (tree_view_key ''enter'' tm)) \<and>
    selected_node (tree_view_key ''enter'' tm) = Some (set_expanded (tn_addr n) (\<not> tn_expanded n) n) \<and>
    (\<not> tn_expanded n \<longrightarrow> same_view tm (tree_view_key ''h'' (tree_view_key ''l'' tm)) \<and>
       selected_node (tree_view_key ''l'' tm) = Some (set_expanded (tn_addr n) True n)) \<and>
    (tn_expanded n \<longrightarrow> selected_node (tree_view_key ''l'' tm) = Some (tn_children n ! 0) \<and>
       (tn_children (tn_children n ! 0) = [] \<or> \<not> tn_expanded (tn_children n ! 0) \<longrightarrow>
          same_view tm (tree_view_key ''h'' (tree_view_key ''l'' tm))))"
proof -
  have ok: "view_ok tm" by (rule reachable_ok[OF assms(1)])
  have toggle: "toggle_expand tm = after_expand (put_expanded (tn_addr n) (\<not> tn_expanded n) tm)"
    using n children by (simp add: toggle_expand_def)
  note p = put_selected[OF ok n]
  have "same_view tm (toggle_expand (toggle_expand tm))"
    using put_back[OF ok n, of "\<not> tn_expanded n"] p(4)[of "\<not> tn_expanded n"] children
    unfolding toggle by (simp add: toggle_expand_def)
  moreover have "same_view tm (collapse_or_jump_to_parent (expand_or_move_to_child tm)) \<and>
      selected_node (expand_or_move_to_child tm) = Some (set_expanded (tn_addr n) True n)" if "\<not> tn_expanded n"
    using put_back[OF ok n, of True] p(4)[of True] n children that
    by (simp add: expand_or_move_to_child_def collapse_or_jump_to_parent_def)
  moreover have "selected_node (expand_or_move_to_child tm) = Some (tn_children n ! 0) \<and>
      (tn_children (tn_children n ! 0) = [] \<or> \<not> tn_expanded (tn_children n ! 0) \<longrightarrow>
        same_view tm (collapse_or_jump_to_parent (expand_or_move_to_child tm)))" if e: "tn_expanded n"
  proof -
    define c where "c = tn_children n ! 0"
    have "c \<in> set (tn_children n)" using children by (simp add: c_def)
    note c = selected_child_row[OF ok n e this]
    have right: "expand_or_move_to_child tm = jump_to (tn_addr c) tm"
      using n children e by (simp add: expand_or_move_to_child_def c_def)
    have sel: "selected_node (jump_to (tn_addr c) tm) = Some c" by (rule jump_to_selects[OF ok c(1,2)])
    obtain i where j: "tm_roots (jump_to (tn_addr c) tm) = tm_roots tm" "tm_flat (jump_to (tn_addr c) tm) = tm_flat tm"
      "view_ok (jump_to (tn_addr c) tm)" using jump_to_row[OF ok c(2)] by blast
    have row: "tm_flat tm \<noteq> []" "tm_flat tm ! nat (tm_cursor tm) = tn_addr n" using selected_row[OF ok] n by blast+
    have cur: "0 \<le> tm_cursor tm" "tm_cursor tm < int (length (tm_flat tm))" using view_okD(5)[OF ok row(1)] by simp_all
    have "tn_addr n \<in> set (tm_flat (jump_to (tn_addr c) tm))"
      using row(2) cur nth_mem[of "nat (tm_cursor tm)" "tm_flat tm"] by (simp add: j(2))
    from jump_to_row[OF j(3) this] obtain k where k: "tm_flat tm ! k = tn_addr n" "k < length (tm_flat tm)"
      "tm_cursor (jump_to (tn_addr n) (jump_to (tn_addr c) tm)) = int k"
      "tm_roots (jump_to (tn_addr n) (jump_to (tn_addr c) tm)) = tm_roots tm"
      "tm_flat (jump_to (tn_addr n) (jump_to (tn_addr c) tm)) = tm_flat tm" unfolding j(1,2) by blast
    have "k = nat (tm_cursor tm)"
      using nth_eq_iff_index_eq[OF view_okD(4)[OF ok] k(2), of "nat (tm_cursor tm)"] k(1) row(2) cur by simp
    then have "same_view tm (jump_to (tn_addr n) (jump_to (tn_addr c) tm))" using k cur by (simp add: same_view_def)
    then show ?thesis
      using sel c(3) unfolding right c_def[symmetric] by (auto simp: collapse_or_jump_to_parent_def jump_to_parent_def)
  qed
  ultimately show ?thesis using p(4)[of "\<not> tn_expanded n"] unfolding keys_eq toggle by simp
qed

theorem tree_navigation_roundtrip_witness:
  "same_view demo_view (tree_view_key ''h'' (tree_view_key ''l'' demo_view)) \<and>
   selected_id (tree_view_key ''l'' demo_view) = ''c'' \<and>
   same_view demo_view (tree_view_key ''enter'' (tree_view_key ''enter'' demo_view))"
proof -
  have eval: "map_option (\<lambda>n. (length (tn_children n), tn_expanded n, length (tn_children (tn_children n ! 0)),
      node_id (tn_children n ! 0))) (selected_node demo_view) = Some (1, True, 0, ''c'')" by code_simp
  then obtain n where n: "selected_node demo_view = Some n" "length (tn_children n) = 1" "tn_expanded n"
    "length (tn_children (tn_children n ! 0)) = 0" "node_id (tn_children n ! 0) = ''c''" by auto
  then have "tn_children n \<noteq> []" by auto
  from tree_navigation_roundtrip[OF demo_view_reachable n(1) this] n show ?thesis by (simp add: selected_id_def)
qed

section \<open>A selection off the screen\<close>

text \<open>Changing the size does not move the window, and neither does building the tree again, which selects the first
  row: the selection may then be outside the range that is drawn until a key moves it.\<close>

lemma resize_hides_selection:
  "let tm = the (build_tree [] demo_family (set_size 80 3 (new_tree_model None True))) in
   on_screen (tree_view_key ''G'' tm) \<and> \<not> on_screen (set_size 80 2 (tree_view_key ''G'' tm))"
  by code_simp

lemma build_hides_selection: "on_screen demo_view \<and> \<not> on_screen (the (build_tree [] demo_family demo_view))"
  by code_simp

end
