(* ===== verification/Bv_Tree_Persist.thy ===== *)
theory Bv_Tree_Persist
  imports Bv_Tree_View_Props
begin

text \<open>
  The expand state of the tree view across sessions: in a hierarchy, starting again with the file that a
  session wrote shows the tree as it was left. Examples show where it does not.
\<close>

section \<open>Expand flags by id\<close>

text \<open>In a hierarchy the flags of a tree can be given by id and depth.\<close>

fun reflag :: "(string \<Rightarrow> nat \<Rightarrow> bool) \<Rightarrow> tree_node \<Rightarrow> tree_node" where
  "reflag g (TreeNode a i d p e cs) = TreeNode a i d p (g (issue_id i) d) (map (reflag g) cs)"

lemma reflag_fields [simp]:
  "tn_addr (reflag g t) = tn_addr t" "node_id (reflag g t) = node_id t" "tn_depth (reflag g t) = tn_depth t"
  "tn_expanded (reflag g t) = g (node_id t) (tn_depth t)"
  by (cases t; simp add: node_id_def)+

lemma tree_nodes_reflag: "tree_nodes (reflag g t) = map (reflag g) (tree_nodes t)"
  by (induction t) (simp add: forest_nodes_def map_concat comp_def cong: map_cong)

lemma forest_nodes_reflag: "forest_nodes (map (reflag g) ts) = map (reflag g) (forest_nodes ts)"
  by (simp add: forest_nodes_def map_concat comp_def tree_nodes_reflag)

lemma reflag_cong:
  "(\<And>n. n \<in> set (tree_nodes t) \<Longrightarrow> g (node_id n) (tn_depth n) = h (node_id n) (tn_depth n)) \<Longrightarrow> reflag g t = reflag h t"
proof (induction t)
  case (TreeNode a i d p e cs)
  have "reflag g c = reflag h c" if "c \<in> set cs" for c
    using TreeNode.prems that by (intro TreeNode.IH) (auto simp: forest_nodes_def)
  moreover have "g (issue_id i) d = h (issue_id i) d" using TreeNode.prems[of "TreeNode a i d p e cs"] by (simp add: node_id_def)
  ultimately show ?case by simp
qed

lemma reflag_forest_cong:
  "(\<And>n. n \<in> set (forest_nodes ts) \<Longrightarrow> g (node_id n) (tn_depth n) = h (node_id n) (tn_depth n)) \<Longrightarrow>
     map (reflag g) ts = map (reflag h) ts"
  by (auto simp: forest_nodes_def intro!: reflag_cong)

lemma reflag_same:
  "(\<And>n. n \<in> set (tree_nodes t) \<Longrightarrow> tn_expanded n = g (node_id n) (tn_depth n)) \<Longrightarrow> reflag g t = t"
proof (induction t)
  case (TreeNode a i d p e cs)
  have "reflag g c = c" if "c \<in> set cs" for c
    using TreeNode.prems that by (intro TreeNode.IH) (auto simp: forest_nodes_def)
  moreover have "g (issue_id i) d = e" using TreeNode.prems[of "TreeNode a i d p e cs"] by (simp add: node_id_def)
  ultimately show ?case by (simp add: map_idI)
qed

lemma set_expanded_reflag:
  "(\<And>n. n \<in> set (tree_nodes t) \<Longrightarrow> tn_addr n = a \<longleftrightarrow> node_id n = k) \<Longrightarrow>
     set_expanded a b (reflag g t) = reflag (g(k := \<lambda>_. b)) t"
proof (induction t)
  case (TreeNode a' i d p e cs)
  have "set_expanded a b (reflag g c) = reflag (g(k := \<lambda>_. b)) c" if "c \<in> set cs" for c
    using TreeNode.prems that by (intro TreeNode.IH) (auto simp: forest_nodes_def)
  moreover have "a' = a \<longleftrightarrow> issue_id i = k" using TreeNode.prems[of "TreeNode a' i d p e cs"] by (simp add: node_id_def)
  ultimately show ?case by (simp add: fun_upd_def)
qed

lemma set_expanded_rec_reflag: "set_expanded_rec b (reflag g t) = reflag (\<lambda>_ _. b) t"
  by (induction t) simp

section \<open>The tree of a hierarchy\<close>

text \<open>What is needed of the built tree: ids and addresses name the nodes, and the flags are the defaults.\<close>

definition named_tree :: "tree_node list \<Rightarrow> (string, nat) gomap \<Rightarrow> bool" where
  "named_tree roots m \<longleftrightarrow> distinct (map tn_addr (forest_nodes roots)) \<and> distinct (map node_id (forest_nodes roots)) \<and>
     (\<forall>n \<in> set (forest_nodes roots). mget m (node_id n) = Some (tn_addr n) \<and> tn_expanded n = (tn_depth n < 2)) \<and>
     (\<forall>k a. mget m k = Some a \<longrightarrow> (\<exists>n \<in> set (forest_nodes roots). node_id n = k \<and> tn_addr n = a))"

lemma built_default:
  assumes h: "hierarchical issues"
  shows "built (child_issues issues) V d p t \<Longrightarrow> tn_issue t \<in> set issues \<Longrightarrow>
     (\<And>v. v \<in> V \<Longrightarrow> (child_edge issues)\<^sup>+\<^sup>+ v (node_id t)) \<Longrightarrow>
     \<forall>n \<in> set (tree_nodes t). tn_expanded n = (tn_depth n < 2)"
proof (induction t arbitrary: V d p)
  case (TreeNode a i d' p' e cs)
  let ?x = "issue_id i"
  have "\<not> (child_edge issues)\<^sup>+\<^sup>+ ?x ?x" using h by (simp add: hierarchical_def acyclic_def tranclp_unfold)
  then have "?x \<notin> V" using TreeNode.prems(3)[of ?x] by (auto simp: node_id_def)
  then have ms: "mset (map tn_issue cs) = mset (child_issues issues ?x)" and e: "e = (d' < 2)"
    and kids: "\<forall>c \<in> set cs. built (child_issues issues) (insert ?x V) (d + 1) (Some a) c"
    using TreeNode.prems(1) by auto
  have "\<forall>n \<in> set (tree_nodes c). tn_expanded n = (tn_depth n < 2)" if c: "c \<in> set cs" for c
  proof (rule TreeNode.IH[OF c])
    have "tn_issue c \<in> set (child_issues issues ?x)" using mset_eq_setD[OF ms] c by auto
    then have edge: "child_edge issues ?x (node_id c)" and "tn_issue c \<in> set issues" using TreeNode.prems(2)
      by (auto simp: set_child_issues child_edge_def valid_parents_def node_id_def)
    then show "tn_issue c \<in> set issues" by simp
    show "built (child_issues issues) (insert ?x V) (d + 1) (Some a) c" using kids c by blast
    show "(child_edge issues)\<^sup>+\<^sup>+ v (node_id c)" if "v \<in> insert ?x V" for v
      using that edge TreeNode.prems(3)[of v] by (auto simp: node_id_def)
  qed
  then show ?case using e by (auto simp: forest_nodes_def)
qed

lemma hierarchy_named:
  assumes h: "hierarchical issues" and b: "build_issue_tree_nodes issues = Some (roots, m)"
  shows "named_tree roots m"
proof (cases "issues = []")
  case True
  then show ?thesis using b by (simp add: build_issue_tree_nodes_def named_tree_def)
next
  case False
  obtain ts st extra where t: "build_issue_tree_nodes issues = Some (sort_nodes ts, bs_issue_map st)" "forest_ok issues ts st"
    "map tn_issue ts = filter (\<lambda>i. valid_parents issues i = {}) issues @ extra"
    "\<forall>i \<in> set extra. (child_edge issues)\<^sup>+\<^sup>+ (issue_id i) (issue_id i)"
    "set (mkeys (bs_issue_map st)) = issue_id ` set issues"
    using build_issue_tree_nodes_correct[OF False] by blast
  have "\<not> (child_edge issues)\<^sup>+\<^sup>+ x x" for x using h by (simp add: hierarchical_def acyclic_def tranclp_unfold)
  then have "extra = []" using t(4) by (cases extra) auto
  then have roots: "map tn_issue ts = filter (\<lambda>i. valid_parents issues i = {}) issues" using t(3) by simp
  have ms: "mset (forest_nodes (sort_nodes ts)) = mset (forest_nodes ts)" by (rule mset_forest_nodes) simp
  have set: "set (forest_nodes (sort_nodes ts)) = set (forest_nodes ts)" by (rule mset_eq_setD[OF ms])
  have "mset (map tn_addr (forest_nodes (sort_nodes ts))) = mset (map tn_addr (forest_nodes ts))"
    "mset (map node_id (forest_nodes (sort_nodes ts))) = mset (map node_id (forest_nodes ts))" using ms by simp_all
  note dist = this[THEN mset_eq_imp_distinct_iff]
  have da: "distinct (map tn_addr (forest_nodes ts))" using t(2) by (simp add: forest_ok_def)
  have di: "distinct (map node_id (forest_nodes ts))" by (rule forest_hierarchy(1)[OF h t(2) roots t(5)])
  have src: "\<exists>n \<in> set (forest_nodes ts). node_id n = k \<and> tn_addr n = a" if "mget (bs_issue_map st) k = Some a" for k a
    using t(2) that unfolding forest_ok_def node_id_def by blast
  have "mget (bs_issue_map st) (node_id n) = Some (tn_addr n)" if n: "n \<in> set (forest_nodes ts)" for n
  proof -
    have "tn_issue n \<in> set (map tn_issue (forest_nodes ts))" using n by simp
    then have "tn_issue n \<in> set issues" using mset_eq_setD[OF forest_hierarchy(2)[OF h t(2) roots t(5)]] by simp
    then obtain a where a: "mget (bs_issue_map st) (node_id n) = Some a" using t(5) unfolding node_id_def by (metis image_eqI mkeys_ex)
    then obtain n' where n': "n' \<in> set (forest_nodes ts)" "node_id n' = node_id n" "tn_addr n' = a" using src by blast
    then have "n' = n" using di n by (simp add: distinct_map inj_on_def)
    then show ?thesis using a n'(3) by simp
  qed
  moreover have "tn_expanded n = (tn_depth n < 2)" if "n \<in> set (forest_nodes ts)" for n
  proof -
    obtain u where u: "u \<in> set ts" "n \<in> set (tree_nodes u)" using \<open>n \<in> set (forest_nodes ts)\<close> by (auto simp: forest_nodes_def)
    have "tn_issue u \<in> set (map tn_issue ts)" using u(1) by simp
    then have "tn_issue u \<in> set issues" unfolding roots by simp
    moreover have "built (child_issues issues) {} 0 None u" using t(2) u(1) by (simp add: forest_ok_def)
    ultimately show ?thesis using built_default[OF h, of "{}" 0 None u] u(2) by simp
  qed
  moreover have "roots = sort_nodes ts" "m = bs_issue_map st" using b t(1) by simp_all
  ultimately show ?thesis unfolding named_tree_def using dist da di src by (auto simp: set)
qed

section \<open>Saving and loading\<close>

text \<open>The flag that a stored state gives an id at a depth.\<close>

definition stored_flag :: "tree_state option \<Rightarrow> string \<Rightarrow> nat \<Rightarrow> bool" where
  "stored_flag disk k d =
     (case disk of None \<Rightarrow> d < 2
      | Some s \<Rightarrow> if ts_version s \<noteq> tree_state_version then d < 2
          else (case mget (ts_expanded s) k of None \<Rightarrow> d < 2 | Some e \<Rightarrow> e))"

text \<open>A node of the id whose flag is not the default.\<close>

definition deviates :: "string \<Rightarrow> tree_node \<Rightarrow> bool" where
  "deviates k n \<longleftrightarrow> node_id n = k \<and> tn_expanded n \<noteq> (tn_depth n < 2)"

lemma deviates_node [simp]: "deviates k (TreeNode a i d p e cs) \<longleftrightarrow> issue_id i = k \<and> e \<noteq> (d < 2)"
  by (simp add: deviates_def node_id_def)

lemma find_append: "find P (xs @ ys) = (case find P xs of None \<Rightarrow> find P ys | Some x \<Rightarrow> Some x)"
  by (induction xs) auto

lemma find_in: "find P xs = Some x \<Longrightarrow> x \<in> set xs \<and> P x"
  by (induction xs) (auto split: if_splits)

lemma fold_record_step:
  assumes "\<And>t m. t \<in> set ts \<Longrightarrow> mget (record_expanded t m) k =
      (case find (deviates k) (rev (tree_nodes t)) of None \<Rightarrow> mget m k | Some n \<Rightarrow> Some (tn_expanded n))"
  shows "mget (fold record_expanded ts m) k =
    (case find (deviates k) (rev (forest_nodes ts)) of None \<Rightarrow> mget m k | Some n \<Rightarrow> Some (tn_expanded n))"
  using assms
proof (induction ts arbitrary: m)
  case (Cons t ts)
  then show ?case by (simp add: find_append split: option.split)
qed simp

lemma record_expanded_get:
  "mget (record_expanded t m) k =
    (case find (deviates k) (rev (tree_nodes t)) of None \<Rightarrow> mget m k | Some n \<Rightarrow> Some (tn_expanded n))"
proof (induction t arbitrary: m)
  case (TreeNode a i d p e cs)
  show ?case
    using fold_record_step[of cs k, OF TreeNode.IH]
    by (auto simp: find_append split: option.split)
qed

lemmas fold_record_get = fold_record_step[OF record_expanded_get]

text \<open>What is saved from a tree gives back its flags.\<close>

lemma saved_flags:
  assumes named: "named_tree roots m" and n: "n \<in> set (forest_nodes roots)"
    and s: "s = default_tree_state\<lparr>ts_expanded := fold record_expanded (map (reflag g) roots) []\<rparr>"
  shows "stored_flag (Some s) (node_id n) (tn_depth n) = g (node_id n) (tn_depth n)"
proof -
  have only: "x = reflag g n" if "x \<in> set (forest_nodes (map (reflag g) roots))" "node_id x = node_id n" for x
    using that n named by (auto simp: forest_nodes_reflag named_tree_def distinct_map inj_on_def)
  have mem: "reflag g n \<in> set (forest_nodes (map (reflag g) roots))" using n by (simp add: forest_nodes_reflag)
  show ?thesis
  proof (cases "find (deviates (node_id n)) (rev (forest_nodes (map (reflag g) roots)))")
    case None
    then have "\<not> deviates (node_id n) (reflag g n)" using mem by (auto simp: find_None_iff)
    then show ?thesis using None by (simp add: s stored_flag_def default_tree_state_def fold_record_get deviates_def)
  next
    case (Some x)
    then have "x = reflag g n" using find_in[OF Some] only by (simp add: deviates_def)
    then show ?thesis using Some by (simp add: s stored_flag_def default_tree_state_def fold_record_get)
  qed
qed

lemma apply_entries:
  assumes named: "named_tree roots m"
  shows "tm_issue_map tm = m \<Longrightarrow> tm_roots tm = map (reflag g) roots \<Longrightarrow>
    tm_roots (fold (apply_entry s) ks tm) =
      map (reflag (\<lambda>k d. if k \<in> set ks \<and> k \<in> set (mkeys m) then mget_or False (ts_expanded s) k else g k d)) roots"
proof (induction ks arbitrary: tm g)
  case (Cons k ks)
  let ?e = "mget_or False (ts_expanded s) k"
  show ?case
  proof (cases "mget m k")
    case None
    then have "apply_entry s k tm = tm" using Cons.prems by (simp add: apply_entry_def)
    moreover have "k \<notin> set (mkeys m)" using None by (simp add: mget_None_iff)
    ultimately have "tm_roots (fold (apply_entry s) (k # ks) tm) =
        map (reflag (\<lambda>k d. if k \<in> set ks \<and> k \<in> set (mkeys m) then mget_or False (ts_expanded s) k else g k d)) roots"
      using Cons.IH[OF Cons.prems] by simp
    also have "\<dots> = map (reflag (\<lambda>k' d. if k' \<in> set (k # ks) \<and> k' \<in> set (mkeys m) then mget_or False (ts_expanded s) k' else g k' d)) roots"
      using \<open>k \<notin> set (mkeys m)\<close> by (intro reflag_forest_cong) auto
    finally show ?thesis .
  next
    case (Some a)
    then obtain n where n: "n \<in> set (forest_nodes roots)" "node_id n = k" "tn_addr n = a"
      using named unfolding named_tree_def by blast
    have "tn_addr x = a \<longleftrightarrow> node_id x = k" if "x \<in> set (forest_nodes roots)" for x
      using that n named by (auto simp: named_tree_def distinct_map inj_on_def)
    then have "set_expanded a ?e (reflag g t) = reflag (g(k := \<lambda>_. ?e)) t" if "t \<in> set roots" for t
      using that by (intro set_expanded_reflag) (auto simp: forest_nodes_def)
    then have "tm_roots (apply_entry s k tm) = map (reflag (g(k := \<lambda>_. ?e))) roots" "tm_issue_map (apply_entry s k tm) = m"
      using Cons.prems Some by (simp_all add: apply_entry_def)
    note Cons.IH[OF this(2,1)]
    also have "map (reflag (\<lambda>k' d. if k' \<in> set ks \<and> k' \<in> set (mkeys m) then mget_or False (ts_expanded s) k' else (g(k := \<lambda>_. ?e)) k' d)) roots =
        map (reflag (\<lambda>k' d. if k' \<in> set (k # ks) \<and> k' \<in> set (mkeys m) then mget_or False (ts_expanded s) k' else g k' d)) roots"
      using Some by (intro reflag_forest_cong) auto
    finally show ?thesis by simp
  qed
qed simp

lemma load_flags:
  assumes named: "named_tree roots m" and map: "tm_issue_map tm = m" "tm_roots tm = roots"
    and order: "\<And>s. tm_disk tm = Some s \<Longrightarrow> range_order (ts_expanded s) ks"
  shows "tm_roots (load_state ks tm) = map (reflag (stored_flag (tm_disk tm))) roots"
proof -
  have "reflag (\<lambda>k d. d < 2) t = t" if "t \<in> set roots" for t
    using named that by (intro reflag_same) (auto simp: named_tree_def forest_nodes_def)
  then have default: "map (reflag (\<lambda>k d. d < 2)) roots = roots" by (simp add: map_idI)
  have keys: "node_id n \<in> set (mkeys m)" if "n \<in> set (forest_nodes roots)" for n
    using named that by (auto simp: named_tree_def)
  show ?thesis
  proof (cases "tm_disk tm")
    case None
    then show ?thesis using default by (simp add: load_state_def map stored_flag_def[abs_def])
  next
    case (Some s)
    show ?thesis
    proof (cases "ts_version s = tree_state_version")
      case False
      then show ?thesis using Some default by (simp add: load_state_def map stored_flag_def[abs_def])
    next
      case True
      have "tm_roots (apply_state ks s tm) = tm_roots (fold (apply_entry s) ks tm)"
        using order[OF Some] by (auto simp: apply_state_def range_order_def)
      also have "\<dots> = map (reflag (\<lambda>k d. if k \<in> set ks \<and> k \<in> set (mkeys m) then mget_or False (ts_expanded s) k else d < 2)) roots"
        using apply_entries[OF named map(1), of "\<lambda>k d. d < 2" s ks] default map(2) by simp
      also have "\<dots> = map (reflag (stored_flag (Some s))) roots"
        using range_order_set[OF order[OF Some]] keys True
        by (intro reflag_forest_cong) (auto simp: stored_flag_def mget_or_def split: option.split)
      finally show ?thesis using Some True by (simp add: load_state_def)
    qed
  qed
qed

section \<open>Sessions\<close>

text \<open>A session shows one list of issues, starting with what an earlier one left in the file.\<close>

inductive session :: "issue list \<Rightarrow> tree_model \<Rightarrow> bool" for issues where
  open_tree: "build_tree ks issues (new_tree_model disk True) = Some tm \<Longrightarrow>
    (\<And>s. disk = Some s \<Longrightarrow> range_order (ts_expanded s) ks) \<Longrightarrow> session issues tm"
| press: "session issues tm \<Longrightarrow> session issues (tree_view_key k tm)"
| resize: "session issues tm \<Longrightarrow> session issues (set_size w h tm)"

definition in_sync :: "tree_node list \<Rightarrow> tree_model \<Rightarrow> bool" where
  "in_sync roots tm \<longleftrightarrow> tm_writable tm \<and> view_ok tm \<and> tm_roots tm = map (reflag (stored_flag (tm_disk tm))) roots"

lemma saved_in_sync:
  assumes named: "named_tree roots m" and w: "tm_writable tm" and g: "tm_roots tm = map (reflag g) roots" and ok: "shape_ok (tm_roots tm)"
  shows "in_sync roots (after_expand tm)"
proof -
  have disk: "tm_disk (after_expand tm) = Some (default_tree_state\<lparr>ts_expanded := fold record_expanded (map (reflag g) roots) []\<rparr>)"
    using w g by (simp add: after_expand_def save_state_def)
  have "tm_roots (after_expand tm) = map (reflag g) roots" by (simp add: after_expand_def g)
  also have "\<dots> = map (reflag (stored_flag (tm_disk (after_expand tm)))) roots"
    unfolding disk by (intro reflag_forest_cong) (simp add: saved_flags[OF named _ refl])
  finally have "tm_roots (after_expand tm) = map (reflag (stored_flag (tm_disk (after_expand tm)))) roots" .
  moreover have "tm_writable (after_expand tm)" using w by (simp add: after_expand_def)
  moreover have "view_ok (after_expand tm)" using after_expand_ok[OF ok] by auto
  ultimately show ?thesis by (simp add: in_sync_def)
qed

lemma put_in_sync:
  assumes named: "named_tree roots m" and sync: "in_sync roots tm" and n: "selected_node tm = Some n"
  shows "in_sync roots (after_expand (put_expanded (tn_addr n) b tm))"
proof -
  let ?g = "stored_flag (tm_disk tm)"
  have ok: "view_ok tm" and roots: "tm_roots tm = map (reflag ?g) roots" and w: "tm_writable tm" using sync by (simp_all add: in_sync_def)
  have "n \<in> set (forest_nodes (tm_roots tm))" using selected_row[OF ok] n by blast
  then obtain n0 where n0: "n0 \<in> set (forest_nodes roots)" "tn_addr n = tn_addr n0" by (auto simp: roots forest_nodes_reflag)
  have "tn_addr x = tn_addr n \<longleftrightarrow> node_id x = node_id n0" if "x \<in> set (forest_nodes roots)" for x
    using that n0 named by (auto simp: named_tree_def distinct_map inj_on_def)
  then have "set_expanded (tn_addr n) b (reflag ?g t) = reflag (?g(node_id n0 := \<lambda>_. b)) t" if "t \<in> set roots" for t
    using that by (intro set_expanded_reflag) (auto simp: forest_nodes_def)
  then have "tm_roots (put_expanded (tn_addr n) b tm) = map (reflag (?g(node_id n0 := \<lambda>_. b))) roots"
    by (simp add: put_expanded_def roots)
  moreover have "shape_ok (tm_roots (put_expanded (tn_addr n) b tm))" using view_okD(1)[OF ok] by (simp add: put_expanded_def)
  moreover have "tm_writable (put_expanded (tn_addr n) b tm)" using w by (simp add: put_expanded_def)
  ultimately show ?thesis by (intro saved_in_sync[OF named])
qed

lemma all_in_sync:
  assumes named: "named_tree roots m" and sync: "in_sync roots tm"
  shows "in_sync roots (after_expand (tm\<lparr>tm_roots := map (set_expanded_rec b) (tm_roots tm)\<rparr>))"
proof (rule saved_in_sync[OF named])
  have "view_ok tm" "tm_writable tm" "tm_roots tm = map (reflag (stored_flag (tm_disk tm))) roots"
    using sync by (simp_all add: in_sync_def)
  then show "tm_writable (tm\<lparr>tm_roots := map (set_expanded_rec b) (tm_roots tm)\<rparr>)"
    "tm_roots (tm\<lparr>tm_roots := map (set_expanded_rec b) (tm_roots tm)\<rparr>) = map (reflag (\<lambda>_ _. b)) roots"
    by (simp_all add: set_expanded_rec_reflag comp_def)
  show "shape_ok (tm_roots (tm\<lparr>tm_roots := map (set_expanded_rec b) (tm_roots tm)\<rparr>))"
    using view_okD(1)[OF \<open>view_ok tm\<close>] by simp
qed

lemma view_ok_set_cursor:
  "view_ok (tm\<lparr>tm_cursor := c\<rparr>) \<longleftrightarrow> shape_ok (tm_roots tm) \<and> tm_flat tm = visible_rows (tm_roots tm) \<and> 0 \<le> c \<and>
     (if tm_flat tm = [] then c = 0 else c < int (length (tm_flat tm)))"
  by (simp add: view_ok_def)

lemma set_size_fields [simp]:
  "tm_roots (set_size w h tm) = tm_roots tm" "tm_disk (set_size w h tm) = tm_disk tm"
  "tm_writable (set_size w h tm) = tm_writable tm"
  by (simp_all add: set_size_def)

lemma move_in_sync: "in_sync roots tm \<Longrightarrow> view_ok (tm\<lparr>tm_cursor := c\<rparr>) \<Longrightarrow>
    in_sync roots (ensure_cursor_visible (tm\<lparr>tm_cursor := c\<rparr>))"
  by (simp add: in_sync_def)

lemma jump_in_sync: "in_sync roots tm \<Longrightarrow> in_sync roots (jump_to a tm)"
  using view_ok_cursor[of tm] by (auto simp: jump_to_def in_sync_def dest!: find_index_Some split: option.split)

lemma keys_in_sync:
  assumes named: "named_tree roots m" and sync: "in_sync roots tm"
  shows "in_sync roots (tree_view_key key tm)"
proof -
  have ok: "view_ok tm" using sync by (simp add: in_sync_def)
  have cursor: "view_ok (tm\<lparr>tm_cursor := c\<rparr>)" if "0 \<le> c" "if tm_flat tm = [] then c = 0 else c < int (length (tm_flat tm))" for c
    unfolding view_ok_set_cursor using view_okD(1,3)[OF ok] that by blast
  have parent: "in_sync roots (jump_to_parent tm)"
    using jump_in_sync[OF sync] sync by (simp add: jump_to_parent_def split: option.split)
  have "in_sync roots (move_down tm)" "in_sync roots (move_up tm)" "in_sync roots (jump_to_bottom tm)"
    using ok sync by (auto simp: move_down_def move_up_def jump_to_bottom_def view_ok_def intro!: move_in_sync cursor)
  moreover have "in_sync roots (jump_to_top tm)" "in_sync roots (page_down tm)" "in_sync roots (page_up tm)"
    using ok sync by (auto simp: jump_to_top_def page_down_def page_up_def page_size_def Let_def view_ok_def intro!: move_in_sync cursor)
  moreover have "in_sync roots (expand_all tm)" "in_sync roots (collapse_all tm)"
    using all_in_sync[OF named sync] by (simp_all add: expand_all_def collapse_all_def)
  moreover have "in_sync roots (toggle_expand tm)" "in_sync roots (expand_or_move_to_child tm)"
    "in_sync roots (collapse_or_jump_to_parent tm)"
    using put_in_sync[OF named sync] parent jump_in_sync[OF sync] sync
    by (simp_all add: toggle_expand_def expand_or_move_to_child_def collapse_or_jump_to_parent_def split: option.split)
  ultimately show ?thesis using sync by (simp add: tree_view_key_def handle_tree_keys_def)
qed

lemma build_flags:
  assumes h: "hierarchical issues" and b: "build_issue_tree_nodes issues = Some (roots, m)"
    and order: "\<And>s. disk = Some s \<Longrightarrow> range_order (ts_expanded s) ks"
  shows "\<exists>tm. build_tree ks issues (new_tree_model disk w) = Some tm \<and> tm_writable tm = w \<and> tm_disk tm = disk \<and> view_ok tm \<and>
    tm_roots tm = map (reflag (stored_flag disk)) roots"
proof (cases "issues = []")
  case True
  then show ?thesis using b by (simp add: build_tree_def build_issue_tree_nodes_def new_tree_model_def view_ok_def shape_ok_def)
next
  case False
  let ?tm = "new_tree_model disk w\<lparr>tm_roots := roots, tm_flat := [], tm_cursor := 0, tm_issue_map := m\<rparr>"
  have disk: "tm_disk (load_state ks tm) = tm_disk tm \<and> tm_writable (load_state ks tm) = tm_writable tm" for tm
  proof -
    have "tm_disk (fold (apply_entry s) ks u) = tm_disk u \<and> tm_writable (fold (apply_entry s) ks u) = tm_writable u" for s u
      by (induction ks arbitrary: u) (auto simp: apply_entry_def split: option.split)
    then show ?thesis by (simp add: load_state_def apply_state_def split: option.split)
  qed
  have "tm_roots (load_state ks ?tm) = map (reflag (stored_flag (tm_disk ?tm))) roots"
    using order by (intro load_flags[OF hierarchy_named[OF h b]]) (simp_all add: new_tree_model_def)
  moreover obtain tm where tm: "build_tree ks issues (new_tree_model disk w) = Some tm" "view_ok tm" using build_ok by blast
  moreover have "tm = (rebuild_flat_list (load_state ks ?tm))\<lparr>tm_built := True\<rparr>"
    using tm(1) False b by (simp add: build_tree_def new_tree_model_def)
  ultimately show ?thesis using disk[of ?tm] by (simp add: new_tree_model_def)
qed

lemma session_in_sync:
  assumes h: "hierarchical issues" and b: "build_issue_tree_nodes issues = Some (roots, m)"
  shows "session issues tm \<Longrightarrow> in_sync roots tm"
proof (induction rule: session.induct)
  case (open_tree ks disk tm)
  then show ?case using build_flags[OF h b, of disk ks True] by (auto simp: in_sync_def)
next
  case (press tm k)
  then show ?case by (intro keys_in_sync[OF hierarchy_named[OF h b]])
next
  case (resize tm w' h')
  then show ?case by (simp add: in_sync_def)
qed

text \<open>C33: In a tracker whose issues have unique ids, one parent each and no cycles of parents, the tree comes back
  as it was left: after any session, starting again with the file it wrote builds the same tree with
  the same expand state and shows the same rows, whatever the order in which the file's map is visited.\<close>

theorem tree_state_roundtrip:
  assumes "hierarchical issues" and "session issues tm"
    and "\<And>s. tm_disk tm = Some s \<Longrightarrow> range_order (ts_expanded s) ks"
  shows "\<exists>tm'. build_tree ks issues (new_tree_model (tm_disk tm) w) = Some tm' \<and>
    tm_roots tm' = tm_roots tm \<and> tm_flat tm' = tm_flat tm"
proof -
  obtain roots m where b: "build_issue_tree_nodes issues = Some (roots, m)"
    using build_issue_tree_nodes_correct[of issues] by (cases "issues = []") (auto simp: build_issue_tree_nodes_def)
  have s: "in_sync roots tm" by (rule session_in_sync[OF assms(1) b assms(2)])
  obtain tm' where t: "build_tree ks issues (new_tree_model (tm_disk tm) w) = Some tm'" "view_ok tm'"
    "tm_roots tm' = map (reflag (stored_flag (tm_disk tm))) roots"
    using build_flags[OF assms(1) b assms(3)] by blast
  then show ?thesis using s view_okD(3)[of tm] view_okD(3)[of tm'] by (auto simp: in_sync_def)
qed

definition closed_view :: tree_model where
  "closed_view = tree_view_key ''enter'' (tree_view_key ''j'' (the (build_tree [] demo_family (new_tree_model None True))))"

lemma closed_view_session: "session demo_family closed_view"
proof -
  obtain tm where tm: "build_tree [] demo_family (new_tree_model None True) = Some tm" using build_ok by blast
  then have "session demo_family tm" by (rule session.open_tree) simp
  then show ?thesis unfolding closed_view_def tm option.sel by (intro session.press)
qed

theorem tree_state_roundtrip_witness:
  "tm_flat closed_view = [0, 1] \<and>
   (\<exists>tm'. build_tree [''b''] demo_family (new_tree_model (tm_disk closed_view) True) = Some tm' \<and> tm_flat tm' = [0, 1])"
proof -
  have flat: "tm_flat closed_view = [0, 1]" by code_simp
  have "map_option ts_expanded (tm_disk closed_view) = Some [(''b'', False)]" by code_simp
  then have "range_order (ts_expanded s) [''b'']" if "tm_disk closed_view = Some s" for s
    using that by (simp add: range_order_def mkeys_def)
  from tree_state_roundtrip[OF demo_hierarchical closed_view_session this] flat show ?thesis by auto
qed

section \<open>Outside hierarchies\<close>

text \<open>The state is stored by id, but the lookup knows only the last node of an id. An issue with two parents that
  is collapsed under the first is collapsed under the second one after a restart.\<close>

definition two_parents :: "issue list" where
  "two_parents = [demo_child ''x'' [''a'', ''b''], demo_child ''y'' [''x''], demo_child ''a'' [], demo_child ''b'' []]"

lemma second_parent_restored:
  "let tm = tree_view_key ''enter'' (tree_view_key ''j'' (the (build_tree [] two_parents (new_tree_model None True))));
       tm' = the (build_tree [''x''] two_parents (new_tree_model (tm_disk tm) True)) in
   (tm_flat tm, tm_flat tm') = ([0, 1, 3, 4, 5], [0, 1, 2, 3, 4])"
  by code_simp

text \<open>An issue that is its own parent is repeated below itself as a collapsed leaf. Saving records the leaf's flag
  under the id, so the issue itself is collapsed after a restart, though nobody collapsed it.\<close>

definition own_parent :: "issue list" where
  "own_parent = [demo_child ''s'' [''s''], demo_child ''t'' [''s''], demo_child ''u'' [''t'']]"

lemma own_parent_collapses:
  "let tm = tree_view_key ''enter'' (tree_view_key ''G''
         (tree_view_key ''enter'' (tree_view_key ''j'' (tree_view_key ''j'' (the (build_tree [] own_parent (new_tree_model None True)))))));
       tm' = the (build_tree [''s''] own_parent (new_tree_model (tm_disk tm) True)) in
   (map_option ts_expanded (tm_disk tm), length (tm_flat tm') < length (tm_flat tm)) = (Some [(''s'', False)], True)"
  by code_simp

end
