(* ===== verification/Spec2Isabelle.thy ===== *)
theory Spec2Isabelle
  imports Bv_Shell Bv_Core_Articulation Bv_Blocker_Chain Bv_Cycles Bv_Release_Props Bv_Workspace_Props Bv_Topk Bv_Diff_Props Bv_Cycle_Keys Bv_Instance_Lock Bv_Recipe_Props Bv_Index_Sync Bv_Search Bv_Debouncer Bv_Cycle_Warnings
    Bv_Tree_Navigation Bv_Tree_Persist
begin

text \<open>
  Verification development of beads_viewer (\<open>bv\<close>), a viewer and planner for the issue tracker beads. The
  theories translate the decision-making core of the Go program into executable HOL definitions and
  prove what the core promises. Paths below are relative to \<open>src/\<close>.

  \<^bold>\<open>The program.\<close> A tracker is a list of issues with typed dependencies (\<open>pkg/model\<close>). Several trackers can
  be merged into a workspace whose ids carry repository prefixes (\<open>pkg/workspace\<close>). From the issues the
  readiness index decides which work may be started (\<open>pkg/model/readiness.go\<close>), and the analyzer builds a
  graph of blocking edges (\<open>pkg/analysis/graph.go\<close>) on which it computes metrics, cycles, blocker chains,
  triage facts and execution plans. Recipes select and sort issues for a view (\<open>pkg/recipe\<close>), snapshots are
  compared over time (\<open>pkg/analysis/diff.go\<close>), tracker commands are suggested as shell text
  (\<open>pkg/model/types.go\<close>), and a new dependency is checked for cycles first
  (\<open>pkg/analysis/cycle_warnings.go\<close>). A semantic index of the issues is stored in a file, synchronised in
  the background and searched (\<open>pkg/search\<close>), changes of the tracker's files are reloaded through a
  debouncer (\<open>pkg/watcher\<close>), the parent-child tree of the issues is browsed in the terminal
  interface (\<open>pkg/ui/tree.go\<close>), one process at a time is the first instance on a repository (\<open>pkg/instance\<close>),
  and the program updates itself from its releases (\<open>pkg/updater\<close>).

  \<^bold>\<open>Representation.\<close> \<open>Go_Base\<close> fixes how Go values are represented: strings are byte strings, a map is an
  association list with unique keys whose visiting order is always an argument, \<open>time.Time\<close> is an \<open>int\<close> of
  nanoseconds, \<open>sort.Slice\<close> is \<open>sort_by\<close> under the locale \<open>less_contract\<close>, which every \<open>less\<close> closure of the
  code interprets. Structs are records, error returns are sums or options, loops that may not end are
  partial functions whose ending is proved. Go integers are \<open>int\<close> or \<open>nat\<close>; widths are written out where
  the code depends on them.

  \<^bold>\<open>Theories and code.\<close>
  \<^item> \<open>Bv_Model\<close>, \<open>Bv_Shell\<close>: \<open>pkg/model/types.go\<close>. Issues, dependencies, sprints and their validation;
    \<open>shell_quote\<close>, \<open>command\<close>, \<open>mutation_action\<close>, \<open>make_actions\<close>. The shell rendering of a command splits back
    into its arguments (C1); mutations stay in one writable tracker (C2).
  \<^item> \<open>Bv_Readiness\<close>, \<open>Bv_Readiness_Spec\<close>, \<open>Bv_Readiness_Compute\<close>, \<open>Bv_Readiness_Props\<close>:
    \<open>pkg/model/readiness.go\<close>. The work-list computation against a declarative state of every id, the what-if
    query against rebuilding the index, monotonicity, blockers and claimability (C4 to C8).
  \<^item> \<open>Bv_Compact_Graph\<close>, \<open>Bv_Analyzer\<close>, \<open>Bv_Analyzer_Props\<close>: the adjacency-list graph and its iterators,
    \<open>NewAnalyzer\<close> and the queries of \<open>graph.go\<close> (C10, C14).
  \<^item> \<open>Bv_Undirected\<close>, \<open>Bv_Kcore\<close>, \<open>Bv_Articulation\<close>, \<open>Bv_Core_Articulation\<close>: the undirected view of that
    graph, with the locale \<open>undirected_view\<close> for what it promises, and on it the core decomposition and
    the articulation points of \<open>graph.go\<close> (C12, C13).
  \<^item> \<open>Bv_Triage_Context\<close>, \<open>Bv_Triage_Props\<close>: \<open>pkg/analysis/triage_context.go\<close>, the cached blocker depths and
    the map of unblocked issues (C15, C16).
  \<^item> \<open>Bv_Plan\<close>, \<open>Bv_Plan_Props\<close>: \<open>pkg/analysis/plan.go\<close>, union-find components, tracks and the summary
    (C17, C21; \<open>plan_summary_best\<close>).
  \<^item> \<open>Bv_Metrics\<close>, \<open>Bv_Metrics_Props\<close>: degrees, ranks, heights and slack of \<open>graph.go\<close>
    (C24; \<open>heights_are_longest_chains\<close>).
  \<^item> \<open>Bv_Cycles\<close>, \<open>Bv_Blocker_Chain\<close>: \<open>graph_cycles.go\<close> and \<open>GetBlockerChain\<close>; both walks are proved to end
    (C25, C26).
  \<^item> \<open>Bv_Cycle_Warnings\<close>: \<open>pkg/analysis/cycle_warnings.go\<close>, the search before a dependency is added, which is
    exact (C29), and the warnings for reported cycles.
  \<^item> \<open>Bv_Version\<close>, \<open>Bv_Version_Props\<close>, \<open>Bv_Release\<close>, \<open>Bv_Release_Props\<close>: \<open>pkg/updater/updater.go\<close>, versions and
    their precedence, the gate for releases and assets, checksum manifests (C27, C30; \<open>newer_version_fails_closed\<close>).
  \<^item> \<open>Bv_Workspace\<close>, \<open>Bv_Workspace_Props\<close>: \<open>pkg/workspace\<close>, configuration, selection of repositories,
    qualified ids, namespacing and merge (C32, C34, C35; \<open>selected_repos_unique\<close>).
  \<^item> \<open>Bv_Topk\<close>: \<open>pkg/util/topk\<close> on the heap of Go's \<open>container/heap\<close>, with the locale \<open>heap_contract\<close> (C36).
  \<^item> \<open>Bv_Vector_Index\<close>: \<open>pkg/search/vector_index.go\<close>, the index with its operations and its file format byte
    for byte: what is saved loads again (C18), and nothing else does (C20).
  \<^item> \<open>Bv_Index_Sync\<close>: \<open>pkg/search/index_sync.go\<close> and \<open>documents.go\<close>. A synchronisation sees the index \<open>x\<close> at
    its first lock and \<open>now\<close> at its last, which differ when other goroutines changed it in between; it is
    all or nothing (C22), and its result survives a restart (C3).
  \<^item> \<open>Bv_Search\<close>: the queries of the index on the collector of \<open>Bv_Topk\<close> (C9).
  \<^item> \<open>Bv_Debouncer\<close>: \<open>pkg/watcher/debouncer.go\<close> with the timers of the Go runtime as interleaving steps. The
    check of a timer's function under the lock and the call of its callback after it are two steps. The
    debouncer refines a machine with one pending callback (C11), and in fair runs the last callback runs
    (C31); \<open>callback_overtaken\<close> and \<open>callback_after_cancel\<close> show what the window between the steps allows.
  \<^item> \<open>Bv_Tree\<close>, \<open>Bv_Tree_Props\<close>: \<open>buildIssueTreeNodes\<close> of \<open>pkg/ui/tree.go\<close>. A node has the number of its creation
    as address, which stands for Go's pointers to it and to its parent; what is built is right also when
    parents form cycles (C19).
  \<^item> \<open>Bv_Tree_View\<close>, \<open>Bv_Tree_View_Props\<close>, \<open>Bv_Tree_Navigation\<close>, \<open>Bv_Tree_Persist\<close>: \<open>TreeModel\<close> of the same file with
    \<open>handleTreeKeys\<close> of \<open>pkg/ui/model.go\<close>. The rows, the selection and the window keep their invariant in every
    run (C23), going in and out of a node leads back (C28), and the saved expand state restores the tree
    (C33); lemmas show where an issue with two parents or a cycle is not restored as it was.
  \<^item> \<open>Bv_Diff\<close>, \<open>Bv_Diff_Props\<close>, \<open>Bv_Cycle_Keys\<close>: \<open>pkg/analysis/diff.go\<close> (C37, C38).
  \<^item> \<open>Bv_Instance_Lock\<close>: \<open>pkg/instance/lock.go\<close> as actions of interleaving processes; careful runs keep mutual
    exclusion (C39); \<open>overlapping_takeovers\<close> and \<open>age_check_takes_live_lock\<close> are runs that break it.
  \<^item> \<open>Bv_Recipe\<close>, \<open>Bv_Recipe_Props\<close>: \<open>pkg/recipe\<close>, with the locale \<open>compare_contract\<close> for three-way
    comparisons (C40).

  \<^bold>\<open>Fuel.\<close> \<open>compute_depth\<close> recurses over open blockers with fuel \<open>depth_fuel\<close>, the number of issues of the
  readiness index plus one, since the visiting list repeats no issue; \<open>chain_dfs\<close> uses \<open>chain_fuel\<close>, the
  number of issues plus two; \<open>art_dfs\<close> uses the number of nodes; \<open>cycle_dfs\<close> the number of issues with
  dependencies plus one; \<open>build_node\<close> and \<open>climb\<close> the number of issues plus one. C13, C15, C19, C26 and C29
  include that the fuel suffices. \<open>find_root\<close> and \<open>dfs_loop\<close>
  have no fuel: C17 and C25 include that they return.

  \<^bold>\<open>Parameters.\<close> gonum's \<open>topo.Sort\<close> and \<open>topo.TarjanSCC\<close> (their results are arguments with the documented
  contract as hypothesis), \<open>net/url.Parse\<close>, the location-dependent part of Go's \<open>time\<close>, the canonical form
  of paths, the contents of repositories, the order of map visits, the hash of a document, the embedder and
  the context of a synchronisation, the float64 operations of a score.

  \<^bold>\<open>Not modelled.\<close> The terminal interface (\<open>pkg/ui\<close>) but for its tree view, the command line (\<open>cmd/bv\<close>), exports and web assets
  (\<open>pkg/export\<close>) render what the core computes. \<open>pkg/loader\<close>, \<open>internal/datasource\<close>, the watcher itself,
  \<open>pkg/hooks\<close>, \<open>pkg/agents\<close>, \<open>pkg/cass\<close> are file, process and database access; \<open>pkg/correlation\<close> mines the
  output of git. PageRank, betweenness, eigenvector, HITS, embeddings, hybrid search scores, label health,
  risk, priority and triage scores are floating-point computations. Memory, goroutines (but for the
  instance lock, the synchronisation of the index and the debouncer) and JSON encoding are outside the
  model, and so are the lower-case forms of letters whose lower case is not ASCII.
\<close>

end
